(* ===== verification/Prelude.thy ===== *)
theory Prelude
  imports Main "HOL-Library.Word" "HOL-Library.Monad_Syntax"
begin

text \<open>
  Shared vocabulary of the clmalloc development.

  \<^item> Machine types: \<open>u8\<close>, \<open>u16\<close>, \<open>u32\<close>, \<open>u64\<close> are words, so their arithmetic wraps as it does
    in a release build. Addresses (\<open>usize\<close> values used as pointers) are natural numbers; the
    invariants of the components bound them by \<open>2 ^ 64\<close>. The null pointer is address 0.
  \<^item> The operations of the Rust standard library that the allocator uses on integers
    (\<open>next_multiple_of\<close>, \<open>div_ceil\<close>, \<open>leading_zeros\<close>).
  \<^item> Byte-addressed memory with 8-byte little-endian links, as the unaligned pointer reads and
    writes of the intrusive free lists see it, and null-terminated chains of such links.
  \<^item> A computation that may fail to return (a panic, a null dereference, or a pointer loop that
    never ends) has type \<open>'a option\<close>; \<open>None\<close> means that it does not return normally.
\<close>

subsection \<open>Machine types\<close>

type_synonym u8 = "8 word"
type_synonym u16 = "16 word"
type_synonym u32 = "32 word"
type_synonym u64 = "64 word"
type_synonym addr = nat

abbreviation (input) null :: addr where
  "null \<equiv> 0"

named_theorems geom_simps \<open>constants and geometry of the allocator\<close>
named_theorems chain_intros \<open>frame rules of null-terminated chains\<close>

subsection \<open>Integer operations of the Rust standard library\<close>

definition next_multiple_of :: "nat \<Rightarrow> nat \<Rightarrow> nat" where
  "next_multiple_of n k = (let r = n mod k in if r = 0 then n else n + (k - r))"

definition div_ceil :: "nat \<Rightarrow> nat \<Rightarrow> nat" where
  "div_ceil a b = (let q = a div b; r = a mod b in if r > 0 then q + 1 else q)"

fun bit_length :: "nat \<Rightarrow> nat" where
  "bit_length n = (if n = 0 then 0 else Suc (bit_length (n div 2)))"

declare bit_length.simps [simp del]

definition leading_zeros :: "nat \<Rightarrow> nat" where
  "leading_zeros n = 64 - bit_length n"

lemma next_multiple_of_ge: "n \<le> next_multiple_of n k"
  by (simp add: next_multiple_of_def Let_def)

lemma next_multiple_of_dvd: "0 < k \<Longrightarrow> k dvd next_multiple_of n k"
proof (cases "n mod k = 0")
  case True
  then show ?thesis by (simp add: next_multiple_of_def dvd_eq_mod_eq_0)
next
  case False
  assume k: "0 < k"
  have "n + (k - n mod k) = k * (n div k) + k"
    using mod_less_divisor [OF k, of n] by (simp add: minus_mod_eq_mult_div [symmetric])
  then show ?thesis using False by (simp add: next_multiple_of_def Let_def)
qed

lemma next_multiple_of_less: "0 < k \<Longrightarrow> next_multiple_of n k < n + k"
  by (auto simp: next_multiple_of_def Let_def)

lemma next_multiple_of_least:
  assumes "0 < k" "k dvd m" "n \<le> m"
  shows "next_multiple_of n k \<le> m"
proof (rule ccontr)
  assume "\<not> ?thesis"
  then have lt: "m < next_multiple_of n k" by simp
  have "k dvd next_multiple_of n k - m"
    using assms next_multiple_of_dvd [of k n] by (intro dvd_diff_nat) auto
  then have "k \<le> next_multiple_of n k - m" using lt by (intro dvd_imp_le) auto
  then show False using next_multiple_of_less [OF assms(1), of n] assms(3) lt by linarith
qed

lemma next_multiple_of_id: "k dvd n \<Longrightarrow> next_multiple_of n k = n"
  by (auto simp: next_multiple_of_def dvd_eq_mod_eq_0)

lemma next_multiple_of_1 [simp]: "next_multiple_of n (Suc 0) = n"
  by (simp add: next_multiple_of_def)

lemma div_ceil_le:
  assumes "0 < b"
  shows "a \<le> div_ceil a b * b"
proof -
  have "a = a div b * b + a mod b" by simp
  moreover have "a mod b < b" using assms by simp
  ultimately have "a \<le> b + a div b * b" by linarith
  then show ?thesis by (auto simp: div_ceil_def Let_def)
qed

lemma div_ceil_less:
  assumes "0 < b" "0 < a"
  shows "0 < div_ceil a b \<and> (div_ceil a b - 1) * b < a"
proof (cases "a mod b = 0")
  case True
  then have eq: "a div b * b = a" by auto
  moreover from this assms have "0 < a div b" by (metis gr0I mult_0)
  ultimately show ?thesis using True assms
    by (simp add: div_ceil_def Let_def diff_mult_distrib)
next
  case False
  have "a div b * b + a mod b = a" by simp
  then have "a div b * b < a" using False by linarith
  then show ?thesis using False by (simp add: div_ceil_def Let_def)
qed

lemma bit_length_bounds: "0 < n \<Longrightarrow> 2 ^ (bit_length n - 1) \<le> n \<and> n < 2 ^ bit_length n \<and> 0 < bit_length n"
proof (induction n rule: bit_length.induct)
  case (1 n)
  show ?case
  proof (cases "n div 2 = 0")
    case True
    then have "n = 1" using "1.prems" by auto
    then show ?thesis by (simp add: bit_length.simps)
  next
    case False
    let ?h = "n div 2"
    have ih: "2 ^ (bit_length ?h - 1) \<le> ?h" "?h < 2 ^ bit_length ?h" "0 < bit_length ?h"
      using "1.IH" "1.prems" False by auto
    have eq: "bit_length n = Suc (bit_length ?h)"
      using "1.prems" by (subst bit_length.simps) simp
    have "(2::nat) ^ bit_length ?h = 2 * 2 ^ (bit_length ?h - 1)"
      using ih(3) by (cases "bit_length ?h") auto
    with ih have "2 ^ bit_length ?h \<le> n" "n < 2 * 2 ^ bit_length ?h"
      by linarith+
    then show ?thesis by (simp add: eq)
  qed
qed

lemma bit_length_eqI:
  assumes "2 ^ k \<le> n" "n < 2 ^ Suc k"
  shows "bit_length n = Suc k"
proof -
  have "0 < n" using assms(1) by (metis gr0I le_zero_eq power_not_zero zero_neq_numeral)
  note b = bit_length_bounds [OF this]
  have "(2::nat) ^ k < 2 ^ bit_length n" using assms(1) b by linarith
  moreover have "(2::nat) ^ (bit_length n - 1) < 2 ^ Suc k" using assms(2) b by linarith
  ultimately have "k < bit_length n" "bit_length n - 1 < Suc k"
    by (auto simp only: power_strict_increasing_iff [of "2::nat"])
  then show ?thesis using b by linarith
qed

subsection \<open>Partitions\<close>

lemma partition_rest:
  assumes "W = A \<union> B" "A \<inter> B = {}" "L \<union> R \<union> U = A" "L \<inter> R = {}" "U \<inter> (L \<union> R) = {}"
  shows "L \<union> B = W - (R \<union> U)"
  using assms by blast

end
