(* ===== verification/Size_Class.thy ===== *)
theory Size_Class
  imports Prelude
begin

text \<open>
  Size classes (\<open>src/src/size_class.rs\<close>): the constants, the bit-arithmetic class index, the
  compile-time lookup table built from it, the table lookup \<open>class_index\<close> used by allocation and
  deallocation, and \<open>class_size\<close>.

  The lemmas show that the table lookup computes the smallest class that fits (for every layout,
  not only the tested ones), that it agrees with the bit-arithmetic reference, that class sizes
  grow strictly, waste at most a quarter, and respect the requested alignment.
\<close>

subsection \<open>Constants\<close>

definition MIN_SIZE :: nat where [geom_simps]: "MIN_SIZE = 8"
definition SUB_STEPS :: nat where [geom_simps]: "SUB_STEPS = 4"
definition MIN_K :: nat where [geom_simps]: "MIN_K = 3"
definition MAX_K :: nat where [geom_simps]: "MAX_K = 14"
definition NUM_GROUPS :: nat where "NUM_GROUPS = MAX_K - MIN_K + 1"
definition NUM_REGULAR :: nat where "NUM_REGULAR = NUM_GROUPS * SUB_STEPS"
definition MAX_SLAB_SIZE :: nat where [geom_simps]: "MAX_SLAB_SIZE = 32768"
definition NUM_CLASSES :: nat where "NUM_CLASSES = NUM_REGULAR + 1"

lemma NUM_REGULAR_val [geom_simps]: "NUM_REGULAR = 48"
  by (simp add: NUM_REGULAR_def NUM_GROUPS_def geom_simps)

lemma NUM_CLASSES_val [geom_simps]: "NUM_CLASSES = 49"
  by (simp add: NUM_CLASSES_def geom_simps)

text \<open>\<open>core::alloc::Layout\<close>: a size and a power-of-two alignment.\<close>

record layout =
  lsize :: nat
  lalign :: nat

definition layout_ok :: "layout \<Rightarrow> bool" where
  "layout_ok l \<longleftrightarrow> (\<exists>a < 64. lalign l = 2 ^ a) \<and> next_multiple_of (lsize l) (lalign l) < 2 ^ 63"

subsection \<open>Operations\<close>

text \<open>The assertion of \<open>class_index_from_size\<close> is the \<open>None\<close> branch.\<close>

definition class_index_from_size :: "nat \<Rightarrow> u8 option" where
  "class_index_from_size sz =
    (if \<not> (sz \<ge> MIN_SIZE \<and> sz \<le> MAX_SLAB_SIZE) then None
     else if sz \<ge> MAX_SLAB_SIZE then Some (of_nat NUM_REGULAR)
     else let k = 64 - 1 - leading_zeros sz;
              base = 2 ^ k;
              step = base div 4;
              j = div_ceil (sz - base) step
          in if j \<ge> SUB_STEPS then
               (let next_k = k + 1
                in if next_k > MAX_K then Some (of_nat NUM_REGULAR)
                   else Some (of_nat ((next_k - MIN_K) * SUB_STEPS)))
             else Some (of_nat ((k - MIN_K) * SUB_STEPS + j)))"

text \<open>The compile-time loop that fills the table; a failing assertion would stop compilation.\<close>

function class_table_loop :: "nat \<Rightarrow> u8 list \<Rightarrow> u8 list option" where
  "class_table_loop i table =
    (if i < MAX_SLAB_SIZE div 2 then
       (let sz = (i + 1) * 2;
            clamped = (if sz < MIN_SIZE then MIN_SIZE else sz)
        in case class_index_from_size clamped of
             None \<Rightarrow> None
           | Some c \<Rightarrow> class_table_loop (i + 1) (table[i := c]))
     else Some table)"
  by pat_completeness auto
termination
  by (relation "measure (\<lambda>(i, _). MAX_SLAB_SIZE div 2 - i)") auto

declare class_table_loop.simps [simp del]

definition CLASS_TABLE :: "u8 list" where
  "CLASS_TABLE = (case class_table_loop 0 (replicate (MAX_SLAB_SIZE div 2) 0) of
                    Some t \<Rightarrow> t | None \<Rightarrow> [])"

definition class_index :: "layout \<Rightarrow> nat option" where
  "class_index l =
    (let sz = max (next_multiple_of (lsize l) (lalign l)) MIN_SIZE
     in if sz > MAX_SLAB_SIZE then None
        else Some (unat (CLASS_TABLE ! ((sz - 1) div 2))))"

definition class_size :: "nat \<Rightarrow> nat" where
  "class_size index =
    (if index \<ge> NUM_REGULAR then MAX_SLAB_SIZE
     else let group = index div SUB_STEPS;
              sub = index mod SUB_STEPS;
              k = group + MIN_K;
              base = 2 ^ k;
              step = base div 4
          in base + sub * step)"

text \<open>The size a request is rounded to before the table is consulted.\<close>

definition effective_size :: "layout \<Rightarrow> nat" where
  "effective_size l = max (next_multiple_of (lsize l) (lalign l)) MIN_SIZE"

subsection \<open>Class sizes\<close>

lemma class_size_last [geom_simps]: "class_size 48 = 32768"
  by (simp add: class_size_def geom_simps)

text \<open>With \<open>p = 2 ^ (k - 2)\<close> the \<open>j\<close>-th class of group \<open>k\<close> has size \<open>(4 + j) * p\<close>.\<close>

lemma class_size_group:
  assumes "g < 12" "j < 4"
  shows "class_size (g * 4 + j) = (4 + j) * 2 ^ (g + 1)"
proof -
  have "(2::nat) ^ (g + 3) = 4 * 2 ^ (g + 1)" by (simp add: power_add)
  then show ?thesis using assms by (simp add: class_size_def geom_simps algebra_simps)
qed

lemma class_size_cases:
  assumes "c < NUM_CLASSES"
  obtains (last) "c = 48" "class_size c = 32768"
        | (group) g j where "g < 12" "j < 4" "c = g * 4 + j" "class_size c = (4 + j) * 2 ^ (g + 1)"
proof (cases "c = 48")
  case True
  then show ?thesis using last by (simp add: geom_simps)
next
  case False
  then have "c div 4 < 12" "c mod 4 < 4" "c = c div 4 * 4 + c mod 4" using assms by (auto simp: geom_simps)
  then show ?thesis using group class_size_group by metis
qed

lemma class_size_Suc: "Suc c < NUM_CLASSES \<Longrightarrow> class_size c < class_size (Suc c)"
proof -
  assume c: "Suc c < NUM_CLASSES"
  then have "c < NUM_CLASSES" by simp
  then show ?thesis
  proof (cases rule: class_size_cases)
    case last
    then show ?thesis using c by (simp add: geom_simps)
  next
    case (group g j)
    consider "j < 3" | "j = 3" "g < 11" | "j = 3" "g = 11" using group by linarith
    then show ?thesis
    proof cases
      case 1
      then show ?thesis using class_size_group [of g "Suc j"] group by simp
    next
      case 2
      then show ?thesis using class_size_group [of "Suc g" 0] group by (simp add: add.commute)
    next
      case 3
      then show ?thesis using group by (simp add: geom_simps)
    qed
  qed
qed

lemma class_size_strict_mono: "i < j \<Longrightarrow> j < NUM_CLASSES \<Longrightarrow> class_size i < class_size j"
proof (induction j)
  case (Suc j)
  then show ?case using class_size_Suc [of j] by (cases "i = j") auto
qed simp

lemma class_size_bounds: "c < NUM_CLASSES \<Longrightarrow> 8 \<le> class_size c \<and> class_size c \<le> 32768"
proof -
  assume c: "c < NUM_CLASSES"
  have "class_size 0 = 8" by (simp add: class_size_def geom_simps)
  then have "8 \<le> class_size c"
    using class_size_strict_mono [OF _ c, of 0] by (cases "c = 0") auto
  moreover have "class_size c \<le> 32768"
    using class_size_strict_mono [of c 48] c by (cases "c = 48") (auto simp: geom_simps)
  ultimately show ?thesis ..
qed

lemma class_size_even: "c < NUM_CLASSES \<Longrightarrow> even (class_size c)"
  by (cases rule: class_size_cases) auto

subsection \<open>The smallest fitting class\<close>

definition smallest_fit :: "nat \<Rightarrow> nat \<Rightarrow> bool" where
  "smallest_fit s c \<longleftrightarrow>
     c < NUM_CLASSES \<and> s \<le> class_size c \<and> (c = 0 \<or> class_size (c - 1) < s)"

lemma smallest_fit_unique: "smallest_fit s c \<Longrightarrow> smallest_fit s d \<Longrightarrow> c = d"
proof (induction c d rule: linorder_wlog)
  case (le c d)
  show ?case
  proof (rule ccontr)
    assume "c \<noteq> d"
    with le have "c \<le> d - 1" "d \<noteq> 0" "d - 1 < NUM_CLASSES" by (auto simp: smallest_fit_def)
    then have "class_size c \<le> class_size (d - 1)"
      using class_size_strict_mono [of c "d - 1"] by (cases "c = d - 1") auto
    then show False using le \<open>d \<noteq> 0\<close> by (auto simp: smallest_fit_def)
  qed
qed (simp add: eq_commute)

lemma smallest_fit_least: "smallest_fit s c \<Longrightarrow> d < c \<Longrightarrow> class_size d < s"
proof -
  assume f: "smallest_fit s c" and d: "d < c"
  then have "d = c - 1 \<or> d < c - 1" "c - 1 < NUM_CLASSES" by (auto simp: smallest_fit_def)
  then have "class_size d \<le> class_size (c - 1)"
    using class_size_strict_mono [of d "c - 1"] by auto
  then show ?thesis using f d by (auto simp: smallest_fit_def)
qed

text \<open>An odd size and its successor have the same class, because every class size is even.\<close>

lemma smallest_fit_round_even:
  assumes "smallest_fit (s + s mod 2) c"
  shows "smallest_fit s c"
proof -
  have "class_size (c - 1) < s" if "c \<noteq> 0"
  proof -
    have "class_size (c - 1) < s + s mod 2" using assms that by (simp add: smallest_fit_def)
    moreover have "even (class_size (c - 1))"
      using assms that by (intro class_size_even) (auto simp: smallest_fit_def)
    moreover have "even (s + s mod 2)" by presburger
    ultimately show ?thesis by presburger
  qed
  then show ?thesis using assms by (auto simp: smallest_fit_def)
qed

lemma log2_exponent:
  assumes "2 ^ k \<le> sz" "sz < 2 ^ Suc k" "k < 64"
  shows "64 - 1 - leading_zeros sz = k"
  using bit_length_eqI [OF assms(1,2)] assms(3) by (simp add: leading_zeros_def)

lemma class_exponent_exists:
  fixes sz :: nat
  assumes "8 \<le> sz" "sz < 32768"
  obtains g where "g < 12" "2 ^ (g + 3) \<le> sz" "sz < 2 ^ Suc (g + 3)"
proof -
  have b: "2 ^ (bit_length sz - 1) \<le> sz" "sz < 2 ^ bit_length sz" "0 < bit_length sz"
    using bit_length_bounds [of sz] assms by auto
  have "(2::nat) ^ 3 < 2 ^ bit_length sz" "(2::nat) ^ (bit_length sz - 1) < 2 ^ 15"
    using b assms by simp_all
  then have "3 < bit_length sz" "bit_length sz - 1 < 15"
    by (simp_all only: power_strict_increasing_iff [of "2::nat"])
  then show ?thesis using b by (intro that [of "bit_length sz - 4"]) (auto simp: Suc_diff_le)
qed

lemma class_index_from_size_group:
  assumes "g < 12" "2 ^ (g + 3) \<le> sz" "sz < 2 ^ Suc (g + 3)"
  defines "j \<equiv> div_ceil (sz - 2 ^ (g + 3)) (2 ^ (g + 1))"
  shows "class_index_from_size sz = Some (of_nat (g * 4 + j))" and "j \<le> 4"
proof -
  have p: "(2::nat) ^ (g + 3) = 4 * 2 ^ (g + 1)" "(2::nat) ^ Suc (g + 3) = 8 * 2 ^ (g + 1)"
    by (simp_all add: power_add)
  have "(2::nat) ^ 1 \<le> 2 ^ (g + 1)" "(2::nat) ^ (g + 1) \<le> 2 ^ 12"
    using assms(1) by (intro power_increasing; simp)+
  then have "8 \<le> (4 * 2 ^ (g + 1) :: nat)" "8 * 2 ^ (g + 1) \<le> (32768::nat)" by simp_all
  then have r: "8 \<le> sz" "sz < 32768" using assms(2,3) p by linarith+
  have k: "64 - 1 - leading_zeros sz = g + 3"
    using log2_exponent [OF assms(2,3)] assms(1) by simp
  have step: "(2::nat) ^ (g + 3) div 4 = 2 ^ (g + 1)" by (simp add: p)
  show j4: "j \<le> 4"
  proof (cases "sz = 2 ^ (g + 3)")
    case True
    then show ?thesis by (simp add: j_def div_ceil_def)
  next
    case False
    then have "(j - 1) * 2 ^ (g + 1) < sz - 2 ^ (g + 3)"
      using div_ceil_less [of "2 ^ (g + 1)" "sz - 2 ^ (g + 3)"] assms(2) by (simp add: j_def)
    also have "\<dots> < 4 * 2 ^ (g + 1)" using assms(3) p by linarith
    finally show ?thesis by simp
  qed
  have jd: "div_ceil (sz - 2 ^ (g + 3)) (2 ^ (g + 3) div 4) = j"
    by (simp only: step j_def)
  show "class_index_from_size sz = Some (of_nat (g * 4 + j))"
    using r j4 assms(1) unfolding class_index_from_size_def Let_def k jd
    by (cases "j = 4"; cases "g = 11") (simp_all add: geom_simps)
qed

lemma class_index_from_size_smallest:
  assumes "8 \<le> sz" "sz \<le> 32768"
  shows "\<exists>c. class_index_from_size sz = Some (of_nat c) \<and> smallest_fit sz c"
proof (cases "sz = 32768")
  case True
  have "class_size 47 = 28672" by (simp add: class_size_def geom_simps)
  then show ?thesis using True
    by (intro exI [of _ 48]) (simp add: class_index_from_size_def smallest_fit_def geom_simps)
next
  case False
  then obtain g where g: "g < 12" "2 ^ (g + 3) \<le> sz" "sz < 2 ^ Suc (g + 3)"
    using class_exponent_exists [of sz] assms by auto
  let ?p = "2 ^ (g + 1) :: nat"
  define j where "j = div_ceil (sz - 2 ^ (g + 3)) ?p"
  note ci = class_index_from_size_group [OF g, folded j_def]
  have p: "(2::nat) ^ (g + 3) = 4 * ?p" by (simp add: power_add)
  have up: "sz \<le> (4 + j) * ?p"
    using div_ceil_le [of ?p "sz - 2 ^ (g + 3)"] g(2) by (simp add: j_def p algebra_simps)
  have lo: "(4 + (j - 1)) * ?p < sz" "0 < j" if "sz \<noteq> 4 * ?p"
    using div_ceil_less [of ?p "sz - 2 ^ (g + 3)"] g(2) that
    by (auto simp: j_def p algebra_simps)
  have j0: "j = 0" if "sz = 4 * ?p" using that by (simp add: j_def p div_ceil_def)
  have "smallest_fit sz (g * 4 + j)"
  proof (cases "sz = 4 * ?p")
    case True
    have "class_size (g * 4 - 1) < sz" if "0 < g"
      using that class_size_group [of "g - 1" 3] g(1) True by (cases g) (auto simp: add.commute)
    then show ?thesis using True j0 class_size_group [of g 0] g(1)
      by (auto simp: smallest_fit_def geom_simps)
  next
    case False
    have prev: "class_size (g * 4 + j - 1) < sz"
      using class_size_group [of g "j - 1"] g(1) lo [OF False] ci(2) by (simp add: add.commute)
    have "class_size (g * 4 + j) = (4 + j) * ?p"
    proof (cases "j = 4")
      case True
      then show ?thesis using class_size_group [of "Suc g" 0] g(1)
        by (cases "g = 11") (simp_all add: geom_simps add.commute)
    next
      case False
      then show ?thesis using class_size_group [of g j] g(1) ci(2) by simp
    qed
    then show ?thesis using prev up g(1) ci(2) by (auto simp: smallest_fit_def geom_simps)
  qed
  then show ?thesis using ci(1) by blast
qed

subsection \<open>The lookup table\<close>

text \<open>The size that entry \<open>i\<close> of the table stands for.\<close>

definition clamped_size :: "nat \<Rightarrow> nat" where
  "clamped_size i = (if (i + 1) * 2 < MIN_SIZE then MIN_SIZE else (i + 1) * 2)"

lemma class_table_loop_unfold:
  "class_table_loop i t =
    (if i < 16384 then case class_index_from_size (clamped_size i) of
         None \<Rightarrow> None | Some c \<Rightarrow> class_table_loop (i + 1) (t[i := c])
     else Some t)"
  by (subst class_table_loop.simps) (simp add: clamped_size_def Let_def, simp add: geom_simps)

lemma class_table_loop_fill:
  assumes "\<And>i. i < 16384 \<Longrightarrow> class_index_from_size (clamped_size i) = Some (f i)"
    and "length t = 16384" "i \<le> 16384"
  shows "\<exists>t'. class_table_loop i t = Some t' \<and> length t' = 16384 \<and>
              (\<forall>n < 16384. t' ! n = (if i \<le> n then f n else t ! n))"
  using assms(2,3)
proof (induction "16384 - i" arbitrary: i t)
  case 0
  then show ?case by (subst class_table_loop_unfold) auto
next
  case (Suc d)
  then have i: "i < 16384" "d = 16384 - Suc i" by simp_all
  have "\<exists>t'. class_table_loop (Suc i) (t[i := f i]) = Some t' \<and> length t' = 16384 \<and>
        (\<forall>n < 16384. t' ! n = (if Suc i \<le> n then f n else t[i := f i] ! n))"
    using Suc.hyps(1) [OF i(2), of "t[i := f i]"] i(1) Suc.prems by simp
  moreover have "class_table_loop i t = class_table_loop (Suc i) (t[i := f i])"
    using i assms(1) [OF i(1)] by (subst class_table_loop_unfold) simp
  ultimately show ?case using i Suc.prems
    by (auto simp: nth_list_update Suc_le_eq not_less dest: le_antisym)
qed

lemma clamped_size_bounds: "i < 16384 \<Longrightarrow> 8 \<le> clamped_size i \<and> clamped_size i \<le> 32768"
  by (auto simp: clamped_size_def geom_simps)

lemma CLASS_TABLE_nth:
  assumes "i < 16384"
  shows "class_index_from_size (clamped_size i) = Some (CLASS_TABLE ! i)"
proof -
  let ?f = "\<lambda>i. case class_index_from_size (clamped_size i) of Some c \<Rightarrow> c | None \<Rightarrow> 0"
  have f: "class_index_from_size (clamped_size n) = Some (?f n)" if "n < 16384" for n
    using class_index_from_size_smallest [of "clamped_size n"] clamped_size_bounds [OF that] by auto
  obtain t where "class_table_loop 0 (replicate 16384 0) = Some t" "\<forall>n < 16384. t ! n = ?f n"
    using class_table_loop_fill [OF f, of "replicate 16384 0" 0] by auto
  then show ?thesis using f [OF assms] assms by (simp add: CLASS_TABLE_def geom_simps)
qed

lemma class_index_Some_smallest:
  assumes "effective_size l \<le> 32768"
  shows "\<exists>c. class_index l = Some c \<and> smallest_fit (effective_size l) c"
proof -
  let ?s = "effective_size l" and ?i = "(effective_size l - 1) div 2"
  have s: "8 \<le> ?s" by (simp add: effective_size_def geom_simps)
  have even: "clamped_size ?i = ?s + ?s mod 2"
    using s unfolding clamped_size_def MIN_SIZE_def by presburger
  have "?s + ?s mod 2 \<le> 32768" using assms by presburger
  then obtain c where c: "class_index_from_size (?s + ?s mod 2) = Some (of_nat c)"
      "smallest_fit (?s + ?s mod 2) c"
    using class_index_from_size_smallest [of "?s + ?s mod 2"] s by auto
  have "?i < 16384" using assms s by auto
  then have "CLASS_TABLE ! ?i = of_nat c" using CLASS_TABLE_nth [of ?i] c(1) unfolding even by simp
  moreover have "unat (of_nat c :: u8) = c"
    using c(2) by (simp add: smallest_fit_def geom_simps unat_of_nat)
  ultimately have "class_index l = Some c"
    using assms by (simp add: class_index_def Let_def flip: effective_size_def) (simp add: geom_simps)
  then show ?thesis using smallest_fit_round_even [OF c(2)] by blast
qed

lemma class_index_None: "class_index l = None \<longleftrightarrow> 32768 < effective_size l"
  by (auto simp: class_index_def effective_size_def geom_simps Let_def less_max_iff_disj)

lemma class_index_SomeD:
  "class_index l = Some c \<Longrightarrow> smallest_fit (effective_size l) c \<and> effective_size l \<le> 32768"
  using class_index_Some_smallest [of l] class_index_None [of l] by (cases "effective_size l \<le> 32768") auto

lemma smallest_fit_class_size: "c < NUM_CLASSES \<Longrightarrow> smallest_fit (class_size c) c"
  using class_size_strict_mono [of "c - 1" c] by (cases "c = 0") (auto simp: smallest_fit_def)

lemma class_size_growth:
  assumes "Suc c < NUM_CLASSES"
  shows "4 * class_size (Suc c) \<le> 5 * class_size c"
proof -
  from assms have "c < NUM_CLASSES" by simp
  then show ?thesis
  proof (cases rule: class_size_cases)
    case last
    then show ?thesis using assms by (simp add: geom_simps)
  next
    case (group g j)
    consider "j < 3" | "j = 3" "g < 11" | "j = 3" "g = 11" using group by linarith
    then show ?thesis
    proof cases
      case 1
      then show ?thesis using class_size_group [of g "Suc j"] group by simp
    next
      case 2
      then show ?thesis using class_size_group [of "Suc g" 0] group by (simp add: add.commute)
    next
      case 3
      then show ?thesis using group by (simp add: geom_simps)
    qed
  qed
qed

lemma smallest_fit_waste:
  assumes "smallest_fit s c" "8 \<le> s"
  shows "4 * class_size c \<le> 5 * s"
proof (cases c)
  case 0
  then show ?thesis using assms by (simp add: class_size_def geom_simps)
next
  case (Suc d)
  then show ?thesis using assms class_size_growth [of d] by (simp add: smallest_fit_def)
qed

text \<open>
  A power of two that divides the request divides the class: within a group of exponent \<open>k\<close> all
  class sizes are multiples of \<open>2 ^ (k - 2)\<close>, and the two largest alignments are met exactly.
\<close>

lemma smallest_fit_pow2_dvd:
  assumes fit: "smallest_fit s c" and s: "8 \<le> s" and dvd: "2 ^ a dvd s"
  shows "2 ^ a dvd class_size c"
proof -
  have c: "c < NUM_CLASSES" "s \<le> class_size c" using fit by (simp_all add: smallest_fit_def)
  from c(1) show ?thesis
  proof (cases rule: class_size_cases)
    case last
    have "(2::nat) ^ a \<le> 2 ^ 15"
      using dvd_imp_le [OF dvd] s c(2) last by simp
    then have "a \<le> 15" by (rule power_le_imp_le_exp [rotated]) simp
    then have "(2::nat) ^ a dvd 2 ^ 15" by (rule le_imp_power_dvd)
    then show ?thesis using last by simp
  next
    case (group g j)
    show ?thesis
    proof (cases "a \<le> g + 1")
      case True
      then show ?thesis using group by (metis dvd_mult le_imp_power_dvd)
    next
      case False
      then obtain m where m: "s = m * 2 ^ (g + 2)"
        using dvd by (metis Suc_1 Suc_leI add_Suc_right dvd_def dvd_trans le_imp_power_dvd mult.commute
            not_le)
      let ?q = "2 ^ (g + 1) :: nat"
      have sq: "s = (2 * m) * ?q" using m by simp
      have lt: "d < c \<Longrightarrow> class_size d < s" for d using smallest_fit_least [OF fit] by blast
      have "(2 * m) * ?q \<le> (4 + j) * ?q" using c(2) group sq by simp
      then have up: "2 * m \<le> 4 + j" by simp
      have "4 + j \<le> 2 * m"
      proof (cases "j = 0")
        case False
        then have "(3 + j) * ?q < (2 * m) * ?q"
          using lt [of "g * 4 + (j - 1)"] class_size_group [of g "j - 1"] group sq by simp
        then show ?thesis using mult_less_cancel2 by auto
      next
        case True
        have "3 * ?q < (2 * m) * ?q"
        proof (cases g)
          case 0
          then show ?thesis using s sq by simp
        next
          case (Suc g')
          then show ?thesis using lt [of "g' * 4 + 3"] class_size_group [of g' 3] group sq True by simp
        qed
        then have "3 < 2 * m" using mult_less_cancel2 by auto
        then show ?thesis using True by simp
      qed
      then have "s = class_size c" using up group sq by simp
      then show ?thesis using dvd by simp
    qed
  qed
qed

lemma class_size_align_dvd:
  assumes "layout_ok l" "0 < lsize l" "class_index l = Some c"
  shows "lalign l dvd class_size c"
proof -
  obtain a where a: "lalign l = 2 ^ a" using assms(1) by (auto simp: layout_ok_def)
  note fit = class_index_SomeD [OF assms(3)]
  let ?n = "next_multiple_of (lsize l) (lalign l)"
  have dvd: "2 ^ a dvd ?n" using next_multiple_of_dvd [of "2 ^ a" "lsize l"] a by simp
  have n0: "0 < ?n" using next_multiple_of_ge [of "lsize l" "lalign l"] assms(2) by linarith
  have "2 ^ a dvd effective_size l"
  proof (cases "8 \<le> ?n")
    case True
    then show ?thesis using dvd by (simp add: effective_size_def geom_simps)
  next
    case False
    then have "(2::nat) ^ a < 2 ^ 3" using dvd_imp_le [OF dvd n0] by simp
    then have "a < 3" by (rule power_less_imp_less_exp [rotated]) simp
    then have "(2::nat) ^ a dvd 2 ^ 3" by (intro le_imp_power_dvd) simp
    then show ?thesis using False by (simp add: effective_size_def geom_simps)
  qed
  moreover have "8 \<le> effective_size l" by (simp add: effective_size_def geom_simps)
  ultimately show ?thesis using smallest_fit_pow2_dvd [of "effective_size l" c a] fit a by simp
qed

subsection \<open>Properties\<close>

text \<open>
  C12. The table lookup picks the smallest size class that holds the request: the class size is at
  least the (alignment-rounded) request, every smaller class is too small, and only requests above
  32 KiB have no class and go to the page allocator.
\<close>

theorem class_index_smallest_fit:
  "case class_index l of
     None \<Rightarrow> MAX_SLAB_SIZE < effective_size l
   | Some c \<Rightarrow> c < NUM_CLASSES \<and> lsize l \<le> effective_size l \<and> effective_size l \<le> class_size c \<and>
       (\<forall>d < c. class_size d < effective_size l)"
proof (cases "class_index l")
  case None
  then show ?thesis using class_index_None [of l] by (simp add: geom_simps)
next
  case (Some c)
  have "lsize l \<le> effective_size l"
    using next_multiple_of_ge [of "lsize l" "lalign l"] by (simp add: effective_size_def)
  then show ?thesis
    using Some class_index_SomeD [OF Some] smallest_fit_least by (auto simp: smallest_fit_def)
qed

theorem class_index_smallest_fit_witness:
  "class_index \<lparr>lsize = 100, lalign = 8\<rparr> = Some 15 \<and> class_size 15 = 112 \<and> class_size 14 < 104"
proof -
  let ?l = "\<lparr>lsize = 100, lalign = 8\<rparr>"
  have e: "effective_size ?l = 104" by (simp add: effective_size_def next_multiple_of_def geom_simps)
  have sz: "class_size 15 = 112" "class_size 14 = 96" by (simp_all add: class_size_def geom_simps)
  obtain c where c: "class_index ?l = Some c" using class_index_Some_smallest [of ?l] e by auto
  then have "c < NUM_CLASSES" "104 \<le> class_size c" "\<forall>d < c. class_size d < 104"
    using class_index_smallest_fit [of ?l] e by simp_all
  then have "smallest_fit 104 c" by (cases "c = 0") (auto simp: smallest_fit_def)
  moreover have "smallest_fit 104 15" using sz by (simp add: smallest_fit_def geom_simps)
  ultimately show ?thesis using c sz smallest_fit_unique by auto
qed

text \<open>
  C13. The compile-time table is equivalent to the bit-arithmetic reference it is built from, on
  every layout: the 2-byte granularity of the index loses nothing.
\<close>

theorem class_index_eq_reference:
  "class_index l = map_option unat (class_index_from_size (effective_size l))"
proof (cases "effective_size l \<le> 32768")
  case True
  have ge: "8 \<le> effective_size l" by (simp add: effective_size_def geom_simps)
  obtain c where c: "class_index l = Some c" "smallest_fit (effective_size l) c"
    using class_index_Some_smallest [OF True] by blast
  obtain d where d: "class_index_from_size (effective_size l) = Some (of_nat d)"
      "smallest_fit (effective_size l) d"
    using class_index_from_size_smallest [OF ge True] by blast
  have "d < 256" using d(2) by (simp add: smallest_fit_def geom_simps)
  then show ?thesis using c d smallest_fit_unique [OF c(2) d(2)] by (simp add: unat_of_nat)
next
  case False
  then show ?thesis using class_index_None [of l] by (simp add: class_index_from_size_def geom_simps)
qed

text \<open>
  C14. The class chosen for a layout has a size that is a multiple of the layout's alignment, so
  that slots placed at multiples of the class size are aligned.
\<close>

theorem class_size_respects_align:
  assumes "layout_ok l" "0 < lsize l" "class_index l = Some c"
  shows "lalign l dvd class_size c"
  using assms by (rule class_size_align_dvd)

theorem class_size_respects_align_witness:
  "class_index \<lparr>lsize = 40, lalign = 16\<rparr> = Some 10 \<and> (16::nat) dvd class_size 10"
proof -
  let ?l = "\<lparr>lsize = 40, lalign = 16\<rparr>"
  have n: "next_multiple_of 40 16 = 48" by (simp add: next_multiple_of_def)
  then have e: "effective_size ?l = class_size 10"
    by (simp add: effective_size_def class_size_def geom_simps)
  have ok: "layout_ok ?l" using n by (auto simp: layout_ok_def intro: exI [of _ 4])
  have c: "class_index ?l = Some 10"
    using class_index_Some_smallest [of ?l] e smallest_fit_class_size [of 10]
    by (auto simp: geom_simps class_size_def dest: smallest_fit_unique)
  show ?thesis using class_size_respects_align [OF ok _ c] c by simp
qed

text \<open>
  C15. Internal fragmentation. What is rounded up to a class is the effective size of the layout:
  its size rounded up to a multiple of the alignment, and to at least eight bytes. The class wastes
  at most a quarter of that effective size. Relative to the requested size itself the same bound
  holds for requests of at least eight bytes whose size is a multiple of the alignment; smaller or
  less aligned requests lose in addition what the rounding to the effective size costs: the effective
  size is at most eight bytes, or at most the size plus the alignment less one.
\<close>

theorem class_waste_within_quarter:
  assumes "layout_ok l" "class_index l = Some c"
  shows "4 * (class_size c - effective_size l) \<le> effective_size l \<and>
         (8 \<le> lsize l \<and> lalign l dvd lsize l \<longrightarrow> 4 * (class_size c - lsize l) \<le> lsize l) \<and>
         effective_size l \<le> max 8 (lsize l + lalign l - 1)"
proof -
  have q: "4 * (class_size c - effective_size l) \<le> effective_size l"
    using smallest_fit_waste [of "effective_size l" c] class_index_SomeD [OF assms(2)]
    by (simp add: effective_size_def geom_simps)
  have a: "0 < lalign l" using assms(1) by (auto simp: layout_ok_def)
  have "effective_size l = lsize l" if "8 \<le> lsize l" "lalign l dvd lsize l"
    using that by (simp add: effective_size_def next_multiple_of_def geom_simps)
  moreover have "next_multiple_of (lsize l) (lalign l) \<le> lsize l + lalign l - 1"
    using next_multiple_of_less [OF a, of "lsize l"] by linarith
  ultimately show ?thesis using q by (auto simp: effective_size_def geom_simps)
qed

theorem class_waste_within_quarter_witness:
  "\<exists>c. class_index \<lparr>lsize = 1025, lalign = 1\<rparr> = Some c \<and> 4 * (class_size c - 1025) \<le> 1025"
proof -
  let ?l = "\<lparr>lsize = 1025, lalign = 1\<rparr>"
  have e: "effective_size ?l = 1025" by (simp add: effective_size_def geom_simps)
  then obtain c where c: "class_index ?l = Some c" using class_index_Some_smallest [of ?l] by auto
  have "layout_ok ?l" by (auto simp: layout_ok_def intro: exI [of _ 0])
  from class_waste_within_quarter [OF this c] show ?thesis using c by auto
qed

text \<open>
  Round trip between sizes and indices: every class is the class of its own size, and class
  sizes increase strictly with the index.
\<close>

theorem class_round_trip:
  assumes "c < NUM_CLASSES"
  shows "class_index \<lparr>lsize = class_size c, lalign = 1\<rparr> = Some c \<and>
         (\<forall>d < c. class_size d < class_size c)"
proof -
  have e: "effective_size \<lparr>lsize = class_size c, lalign = 1\<rparr> = class_size c"
    using class_size_bounds [OF assms] by (simp add: effective_size_def geom_simps)
  then have "class_index \<lparr>lsize = class_size c, lalign = 1\<rparr> = Some c"
    using class_index_Some_smallest [of "\<lparr>lsize = class_size c, lalign = 1\<rparr>"]
      class_size_bounds [OF assms] smallest_fit_class_size [OF assms]
    by (auto dest: smallest_fit_unique)
  then show ?thesis using class_size_strict_mono [OF _ assms] by simp
qed

theorem class_round_trip_witness:
  "class_index \<lparr>lsize = 28672, lalign = 1\<rparr> = Some 47 \<and> class_size 46 < 28672"
proof -
  have "class_size 47 = 28672" by (simp add: class_size_def geom_simps)
  then show ?thesis using class_round_trip [of 47] by (simp add: geom_simps)
qed

end
