(* ===== verification/Memory.thy ===== *)
theory Memory
  imports Prelude
begin

text \<open>
  Byte-addressed memory with embedded links. The intrusive lists of the allocator
  (\<open>read_next\<close> and \<open>write_next\<close> of \<open>slab.rs\<close>, the page links of \<open>pool.rs\<close>) store a 64-bit
  pointer in the first eight bytes of a free block, at any alignment. The model keeps the bytes: a
  link is read and written little-endian, byte by byte, so that two links interfere exactly when
  their eight-byte ranges overlap.

  \<open>chain rd p xs\<close> says that following the links \<open>rd\<close> from \<open>p\<close> visits exactly the blocks \<open>xs\<close> and
  ends in null. The locale \<open>lifo_stack\<close> is the contract of the intrusive free lists; it is
  interpreted by the slot lists of slabs and by the page lists of the pool.
\<close>

type_synonym memory = "addr \<Rightarrow> u8"

primrec read_bytes :: "memory \<Rightarrow> addr \<Rightarrow> nat \<Rightarrow> nat" where
  "read_bytes m p 0 = 0"
| "read_bytes m p (Suc n) = unat (m p) + 256 * read_bytes m (Suc p) n"

primrec write_bytes :: "memory \<Rightarrow> addr \<Rightarrow> nat \<Rightarrow> nat \<Rightarrow> memory" where
  "write_bytes m p 0 v = m"
| "write_bytes m p (Suc n) v = write_bytes (m(p := of_nat v)) (Suc p) n (v div 256)"

definition read_next :: "memory \<Rightarrow> addr \<Rightarrow> addr" where
  "read_next m slot = read_bytes m slot 8"

definition write_next :: "memory \<Rightarrow> addr \<Rightarrow> addr \<Rightarrow> memory" where
  "write_next m slot next = write_bytes m slot 8 next"

subsection \<open>Reading back and interference\<close>

lemma write_bytes_outside: "a < p \<or> p + n \<le> a \<Longrightarrow> write_bytes m p n v a = m a"
  by (induction n arbitrary: m p v) auto

lemma read_bytes_cong: "(\<And>a. p \<le> a \<Longrightarrow> a < p + n \<Longrightarrow> m a = m' a) \<Longrightarrow> read_bytes m p n = read_bytes m' p n"
  by (induction n arbitrary: p) auto

lemma read_bytes_write_bytes: "read_bytes (write_bytes m p n v) p n = v mod 256 ^ n"
proof (induction n arbitrary: m p v)
  case (Suc n)
  have "v mod (256 * 256 ^ n) = 256 * (v div 256 mod 256 ^ n) + v mod 256"
    by (rule mod_mult2_eq)
  then show ?case by (simp add: Suc write_bytes_outside unat_of_nat)
qed simp

lemma read_write_next: "v < 2 ^ 64 \<Longrightarrow> read_next (write_next m p v) p = v"
  by (simp add: read_next_def write_next_def read_bytes_write_bytes)

text \<open>Two blocks whose link words do not overlap.\<close>

definition apart :: "addr \<Rightarrow> addr \<Rightarrow> bool" where
  "apart p q \<longleftrightarrow> p + 8 \<le> q \<or> q + 8 \<le> p"

lemma read_write_next_apart: "apart p q \<Longrightarrow> read_next (write_next m p v) q = read_next m q"
  unfolding read_next_def write_next_def apart_def
  by (rule read_bytes_cong) (rule write_bytes_outside, auto)

lemma write_next_outside: "a < p \<or> p + 8 \<le> a \<Longrightarrow> write_next m p v a = m a"
  by (simp add: write_next_def write_bytes_outside)

lemma read_next_cong: "(\<And>a. p \<le> a \<Longrightarrow> a < p + 8 \<Longrightarrow> m a = m' a) \<Longrightarrow> read_next m p = read_next m' p"
  unfolding read_next_def by (rule read_bytes_cong)

subsection \<open>Null-terminated chains\<close>

fun chain :: "(addr \<Rightarrow> addr) \<Rightarrow> addr \<Rightarrow> addr list \<Rightarrow> bool" where
  "chain rd p [] \<longleftrightarrow> p = null"
| "chain rd p (x # xs) \<longleftrightarrow> p = x \<and> x \<noteq> null \<and> chain rd (rd x) xs"

lemma chain_null [simp]: "chain rd 0 xs \<longleftrightarrow> xs = []"
  by (cases xs) auto

lemma chain_nonnull: "p \<noteq> 0 \<Longrightarrow> chain rd p xs \<longleftrightarrow> (\<exists>ys. xs = p # ys \<and> chain rd (rd p) ys)"
  by (cases xs) auto

lemma chain_cong [chain_intros]:
  "(\<And>x. x \<in> set xs \<Longrightarrow> rd x = rd' x) \<Longrightarrow> chain rd p xs = chain rd' p xs"
  by (induction xs arbitrary: p) auto

lemma chain_functional: "chain rd p xs \<Longrightarrow> chain rd p ys \<Longrightarrow> xs = ys"
  by (induction xs arbitrary: p ys) (auto simp: chain_nonnull)

lemma chain_notnull: "chain rd p xs \<Longrightarrow> 0 \<notin> set xs"
  by (induction xs arbitrary: p) auto

lemma chain_append:
  "chain rd p (xs @ x # ys) \<Longrightarrow> chain rd x (x # ys)"
  by (induction xs arbitrary: p) auto

lemma chain_distinct: "chain rd p xs \<Longrightarrow> distinct xs"
proof (induction xs arbitrary: p)
  case (Cons x xs)
  have "x \<notin> set xs"
  proof
    assume "x \<in> set xs"
    then obtain us vs where xs: "xs = us @ x # vs" by (auto simp: in_set_conv_decomp)
    then have "chain rd x (x # us @ x # vs)" "chain rd x (x # vs)"
      using Cons.prems chain_append [of rd p "x # us" x vs] by auto
    then have "x # us @ x # vs = x # vs" by (rule chain_functional)
    then show False by (metis append_Cons append_eq_append_conv append_self_conv2 list.distinct(1)
          list.sel(3) length_append add_eq_self_zero append_Nil2 length_0_conv length_Cons)
  qed
  then show ?case using Cons by auto
qed simp

lemma chain_write:
  "(\<And>x. x \<in> set xs \<Longrightarrow> apart q x) \<Longrightarrow>
     chain (read_next (write_next m q v)) p xs = chain (read_next m) p xs"
  by (rule chain_cong) (simp add: read_write_next_apart)

text \<open>The first link of a chain after its head is written.\<close>

lemma chain_push:
  assumes "chain (read_next m) p xs" "x \<noteq> 0" "\<And>y. y \<in> set xs \<Longrightarrow> apart x y" "p < 2 ^ 64"
  shows "chain (read_next (write_next m x p)) x (x # xs)"
  using assms by (simp add: read_write_next chain_write)

lemma chain_head_mem: "chain rd p xs \<Longrightarrow> p = 0 \<and> xs = [] \<or> p \<in> set xs"
  by (cases xs) auto

subsection \<open>The contract of intrusive stacks\<close>

text \<open>
  \<open>abs s xs\<close> relates a stack (its head fields together with the memory) to the list of its
  elements; \<open>fits s x xs\<close> is what the client guarantees of a block it pushes.
\<close>

locale lifo_stack =
  fixes abs :: "'s \<Rightarrow> addr list \<Rightarrow> bool"
    and fits :: "addr \<Rightarrow> addr list \<Rightarrow> bool"
    and push :: "addr \<Rightarrow> 's \<Rightarrow> 's"
    and pop :: "'s \<Rightarrow> addr option \<times> 's"
  assumes abs_functional: "abs s xs \<Longrightarrow> abs s ys \<Longrightarrow> xs = ys"
    and abs_push: "abs s xs \<Longrightarrow> fits x xs \<Longrightarrow> abs (push x s) (x # xs)"
    and pop_empty: "abs s [] \<Longrightarrow> pop s = (None, s)"
    and pop_cons: "abs s (x # xs) \<Longrightarrow> \<exists>s'. pop s = (Some x, s') \<and> abs s' xs"
begin

lemma pop_push: "abs s xs \<Longrightarrow> fits x xs \<Longrightarrow> \<exists>s'. pop (push x s) = (Some x, s') \<and> abs s' xs"
  using abs_push pop_cons by blast

lemma pop_None: "abs s xs \<Longrightarrow> pop s = (None, s') \<longleftrightarrow> xs = [] \<and> s' = s"
  using pop_empty pop_cons [of s "hd xs" "tl xs"] by (cases xs) auto

lemma pop_Some: "abs s xs \<Longrightarrow> pop s = (Some x, s') \<Longrightarrow> xs = x # tl xs \<and> abs s' (tl xs)"
  using pop_empty [of s] pop_cons [of s "hd xs" "tl xs"] by (cases xs) auto

lemma push_all:
  "abs s xs \<Longrightarrow> (\<And>us v vs. ys = us @ v # vs \<Longrightarrow> fits v (rev us @ xs)) \<Longrightarrow>
     abs (fold push ys s) (rev ys @ xs)"
proof (induction ys arbitrary: s xs)
  case (Cons y ys)
  have "fits y xs" using Cons.prems(2) [of "[]" y ys] by simp
  then have "abs (push y s) (y # xs)" using Cons.prems(1) by (rule abs_push [rotated])
  then have "abs (fold push ys (push y s)) (rev ys @ y # xs)"
    by (rule Cons.IH) (use Cons.prems(2) in \<open>metis append.assoc append_Cons append_Nil rev.simps(2)\<close>)
  then show ?case by simp
qed simp

end

end
