(* ===== verification/Simulation.thy ===== *)
theory Simulation
  imports Main
begin

text \<open>
  Labelled steps, their traces, and forward simulation with a client obligation. A component is a
  step relation \<open>cstep\<close> over its events, its specification a step relation \<open>astep\<close> over the same
  events; \<open>legal a e\<close> is what the client owes the component before event \<open>e\<close> (for an allocator:
  free only what is allocated). The locale shows once that every trace of the component is a trace
  of the specification up to the first event at which the client breaks its obligation.
\<close>

inductive trace :: "('s \<Rightarrow> 'e \<Rightarrow> 's \<Rightarrow> bool) \<Rightarrow> 's \<Rightarrow> 'e list \<Rightarrow> 's \<Rightarrow> bool"
  for step :: "'s \<Rightarrow> 'e \<Rightarrow> 's \<Rightarrow> bool" where
  trace_nil: "trace step s [] s"
| trace_cons: "step s e t \<Longrightarrow> trace step t es u \<Longrightarrow> trace step s (e # es) u"

inductive_simps trace_nil_iff [simp]: "trace step s [] t"
inductive_cases trace_consE: "trace step s (e # es) u"

lemma trace_append: "trace step s es t \<Longrightarrow> trace step t fs u \<Longrightarrow> trace step s (es @ fs) u"
  by (induction rule: trace.induct) (auto intro: trace.intros)

lemma trace_snoc: "trace step s es t \<Longrightarrow> step t e u \<Longrightarrow> trace step s (es @ [e]) u"
  by (rule trace_append) (auto intro: trace.intros)

lemma trace_invariant:
  assumes "trace step s es t" "P s" "\<And>s e t. P s \<Longrightarrow> step s e t \<Longrightarrow> P t"
  shows "P t"
  using assms(1,2) by (induction rule: trace.induct) (auto intro: assms(3))

text \<open>Executable steps: running a list of events, \<open>None\<close> when one is not enabled.\<close>

fun exec_run :: "('e \<Rightarrow> 's \<Rightarrow> 's option) \<Rightarrow> 'e list \<Rightarrow> 's \<Rightarrow> 's option" where
  "exec_run exec [] s = Some s"
| "exec_run exec (e # es) s = Option.bind (exec e s) (exec_run exec es)"

lemma exec_run_trace: "exec_run exec es s = Some s' \<Longrightarrow> trace (\<lambda>s e s'. exec e s = Some s') s es s'"
  by (induction es arbitrary: s) (auto simp: bind_eq_Some_conv intro!: trace.intros)

definition client_breaks :: "('a \<Rightarrow> 'e \<Rightarrow> 'a \<Rightarrow> bool) \<Rightarrow> ('a \<Rightarrow> 'e \<Rightarrow> bool) \<Rightarrow> 'a \<Rightarrow> 'e list \<Rightarrow> bool" where
  "client_breaks astep legal a es \<longleftrightarrow>
     (\<exists>es1 e es2 a1. es = es1 @ e # es2 \<and> trace astep a es1 a1 \<and> \<not> legal a1 e)"

locale forward_simulation =
  fixes cstep :: "'s \<Rightarrow> 'e \<Rightarrow> 's \<Rightarrow> bool"
    and astep :: "'a \<Rightarrow> 'e \<Rightarrow> 'a \<Rightarrow> bool"
    and legal :: "'a \<Rightarrow> 'e \<Rightarrow> bool"
    and R :: "'s \<Rightarrow> 'a \<Rightarrow> bool"
  assumes simulate: "R s a \<Longrightarrow> cstep s e s' \<Longrightarrow> legal a e \<Longrightarrow> \<exists>a'. astep a e a' \<and> R s' a'"
begin

lemma simulate_trace:
  "trace cstep s es s' \<Longrightarrow> R s a \<Longrightarrow>
     (\<exists>a'. trace astep a es a' \<and> R s' a') \<or> client_breaks astep legal a es"
proof (induction arbitrary: a rule: trace.induct)
  case (trace_nil s)
  then show ?case by auto
next
  case (trace_cons s e t es u)
  show ?case
  proof (cases "legal a e")
    case False
    then have "e # es = [] @ e # es \<and> trace astep a [] a \<and> \<not> legal a e" by simp
    then show ?thesis unfolding client_breaks_def by blast
  next
    case True
    then obtain a1 where a1: "astep a e a1" "R t a1" using simulate trace_cons by blast
    from trace_cons.IH [OF a1(2)] show ?thesis
    proof
      assume "client_breaks astep legal a1 es"
      then obtain es1 f es2 a2 where "es = es1 @ f # es2" "trace astep a1 es1 a2" "\<not> legal a2 f"
        by (auto simp: client_breaks_def)
      then have "e # es = (e # es1) @ f # es2 \<and> trace astep a (e # es1) a2 \<and> \<not> legal a2 f"
        using a1 by (auto intro: trace.intros)
      then show ?thesis unfolding client_breaks_def by blast
    qed (use a1 in \<open>auto intro: trace.intros\<close>)
  qed
qed

end

end
