(* ===== verification/Slab.thy ===== *)
theory Slab
  imports Size_Class Memory Simulation
begin

text \<open>
  Slabs (\<open>src/src/slab.rs\<close>): 64 KiB regions that serve one size class, with a header at the base,
  a bump region, an intrusive local free list and a remote free list.

  \<open>store\<close> holds what the slabs of the whole process keep in memory: the bytes of slots and free
  pages, the slab headers (indexed by slab base address), and the head fields of the slab lists,
  which \<open>prev_link\<close> pointers may point to. An operation on the slab at \<open>base\<close> takes and returns
  the store. Walking a chain of links may never end if the links form a cycle, so the drain loop
  is a partial function.

  The invariant \<open>slab_ok s base c loc rem out\<close> relates a slab to its contents: the slots on the
  local list \<open>loc\<close>, on the remote list \<open>rem\<close> and with the application (\<open>out\<close>) are a partition of
  the slots carved so far. The lemmas show that each operation keeps it, that no slot is handed
  out twice, and that slots are aligned, inside the slab and pairwise disjoint.
\<close>

subsection \<open>Data\<close>

definition SLAB_SIZE :: nat where [geom_simps]: "SLAB_SIZE = 2 ^ 16"

definition SLAB_MASK :: u64 where "SLAB_MASK = not (of_nat (SLAB_SIZE - 1))"

record SlotFreeList =
  fl_head :: addr
  fl_len :: u16

definition SlotFreeList_EMPTY :: SlotFreeList where
  "SlotFreeList_EMPTY = \<lparr>fl_head = null, fl_len = 0\<rparr>"

text \<open>The two kinds of slab queue of a heap, and the places a \<open>prev_link\<close> may point to.\<close>

datatype list_kind = Full | Partial

type_synonym head_id = "u64 \<times> list_kind \<times> nat"

datatype link_loc = NullLoc | HeadLoc head_id | NextLoc addr

record SlabHeader =
  slot_size :: u16
  slot_count :: u16
  slots_offset :: u16
  size_class_index :: u8
  heap_id :: u64
  next_link :: "addr option"
  prev_link :: link_loc
  bump_cursor :: u16
  bump_remaining :: u16
  local :: SlotFreeList
  remote :: addr

record store =
  bytes :: memory
  hdr :: "addr \<Rightarrow> SlabHeader"
  heads :: "head_id \<Rightarrow> addr option"

definition upd_hdr :: "addr \<Rightarrow> (SlabHeader \<Rightarrow> SlabHeader) \<Rightarrow> store \<Rightarrow> store" where
  "upd_hdr base f s = s\<lparr>hdr := (hdr s)(base := f (hdr s base))\<rparr>"

text \<open>Zeroed memory, as the operating system hands it out.\<close>

definition zero_header :: SlabHeader where
  "zero_header = \<lparr>slot_size = 0, slot_count = 0, slots_offset = 0, size_class_index = 0, heap_id = 0,
     next_link = None, prev_link = NullLoc, bump_cursor = 0, bump_remaining = 0,
     local = SlotFreeList_EMPTY, remote = null\<rparr>"

definition zero_store :: store where
  "zero_store = \<lparr>bytes = (\<lambda>_. 0), hdr = (\<lambda>_. zero_header), heads = (\<lambda>_. None)\<rparr>"

text \<open>
  \<open>size_of\<close> and \<open>offset_of\<close> of a \<open>repr(C)\<close> struct, from the sizes and alignments of its fields
  in order. The header's fields are three \<open>u16\<close>, a \<open>u8\<close>, a \<open>usize\<close>, two pointers, two \<open>u16\<close>, the
  local list (a pointer and a \<open>u16\<close>, padded), eight bytes of padding, and an atomic pointer.
\<close>

fun repr_c_end :: "nat \<Rightarrow> (nat \<times> nat) list \<Rightarrow> nat" where
  "repr_c_end off [] = off"
| "repr_c_end off ((sz, al) # fs) = repr_c_end (next_multiple_of off al + sz) fs"

definition SlabHeader_fields :: "(nat \<times> nat) list" where
  "SlabHeader_fields = [(2, 2), (2, 2), (2, 2), (1, 1), (8, 8), (8, 8), (8, 8), (2, 2), (2, 2),
     (16, 8), (8, 1), (8, 8)]"

definition SlabHeader_size :: nat where
  "SlabHeader_size = next_multiple_of (repr_c_end 0 SlabHeader_fields) 8"

lemma SlabHeader_size_val [geom_simps]: "SlabHeader_size = 72"
  by (simp add: SlabHeader_size_def SlabHeader_fields_def next_multiple_of_def)

text \<open>The compile-time assertion: \<open>remote\<close> starts on another cache line than \<open>local\<close>.\<close>

lemma remote_offset: "repr_c_end 0 (take 11 SlabHeader_fields) = 64"
  by (simp add: SlabHeader_fields_def next_multiple_of_def)

subsection \<open>Slot lists and Treiber stacks\<close>

definition SlotFreeList_pop :: "memory \<Rightarrow> SlotFreeList \<Rightarrow> addr option \<times> SlotFreeList" where
  "SlotFreeList_pop m fl =
    (if fl_head fl = null then (None, fl)
     else (Some (fl_head fl), fl\<lparr>fl_head := read_next m (fl_head fl), fl_len := fl_len fl - 1\<rparr>))"

definition SlotFreeList_push :: "memory \<Rightarrow> SlotFreeList \<Rightarrow> addr \<Rightarrow> memory \<times> SlotFreeList" where
  "SlotFreeList_push m fl slot =
    (write_next m slot (fl_head fl), fl\<lparr>fl_head := slot, fl_len := fl_len fl + 1\<rparr>)"

definition TreiberStack_new :: addr where
  "TreiberStack_new = null"

definition TreiberStack_is_empty :: "addr \<Rightarrow> bool" where
  "TreiberStack_is_empty head = (head = null)"

text \<open>
  The compare-exchange loops, run without interference from other threads (interleavings are the
  subject of the theory \<open>Treiber\<close>): the load and the exchange see the same head. The weak
  exchange may still fail spuriously; \<open>spurious\<close> counts these failures.
\<close>

fun TreiberStack_push :: "nat \<Rightarrow> memory \<Rightarrow> addr \<Rightarrow> addr \<Rightarrow> memory \<times> addr" where
  "TreiberStack_push 0 m head slot = (write_next m slot head, slot)"
| "TreiberStack_push (Suc spurious) m head slot =
     TreiberStack_push spurious (write_next m slot head) head slot"

fun TreiberStack_push_chain :: "nat \<Rightarrow> memory \<Rightarrow> addr \<Rightarrow> addr \<Rightarrow> addr \<Rightarrow> memory \<times> addr" where
  "TreiberStack_push_chain 0 m head first lst = (write_next m lst head, first)"
| "TreiberStack_push_chain (Suc spurious) m head first lst =
     TreiberStack_push_chain spurious (write_next m lst head) head first lst"

definition TreiberStack_swap_drain :: "addr \<Rightarrow> addr \<times> addr" where
  "TreiberStack_swap_drain head = (head, null)"

subsection \<open>The owner handle\<close>

definition slab_init :: "addr \<Rightarrow> u8 \<Rightarrow> u64 \<Rightarrow> store \<Rightarrow> store" where
  "slab_init base cls heap s =
    (let slot_size = class_size (unat cls);
         slots_offset = next_multiple_of SlabHeader_size slot_size;
         slot_count = (SLAB_SIZE - slots_offset) div slot_size
     in upd_hdr base (\<lambda>_. \<lparr>slot_size = of_nat slot_size, slot_count = of_nat slot_count,
          slots_offset = of_nat slots_offset, size_class_index = cls, heap_id = heap,
          next_link = None, prev_link = NullLoc, bump_cursor = of_nat slots_offset,
          bump_remaining = of_nat slot_count, local = SlotFreeList_EMPTY,
          remote = TreiberStack_new\<rparr>) s)"

definition slab_from_ptr :: "addr \<Rightarrow> addr" where
  "slab_from_ptr p = unat (and (of_nat p :: u64) SLAB_MASK)"

definition set_heap_id :: "addr \<Rightarrow> u64 \<Rightarrow> store \<Rightarrow> store" where
  "set_heap_id base i = upd_hdr base (heap_id_update (\<lambda>_. i))"

definition set_next_link :: "addr \<Rightarrow> addr option \<Rightarrow> store \<Rightarrow> store" where
  "set_next_link base n = upd_hdr base (next_link_update (\<lambda>_. n))"

definition set_prev_link :: "addr \<Rightarrow> link_loc \<Rightarrow> store \<Rightarrow> store" where
  "set_prev_link base l = upd_hdr base (prev_link_update (\<lambda>_. l))"

definition free_count :: "addr \<Rightarrow> store \<Rightarrow> u16" where
  "free_count base s = fl_len (local (hdr s base)) + bump_remaining (hdr s base)"

definition is_fully_free :: "addr \<Rightarrow> store \<Rightarrow> bool" where
  "is_fully_free base s = (free_count base s = slot_count (hdr s base))"

definition slab_alloc :: "addr \<Rightarrow> store \<Rightarrow> addr option \<times> store" where
  "slab_alloc base s =
    (let h = hdr s base;
         (ptr, fl) = SlotFreeList_pop (bytes s) (local h);
         s1 = upd_hdr base (local_update (\<lambda>_. fl)) s
     in case ptr of
          Some p \<Rightarrow> (Some p, s1)
        | None \<Rightarrow>
            if bump_remaining h > 0 then
              (Some (base + unat (bump_cursor h)),
               upd_hdr base (\<lambda>h. h\<lparr>bump_cursor := bump_cursor h + slot_size h,
                                   bump_remaining := bump_remaining h - 1\<rparr>) s1)
            else (None, s1))"

definition dealloc_local :: "addr \<Rightarrow> addr \<Rightarrow> store \<Rightarrow> store" where
  "dealloc_local base ptr s =
    (let (m, fl) = SlotFreeList_push (bytes s) (local (hdr s base)) ptr
     in upd_hdr base (local_update (\<lambda>_. fl)) (s\<lparr>bytes := m\<rparr>))"

definition has_pending_remote :: "addr \<Rightarrow> store \<Rightarrow> bool" where
  "has_pending_remote base s = (\<not> TreiberStack_is_empty (remote (hdr s base)))"

partial_function (option) drain_loop ::
  "addr \<Rightarrow> u16 \<Rightarrow> memory \<Rightarrow> SlotFreeList \<Rightarrow> (u16 \<times> memory \<times> SlotFreeList) option" where
  "drain_loop cursor count m fl =
    (if cursor = null then Some (count, m, fl)
     else let next = read_next m cursor;
              r = SlotFreeList_push m fl cursor
          in drain_loop next (count + 1) (fst r) (snd r))"

definition drain_remote :: "addr \<Rightarrow> store \<Rightarrow> (u16 \<times> store) option" where
  "drain_remote base s =
    (let (ch, new_remote) = TreiberStack_swap_drain (remote (hdr s base));
         s1 = upd_hdr base (remote_update (\<lambda>_. new_remote)) s
     in do {
          (count, m, fl) \<leftarrow> drain_loop ch 0 (bytes s1) (local (hdr s1 base));
          Some (count, upd_hdr base (local_update (\<lambda>_. fl)) (s1\<lparr>bytes := m\<rparr>))
        })"

subsection \<open>The shared handle\<close>

definition header_eq :: "addr \<Rightarrow> addr \<Rightarrow> bool" where
  "header_eq a b = (a = b)"

definition dealloc_remote :: "addr \<Rightarrow> addr \<Rightarrow> store \<Rightarrow> store" where
  "dealloc_remote base ptr s =
    (let (m, head) = TreiberStack_push 0 (bytes s) (remote (hdr s base)) ptr
     in upd_hdr base (remote_update (\<lambda>_. head)) (s\<lparr>bytes := m\<rparr>))"

definition push_chain_remote :: "addr \<Rightarrow> addr \<Rightarrow> addr \<Rightarrow> store \<Rightarrow> store" where
  "push_chain_remote base first lst s =
    (let (m, head) = TreiberStack_push_chain 0 (bytes s) (remote (hdr s base)) first lst
     in upd_hdr base (remote_update (\<lambda>_. head)) (s\<lparr>bytes := m\<rparr>))"


subsection \<open>Geometry of a slab\<close>

text \<open>
  The layout of a slab as a function of its class: where the slots start, how many there are, and
  the address of slot \<open>i\<close>.
\<close>

definition slots_off :: "nat \<Rightarrow> nat" where
  "slots_off c = next_multiple_of SlabHeader_size (class_size c)"

definition n_slots :: "nat \<Rightarrow> nat" where
  "n_slots c = (SLAB_SIZE - slots_off c) div class_size c"

definition slot_addr :: "addr \<Rightarrow> nat \<Rightarrow> nat \<Rightarrow> addr" where
  "slot_addr base c i = base + slots_off c + i * class_size c"

definition base_ok :: "addr \<Rightarrow> bool" where
  "base_ok base \<longleftrightarrow> SLAB_SIZE dvd base \<and> 0 < base \<and> base + SLAB_SIZE \<le> 2 ^ 64"

lemma slots_off_bounds:
  assumes "c < NUM_CLASSES"
  shows "72 \<le> slots_off c" "slots_off c + class_size c \<le> 65536" "class_size c dvd slots_off c"
proof -
  note cs = class_size_bounds [OF assms]
  show "72 \<le> slots_off c" using next_multiple_of_ge [of 72 "class_size c"]
    by (simp add: slots_off_def geom_simps)
  show "class_size c dvd slots_off c"
    using next_multiple_of_dvd [of "class_size c" 72] cs by (simp add: slots_off_def geom_simps)
  have "slots_off c < 72 + class_size c"
    using next_multiple_of_less [of "class_size c" 72] cs by (simp add: slots_off_def geom_simps)
  moreover have "slots_off c \<le> 32768" if "72 \<le> class_size c"
    using next_multiple_of_least [of "class_size c" "class_size c" 72] cs that
    by (simp add: slots_off_def geom_simps)
  ultimately show "slots_off c + class_size c \<le> 65536" using cs by linarith
qed

lemma n_slots_bounds:
  assumes "c < NUM_CLASSES"
  shows "0 < n_slots c" "n_slots c < 65536" "slots_off c + n_slots c * class_size c \<le> 65536"
proof -
  note cs = class_size_bounds [OF assms] and off = slots_off_bounds [OF assms]
  show "0 < n_slots c" using cs off by (simp add: n_slots_def geom_simps div_greater_zero_iff)
  have "n_slots c * class_size c \<le> 65536 - slots_off c"
    by (simp add: n_slots_def geom_simps)
  then show le: "slots_off c + n_slots c * class_size c \<le> 65536" using off by linarith
  have "n_slots c * 8 \<le> n_slots c * class_size c" using cs by simp
  then show "n_slots c < 65536" using le off by linarith
qed

lemma slot_addr_range:
  assumes "c < NUM_CLASSES" "i < n_slots c"
  shows "base + 72 \<le> slot_addr base c i" "slot_addr base c i + class_size c \<le> base + 65536"
proof -
  have "Suc i * class_size c \<le> n_slots c * class_size c" using assms(2) by (intro mult_le_mono1) simp
  then show "slot_addr base c i + class_size c \<le> base + 65536"
    using n_slots_bounds(3) [OF assms(1)] by (simp add: slot_addr_def)
  show "base + 72 \<le> slot_addr base c i"
    using slots_off_bounds(1) [OF assms(1)] by (simp add: slot_addr_def)
qed

lemma slot_addr_disjoint:
  assumes "i \<noteq> j"
  shows "slot_addr base c i + class_size c \<le> slot_addr base c j \<or>
         slot_addr base c j + class_size c \<le> slot_addr base c i"
proof -
  have *: "i * class_size c + class_size c \<le> j * class_size c" if "i < j" for i j
    using that mult_le_mono1 [of "Suc i" j "class_size c"] by simp
  show ?thesis using assms * [of i j] * [of j i] by (auto simp: slot_addr_def neq_iff)
qed

lemma slot_addr_apart:
  assumes "c < NUM_CLASSES" "i \<noteq> j"
  shows "apart (slot_addr base c i) (slot_addr base c j)"
  using slot_addr_disjoint [OF assms(2), of base c] class_size_bounds [OF assms(1)]
  by (auto simp: apart_def)

lemma slot_addr_inj: "c < NUM_CLASSES \<Longrightarrow> inj (slot_addr base c)"
  using class_size_bounds [of c] by (auto simp: inj_def slot_addr_def)

lemma slot_addr_align:
  assumes "c < NUM_CLASSES" "base_ok base" "a dvd class_size c" "a dvd SLAB_SIZE"
  shows "a dvd slot_addr base c i"
  using assms slots_off_bounds(3) [OF assms(1)]
  by (auto simp: slot_addr_def base_ok_def intro!: dvd_add intro: dvd_trans)

text \<open>Masking with \<open>SLAB_MASK\<close> clears the low sixteen bits.\<close>

lemma and_not_mask_eq: "and (w :: u64) (not (mask n)) = w - take_bit n w"
proof -
  have "and w (not (mask n)) = push_bit n (drop_bit n w)"
    by (rule bit_eqI) (auto simp: bit_simps)
  moreover have "push_bit n (drop_bit n w) + take_bit n w = w" by (rule bits_ident)
  ultimately show ?thesis by (metis add_diff_cancel_right')
qed

lemma slab_from_ptr_eq:
  assumes "p < 2 ^ 64"
  shows "slab_from_ptr p = p - p mod SLAB_SIZE"
proof -
  let ?w = "of_nat p :: u64"
  have m: "SLAB_MASK = not (mask 16)"
    by (simp add: SLAB_MASK_def SLAB_SIZE_def mask_eq_exp_minus_1)
  have w: "unat ?w = p" using assms by (simp add: unat_of_nat)
  have t: "unat (take_bit 16 ?w) = p mod 65536"
    unfolding unsigned_take_bit_eq w by (simp add: take_bit_eq_mod)
  then have "take_bit 16 ?w \<le> ?w" by (simp add: word_le_nat_alt w)
  then have "unat (?w - take_bit 16 ?w) = p - p mod 65536" by (simp add: unat_sub w t)
  then show ?thesis by (simp add: slab_from_ptr_def m and_not_mask_eq geom_simps)
qed

lemma slab_from_ptr_inside:
  assumes "base_ok base" "base \<le> p" "p < base + SLAB_SIZE"
  shows "slab_from_ptr p = base"
proof -
  obtain k where "base = 65536 * k" using assms(1) by (auto simp: base_ok_def geom_simps dvd_def)
  then have "p mod 65536 = p - base" using assms(2,3)
    by (simp add: geom_simps) (metis add_diff_cancel_left' le_Suc_ex mod_less mod_mult_self4
        nat_add_left_cancel_less)
  then show ?thesis using slab_from_ptr_eq [of p] assms by (simp add: base_ok_def geom_simps)
qed

subsection \<open>The slab invariant\<close>

definition carved :: "store \<Rightarrow> addr \<Rightarrow> nat \<Rightarrow> nat" where
  "carved s base c = n_slots c - unat (bump_remaining (hdr s base))"

definition header_ok :: "SlabHeader \<Rightarrow> nat \<Rightarrow> bool" where
  "header_ok h c \<longleftrightarrow> c < NUM_CLASSES \<and> slot_size h = of_nat (class_size c) \<and>
     slot_count h = of_nat (n_slots c) \<and> slots_offset h = of_nat (slots_off c) \<and>
     size_class_index h = of_nat c \<and> unat (bump_remaining h) \<le> n_slots c \<and>
     bump_cursor h = of_nat (slots_off c + (n_slots c - unat (bump_remaining h)) * class_size c)"

definition slab_ok :: "store \<Rightarrow> addr \<Rightarrow> nat \<Rightarrow> addr list \<Rightarrow> addr list \<Rightarrow> addr set \<Rightarrow> bool" where
  "slab_ok s base c loc rem out \<longleftrightarrow>
     base_ok base \<and> header_ok (hdr s base) c \<and>
     chain (read_next (bytes s)) (fl_head (local (hdr s base))) loc \<and>
     unat (fl_len (local (hdr s base))) = length loc \<and>
     chain (read_next (bytes s)) (remote (hdr s base)) rem \<and>
     set loc \<inter> set rem = {} \<and> out \<inter> (set loc \<union> set rem) = {} \<and>
     set loc \<union> set rem \<union> out = slot_addr base c ` {..<carved s base c}"

lemma slab_okD:
  assumes "slab_ok s base c loc rem out"
  shows "base_ok base" "header_ok (hdr s base) c" "c < NUM_CLASSES"
    "distinct loc" "distinct rem" "set loc \<inter> set rem = {}" "out \<inter> (set loc \<union> set rem) = {}"
    "set loc \<union> set rem \<union> out = slot_addr base c ` {..<carved s base c}"
    "carved s base c \<le> n_slots c"
  using assms by (auto simp: slab_ok_def header_ok_def carved_def dest: chain_distinct)

lemma slab_slot_cases:
  assumes "slab_ok s base c loc rem out" "x \<in> set loc \<union> set rem \<union> out"
  obtains i where "i < n_slots c" "x = slot_addr base c i"
proof -
  have "x \<in> slot_addr base c ` {..<carved s base c}" using assms(2) slab_okD(8) [OF assms(1)] by simp
  then obtain i where "i < carved s base c" "x = slot_addr base c i" by auto
  then show ?thesis using that [of i] slab_okD(9) [OF assms(1)] by linarith
qed

lemma slab_slot_props:
  assumes "slab_ok s base c loc rem out" "x \<in> set loc \<union> set rem \<union> out"
  shows "0 < x" "x < 2 ^ 64" "base + 72 \<le> x" "x + class_size c \<le> base + 65536" "x + 8 \<le> base + 65536"
proof -
  from assms obtain i where i: "i < n_slots c" "x = slot_addr base c i" by (rule slab_slot_cases)
  note r = slot_addr_range [OF slab_okD(3) [OF assms(1)] i(1), of base]
    and cs = class_size_bounds [OF slab_okD(3) [OF assms(1)]]
    and b = slab_okD(1) [OF assms(1)]
  show "base + 72 \<le> x" "x + class_size c \<le> base + 65536" using r i(2) by simp_all
  then show "0 < x" "x < 2 ^ 64" "x + 8 \<le> base + 65536"
    using cs b by (simp_all add: base_ok_def geom_simps)
qed

lemma slab_slots_apart:
  assumes "slab_ok s base c loc rem out" "x \<in> set loc \<union> set rem \<union> out"
    "y \<in> set loc \<union> set rem \<union> out" "x \<noteq> y"
  shows "apart x y"
proof -
  obtain i j where "x = slot_addr base c i" "y = slot_addr base c j"
    using slab_slot_cases [OF assms(1)] assms(2,3) by metis
  then show ?thesis using slot_addr_apart [OF slab_okD(3) [OF assms(1)]] assms(4) by metis
qed

lemma slab_slots_disjoint:
  assumes "slab_ok s base c loc rem out" "x \<in> set loc \<union> set rem \<union> out"
    "y \<in> set loc \<union> set rem \<union> out" "x \<noteq> y"
  shows "x + class_size c \<le> y \<or> y + class_size c \<le> x"
proof -
  obtain i j where "x = slot_addr base c i" "y = slot_addr base c j"
    using slab_slot_cases [OF assms(1)] assms(2,3) by metis
  then show ?thesis using slot_addr_disjoint assms(4) by metis
qed

text \<open>The slots carved so far number as many as are free, pending or allocated.\<close>

lemma slab_count:
  assumes "slab_ok s base c loc rem out"
  shows "finite out" "length loc + length rem + card out = carved s base c"
proof -
  note d = slab_okD [OF assms]
  have fin: "finite (set loc \<union> set rem \<union> out)" using d(8) by simp
  then show "finite out" by simp
  have "card (set loc \<union> set rem \<union> out) = carved s base c"
    using d(8) slot_addr_inj [OF d(3), of base] by (simp add: card_image inj_on_subset)
  moreover have "card (set loc \<union> set rem \<union> out) = card (set loc) + card (set rem) + card out"
    using d(6,7) fin by (simp add: card_Un_disjoint inf_commute)
  ultimately show "length loc + length rem + card out = carved s base c"
    using d(4,5) by (simp add: distinct_card)
qed

lemma slab_free_count:
  assumes "slab_ok s base c loc rem out"
  shows "unat (free_count base s) = length loc + unat (bump_remaining (hdr s base))"
    "unat (free_count base s) + length rem + card out = n_slots c"
proof -
  note d = slab_okD [OF assms] and cnt = slab_count [OF assms]
  have br: "unat (bump_remaining (hdr s base)) \<le> n_slots c" using d(2) by (simp add: header_ok_def)
  have len: "unat (fl_len (local (hdr s base))) = length loc" using assms by (simp add: slab_ok_def)
  have "length loc + unat (bump_remaining (hdr s base)) \<le> n_slots c"
    using cnt(2) br by (simp add: carved_def)
  then have "length loc + unat (bump_remaining (hdr s base)) < 65536"
    using n_slots_bounds(2) [OF d(3)] by linarith
  then show eq: "unat (free_count base s) = length loc + unat (bump_remaining (hdr s base))"
    by (simp add: free_count_def unat_word_ariths len)
  show "unat (free_count base s) + length rem + card out = n_slots c"
    using cnt(2) br unfolding eq by (simp add: carved_def)
qed

lemma slab_fully_free_iff:
  assumes "slab_ok s base c loc rem out"
  shows "is_fully_free base s \<longleftrightarrow> rem = [] \<and> out = {}"
proof -
  note d = slab_okD [OF assms]
  have "unat (slot_count (hdr s base)) = n_slots c"
    using d(2) n_slots_bounds(2) [OF d(3)] by (simp add: header_ok_def unat_of_nat)
  then have "is_fully_free base s \<longleftrightarrow> unat (free_count base s) = n_slots c"
    by (metis is_fully_free_def unsigned_word_eqI)
  then show ?thesis using slab_free_count(2) [OF assms] slab_count(1) [OF assms] by auto
qed

text \<open>
  The invariant only depends on the bytes of the slab's 64 KiB and on the part of its header that
  slots are managed with, not on the owner and the list links.
\<close>

definition slab_core :: "SlabHeader \<Rightarrow> u16 \<times> u16 \<times> u16 \<times> u8 \<times> u16 \<times> u16 \<times> SlotFreeList \<times> addr" where
  "slab_core h = (slot_size h, slot_count h, slots_offset h, size_class_index h, bump_cursor h,
     bump_remaining h, local h, remote h)"

text \<open>The invariant reads the links in the free slots and the header, nothing else.\<close>

lemma slab_ok_frame_free:
  assumes "slab_ok s base c loc rem out"
    and "\<And>x a. x \<in> set loc \<union> set rem \<Longrightarrow> x \<le> a \<Longrightarrow> a < x + 8 \<Longrightarrow> bytes s' a = bytes s a"
    and "slab_core (hdr s' base) = slab_core (hdr s base)"
  shows "slab_ok s' base c loc rem out"
proof -
  have rd: "read_next (bytes s') x = read_next (bytes s) x" if "x \<in> set loc \<union> set rem" for x
    using that by (intro read_next_cong assms(2)) auto
  have "chain (read_next (bytes s')) p xs = chain (read_next (bytes s)) p xs"
    if "set xs \<subseteq> set loc \<union> set rem" for p xs
    using that rd by (intro chain_cong) auto
  then show ?thesis using assms(1,3) by (simp add: slab_ok_def header_ok_def carved_def slab_core_def)
qed

lemma slab_ok_frame:
  assumes "slab_ok s base c loc rem out"
    and "\<And>a. base \<le> a \<Longrightarrow> a < base + 65536 \<Longrightarrow> bytes s' a = bytes s a"
    and "slab_core (hdr s' base) = slab_core (hdr s base)"
  shows "slab_ok s' base c loc rem out"
proof (rule slab_ok_frame_free [OF assms(1) _ assms(3)])
  fix x a assume "x \<in> set loc \<union> set rem" "x \<le> a" "a < x + 8"
  then show "bytes s' a = bytes s a" using slab_slot_props [OF assms(1), of x] by (intro assms(2)) auto
qed

subsection \<open>Operations keep the invariant\<close>

lemma upd_hdr_simps [simp]:
  "bytes (upd_hdr b f s) = bytes s" "heads (upd_hdr b f s) = heads s"
  "hdr (upd_hdr b f s) a = (if a = b then f (hdr s b) else hdr s a)"
  by (simp_all add: upd_hdr_def)

lemma header_ok_upd [simp]:
  "header_ok (h\<lparr>local := fl\<rparr>) c = header_ok h c"
  "header_ok (h\<lparr>remote := r\<rparr>) c = header_ok h c"
  "header_ok (h\<lparr>heap_id := i\<rparr>) c = header_ok h c"
  "header_ok (h\<lparr>next_link := n\<rparr>) c = header_ok h c"
  "header_ok (h\<lparr>prev_link := l\<rparr>) c = header_ok h c"
  by (simp_all add: header_ok_def)

lemma slab_init_ok:
  assumes "base_ok base" "unat cls < NUM_CLASSES"
  shows "slab_ok (slab_init base cls i s) base (unat cls) [] [] {}"
proof -
  have "unat (of_nat (n_slots (unat cls)) :: u16) = n_slots (unat cls)"
    using n_slots_bounds(2) [OF assms(2)] by (simp add: unat_of_nat)
  then show ?thesis using assms
    by (simp add: slab_init_def slab_ok_def header_ok_def carved_def SlotFreeList_EMPTY_def
        TreiberStack_new_def Let_def flip: slots_off_def n_slots_def)
qed

text \<open>Pushing a slot that the slab has handed out, on either of the two lists.\<close>

lemma slab_push_chain:
  assumes ok: "slab_ok s base c loc rem out" and p: "p \<in> out"
    and ch: "chain (read_next (bytes s)) h xs" and xs: "set xs \<subseteq> set loc \<union> set rem"
  shows "chain (read_next (write_next (bytes s) p h)) p (p # xs)"
    and "set ys \<subseteq> set loc \<union> set rem \<Longrightarrow>
      chain (read_next (write_next (bytes s) p v)) q ys = chain (read_next (bytes s)) q ys"
proof -
  have ap: "apart p y" if "y \<in> set loc \<union> set rem" for y
    using slab_slots_apart [OF ok, of p y] slab_okD(7) [OF ok] p that by auto
  have "h < 2 ^ 64" using chain_head_mem [OF ch] slab_slot_props(2) [OF ok, of h] xs by auto
  then show "chain (read_next (write_next (bytes s) p h)) p (p # xs)"
    using slab_slot_props(1) [OF ok, of p] p ap xs by (intro chain_push [OF ch]) auto
  show "chain (read_next (write_next (bytes s) p v)) q ys = chain (read_next (bytes s)) q ys"
    if "set ys \<subseteq> set loc \<union> set rem" using that ap by (intro chain_write) auto
qed

lemma slab_len_bound:
  assumes "slab_ok s base c loc rem out"
  shows "length loc + length rem + card out < 65535"
proof -
  note d = slab_okD [OF assms]
  have "n_slots c * 8 \<le> n_slots c * class_size c" using class_size_bounds [OF d(3)] by simp
  then show ?thesis using slab_count(2) [OF assms] d(9) n_slots_bounds [OF d(3)] slots_off_bounds(1) [OF d(3)]
    by linarith
qed

lemma dealloc_local_ok:
  assumes "slab_ok s base c loc rem out" "p \<in> out"
  shows "slab_ok (dealloc_local base p s) base c (p # loc) rem (out - {p})"
proof -
  have ch: "chain (read_next (bytes s)) (fl_head (local (hdr s base))) loc" using assms by (simp add: slab_ok_def)
  note push = slab_push_chain [OF assms ch]
  have "unat (fl_len (local (hdr s base)) + 1) = Suc (length loc)"
    using slab_len_bound [OF assms(1)] assms(1) by (simp add: slab_ok_def unat_word_ariths)
  then show ?thesis using assms push(1) push(2) [of rem]
    by (auto simp: slab_ok_def dealloc_local_def SlotFreeList_push_def carved_def)
qed

lemma dealloc_remote_ok:
  assumes "slab_ok s base c loc rem out" "p \<in> out"
  shows "slab_ok (dealloc_remote base p s) base c loc (p # rem) (out - {p})"
proof -
  have ch: "chain (read_next (bytes s)) (remote (hdr s base)) rem" using assms by (simp add: slab_ok_def)
  note push = slab_push_chain [OF assms ch]
  show ?thesis using assms push(1) push(2) [of loc]
    by (auto simp: slab_ok_def dealloc_remote_def carved_def)
qed

lemma slab_alloc_ok:
  assumes ok: "slab_ok s base c loc rem out"
  shows "case slab_alloc base s of
      (None, s') \<Rightarrow> s' = s \<and> loc = [] \<and> bump_remaining (hdr s base) = 0
    | (Some p, s') \<Rightarrow> p \<notin> out \<and> p \<notin> set rem \<and> p \<in> slot_addr base c ` {..<n_slots c} \<and>
        bytes s' = bytes s \<and> slab_ok s' base c (tl loc) rem (insert p out)"
proof (cases loc)
  case (Cons p loc')
  have "fl_head (local (hdr s base)) = p" "p \<noteq> 0" using ok Cons by (simp_all add: slab_ok_def)
  then have eq: "slab_alloc base s = (Some p, upd_hdr base (local_update (\<lambda>_. local (hdr s base)\<lparr>
      fl_head := read_next (bytes s) p, fl_len := fl_len (local (hdr s base)) - 1\<rparr>)) s)"
      (is "_ = (_, ?s')")
    by (simp add: slab_alloc_def SlotFreeList_pop_def Let_def)
  have "unat (fl_len (local (hdr s base)) - 1) = length loc'"
    using ok Cons by (simp add: slab_ok_def unat_sub_if_size unat_minus_one unat_eq_0)
  then have "slab_ok ?s' base c loc' rem (insert p out)"
    using ok slab_okD(4) [OF ok] by (auto simp: Cons slab_ok_def carved_def)
  moreover have "p \<in> slot_addr base c ` {..<n_slots c}"
    using slab_slot_cases [OF ok, of p] Cons by (metis UnI1 image_eqI lessThan_iff list.set_intros(1))
  ultimately show ?thesis using slab_okD(6,7) [OF ok] by (simp add: eq Cons)
next
  case Nil
  have h0: "fl_head (local (hdr s base)) = 0" using ok Nil by (simp add: slab_ok_def)
  show ?thesis
  proof (cases "bump_remaining (hdr s base) = 0")
    case True
    then show ?thesis using h0 Nil by (simp add: slab_alloc_def SlotFreeList_pop_def upd_hdr_def)
  next
    case False
    let ?p = "slot_addr base c (carved s base c)"
    note d = slab_okD [OF ok]
    let ?h = "hdr s base"
    have r: "0 < unat (bump_remaining ?h)" using False by (simp add: unat_gt_0)
    then have lt: "carved s base c < n_slots c" using d(2) by (auto simp: carved_def header_ok_def)
    have cur: "bump_cursor ?h = of_nat (slots_off c + carved s base c * class_size c)"
      using d(2) by (simp add: carved_def header_ok_def)
    have "slots_off c + carved s base c * class_size c < 65536"
      using slot_addr_range(2) [OF d(3) lt, of 0] class_size_bounds [OF d(3)] by (simp add: slot_addr_def)
    then have ptr: "base + unat (bump_cursor ?h) = ?p" by (simp add: cur unat_of_nat slot_addr_def del: of_nat_add)
    define h' where "h' = ?h\<lparr>bump_cursor := bump_cursor ?h + slot_size ?h,
      bump_remaining := bump_remaining ?h - 1\<rparr>"
    have br: "unat (bump_remaining h') = unat (bump_remaining ?h) - 1"
      using False by (simp add: h'_def unat_minus_one)
    then have cv: "n_slots c - unat (bump_remaining h') = Suc (carved s base c)"
      using r d(2) by (auto simp: carved_def header_ok_def)
    have "unat (bump_remaining h') \<le> n_slots c" using br d(2) by (auto simp: header_ok_def)
    moreover have "bump_cursor h' = of_nat (slots_off c + Suc (carved s base c) * class_size c)"
      using d(2) by (simp add: h'_def cur header_ok_def distrib_right ac_simps)
    ultimately have h': "header_ok h' c"
      unfolding header_ok_def cv using d(2) by (simp add: h'_def header_ok_def)
    have eq: "slab_alloc base s = (Some ?p, upd_hdr base (\<lambda>_. h') s)"
      using h0 False ptr by (simp add: slab_alloc_def SlotFreeList_pop_def upd_hdr_def h'_def word_gt_0 Let_def)
    have new: "?p \<notin> slot_addr base c ` {..<carved s base c}"
      using slot_addr_inj [OF d(3), of base] by (auto simp: inj_def)
    have "slab_ok (upd_hdr base (\<lambda>_. h') s) base c (tl loc) rem (insert ?p out)"
      using ok h' new cv Nil d(8) by (auto simp: slab_ok_def carved_def lessThan_Suc h'_def)
    then show ?thesis using eq lt new d(8) by auto
  qed
qed

text \<open>Draining walks the whole remote chain and reverses it onto the local list.\<close>

lemma drain_loop_chain:
  assumes "chain (read_next m) cur rem" "chain (read_next m) (fl_head fl) loc"
    and "\<And>x y. x \<in> set rem \<Longrightarrow> y \<in> set rem \<union> set loc \<Longrightarrow> x \<noteq> y \<Longrightarrow> apart x y"
    and "set rem \<inter> set loc = {}" "\<And>x. x \<in> set rem \<union> set loc \<Longrightarrow> x < 2 ^ 64"
  shows "\<exists>m' fl'. drain_loop cur n m fl = Some (n + of_nat (length rem), m', fl') \<and>
      chain (read_next m') (fl_head fl') (rev rem @ loc) \<and>
      fl_len fl' = fl_len fl + of_nat (length rem) \<and>
      (\<forall>a. (\<forall>x \<in> set rem. a < x \<or> x + 8 \<le> a) \<longrightarrow> m' a = m a)"
  using assms
proof (induction rem arbitrary: cur n m fl loc)
  case Nil
  then show ?case by (simp add: drain_loop.simps)
next
  case (Cons x rem)
  let ?m = "write_next m x (fl_head fl)" and ?fl = "fl\<lparr>fl_head := x, fl_len := fl_len fl + 1\<rparr>"
  have x: "cur = x" "x \<noteq> 0" "chain (read_next m) (read_next m x) rem" "x \<notin> set rem"
    using Cons.prems(1) chain_distinct [OF Cons.prems(1)] by auto
  have "fl_head fl < 2 ^ 64" using chain_head_mem [OF Cons.prems(2)] Cons.prems(5) [of "fl_head fl"] by auto
  then have "chain (read_next ?m) x (x # loc)"
    using Cons.prems(2,3,4) x by (intro chain_push) auto
  moreover have "chain (read_next ?m) (read_next m x) rem"
    using x Cons.prems(3) by (subst chain_write) auto
  moreover have "set rem \<inter> set (x # loc) = {}" using Cons.prems(4) x by auto
  ultimately have "\<exists>m' fl'. drain_loop (read_next m x) (n + 1) ?m ?fl =
        Some (n + 1 + of_nat (length rem), m', fl') \<and>
      chain (read_next m') (fl_head fl') (rev rem @ x # loc) \<and>
      fl_len fl' = fl_len ?fl + of_nat (length rem) \<and>
      (\<forall>a. (\<forall>y \<in> set rem. a < y \<or> y + 8 \<le> a) \<longrightarrow> m' a = ?m a)"
    using Cons.prems(3,5) by (intro Cons.IH) (auto simp: apart_def)
  moreover have "drain_loop cur n m fl = drain_loop (read_next m x) (n + 1) ?m ?fl"
    using x by (subst drain_loop.simps) (simp add: SlotFreeList_push_def)
  ultimately show ?case by (auto simp: write_next_outside algebra_simps)
qed

lemma drain_remote_ok:
  assumes ok: "slab_ok s base c loc rem out"
  shows "\<exists>s'. drain_remote base s = Some (of_nat (length rem), s') \<and>
      slab_ok s' base c (rev rem @ loc) [] out \<and> heads s' = heads s \<and>
      (\<forall>b. b \<noteq> base \<longrightarrow> hdr s' b = hdr s b) \<and>
      (\<forall>a. a < base \<or> base + 65536 \<le> a \<longrightarrow> bytes s' a = bytes s a) \<and>
      (\<exists>fl r. hdr s' base = hdr s base\<lparr>local := fl, remote := r\<rparr>) \<and>
      (\<forall>a. (\<forall>x \<in> set rem. a < x \<or> x + 8 \<le> a) \<longrightarrow> bytes s' a = bytes s a)"
proof -
  have ap: "apart x y" if "x \<in> set rem" "y \<in> set rem \<union> set loc" "x \<noteq> y" for x y
    using that by (intro slab_slots_apart [OF ok]) auto
  have bd: "x < 2 ^ 64" if "x \<in> set rem \<union> set loc" for x
    using that by (intro slab_slot_props(2) [OF ok]) auto
  have "\<exists>m' fl'. drain_loop (remote (hdr s base)) 0 (bytes s) (local (hdr s base)) =
        Some (0 + of_nat (length rem), m', fl') \<and>
      chain (read_next m') (fl_head fl') (rev rem @ loc) \<and>
      fl_len fl' = fl_len (local (hdr s base)) + of_nat (length rem) \<and>
      (\<forall>a. (\<forall>x \<in> set rem. a < x \<or> x + 8 \<le> a) \<longrightarrow> m' a = bytes s a)"
    using ok ap bd by (intro drain_loop_chain) (auto simp: slab_ok_def)
  then obtain m' fl' where l: "drain_loop (remote (hdr s base)) 0 (bytes s) (local (hdr s base)) =
        Some (of_nat (length rem), m', fl')"
      "chain (read_next m') (fl_head fl') (rev rem @ loc)"
      "fl_len fl' = fl_len (local (hdr s base)) + of_nat (length rem)"
      "\<And>a. (\<forall>x \<in> set rem. a < x \<or> x + 8 \<le> a) \<Longrightarrow> m' a = bytes s a" by auto
  let ?s' = "s\<lparr>hdr := (hdr s)(base := hdr s base\<lparr>remote := 0, local := fl'\<rparr>), bytes := m'\<rparr>"
  have "drain_remote base s = Some (of_nat (length rem), ?s')"
    using l(1) by (simp add: drain_remote_def TreiberStack_swap_drain_def upd_hdr_def)
  moreover have "unat (fl_len fl') = length rem + length loc"
    using l(3) ok slab_len_bound [OF ok] by (simp add: slab_ok_def unat_word_ariths unat_of_nat)
  then have "slab_ok ?s' base c (rev rem @ loc) [] out"
    using l(2) ok by (auto simp: slab_ok_def carved_def)
  moreover have "m' a = bytes s a" if "a < base \<or> base + 65536 \<le> a" for a
    using slab_slot_props(3,5) [OF ok] that by (intro l(4)) force
  moreover have "\<exists>fl r. hdr ?s' base = hdr s base\<lparr>local := fl, remote := r\<rparr>"
    by (rule exI [of _ fl'], rule exI [of _ 0]) simp
  ultimately show ?thesis using l(4) by (intro exI [of _ ?s'] conjI) simp_all
qed

lemma slab_alloc_frame:
  assumes "slab_alloc base s = (p, s')"
  shows "bytes s' = bytes s" "heads s' = heads s" "b \<noteq> base \<Longrightarrow> hdr s' b = hdr s b"
    "heap_id (hdr s' base) = heap_id (hdr s base)" "next_link (hdr s' base) = next_link (hdr s base)"
    "prev_link (hdr s' base) = prev_link (hdr s base)"
  using assms by (auto simp: slab_alloc_def Let_def split: prod.splits option.splits if_splits)

lemma dealloc_frame:
  assumes "s' = dealloc_local base p s \<or> s' = dealloc_remote base p s"
  shows "heads s' = heads s" "b \<noteq> base \<Longrightarrow> hdr s' b = hdr s b"
    "heap_id (hdr s' base) = heap_id (hdr s base)" "next_link (hdr s' base) = next_link (hdr s base)"
    "prev_link (hdr s' base) = prev_link (hdr s base)"
    "a < p \<or> p + 8 \<le> a \<Longrightarrow> bytes s' a = bytes s a"
  using assms
  by (auto simp: dealloc_local_def dealloc_remote_def SlotFreeList_push_def write_next_outside)

subsection \<open>The slot list as an intrusive stack\<close>

definition slot_list_abs :: "memory \<times> SlotFreeList \<Rightarrow> addr list \<Rightarrow> bool" where
  "slot_list_abs = (\<lambda>(m, fl) xs. chain (read_next m) (fl_head fl) xs \<and> fl_len fl = of_nat (length xs) \<and>
     (\<forall>x \<in> set xs. x < 2 ^ 64) \<and> (\<forall>x \<in> set xs. \<forall>y \<in> set xs. x \<noteq> y \<longrightarrow> apart x y))"

definition slot_fits :: "addr \<Rightarrow> addr list \<Rightarrow> bool" where
  "slot_fits x xs \<longleftrightarrow> 0 < x \<and> x < 2 ^ 64 \<and> (\<forall>y \<in> set xs. apart x y)"

lemma apart_sym: "apart x y \<Longrightarrow> apart y x"
  by (auto simp: apart_def)

interpretation slot_list: lifo_stack slot_list_abs slot_fits
  "\<lambda>x (m, fl). SlotFreeList_push m fl x"
  "\<lambda>(m, fl). let (p, fl') = SlotFreeList_pop m fl in (p, (m, fl'))"
proof unfold_locales
  show "slot_list_abs s xs \<Longrightarrow> slot_list_abs s ys \<Longrightarrow> xs = ys" for s xs ys
    by (auto simp: slot_list_abs_def split: prod.splits dest: chain_functional)
next
  fix s x xs
  assume a: "slot_list_abs s xs" and f: "slot_fits x xs"
  obtain m fl where s: "s = (m, fl)" by fastforce
  have "fl_head fl < 2 ^ 64" using a chain_head_mem [of "read_next m" "fl_head fl" xs] by (auto simp: s slot_list_abs_def)
  then have "chain (read_next (write_next m x (fl_head fl))) x (x # xs)"
    using a f by (intro chain_push) (auto simp: s slot_list_abs_def slot_fits_def)
  then show "slot_list_abs (case s of (m, fl) \<Rightarrow> SlotFreeList_push m fl x) (x # xs)"
    using a f by (auto simp: s slot_list_abs_def slot_fits_def SlotFreeList_push_def intro: apart_sym)
next
  show "slot_list_abs s [] \<Longrightarrow> (case s of (m, fl) \<Rightarrow> let (p, fl') = SlotFreeList_pop m fl in (p, (m, fl'))) = (None, s)" for s
    by (auto simp: slot_list_abs_def SlotFreeList_pop_def split: prod.splits)
next
  show "slot_list_abs s (x # xs) \<Longrightarrow> \<exists>s'. (case s of (m, fl) \<Rightarrow>
      let (p, fl') = SlotFreeList_pop m fl in (p, (m, fl'))) = (Some x, s') \<and> slot_list_abs s' xs" for s x xs
    by (auto simp: slot_list_abs_def SlotFreeList_pop_def split: prod.splits)
qed

subsection \<open>Abstract specification\<close>

text \<open>
  What a slab promises: a set of free slots, a set of slots freed remotely and not yet drained, and
  the set of allocated slots. Allocation returns any free slot and fails only when there is none.
\<close>

datatype slab_event = SAlloc "addr option" | SFree addr | SFreeRemote addr | SDrain nat

inductive slab_step :: "addr \<Rightarrow> store \<Rightarrow> slab_event \<Rightarrow> store \<Rightarrow> bool" for base :: addr where
  step_alloc: "slab_alloc base s = (r, s') \<Longrightarrow> slab_step base s (SAlloc r) s'"
| step_free: "slab_step base s (SFree p) (dealloc_local base p s)"
| step_remote: "slab_step base s (SFreeRemote p) (dealloc_remote base p s)"
| step_drain: "drain_remote base s = Some (n, s') \<Longrightarrow> slab_step base s (SDrain (unat n)) s'"

type_synonym slab_spec = "addr set \<times> addr set \<times> addr set"

inductive spec_step :: "slab_spec \<Rightarrow> slab_event \<Rightarrow> slab_spec \<Rightarrow> bool" where
  spec_alloc: "p \<in> free \<Longrightarrow> spec_step (free, pend, out) (SAlloc (Some p)) (free - {p}, pend, insert p out)"
| spec_exhausted: "spec_step ({}, pend, out) (SAlloc None) ({}, pend, out)"
| spec_free: "spec_step (free, pend, out) (SFree p) (insert p free, pend, out - {p})"
| spec_remote: "spec_step (free, pend, out) (SFreeRemote p) (free, insert p pend, out - {p})"
| spec_drain: "spec_step (free, pend, out) (SDrain (card pend)) (free \<union> pend, {}, out)"

inductive_simps spec_alloc_iff: "spec_step a (SAlloc r) a'"

fun slab_legal :: "slab_spec \<Rightarrow> slab_event \<Rightarrow> bool" where
  "slab_legal (free, pend, out) (SFree p) = (p \<in> out)"
| "slab_legal (free, pend, out) (SFreeRemote p) = (p \<in> out)"
| "slab_legal _ _ = True"

definition slab_abs :: "addr \<Rightarrow> nat \<Rightarrow> store \<Rightarrow> slab_spec \<Rightarrow> bool" where
  "slab_abs base c s = (\<lambda>(free, pend, out). \<exists>loc rem. slab_ok s base c loc rem out \<and> pend = set rem \<and>
     free = set loc \<union> slot_addr base c ` {carved s base c..<n_slots c})"

lemma slab_alloc_simulates:
  assumes "slab_abs base c s (free, pend, out)" "slab_alloc base s = (r, s')"
  shows "\<exists>a'. spec_step (free, pend, out) (SAlloc r) a' \<and> slab_abs base c s' a'"
proof -
  obtain loc rem where ok: "slab_ok s base c loc rem out" and pf: "pend = set rem"
      "free = set loc \<union> slot_addr base c ` {carved s base c..<n_slots c}"
    using assms(1) by (auto simp: slab_abs_def)
  show ?thesis
  proof (cases r)
    case None
    then have "s' = s" "loc = []" "bump_remaining (hdr s base) = 0"
      using slab_alloc_ok [OF ok] assms(2) by simp_all
    then have "free = {}" using pf(2) by (simp add: carved_def)
    then show ?thesis using None \<open>s' = s\<close> assms(1) spec_exhausted by blast
  next
    case (Some p)
    then have p: "p \<notin> out" "p \<notin> set rem" "p \<in> slot_addr base c ` {..<n_slots c}"
        and ok': "slab_ok s' base c (tl loc) rem (insert p out)"
      using slab_alloc_ok [OF ok] assms(2) by simp_all
    have *: "set loc \<union> slot_addr base c ` {carved s base c..<n_slots c} =
        slot_addr base c ` {..<n_slots c} - (set rem \<union> out)"
      if "slab_ok s base c loc rem out" for s loc out
    proof -
      note d = slab_okD [OF that]
      have "slot_addr base c ` {..<n_slots c} =
          slot_addr base c ` {..<carved s base c} \<union> slot_addr base c ` {carved s base c..<n_slots c}"
        using d(9) by (metis image_Un ivl_disj_un_one(2))
      moreover have "slot_addr base c ` {..<carved s base c} \<inter>
          slot_addr base c ` {carved s base c..<n_slots c} = {}"
        unfolding image_Int [OF slot_addr_inj [OF d(3)], symmetric] by auto
      ultimately show ?thesis using d(8,6,7) by (rule partition_rest)
    qed
    have "p \<in> free" using p pf(2) * [OF ok] by simp
    moreover have "slab_abs base c s' (free - {p}, pend, insert p out)"
      unfolding slab_abs_def using ok' pf * [OF ok] * [OF ok']
      by (simp, intro exI [of _ "tl loc"] exI [of _ rem]) auto
    ultimately show ?thesis using Some spec_alloc by blast
  qed
qed

lemma carved_dealloc [simp]:
  "carved (dealloc_local base p s) base c = carved s base c"
  "carved (dealloc_remote base p s) base c = carved s base c"
  by (simp_all add: carved_def dealloc_local_def dealloc_remote_def SlotFreeList_push_def)

interpretation slab: forward_simulation "slab_step base" spec_step slab_legal "slab_abs base c"
  for base c
proof unfold_locales
  fix s a e s'
  assume R: "slab_abs base c s a" and st: "slab_step base s e s'" and lg: "slab_legal a e"
  obtain free pend out where a: "a = (free, pend, out)" by (cases a) auto
  obtain loc rem where ok: "slab_ok s base c loc rem out" and pf: "pend = set rem"
      "free = set loc \<union> slot_addr base c ` {carved s base c..<n_slots c}"
    using R by (auto simp: a slab_abs_def)
  from st show "\<exists>a'. spec_step a e a' \<and> slab_abs base c s' a'"
  proof cases
    case (step_alloc r)
    then show ?thesis using slab_alloc_simulates R by (auto simp: a)
  next
    case (step_free p)
    then have "slab_ok s' base c (p # loc) rem (out - {p})"
      using dealloc_local_ok [OF ok] lg by (simp add: a)
    then have "slab_abs base c s' (insert p free, pend, out - {p})"
      unfolding slab_abs_def using step_free pf by fastforce
    then show ?thesis using step_free spec_free a by blast
  next
    case (step_remote p)
    then have "slab_ok s' base c loc (p # rem) (out - {p})"
      using dealloc_remote_ok [OF ok] lg by (simp add: a)
    then have "slab_abs base c s' (free, insert p pend, out - {p})"
      unfolding slab_abs_def using step_remote pf by fastforce
    then show ?thesis using step_remote spec_remote a by blast
  next
    case (step_drain n)
    obtain fl r where s': "n = of_nat (length rem)" "slab_ok s' base c (rev rem @ loc) [] out"
        "hdr s' base = hdr s base\<lparr>local := fl, remote := r\<rparr>"
      using drain_remote_ok [OF ok] step_drain(2) by auto
    have "unat n = card pend"
      using s'(1) pf(1) slab_okD(5) [OF ok] slab_len_bound [OF ok]
      by (simp add: distinct_card unat_of_nat)
    moreover have "carved s' base c = carved s base c" using s'(3) by (simp add: carved_def)
    then have "slab_abs base c s' (free \<union> pend, {}, out)"
      unfolding slab_abs_def using s'(2) pf
      by (simp, intro exI [of _ "rev rem @ loc"] exI [of _ "[]"]) auto
    ultimately show ?thesis using step_drain(1) spec_drain a by metis
  qed
qed

subsection \<open>Properties\<close>

text \<open>
  C16. A freshly initialised slab satisfies the slab invariant with no slot allocated, whatever the
  page held before, for every size class: its slot count, offsets and bump region fit in their
  16-bit fields, and it is fully free.
\<close>

theorem slab_init_fresh:
  assumes "base_ok base" "unat cls < NUM_CLASSES"
  shows "slab_ok (slab_init base cls i s) base (unat cls) [] [] {} \<and>
         is_fully_free base (slab_init base cls i s) \<and>
         unat (free_count base (slab_init base cls i s)) = n_slots (unat cls) \<and>
         heap_id (hdr (slab_init base cls i s) base) = i"
proof -
  note ok = slab_init_ok [OF assms, of i s]
  have "heap_id (hdr (slab_init base cls i s) base) = i" by (simp add: slab_init_def Let_def)
  then show ?thesis using ok slab_fully_free_iff [OF ok] slab_free_count(2) [OF ok] by simp
qed

theorem slab_init_fresh_witness:
  "slab_ok (slab_init 65536 48 7 zero_store) 65536 48 [] [] {} \<and> n_slots 48 = 1"
proof -
  have b: "base_ok 65536" by (simp add: base_ok_def geom_simps)
  have "n_slots 48 = 1" by (simp add: n_slots_def slots_off_def next_multiple_of_def geom_simps)
  then show ?thesis using slab_init_fresh [OF b, of 48 7 zero_store] by (simp add: geom_simps)
qed

text \<open>
  C17. Allocation from a slab returns a slot that is not allocated, lies in the slab's slot area and
  becomes allocated; it fails, leaving the slab unchanged, exactly when no slot is free.
\<close>

theorem slab_alloc_sound:
  assumes "slab_ok s base c loc rem out" "slab_alloc base s = (r, s')"
  shows "case r of
      None \<Rightarrow> s' = s \<and> free_count base s = 0
    | Some p \<Rightarrow> p \<notin> out \<and> p \<in> slot_addr base c ` {..<n_slots c} \<and> free_count base s \<noteq> 0 \<and>
        slab_ok s' base c (tl loc) rem (insert p out)"
proof (cases r)
  case None
  then have "loc = []" "bump_remaining (hdr s base) = 0" "s' = s"
    using slab_alloc_ok [OF assms(1)] assms(2) by simp_all
  then show ?thesis using slab_free_count(1) [OF assms(1)] None by (simp add: unat_eq_0)
next
  case (Some p)
  then have ok: "slab_ok s' base c (tl loc) rem (insert p out)" "p \<notin> out"
      "p \<in> slot_addr base c ` {..<n_slots c}"
    using slab_alloc_ok [OF assms(1)] assms(2) by simp_all
  have "card (insert p out) = Suc (card out)" using ok(2) slab_count(1) [OF assms(1)] by simp
  then have "unat (free_count base s) \<noteq> 0"
    using slab_free_count(2) [OF assms(1)] slab_free_count(2) [OF ok(1)] by linarith
  then show ?thesis using ok Some by auto
qed

text \<open>A one-slot slab of the largest class, for evaluation.\<close>

lemma base_ok_64K: "base_ok 65536"
  by (simp add: base_ok_def geom_simps)

lemma slots_48 [geom_simps]: "slots_off 48 = 32768" "n_slots 48 = 1"
  by (simp_all add: n_slots_def slots_off_def next_multiple_of_def geom_simps)

definition slab48 :: store where
  "slab48 = slab_init 65536 48 7 zero_store"

lemma slab48_ok: "slab_ok slab48 65536 48 [] [] {}"
  using slab_init_ok [OF base_ok_64K, of 48 7 zero_store] by (simp add: slab48_def geom_simps)

lemma slab48_hdr: "hdr slab48 65536 = \<lparr>slot_size = 32768, slot_count = 1, slots_offset = 32768,
    size_class_index = 48, heap_id = 7, next_link = None, prev_link = NullLoc, bump_cursor = 32768,
    bump_remaining = 1, local = SlotFreeList_EMPTY, remote = null\<rparr>"
  by (simp add: slab48_def slab_init_def geom_simps TreiberStack_new_def next_multiple_of_def)

lemma slab48_alloc: "fst (slab_alloc 65536 slab48) = Some 98304"
  by (simp add: slab_alloc_def slab48_hdr SlotFreeList_pop_def SlotFreeList_EMPTY_def)

theorem slab_alloc_sound_witness:
  "\<exists>s'. slab_alloc 65536 slab48 = (Some 98304, s') \<and> slab_ok s' 65536 48 [] [] {98304}"
proof -
  obtain s' where s': "slab_alloc 65536 slab48 = (Some 98304, s')"
    using slab48_alloc by (metis prod.collapse)
  then show ?thesis using slab_alloc_sound [OF slab48_ok s'] by simp
qed

text \<open>
  Freeing an allocated slot, locally or remotely, keeps the slab invariant, moves exactly that
  slot to the respective list, and touches no memory outside the slot's first eight bytes.
\<close>

theorem slab_free_sound:
  assumes "slab_ok s base c loc rem out" "p \<in> out"
  shows "slab_ok (dealloc_local base p s) base c (p # loc) rem (out - {p}) \<and>
         slab_ok (dealloc_remote base p s) base c loc (p # rem) (out - {p}) \<and>
         (\<forall>a. a < p \<or> p + 8 \<le> a \<longrightarrow> bytes (dealloc_local base p s) a = bytes s a \<and>
                                     bytes (dealloc_remote base p s) a = bytes s a)"
  using dealloc_local_ok [OF assms] dealloc_remote_ok [OF assms] dealloc_frame(6) by blast

theorem slab_free_sound_witness:
  "slab_ok (dealloc_local 65536 98304 (snd (slab_alloc 65536 slab48))) 65536 48 [98304] [] {}"
proof -
  have "slab_ok (snd (slab_alloc 65536 slab48)) 65536 48 [] [] {98304}"
    using slab_alloc_ok [OF slab48_ok] slab48_alloc by (auto split: prod.splits option.splits)
  from slab_free_sound [OF this, of 98304] show ?thesis by simp
qed

text \<open>
  C18. Draining always terminates, recovers every remotely freed slot exactly once (the returned
  count is the number of pending slots), empties the remote list and changes no other slab.
\<close>

theorem drain_remote_total:
  assumes "slab_ok s base c loc rem out"
  shows "\<exists>s'. drain_remote base s = Some (of_nat (length rem), s') \<and>
      slab_ok s' base c (rev rem @ loc) [] out \<and> \<not> has_pending_remote base s' \<and>
      (\<forall>b. b \<noteq> base \<longrightarrow> hdr s' b = hdr s b) \<and>
      (\<forall>a. a < base \<or> base + SLAB_SIZE \<le> a \<longrightarrow> bytes s' a = bytes s a)"
  using drain_remote_ok [OF assms]
  by (fastforce simp: has_pending_remote_def TreiberStack_is_empty_def slab_ok_def geom_simps)

theorem drain_remote_total_witness:
  "\<exists>s'. drain_remote 65536 (dealloc_remote 65536 98304 (snd (slab_alloc 65536 slab48))) = Some (1, s') \<and>
        slab_ok s' 65536 48 [98304] [] {}"
proof -
  have "slab_ok (snd (slab_alloc 65536 slab48)) 65536 48 [] [] {98304}"
    using slab_alloc_ok [OF slab48_ok] slab48_alloc by (auto split: prod.splits option.splits)
  then have "slab_ok (dealloc_remote 65536 98304 (snd (slab_alloc 65536 slab48))) 65536 48 [] [98304] {}"
    using dealloc_remote_ok by fastforce
  from drain_remote_total [OF this] show ?thesis by auto
qed

text \<open>
  The full-slab test is exact: a slab reports itself fully free precisely when no slot is
  allocated and no remote free is pending, so a slab given back to the pool has no live slot.
\<close>

theorem is_fully_free_exact:
  assumes "slab_ok s base c loc rem out"
  shows "is_fully_free base s \<longleftrightarrow> rem = [] \<and> out = {}"
  by (rule slab_fully_free_iff [OF assms])

theorem is_fully_free_exact_witness:
  "is_fully_free 65536 slab48 \<and> \<not> is_fully_free 65536 (snd (slab_alloc 65536 slab48))"
proof -
  have "slab_ok (snd (slab_alloc 65536 slab48)) 65536 48 [] [] {98304}"
    using slab_alloc_ok [OF slab48_ok] slab48_alloc by (auto split: prod.splits option.splits)
  then show ?thesis using is_fully_free_exact [OF slab48_ok] is_fully_free_exact by blast
qed

text \<open>
  Slot geometry. Every slot of a slab starts after the header, ends inside the 64 KiB, is
  disjoint from every other slot, is aligned for every layout of its class, and masking any address
  inside it recovers the slab base.
\<close>

theorem slot_geometry:
  assumes "base_ok base" "layout_ok l" "0 < lsize l" "class_index l = Some c" "i < n_slots c"
  shows "base + SlabHeader_size \<le> slot_addr base c i \<and>
         slot_addr base c i + lsize l \<le> base + SLAB_SIZE \<and>
         lalign l dvd slot_addr base c i \<and>
         (\<forall>j. j \<noteq> i \<longrightarrow> slot_addr base c i + class_size c \<le> slot_addr base c j \<or>
                        slot_addr base c j + class_size c \<le> slot_addr base c i) \<and>
         (\<forall>q < class_size c. slab_from_ptr (slot_addr base c i + q) = base)"
proof -
  have fit: "smallest_fit (effective_size l) c" "effective_size l \<le> 32768"
    using class_index_SomeD [OF assms(4)] by simp_all
  then have c: "c < NUM_CLASSES" by (simp add: smallest_fit_def)
  note r = slot_addr_range [OF c assms(5), of base]
  have 1: "base + SlabHeader_size \<le> slot_addr base c i" using r by (simp add: geom_simps)
  have "lsize l \<le> class_size c"
    using fit next_multiple_of_ge [of "lsize l" "lalign l"] by (simp add: smallest_fit_def effective_size_def)
  then have 2: "slot_addr base c i + lsize l \<le> base + SLAB_SIZE" using r by (simp add: geom_simps)
  have 3: "slab_from_ptr (slot_addr base c i + q) = base" if "q < class_size c" for q
    using r that by (intro slab_from_ptr_inside [OF assms(1)]) (auto simp: geom_simps)
  obtain a where a: "lalign l = 2 ^ a" using assms(2) by (auto simp: layout_ok_def)
  have dvd: "2 ^ a dvd class_size c"
    using class_size_align_dvd [OF assms(2,3,4)] by (simp add: a)
  have "(2::nat) ^ a \<le> 2 ^ 16" using dvd_imp_le [OF dvd] class_size_bounds [OF c] by simp
  then have "(2::nat) ^ a dvd SLAB_SIZE"
    unfolding SLAB_SIZE_def by (intro le_imp_power_dvd power_le_imp_le_exp [of 2]) simp_all
  then have "lalign l dvd slot_addr base c i" using slot_addr_align [OF c assms(1) dvd] by (simp add: a)
  moreover have "\<forall>j. j \<noteq> i \<longrightarrow> slot_addr base c i + class_size c \<le> slot_addr base c j \<or>
      slot_addr base c j + class_size c \<le> slot_addr base c i"
    using slot_addr_disjoint [of i _ base c] by metis
  ultimately show ?thesis using 1 2 3 by simp
qed

theorem slot_geometry_witness:
  "slot_addr 65536 48 0 + 32768 \<le> 65536 + SLAB_SIZE \<and> (4096::nat) dvd slot_addr 65536 48 0"
proof -
  let ?l = "\<lparr>lsize = 32768, lalign = 4096\<rparr>"
  have n: "next_multiple_of 32768 4096 = 32768" by (simp add: next_multiple_of_def)
  then have "effective_size ?l = class_size 48" by (simp add: effective_size_def geom_simps)
  then have c: "class_index ?l = Some 48"
    using class_index_Some_smallest [of ?l] smallest_fit_class_size [of 48]
    by (auto simp: geom_simps dest: smallest_fit_unique)
  have ok: "layout_ok ?l" using n by (auto simp: layout_ok_def intro: exI [of _ 12])
  show ?thesis using slot_geometry [OF base_ok_64K ok _ c, of 0] by (simp add: geom_simps)
qed

text \<open>
  C19. The order in which freed slots come back, for any slab with any lists of free slots. A slot
  freed locally is the one the next allocation returns, whatever is pending remotely. A slot freed
  remotely joins the pending slots \<open>rem\<close> (newest first); draining then recovers all of them, and
  because the drain reverses the chain the next allocation returns the pending slot that was freed
  first: the slot just freed only when nothing else was pending.
\<close>

theorem slab_reuses_freed_slot:
  assumes "slab_ok s base c loc rem out" "p \<in> out"
  shows "fst (slab_alloc base (dealloc_local base p s)) = Some p \<and>
         (\<exists>s'. drain_remote base (dealloc_remote base p s) = Some (of_nat (Suc (length rem)), s') \<and>
               fst (slab_alloc base s') = Some (last (p # rem)))"
proof -
  have head: "fst (slab_alloc base s) = Some x" if "slab_ok s base c (x # xs) rem out" for s x xs rem out
    using that by (auto simp: slab_ok_def slab_alloc_def SlotFreeList_pop_def Let_def)
  obtain s' where "drain_remote base (dealloc_remote base p s) = Some (of_nat (Suc (length rem)), s')"
      "slab_ok s' base c (rev (p # rem) @ loc) [] (out - {p})"
    using drain_remote_ok [OF dealloc_remote_ok [OF assms]] by auto
  moreover have "rev (p # rem) @ loc = last (p # rem) # tl (rev (p # rem)) @ loc"
    by (metis append_Cons hd_Cons_tl hd_rev list.distinct(1) rev_is_Nil_conv)
  ultimately show ?thesis using head [OF dealloc_local_ok [OF assms]] head by metis
qed

text \<open>
  The instance of the property: a slab of 16384-byte slots has three of them; two are allocated,
  the first is freed remotely and is still pending when the second is freed.
\<close>

definition slab44 :: store where
  "slab44 = snd (slab_alloc 65536 (snd (slab_alloc 65536 (slab_init 65536 44 7 zero_store))))"

definition slab44_pending :: store where
  "slab44_pending = dealloc_remote 65536 81920 slab44"

lemma slab44_pending_ok: "slab_ok slab44_pending 65536 44 [] [81920] {98304}"
proof -
  let ?s = "slab_init 65536 44 7 zero_store"
  have s: "slab_ok ?s 65536 44 [] [] {}"
    using slab_init_ok [OF base_ok_64K, of 44 7 zero_store] by (simp add: geom_simps)
  have a1: "fst (slab_alloc 65536 ?s) = Some 81920" and
    a2: "fst (slab_alloc 65536 (snd (slab_alloc 65536 ?s))) = Some 98304"
    by (simp_all add: slab_alloc_def slab_init_def SlotFreeList_pop_def SlotFreeList_EMPTY_def geom_simps
        class_size_def TreiberStack_new_def next_multiple_of_def Let_def)
  have "slab_ok (snd (slab_alloc 65536 ?s)) 65536 44 [] [] {81920}"
    using slab_alloc_ok [OF s] a1 by (auto split: prod.splits option.splits)
  from slab_alloc_ok [OF this] have "slab_ok slab44 65536 44 [] [] {81920, 98304}"
    using a2 by (auto simp: slab44_def insert_commute split: prod.splits option.splits)
  from dealloc_remote_ok [OF this, of 81920] show ?thesis by (simp add: slab44_pending_def)
qed

theorem slab_reuses_freed_slot_witness:
  "fst (slab_alloc 65536 (dealloc_local 65536 98304 slab44_pending)) = Some 98304 \<and>
   (\<exists>s'. drain_remote 65536 (dealloc_remote 65536 98304 slab44_pending) = Some (2, s') \<and>
         fst (slab_alloc 65536 s') = Some 81920)"
  using slab_reuses_freed_slot [OF slab44_pending_ok, of 98304] by simp

text \<open>
  C20. Refinement: every sequence of slab operations from a fresh slab behaves like the abstract
  slot allocator (three sets of slots), up to the first free of a slot that is not allocated.
\<close>

theorem slab_refines_spec:
  assumes "base_ok base" "unat cls < NUM_CLASSES"
    and "trace (slab_step base) (slab_init base cls i s) es s'"
  shows "(\<exists>a. trace spec_step (slot_addr base (unat cls) ` {..<n_slots (unat cls)}, {}, {}) es a \<and>
              slab_abs base (unat cls) s' a) \<or>
         client_breaks spec_step slab_legal (slot_addr base (unat cls) ` {..<n_slots (unat cls)}, {}, {}) es"
proof -
  note ok = slab_init_ok [OF assms(1,2), of i s]
  have "carved (slab_init base cls i s) base (unat cls) = 0"
    using slab_count(2) [OF ok] by simp
  then have "slab_abs base (unat cls) (slab_init base cls i s)
      (slot_addr base (unat cls) ` {..<n_slots (unat cls)}, {}, {})"
    using ok by (fastforce simp: slab_abs_def atLeast0LessThan)
  then show ?thesis by (rule slab.simulate_trace [OF assms(3)])
qed

theorem slab_refines_spec_witness:
  "\<exists>a. trace spec_step ({98304}, {}, {}) [SAlloc (Some 98304), SFree 98304] a"
proof -
  obtain s1 where s1: "slab_alloc 65536 slab48 = (Some 98304, s1)"
    using slab48_alloc by (metis prod.collapse)
  then have t: "trace (slab_step 65536) (slab_init 65536 48 7 zero_store)
      [SAlloc (Some 98304), SFree 98304] (dealloc_local 65536 98304 s1)"
    by (auto simp: slab48_def intro!: trace.intros slab_step.intros)
  have i: "slot_addr 65536 48 ` {..<n_slots 48} = {98304}" by (auto simp: slot_addr_def geom_simps)
  have "\<not> client_breaks spec_step slab_legal ({98304}, {}, {}) [SAlloc (Some 98304), SFree 98304]"
    by (auto simp: client_breaks_def Cons_eq_append_conv spec_alloc_iff elim!: trace_consE)
  then show ?thesis using slab_refines_spec [OF base_ok_64K _ t] i by (auto simp: geom_simps)
qed

end
