(* ===== verification/Treiber.thy ===== *)
theory Treiber
  imports Slab
begin

text \<open>
  The lock-free lists under interleaving: the remote free list of a slab
  (\<open>TreiberStack::push\<close>, \<open>swap_drain\<close> and \<open>Slab::drain_remote\<close> of \<open>slab.rs\<close>) and the page cache
  of the pool (\<open>cache_slab\<close>, \<open>uncache_slab\<close> of \<open>pool.rs\<close>). Every atomic access and every access
  to a link is one step of one thread; a program counter per thread records where its loop is.
  Steps are executable: \<open>remote_exec e s\<close> is \<open>None\<close> when the event is not enabled.

  A relaxed load may return an outdated head, so the first load of a push returns any value; only
  the compare-exchange is compared with the current head. A weak compare-exchange may fail
  spuriously. The acquiring first load of a pop is taken to return the current head. Whoever holds
  a slot or a page may store into it at any time. The length counter of the page cache is read by
  one relaxed load only, at the beginning of \<open>cache_slab\<close>; as that load returns any value, both
  outcomes of the test are possible in every state (\<open>CachePush\<close> goes on to push, \<open>CacheFull\<close> gives
  the page to \<open>dealloc_slab\<close>), and the updates of the counter need no step.

  The lemmas show that the remote free list neither loses nor duplicates a slot in any
  interleaving, because only the owner takes slots from it and takes all of them. The page cache
  also pops single pages by compare-exchange from any thread: with one popping thread it is safe,
  with two it is not.
\<close>

subsection \<open>The remote free list and its owner\<close>

datatype push_pc = PIdle | Loaded addr addr | Written addr addr

datatype owner_pc = OIdle | OWalk addr

record remote_state =
  rmem :: memory
  rhead :: addr
  rlocal :: addr
  rowner :: owner_pc
  rpc :: "nat \<Rightarrow> push_pc"
  rout :: "addr set"

datatype remote_event =
    PushLoad nat addr addr  \<comment> \<open>thread, slot, value loaded\<close>
  | PushWrite nat
  | PushCas nat bool        \<comment> \<open>thread, spurious failure\<close>
  | Swap
  | Walk
  | WalkEnd
  | PopLocal
  | PushLocal addr
  | UserWrite addr addr     \<comment> \<open>the client stores into an allocated slot\<close>

fun remote_exec :: "remote_event \<Rightarrow> remote_state \<Rightarrow> remote_state option" where
  "remote_exec (PushLoad t slot h) s =
     (if rpc s t = PIdle \<and> slot \<in> rout s \<and> h < 2 ^ 64
      then Some (s\<lparr>rpc := (rpc s)(t := Loaded slot h), rout := rout s - {slot}\<rparr>) else None)"
| "remote_exec (PushWrite t) s =
     (case rpc s t of
        Loaded slot h \<Rightarrow> Some (s\<lparr>rmem := write_next (rmem s) slot h, rpc := (rpc s)(t := Written slot h)\<rparr>)
      | _ \<Rightarrow> None)"
| "remote_exec (PushCas t spurious) s =
     (case rpc s t of
        Written slot h \<Rightarrow>
          if rhead s = h \<and> \<not> spurious
          then Some (s\<lparr>rhead := slot, rpc := (rpc s)(t := PIdle)\<rparr>)
          else Some (s\<lparr>rpc := (rpc s)(t := Loaded slot (rhead s))\<rparr>)
      | _ \<Rightarrow> None)"
| "remote_exec Swap s =
     (if rowner s = OIdle then Some (s\<lparr>rowner := OWalk (rhead s), rhead := null\<rparr>) else None)"
| "remote_exec Walk s =
     (case rowner s of
        OWalk cur \<Rightarrow>
          if cur \<noteq> null
          then Some (s\<lparr>rowner := OWalk (read_next (rmem s) cur),
                       rmem := write_next (rmem s) cur (rlocal s), rlocal := cur\<rparr>)
          else None
      | OIdle \<Rightarrow> None)"
| "remote_exec WalkEnd s = (if rowner s = OWalk null then Some (s\<lparr>rowner := OIdle\<rparr>) else None)"
| "remote_exec PopLocal s =
     (if rowner s = OIdle \<and> rlocal s \<noteq> null
      then Some (s\<lparr>rlocal := read_next (rmem s) (rlocal s), rout := insert (rlocal s) (rout s)\<rparr>)
      else None)"
| "remote_exec (PushLocal slot) s =
     (if rowner s = OIdle \<and> slot \<in> rout s
      then Some (s\<lparr>rmem := write_next (rmem s) slot (rlocal s), rlocal := slot, rout := rout s - {slot}\<rparr>)
      else None)"
| "remote_exec (UserWrite slot v) s =
     (if slot \<in> rout s then Some (s\<lparr>rmem := write_next (rmem s) slot v\<rparr>) else None)"

definition remote_step :: "remote_state \<Rightarrow> remote_event \<Rightarrow> remote_state \<Rightarrow> bool" where
  "remote_step s e s' \<longleftrightarrow> remote_exec e s = Some s'"

fun pc_slot :: "push_pc \<Rightarrow> addr option" where
  "pc_slot PIdle = None"
| "pc_slot (Loaded x h) = Some x"
| "pc_slot (Written x h) = Some x"

definition in_flight :: "remote_state \<Rightarrow> addr set" where
  "in_flight s = {x. \<exists>t. pc_slot (rpc s t) = Some x}"

definition owner_cursor :: "remote_state \<Rightarrow> addr" where
  "owner_cursor s = (case rowner s of OIdle \<Rightarrow> null | OWalk c \<Rightarrow> c)"

definition slots_sep :: "addr set \<Rightarrow> bool" where
  "slots_sep S \<longleftrightarrow> 0 \<notin> S \<and> (\<forall>x \<in> S. x < 2 ^ 64) \<and> (\<forall>x \<in> S. \<forall>y \<in> S. x \<noteq> y \<longrightarrow> apart x y)"

text \<open>
  The invariant: the slots \<open>S\<close> are partitioned into the remote list, the local list, the part of a
  drained chain the owner has still to walk, the slots being pushed, and the allocated slots.
\<close>

definition remote_parts ::
  "addr set \<Rightarrow> remote_state \<Rightarrow> addr list \<Rightarrow> addr list \<Rightarrow> addr list \<Rightarrow> bool" where
  "remote_parts S s rem loc wlk \<longleftrightarrow>
     chain (read_next (rmem s)) (rhead s) rem \<and> chain (read_next (rmem s)) (rlocal s) loc \<and>
     chain (read_next (rmem s)) (owner_cursor s) wlk \<and>
     (\<forall>t u x. pc_slot (rpc s t) = Some x \<longrightarrow> pc_slot (rpc s u) = Some x \<longrightarrow> t = u) \<and>
     (\<forall>t x h. rpc s t = Written x h \<longrightarrow> read_next (rmem s) x = h) \<and>
     (\<forall>t x h. rpc s t = Loaded x h \<longrightarrow> h < 2 ^ 64) \<and>
     distinct (rem @ loc @ wlk) \<and> set (rem @ loc @ wlk) \<inter> in_flight s = {} \<and>
     rout s \<inter> (set (rem @ loc @ wlk) \<union> in_flight s) = {} \<and>
     set (rem @ loc @ wlk) \<union> in_flight s \<union> rout s = S"

definition remote_inv :: "addr set \<Rightarrow> remote_state \<Rightarrow> bool" where
  "remote_inv S s \<longleftrightarrow> (\<exists>rem loc wlk. remote_parts S s rem loc wlk)"

text \<open>Writing the link of a slot that is on no list and belongs to the writer.\<close>

lemma remote_chain_write:
  assumes "slots_sep S" "x \<in> S" "set ys \<subseteq> S" "x \<notin> set ys"
  shows "chain (read_next (write_next m x v)) p ys = chain (read_next m) p ys"
proof (rule chain_write)
  fix y assume "y \<in> set ys"
  then have "y \<in> S" "x \<noteq> y" using assms(3,4) by auto
  then show "apart x y" using assms(1,2) by (simp add: slots_sep_def)
qed

lemma remote_head_bound: "slots_sep S \<Longrightarrow> chain rd p xs \<Longrightarrow> set xs \<subseteq> S \<Longrightarrow> p < 2 ^ 64"
  using chain_head_mem [of rd p xs] by (auto simp: slots_sep_def)

lemma in_flightI: "pc_slot (rpc s t) = Some x \<Longrightarrow> x \<in> in_flight s"
  unfolding in_flight_def by blast

lemma in_flight_cong: "rpc s' = rpc s \<Longrightarrow> in_flight s' = in_flight s"
  by (simp add: in_flight_def)

lemma in_flight_upd:
  assumes "\<forall>t u x. pc_slot (rpc s t) = Some x \<longrightarrow> pc_slot (rpc s u) = Some x \<longrightarrow> t = u"
    and "rpc s' = (rpc s)(t := pc)"
  shows "in_flight s' = (in_flight s - set_option (pc_slot (rpc s t))) \<union> set_option (pc_slot pc)"
proof (rule set_eqI)
  fix x
  have "x \<in> in_flight s' \<longleftrightarrow> pc_slot pc = Some x \<or> (\<exists>u. u \<noteq> t \<and> pc_slot (rpc s u) = Some x)"
    unfolding in_flight_def assms(2) mem_Collect_eq by (metis fun_upd_apply)
  moreover have "(\<exists>u. u \<noteq> t \<and> pc_slot (rpc s u) = Some x) \<longleftrightarrow> x \<in> in_flight s \<and> pc_slot (rpc s t) \<noteq> Some x"
    unfolding in_flight_def mem_Collect_eq using assms(1) by metis
  ultimately show "x \<in> in_flight s' \<longleftrightarrow> x \<in> (in_flight s - set_option (pc_slot (rpc s t))) \<union> set_option (pc_slot pc)"
    by auto
qed

lemma remote_read_write:
  assumes "slots_sep S" "x \<in> S" "y \<in> S" "x \<noteq> y"
  shows "read_next (write_next m x v) y = read_next m y"
  using assms by (intro read_write_next_apart) (simp add: slots_sep_def)

lemma remote_partsD:
  assumes "remote_parts S s rem loc wlk"
  shows "set rem \<subseteq> S" "set loc \<subseteq> S" "set wlk \<subseteq> S" "in_flight s \<subseteq> S" "rout s \<subseteq> S"
  using assms by (auto simp: remote_parts_def)

lemma push_load_parts:
  assumes "remote_parts S s rem loc wlk" "remote_exec (PushLoad t x h) s = Some s'"
  shows "remote_parts S s' rem loc wlk"
proof -
  have s': "rpc s t = PIdle" "x \<in> rout s" "h < 2 ^ 64"
      "s' = s\<lparr>rpc := (rpc s)(t := Loaded x h), rout := rout s - {x}\<rparr>"
    using assms(2) by (auto split: if_splits)
  have "\<forall>t u x. pc_slot (rpc s t) = Some x \<longrightarrow> pc_slot (rpc s u) = Some x \<longrightarrow> t = u"
    using assms(1) by (simp add: remote_parts_def)
  then have fl: "in_flight s' = insert x (in_flight s)"
    using in_flight_upd [of s s' t "Loaded x h"] s'(1,4) by simp
  have nfl: "pc_slot (rpc s u) \<noteq> Some x" for u
    using assms(1) s'(2) in_flightI [of s u x] by (auto simp: remote_parts_def)
  show ?thesis using assms(1) s' nfl unfolding remote_parts_def fl
    by (auto simp: owner_cursor_def)
qed

lemma push_write_parts:
  assumes "slots_sep S" "remote_parts S s rem loc wlk" "remote_exec (PushWrite t) s = Some s'"
  shows "remote_parts S s' rem loc wlk"
proof -
  obtain x h where s': "rpc s t = Loaded x h"
      "s' = s\<lparr>rmem := write_next (rmem s) x h, rpc := (rpc s)(t := Written x h)\<rparr>"
    using assms(3) by (auto split: push_pc.splits)
  have xf: "x \<in> in_flight s" using s'(1) by (intro in_flightI [of s t]) simp
  have "\<forall>t u x. pc_slot (rpc s t) = Some x \<longrightarrow> pc_slot (rpc s u) = Some x \<longrightarrow> t = u"
    using assms(2) by (simp add: remote_parts_def)
  then have fl: "in_flight s' = in_flight s"
    using in_flight_upd [of s s' t "Written x h"] s' xf by auto
  have xS: "x \<in> S" "x \<notin> set (rem @ loc @ wlk)" using xf assms(2) by (auto simp: remote_parts_def)
  note D = remote_partsD [OF assms(2)]
  have ch: "chain (read_next (rmem s')) p ys = chain (read_next (rmem s)) p ys"
    if "ys = rem \<or> ys = loc \<or> ys = wlk" for p ys
    using remote_chain_write [OF assms(1) xS(1)] xS(2) D that by (auto simp: s'(2))
  have h: "h < 2 ^ 64" using s'(1) assms(2) by (simp add: remote_parts_def)
  have wr: "read_next (rmem s') y = k" if "rpc s' u = Written y k" for u y k
  proof (cases "u = t")
    case True
    then show ?thesis using that s' h by (simp add: read_write_next)
  next
    case False
    then have old: "rpc s u = Written y k" using that s' by simp
    then have "y \<noteq> x" using False s'(1) assms(2) unfolding remote_parts_def by (metis pc_slot.simps(2,3))
    moreover have "y \<in> S" using old D(4) in_flightI [of s u y] by auto
    ultimately show ?thesis using old assms(2) remote_read_write [OF assms(1) xS(1)] s'(2)
      by (simp add: remote_parts_def)
  qed
  show ?thesis using assms(2) ch wr s' unfolding remote_parts_def fl
    by (auto simp: owner_cursor_def)
qed

lemma push_cas_parts:
  assumes "slots_sep S" "remote_parts S s rem loc wlk" "remote_exec (PushCas t b) s = Some s'"
  shows "\<exists>rem'. remote_parts S s' rem' loc wlk"
proof -
  obtain x h where x: "rpc s t = Written x h" using assms(3) by (auto split: push_pc.splits)
  have xf: "x \<in> in_flight s" using x by (intro in_flightI [of s t]) simp
  have inj: "\<forall>t u x. pc_slot (rpc s t) = Some x \<longrightarrow> pc_slot (rpc s u) = Some x \<longrightarrow> t = u"
    using assms(2) by (simp add: remote_parts_def)
  show ?thesis
  proof (cases "rhead s = h \<and> \<not> b")
    case True
    then have s': "s' = s\<lparr>rhead := x, rpc := (rpc s)(t := PIdle)\<rparr>" using x assms(3) by simp
    have fl: "in_flight s' = in_flight s - {x}"
      using in_flight_upd [OF inj, of s' t PIdle] x by (simp add: s')
    have "read_next (rmem s) x = h" "x \<noteq> 0"
      using x assms(1,2) xf remote_partsD(4) [OF assms(2)] by (auto simp: remote_parts_def slots_sep_def)
    then have "remote_parts S s' (x # rem) loc wlk"
      using assms(2) xf True unfolding remote_parts_def fl by (auto simp: s' owner_cursor_def)
    then show ?thesis ..
  next
    case False
    then have s': "s' = s\<lparr>rpc := (rpc s)(t := Loaded x (rhead s))\<rparr>"
      using x assms(3) by (auto split: if_splits)
    have fl: "in_flight s' = in_flight s"
      using in_flight_upd [OF inj, of s' t "Loaded x (rhead s)"] x xf by (auto simp: s')
    have "rhead s < 2 ^ 64"
      using remote_head_bound [OF assms(1)] remote_partsD(1) [OF assms(2)] assms(2)
      by (auto simp: remote_parts_def)
    then have "remote_parts S s' rem loc wlk"
      using assms(2) x unfolding remote_parts_def fl by (auto simp: s' owner_cursor_def)
    then show ?thesis ..
  qed
qed

lemma owner_parts:
  assumes "slots_sep S" "remote_parts S s rem loc wlk" "remote_exec e s = Some s'"
    "e = Swap \<or> e = WalkEnd \<or> e = PopLocal"
  shows "\<exists>rem' loc' wlk'. remote_parts S s' rem' loc' wlk'"
proof -
  have fl: "in_flight s' = in_flight s" using assms(3,4) by (intro in_flight_cong) (auto split: if_splits)
  consider "e = Swap" | "e = WalkEnd" | "e = PopLocal" using assms(4) by blast
  then show ?thesis
  proof cases
    case 1
    then have "remote_parts S s' [] loc rem"
      using assms(2,3) unfolding remote_parts_def fl by (auto simp: owner_cursor_def split: if_splits)
    then show ?thesis by blast
  next
    case 2
    then have "remote_parts S s' rem loc wlk"
      using assms(2,3) unfolding remote_parts_def fl by (auto simp: owner_cursor_def split: if_splits)
    then show ?thesis by blast
  next
    case 3
    then have "rlocal s \<noteq> 0" using assms(3) by (auto split: if_splits)
    then obtain loc' where "loc = rlocal s # loc'" using assms(2) by (auto simp: remote_parts_def chain_nonnull)
    then have "remote_parts S s' rem loc' wlk"
      using assms(2,3) 3 unfolding remote_parts_def fl by (auto simp: owner_cursor_def split: if_splits)
    then show ?thesis by blast
  qed
qed

text \<open>The owner's two writes push a slot it holds onto the local list.\<close>

lemma owner_push_parts:
  assumes sep: "slots_sep S" and P: "remote_parts S s rem loc wlk"
    and x: "x \<in> S" "x \<notin> set rem" "x \<notin> set loc" "x \<notin> in_flight s" "x \<notin> set wlk'"
    and w: "chain (read_next (rmem s)) (owner_cursor s') wlk'" "set wlk' \<subseteq> set wlk"
    and s': "rmem s' = write_next (rmem s) x (rlocal s)" "rlocal s' = x" "rhead s' = rhead s" "rpc s' = rpc s"
    and part: "insert x (set wlk' \<union> rout s') = set wlk \<union> rout s" "rout s' \<inter> insert x (set wlk') = {}"
      "rout s' \<subseteq> rout s"
  shows "remote_parts S s' rem (x # loc) wlk'"
proof -
  note D = remote_partsD [OF P]
  have fl: "in_flight s' = in_flight s" using s'(4) by (simp add: in_flight_def)
  have ch: "chain (read_next (rmem s')) p ys = chain (read_next (rmem s)) p ys"
    if "set ys \<subseteq> S" "x \<notin> set ys" for p ys
    using remote_chain_write [OF sep x(1) that] by (simp add: s'(1))
  have "rlocal s < 2 ^ 64" using remote_head_bound [OF sep _ D(2)] P by (auto simp: remote_parts_def)
  then have rd: "read_next (rmem s') x = rlocal s" by (simp add: s'(1) read_write_next)
  have "x \<noteq> 0" using sep x(1) by (metis slots_sep_def)
  then have loc: "chain (read_next (rmem s')) (rlocal s') (x # loc)"
    using ch [OF D(2) x(3)] rd P s'(2) by (simp add: remote_parts_def)
  have wr: "read_next (rmem s') y = h" if "rpc s' t = Written y h" for t y h
  proof -
    have y: "y \<in> in_flight s" "read_next (rmem s) y = h"
      using that s'(4) P in_flightI [of s t y] by (simp_all add: remote_parts_def)
    then have "x \<noteq> y" "y \<in> S" using x(4) D(4) by auto
    then show ?thesis using y(2) remote_read_write [OF sep x(1)] by (simp add: s'(1))
  qed
  have dw: "distinct wlk'" using chain_distinct [OF w(1)] .
  have rem: "chain (read_next (rmem s')) (rhead s') rem"
    using ch [OF D(1) x(2)] P by (simp add: s'(3) remote_parts_def)
  have wlk: "chain (read_next (rmem s')) (owner_cursor s') wlk'"
    using ch [of wlk'] x(5) w D(3) by auto
  have "distinct (rem @ (x # loc) @ wlk')" using P x w(2) dw by (auto simp: remote_parts_def)
  moreover have "set (rem @ (x # loc) @ wlk') \<inter> in_flight s = {}" using P x(4) w(2) by (auto simp: remote_parts_def)
  moreover have "rout s' \<inter> (set (rem @ (x # loc) @ wlk') \<union> in_flight s) = {}"
    using P part(2,3) by (auto simp: remote_parts_def)
  moreover have "set (rem @ (x # loc) @ wlk') \<union> in_flight s \<union> rout s' =
      set rem \<union> set loc \<union> in_flight s \<union> insert x (set wlk' \<union> rout s')" by auto
  then have "set (rem @ (x # loc) @ wlk') \<union> in_flight s \<union> rout s' = S"
    unfolding part(1) using P by (auto simp: remote_parts_def)
  ultimately show ?thesis using rem loc wlk wr P unfolding remote_parts_def fl s'(4) by blast
qed

lemma user_write_parts:
  assumes sep: "slots_sep S" and P: "remote_parts S s rem loc wlk"
    and ex: "remote_exec (UserWrite x v) s = Some s'"
  shows "remote_parts S s' rem loc wlk"
proof -
  have s': "x \<in> rout s" "s' = s\<lparr>rmem := write_next (rmem s) x v\<rparr>" using ex by (auto split: if_splits)
  note D = remote_partsD [OF P]
  have x: "x \<in> S" "x \<notin> set (rem @ loc @ wlk)" "x \<notin> in_flight s"
    using s'(1) P by (auto simp: remote_parts_def)
  have ch: "chain (read_next (rmem s')) p ys = chain (read_next (rmem s)) p ys"
    if "ys = rem \<or> ys = loc \<or> ys = wlk" for p ys
    using remote_chain_write [OF sep x(1)] x(2) D that by (auto simp: s'(2))
  have wr: "read_next (rmem s') y = k" if "rpc s u = Written y k" for u y k
  proof -
    have "y \<in> in_flight s" using that by (intro in_flightI [of s u]) simp
    then have "y \<in> S" "x \<noteq> y" using D(4) x(3) by auto
    then have "read_next (rmem s') y = read_next (rmem s) y"
      using remote_read_write [OF sep x(1)] by (simp add: s'(2))
    then show ?thesis using P that by (simp add: remote_parts_def)
  qed
  have fl: "in_flight s' = in_flight s" by (simp add: in_flight_def s'(2))
  show ?thesis using P ch wr unfolding remote_parts_def fl by (auto simp: s'(2) owner_cursor_def)
qed

lemma remote_step_inv:
  assumes sep: "slots_sep S" and P: "remote_inv S s" and st: "remote_step s e s'"
  shows "remote_inv S s'"
proof -
  obtain rem loc wlk where parts: "remote_parts S s rem loc wlk" using P by (auto simp: remote_inv_def)
  have ex: "remote_exec e s = Some s'" using st by (simp add: remote_step_def)
  show ?thesis
  proof (cases e)
    case (PushLoad t x h)
    then show ?thesis using push_load_parts [OF parts, of t x h s'] ex unfolding remote_inv_def by blast
  next
    case (PushWrite t)
    then show ?thesis using push_write_parts [OF sep parts, of t s'] ex unfolding remote_inv_def by blast
  next
    case (PushCas t b)
    then show ?thesis using push_cas_parts [OF sep parts, of t b s'] ex unfolding remote_inv_def by blast
  next
    case (UserWrite x v)
    then show ?thesis using user_write_parts [OF sep parts, of x v s'] ex unfolding remote_inv_def by blast
  next
    case Walk
    then obtain cur where cur: "rowner s = OWalk cur" "cur \<noteq> 0"
        "s' = s\<lparr>rowner := OWalk (read_next (rmem s) cur),
                rmem := write_next (rmem s) cur (rlocal s), rlocal := cur\<rparr>"
      using ex by (auto split: owner_pc.splits if_splits)
    then obtain w where w: "wlk = cur # w" "chain (read_next (rmem s)) (read_next (rmem s) cur) w"
      using parts by (auto simp: remote_parts_def owner_cursor_def chain_nonnull)
    have "remote_parts S s' rem (cur # loc) w"
      using parts w cur by (intro owner_push_parts [OF sep parts]) (auto simp: remote_parts_def owner_cursor_def)
    then show ?thesis by (auto simp: remote_inv_def)
  next
    case (PushLocal x)
    then have s': "rowner s = OIdle" "x \<in> rout s"
        "s' = s\<lparr>rmem := write_next (rmem s) x (rlocal s), rlocal := x, rout := rout s - {x}\<rparr>"
      using ex by (auto split: if_splits)
    then have "wlk = []" using parts by (simp add: remote_parts_def owner_cursor_def)
    then have "remote_parts S s' rem (x # loc) []"
      using parts s' by (intro owner_push_parts [OF sep parts]) (auto simp: remote_parts_def owner_cursor_def)
    then show ?thesis by (auto simp: remote_inv_def)
  qed (use owner_parts [OF sep parts ex] in \<open>auto simp: remote_inv_def\<close>)
qed

text \<open>A quiescent starting state: every slot of \<open>S\<close> allocated, all lists empty.\<close>

definition remote_init :: "memory \<Rightarrow> addr set \<Rightarrow> remote_state" where
  "remote_init m S = \<lparr>rmem = m, rhead = null, rlocal = null, rowner = OIdle, rpc = (\<lambda>_. PIdle), rout = S\<rparr>"

lemma remote_init_inv: "remote_inv S (remote_init m S)"
proof -
  have "remote_parts S (remote_init m S) [] [] []"
    by (simp add: remote_parts_def remote_init_def in_flight_def owner_cursor_def)
  then show ?thesis unfolding remote_inv_def by blast
qed

lemma remote_reachable_inv:
  assumes "slots_sep S" "trace remote_step (remote_init m S) es s"
  shows "remote_inv S s"
  by (rule trace_invariant [where P = "remote_inv S", OF assms(2) remote_init_inv])
    (rule remote_step_inv [OF assms(1)])

subsection \<open>The page cache of the pool\<close>

datatype cache_pc =
    CIdle
  | CPush addr addr    \<comment> \<open>page to push, head loaded\<close>
  | CPushed addr addr  \<comment> \<open>link written\<close>
  | CPop addr          \<comment> \<open>head loaded, not null\<close>
  | CPopNext addr addr \<comment> \<open>head loaded, its link read\<close>

record cache_state =
  cmem :: memory
  chead :: addr
  cpc :: "nat \<Rightarrow> cache_pc"
  cowned :: "nat \<Rightarrow> addr set"

datatype cache_event =
    CachePush nat addr addr  \<comment> \<open>thread, page, value loaded\<close>
  | CacheFull nat addr
  | CacheWrite nat
  | CachePushCas nat bool
  | UncacheLoad nat
  | UncacheNext nat
  | UncacheCas nat bool
  | OwnerWrite nat addr addr  \<comment> \<open>the owner stores into its page\<close>

definition load_pc :: "addr \<Rightarrow> cache_pc" where
  "load_pc h = (if h = null then CIdle else CPop h)"

fun cache_exec :: "cache_event \<Rightarrow> cache_state \<Rightarrow> cache_state option" where
  "cache_exec (CachePush t p h) s =
     (if cpc s t = CIdle \<and> p \<in> cowned s t \<and> h < 2 ^ 64
      then Some (s\<lparr>cpc := (cpc s)(t := CPush p h), cowned := (cowned s)(t := cowned s t - {p})\<rparr>)
      else None)"
| "cache_exec (CacheFull t p) s =
     (if cpc s t = CIdle \<and> p \<in> cowned s t
      then Some (s\<lparr>cowned := (cowned s)(t := cowned s t - {p})\<rparr>)
      else None)"
| "cache_exec (CacheWrite t) s =
     (case cpc s t of
        CPush p h \<Rightarrow> Some (s\<lparr>cmem := write_next (cmem s) p h, cpc := (cpc s)(t := CPushed p h)\<rparr>)
      | _ \<Rightarrow> None)"
| "cache_exec (CachePushCas t spurious) s =
     (case cpc s t of
        CPushed p h \<Rightarrow>
          if chead s = h \<and> \<not> spurious
          then Some (s\<lparr>chead := p, cpc := (cpc s)(t := CIdle)\<rparr>)
          else Some (s\<lparr>cpc := (cpc s)(t := CPush p (chead s))\<rparr>)
      | _ \<Rightarrow> None)"
| "cache_exec (UncacheLoad t) s =
     (if cpc s t = CIdle then Some (s\<lparr>cpc := (cpc s)(t := load_pc (chead s))\<rparr>) else None)"
| "cache_exec (UncacheNext t) s =
     (case cpc s t of
        CPop h \<Rightarrow> Some (s\<lparr>cpc := (cpc s)(t := CPopNext h (read_next (cmem s) h))\<rparr>)
      | _ \<Rightarrow> None)"
| "cache_exec (UncacheCas t spurious) s =
     (case cpc s t of
        CPopNext h n \<Rightarrow>
          if chead s = h \<and> \<not> spurious
          then Some (s\<lparr>chead := n, cpc := (cpc s)(t := CIdle), cowned := (cowned s)(t := insert h (cowned s t))\<rparr>)
          else Some (s\<lparr>cpc := (cpc s)(t := load_pc (chead s))\<rparr>)
      | _ \<Rightarrow> None)"
| "cache_exec (OwnerWrite t p v) s =
     (if p \<in> cowned s t then Some (s\<lparr>cmem := write_next (cmem s) p v\<rparr>) else None)"

definition cache_step :: "cache_state \<Rightarrow> cache_event \<Rightarrow> cache_state \<Rightarrow> bool" where
  "cache_step s e s' \<longleftrightarrow> cache_exec e s = Some s'"

lemma cache_run_trace: "exec_run cache_exec es s = Some s' \<Longrightarrow> trace cache_step s es s'"
  unfolding cache_step_def by (rule exec_run_trace)

text \<open>The cache is empty and every thread owns some pages.\<close>

definition cache_init :: "memory \<Rightarrow> (nat \<Rightarrow> addr set) \<Rightarrow> cache_state" where
  "cache_init m own = \<lparr>cmem = m, chead = null, cpc = (\<lambda>_. CIdle), cowned = own\<rparr>"

subsection \<open>One popping thread\<close>

fun pops_only :: "nat \<Rightarrow> cache_event \<Rightarrow> bool" where
  "pops_only t (UncacheLoad u) = (u = t)"
| "pops_only t (UncacheNext u) = (u = t)"
| "pops_only t (UncacheCas u b) = (u = t)"
| "pops_only t _ = True"

fun push_page :: "cache_pc \<Rightarrow> addr option" where
  "push_page (CPush p h) = Some p"
| "push_page (CPushed p h) = Some p"
| "push_page _ = None"

definition pushing :: "cache_state \<Rightarrow> addr set" where
  "pushing s = {x. \<exists>t. push_page (cpc s t) = Some x}"

definition pop_ok :: "cache_state \<Rightarrow> addr list \<Rightarrow> cache_pc \<Rightarrow> bool" where
  "pop_ok s st pc = (case pc of
      CPop h \<Rightarrow> h \<in> set st
    | CPopNext h n \<Rightarrow> h \<in> set st \<and> read_next (cmem s) h = n
    | CPushed p h \<Rightarrow> read_next (cmem s) p = h
    | CPush p h \<Rightarrow> h < 2 ^ 64
    | CIdle \<Rightarrow> True)"

definition is_pop :: "cache_pc \<Rightarrow> bool" where
  "is_pop pc = (case pc of CPop _ \<Rightarrow> True | CPopNext _ _ \<Rightarrow> True | _ \<Rightarrow> False)"

definition cache_parts :: "nat \<Rightarrow> addr set \<Rightarrow> cache_state \<Rightarrow> addr list \<Rightarrow> bool" where
  "cache_parts popper S s st \<longleftrightarrow>
     chain (read_next (cmem s)) (chead s) st \<and> set st \<union> pushing s \<subseteq> S \<and> set st \<inter> pushing s = {} \<and>
     (\<forall>t x. x \<in> cowned s t \<longrightarrow> x \<in> S \<and> x \<notin> set st \<and> x \<notin> pushing s \<and> (\<forall>u. x \<in> cowned s u \<longrightarrow> u = t)) \<and>
     (\<forall>t u x. push_page (cpc s t) = Some x \<longrightarrow> push_page (cpc s u) = Some x \<longrightarrow> t = u) \<and>
     (\<forall>t. pop_ok s st (cpc s t)) \<and> (\<forall>t. is_pop (cpc s t) \<longrightarrow> t = popper)"

lemma pushingI: "push_page (cpc s t) = Some x \<Longrightarrow> x \<in> pushing s"
  unfolding pushing_def by blast

lemma pushing_upd:
  assumes "\<forall>t u x. push_page (cpc s t) = Some x \<longrightarrow> push_page (cpc s u) = Some x \<longrightarrow> t = u"
    and "cpc s' = (cpc s)(t := pc)"
  shows "pushing s' = (pushing s - set_option (push_page (cpc s t))) \<union> set_option (push_page pc)"
proof (rule set_eqI)
  fix x
  have "x \<in> pushing s' \<longleftrightarrow> push_page pc = Some x \<or> (\<exists>u. u \<noteq> t \<and> push_page (cpc s u) = Some x)"
    unfolding pushing_def assms(2) mem_Collect_eq by (metis fun_upd_apply)
  moreover have "(\<exists>u. u \<noteq> t \<and> push_page (cpc s u) = Some x) \<longleftrightarrow> x \<in> pushing s \<and> push_page (cpc s t) \<noteq> Some x"
    unfolding pushing_def mem_Collect_eq using assms(1) by metis
  ultimately show "x \<in> pushing s' \<longleftrightarrow> x \<in> (pushing s - set_option (push_page (cpc s t))) \<union> set_option (push_page pc)"
    by auto
qed

text \<open>The invariant after a step that changes one program counter and no memory.\<close>

lemma cache_partsI:
  assumes P: "cache_parts w S s st" and pc: "cpc s' = (cpc s)(t := pc)" and m: "cmem s' = cmem s"
    and ch: "chain (read_next (cmem s)) (chead s') st'"
    and part: "set st' \<union> pushing s' \<subseteq> S" "set st' \<inter> pushing s' = {}"
      "\<forall>t x. x \<in> cowned s' t \<longrightarrow> x \<in> S \<and> x \<notin> set st' \<and> x \<notin> pushing s' \<and> (\<forall>u. x \<in> cowned s' u \<longrightarrow> u = t)"
    and new: "\<And>u x. push_page pc = Some x \<Longrightarrow> u \<noteq> t \<Longrightarrow> push_page (cpc s u) \<noteq> Some x"
    and ok: "pop_ok s st' pc" "is_pop pc \<Longrightarrow> t = w"
    and others: "\<And>u h. u \<noteq> t \<Longrightarrow> is_pop (cpc s u) \<Longrightarrow> h \<in> set st \<Longrightarrow> h \<in> set st'"
  shows "cache_parts w S s' st'"
proof -
  have pop: "pop_ok s' st' (cpc s' u)" for u
  proof (cases "u = t")
    case True
    then show ?thesis using ok(1) by (simp add: pc pop_ok_def m split: cache_pc.splits)
  next
    case False
    then have "pop_ok s st (cpc s u)" using P by (simp add: cache_parts_def)
    then show ?thesis using others [OF False] False
      by (auto simp: pc pop_ok_def m is_pop_def split: cache_pc.splits)
  qed
  have inj: "\<forall>a b x. push_page (cpc s' a) = Some x \<longrightarrow> push_page (cpc s' b) = Some x \<longrightarrow> a = b"
  proof (intro allI impI)
    fix a b x
    assume A: "push_page (cpc s' a) = Some x" and B: "push_page (cpc s' b) = Some x"
    have old: "push_page (cpc s a) = Some x \<Longrightarrow> push_page (cpc s b) = Some x \<Longrightarrow> a = b"
      using P unfolding cache_parts_def by blast
    show "a = b" using A B new [of x a] new [of x b] old
      by (cases "a = t"; cases "b = t") (simp_all add: pc)
  qed
  have "\<forall>u. is_pop (cpc s' u) \<longrightarrow> u = w" using P ok(2) by (simp add: cache_parts_def pc)
  then show ?thesis using ch part pop inj by (simp add: cache_parts_def m)
qed

lemma cache_partsD:
  assumes "cache_parts w S s st"
  shows "chain (read_next (cmem s)) (chead s) st" "set st \<subseteq> S" "pushing s \<subseteq> S"
    "\<forall>t u x. push_page (cpc s t) = Some x \<longrightarrow> push_page (cpc s u) = Some x \<longrightarrow> t = u"
    "pop_ok s st (cpc s t)" "is_pop (cpc s t) \<Longrightarrow> t = w" "chead s = 0 \<or> chead s \<in> set st"
    "cowned s t \<inter> (set st \<union> pushing s) = {}" "cowned s t \<subseteq> S"
  using assms chain_head_mem [of "read_next (cmem s)" "chead s" st] by (auto simp: cache_parts_def)

lemma cache_head_bound: "slots_sep S \<Longrightarrow> cache_parts w S s st \<Longrightarrow> chead s < 2 ^ 64"
  using remote_head_bound cache_partsD(1,2) by blast

lemma cache_push_parts:
  assumes sep: "slots_sep S" and P: "cache_parts w S s st" and ex: "cache_exec (CachePush t p h) s = Some s'"
  shows "\<exists>st'. cache_parts w S s' st'"
proof -
  note ch = cache_partsD(1) [OF P] and stS = cache_partsD(2) [OF P] and inj = cache_partsD(4) [OF P]
    and pop = cache_partsD(5) [OF P] and hdm = cache_partsD(7) [OF P] and hd = cache_head_bound [OF sep P]
  from ex have s': "cpc s t = CIdle" "p \<in> cowned s t" "h < 2 ^ 64" "s' = s\<lparr>cpc := (cpc s)(t := CPush p h),
      cowned := (cowned s)(t := cowned s t - {p})\<rparr>" using ex by (auto split: if_splits)
  have fl: "pushing s' = insert p (pushing s)"
    using pushing_upd [OF inj, of s' t "CPush p h"] s' by simp
  have "push_page (cpc s u) \<noteq> Some p" for u
    using cache_partsD(8) [OF P, of t] s'(2) pushingI [of s u p] by blast
  then have "cache_parts w S s' st" using P s' fl ch
    by (intro cache_partsI [OF P, of s' t "CPush p h"])
      (auto simp: cache_parts_def pop_ok_def is_pop_def)
  then show ?thesis ..
qed

lemma cache_full_parts:
  assumes P: "cache_parts w S s st" and ex: "cache_exec (CacheFull t p) s = Some s'"
  shows "\<exists>st'. cache_parts w S s' st'"
proof -
  have s': "s' = s\<lparr>cowned := (cowned s)(t := cowned s t - {p})\<rparr>" using ex by (auto split: if_splits)
  have "pushing s' = pushing s" "\<And>u. pop_ok s' st (cpc s u) = pop_ok s st (cpc s u)"
    by (simp_all add: pushing_def pop_ok_def s' split: cache_pc.splits)
  then have "cache_parts w S s' st" using P unfolding cache_parts_def by (auto simp: s')
  then show ?thesis ..
qed

lemma cache_write_parts:
  assumes sep: "slots_sep S" and P: "cache_parts w S s st" and ex: "cache_exec (CacheWrite t) s = Some s'"
  shows "\<exists>st'. cache_parts w S s' st'"
proof -
  note ch = cache_partsD(1) [OF P] and stS = cache_partsD(2) [OF P] and inj = cache_partsD(4) [OF P]
    and pop = cache_partsD(5) [OF P] and hdm = cache_partsD(7) [OF P] and hd = cache_head_bound [OF sep P]
  from ex obtain p h where s': "cpc s t = CPush p h" "s' = s\<lparr>cmem := write_next (cmem s) p h,
      cpc := (cpc s)(t := CPushed p h)\<rparr>" using ex by (auto split: cache_pc.splits)
  have fl: "pushing s' = pushing s" "p \<in> pushing s"
    using pushing_upd [OF inj, of s' t "CPushed p h"] s' pushingI [of s t p] by auto
  have pS: "p \<in> S" "p \<notin> set st" using fl(2) P by (auto simp: cache_parts_def)
  have rd: "read_next (cmem s') y = read_next (cmem s) y" if "y \<in> S" "y \<noteq> p" for y
    using remote_read_write [OF sep pS(1) that(1)] that(2) s'(2) by auto
  have "chain (read_next (cmem s')) (chead s') st"
    using remote_chain_write [OF sep pS(1) stS pS(2)] ch s'(2) by simp
  moreover have "pop_ok s' st (cpc s' u)" for u
  proof (cases "u = t")
    case True
    have "h < 2 ^ 64" using pop [of t] s'(1) by (simp add: pop_ok_def)
    then show ?thesis using True s'(2) by (simp add: pop_ok_def read_write_next)
  next
    case False
    have q: "q \<noteq> p \<and> q \<in> S" if "push_page (cpc s u) = Some q" for q
    proof
      have "push_page (cpc s t) = Some p" using s'(1) by simp
      then show "q \<noteq> p" using that False inj by blast
      show "q \<in> S" using pushingI [OF that] cache_partsD(3) [OF P] by blast
    qed
    have r: "y \<noteq> p \<and> y \<in> S" if "y \<in> set st" for y using that pS(2) stS by auto
    show ?thesis using False s'(2) pop [of u] q r rd by (auto simp: pop_ok_def split: cache_pc.splits)
  qed
  moreover have "\<forall>a b x. push_page (cpc s' a) = Some x \<longrightarrow> push_page (cpc s' b) = Some x \<longrightarrow> a = b"
  proof -
    have "push_page (cpc s' a) = push_page (cpc s a)" for a using s' by simp
    then show ?thesis using inj by simp
  qed
  moreover have "is_pop (cpc s' u) \<longrightarrow> u = w" for u
    using P s' by (auto simp: cache_parts_def is_pop_def)
  moreover have "\<forall>t x. x \<in> cowned s' t \<longrightarrow> x \<in> S \<and> x \<notin> set st \<and> x \<notin> pushing s \<and> (\<forall>u. x \<in> cowned s' u \<longrightarrow> u = t)"
    using P s'(2) unfolding cache_parts_def by simp
  moreover have "set st \<union> pushing s \<subseteq> S" "set st \<inter> pushing s = {}" using P by (auto simp: cache_parts_def)
  ultimately have "cache_parts w S s' st" unfolding cache_parts_def fl(1) by blast
  then show ?thesis ..
qed

lemma owner_write_parts:
  assumes sep: "slots_sep S" and P: "cache_parts w S s st" and ex: "cache_exec (OwnerWrite t p v) s = Some s'"
  shows "\<exists>st'. cache_parts w S s' st'"
proof -
  note stS = cache_partsD(2) [OF P]
  have s': "p \<in> cowned s t" "s' = s\<lparr>cmem := write_next (cmem s) p v\<rparr>" using ex by (auto split: if_splits)
  have p: "p \<in> S" "p \<notin> set st" "p \<notin> pushing s" using P s'(1) by (auto simp: cache_parts_def)
  have rd: "read_next (cmem s') y = read_next (cmem s) y" if "y \<in> S" "y \<noteq> p" for y
    using remote_read_write [OF sep p(1) that(1)] that(2) s'(2) by auto
  have ch: "chain (read_next (cmem s')) (chead s) st"
    using remote_chain_write [OF sep p(1) stS p(2)] cache_partsD(1) [OF P] s'(2) by simp
  have pop: "pop_ok s' st (cpc s u)" for u
  proof -
    have q: "q \<noteq> p \<and> q \<in> S" if "push_page (cpc s u) = Some q" for q
      using pushingI [OF that] cache_partsD(3) [OF P] p(3) by blast
    have r: "y \<noteq> p \<and> y \<in> S" if "y \<in> set st" for y using that p(2) stS by auto
    show ?thesis using cache_partsD(5) [OF P, of u] q r rd by (auto simp: pop_ok_def split: cache_pc.splits)
  qed
  have fl: "pushing s' = pushing s" by (simp add: pushing_def s'(2))
  have "cache_parts w S s' st" using P ch pop s'(2) unfolding cache_parts_def fl by auto
  then show ?thesis ..
qed

lemma cache_push_cas_parts:
  assumes sep: "slots_sep S" and P: "cache_parts w S s st" and ex: "cache_exec (CachePushCas t b) s = Some s'"
  shows "\<exists>st'. cache_parts w S s' st'"
proof -
  note ch = cache_partsD(1) [OF P] and stS = cache_partsD(2) [OF P] and inj = cache_partsD(4) [OF P]
    and pop = cache_partsD(5) [OF P] and hdm = cache_partsD(7) [OF P] and hd = cache_head_bound [OF sep P]
  from ex obtain p h where p: "cpc s t = CPushed p h" using ex by (auto split: cache_pc.splits)
  have pf: "p \<in> pushing s" using pushingI [of s t p] p by simp
  show ?thesis
  proof (cases "chead s = h \<and> \<not> b")
    case True
    then have s': "s' = s\<lparr>chead := p, cpc := (cpc s)(t := CIdle)\<rparr>" using ex p by simp
    have fl: "pushing s' = pushing s - {p}" using pushing_upd [OF inj, of s' t CIdle] p s' by simp
    have "p \<noteq> 0" "p \<in> S" using P pf sep by (auto simp: cache_parts_def slots_sep_def)
    moreover have "read_next (cmem s) p = chead s" using pop [of t] p True by (simp add: pop_ok_def)
    ultimately have "cache_parts w S s' (p # st)" using P s' fl pf ch
      by (intro cache_partsI [OF P, of s' t CIdle]) (auto simp: cache_parts_def pop_ok_def is_pop_def)
    then show ?thesis ..
  next
    case False
    then have s': "s' = s\<lparr>cpc := (cpc s)(t := CPush p (chead s))\<rparr>"
      using ex p by (auto split: if_splits)
    have fl: "pushing s' = pushing s"
      using pushing_upd [OF inj, of s' t "CPush p (chead s)"] p s' pf by auto
    have "push_page (cpc s u) \<noteq> Some p" if "u \<noteq> t" for u using inj p that by (metis push_page.simps(2))
    then have "cache_parts w S s' st" using P s' fl hd ch
      by (intro cache_partsI [OF P, of s' t "CPush p (chead s)"])
        (auto simp: cache_parts_def pop_ok_def is_pop_def)
    then show ?thesis ..
  qed
qed

lemma uncache_load_parts:
  assumes sep: "slots_sep S" and P: "cache_parts w S s st" and ex: "cache_exec (UncacheLoad t) s = Some s'"
    and only: "t = w"
  shows "\<exists>st'. cache_parts w S s' st'"
proof -
  note ch = cache_partsD(1) [OF P] and stS = cache_partsD(2) [OF P] and inj = cache_partsD(4) [OF P]
    and pop = cache_partsD(5) [OF P] and hdm = cache_partsD(7) [OF P] and hd = cache_head_bound [OF sep P]
  from ex have s': "cpc s t = CIdle" "t = w" "s' = s\<lparr>cpc := (cpc s)(t := load_pc (chead s))\<rparr>"
    using ex only by (auto split: if_splits)
  have fl: "pushing s' = pushing s"
    using pushing_upd [OF inj, of s' t "load_pc (chead s)"] s' by (simp add: load_pc_def)
  have "cache_parts w S s' st" using P s' fl hdm ch
    by (intro cache_partsI [OF P, of s' t "load_pc (chead s)"])
      (auto simp: cache_parts_def pop_ok_def is_pop_def load_pc_def split: if_splits)
  then show ?thesis ..
qed

lemma uncache_next_parts:
  assumes sep: "slots_sep S" and P: "cache_parts w S s st" and ex: "cache_exec (UncacheNext t) s = Some s'"
    and only: "t = w"
  shows "\<exists>st'. cache_parts w S s' st'"
proof -
  note ch = cache_partsD(1) [OF P] and stS = cache_partsD(2) [OF P] and inj = cache_partsD(4) [OF P]
    and pop = cache_partsD(5) [OF P] and hdm = cache_partsD(7) [OF P] and hd = cache_head_bound [OF sep P]
  from ex obtain h where s': "cpc s t = CPop h" "t = w"
      "s' = s\<lparr>cpc := (cpc s)(t := CPopNext h (read_next (cmem s) h))\<rparr>"
    using ex only by (auto split: cache_pc.splits)
  have fl: "pushing s' = pushing s"
    using pushing_upd [OF inj, of s' t "CPopNext h (read_next (cmem s) h)"] s' by simp
  have "cache_parts w S s' st" using P s' fl ch pop [of t]
    by (intro cache_partsI [OF P, of s' t "CPopNext h (read_next (cmem s) h)"])
      (auto simp: cache_parts_def pop_ok_def is_pop_def)
  then show ?thesis ..
qed

lemma uncache_cas_parts:
  assumes sep: "slots_sep S" and P: "cache_parts w S s st" and ex: "cache_exec (UncacheCas t b) s = Some s'"
    and only: "t = w"
  shows "\<exists>st'. cache_parts w S s' st'"
proof -
  note ch = cache_partsD(1) [OF P] and stS = cache_partsD(2) [OF P] and inj = cache_partsD(4) [OF P]
    and pop = cache_partsD(5) [OF P] and hdm = cache_partsD(7) [OF P] and hd = cache_head_bound [OF sep P]
  from ex obtain h n where p: "cpc s t = CPopNext h n" "t = w" using ex only by (auto split: cache_pc.splits)
  show ?thesis
  proof (cases "chead s = h \<and> \<not> b")
    case True
    then have s': "s' = s\<lparr>chead := n, cpc := (cpc s)(t := CIdle),
        cowned := (cowned s)(t := insert h (cowned s t))\<rparr>" using ex p by simp
    have h: "h \<in> set st" "read_next (cmem s) h = n" using pop [of t] p by (simp_all add: pop_ok_def)
    then obtain st' where st: "st = h # st'" using True ch by (cases st) auto
    have fl: "pushing s' = pushing s" using pushing_upd [OF inj, of s' t CIdle] p s' by simp
    have "h \<notin> set st'" using chain_distinct [OF ch] st by simp
    have "u = t" if "is_pop (cpc s u)" for u using that P p(2) by (simp add: cache_parts_def)
    then have "cache_parts w S s' st'"
      using P s' fl ch st h \<open>h \<notin> set st'\<close> cache_partsD(9) [OF P]
      by (intro cache_partsI [OF P, of s' t CIdle]) (auto simp: cache_parts_def pop_ok_def is_pop_def)
    then show ?thesis ..
  next
    case False
    then have s': "s' = s\<lparr>cpc := (cpc s)(t := load_pc (chead s))\<rparr>"
      using ex p by (auto split: if_splits)
    have fl: "pushing s' = pushing s"
      using pushing_upd [OF inj, of s' t "load_pc (chead s)"] s' p by (simp add: load_pc_def)
    have "cache_parts w S s' st" using P s' p fl hdm ch
      by (intro cache_partsI [OF P, of s' t "load_pc (chead s)"])
        (auto simp: cache_parts_def pop_ok_def is_pop_def load_pc_def split: if_splits)
    then show ?thesis ..
  qed
qed

lemma cache_step_parts:
  assumes sep: "slots_sep S" and P: "cache_parts w S s st" and st: "cache_step s e s'" "pops_only w e"
  shows "\<exists>st'. cache_parts w S s' st'"
proof -
  have ex: "cache_exec e s = Some s'" using st(1) by (simp add: cache_step_def)
  show ?thesis
  proof (cases e)
    case (CachePush t p h)
    then show ?thesis using cache_push_parts [OF sep P] ex st(2) by simp
  next
    case (CacheFull t p)
    then show ?thesis using cache_full_parts [OF P] ex by blast
  next
    case (CacheWrite t)
    then show ?thesis using cache_write_parts [OF sep P] ex st(2) by simp
  next
    case (CachePushCas t b)
    then show ?thesis using cache_push_cas_parts [OF sep P] ex st(2) by simp
  next
    case (UncacheLoad t)
    then show ?thesis using uncache_load_parts [OF sep P, of t s'] ex st(2) by (simp only: pops_only.simps)
  next
    case (UncacheNext t)
    then show ?thesis using uncache_next_parts [OF sep P, of t s'] ex st(2) by (simp only: pops_only.simps)
  next
    case (UncacheCas t b)
    then show ?thesis using uncache_cas_parts [OF sep P, of t b s'] ex st(2) by (simp only: pops_only.simps)
  next
    case (OwnerWrite t p v)
    then show ?thesis using owner_write_parts [OF sep P] ex by simp
  qed
qed

lemma cache_init_parts:
  assumes "\<forall>t x. x \<in> own t \<longrightarrow> x \<in> S \<and> (\<forall>u. x \<in> own u \<longrightarrow> u = t)"
  shows "cache_parts w S (cache_init m own) []"
  using assms by (simp add: cache_parts_def cache_init_def pushing_def pop_ok_def is_pop_def)

lemma cache_reachable_parts:
  assumes sep: "slots_sep S" and own: "\<forall>t x. x \<in> own t \<longrightarrow> x \<in> S \<and> (\<forall>u. x \<in> own u \<longrightarrow> u = t)"
    and tr: "trace cache_step (cache_init m own) es s" and only: "list_all (pops_only w) es"
  shows "\<exists>st. cache_parts w S s st"
proof -
  have "trace cache_step a es s \<Longrightarrow> list_all (pops_only w) es \<Longrightarrow> \<exists>st. cache_parts w S a st \<Longrightarrow>
      \<exists>st. cache_parts w S s st" for a
    by (induction rule: trace.induct) (use cache_step_parts [OF sep] in \<open>auto\<close>)
  then show ?thesis using tr only cache_init_parts [OF own] by blast
qed

subsection \<open>Properties\<close>

text \<open>
  C22. The remote free list under every interleaving of pushing threads with the owner's drain, pop
  and local free: the slots of the slab are at every moment partitioned into the remote list, the
  local list, the chain the owner is still walking, the slots being pushed, and the allocated
  slots. No slot is lost and none is in two places, so none is handed out twice.
\<close>

theorem remote_list_partition:
  assumes "slots_sep S" and "trace remote_step (remote_init m S) es s"
  shows "\<exists>rem loc wlk. chain (read_next (rmem s)) (rhead s) rem \<and>
    chain (read_next (rmem s)) (rlocal s) loc \<and> chain (read_next (rmem s)) (owner_cursor s) wlk \<and>
    distinct (rem @ loc @ wlk) \<and> set (rem @ loc @ wlk) \<inter> in_flight s = {} \<and>
    rout s \<inter> (set (rem @ loc @ wlk) \<union> in_flight s) = {} \<and>
    set (rem @ loc @ wlk) \<union> in_flight s \<union> rout s = S"
  using remote_reachable_inv [OF assms] unfolding remote_inv_def remote_parts_def by blast

text \<open>Two threads free slots of a slab at 65536 while the owner drains it.\<close>

definition two_frees :: "remote_event list" where
  "two_frees = [PushLoad 1 65600 0, PushLoad 2 65648 0, PushWrite 2, PushCas 2 False, PushWrite 1,
     PushCas 1 False, Swap, PushWrite 1, Walk, PushCas 1 False]"

lemma two_frees_run:
  "\<exists>s. trace remote_step (remote_init (\<lambda>_. 0) {65600, 65648}) two_frees s \<and> rlocal s = 65648 \<and> rhead s = 0"
proof -
  obtain s where "exec_run remote_exec two_frees (remote_init (\<lambda>_. 0) {65600, 65648}) = Some s"
      "rlocal s = 65648" "rhead s = 0"
    by (simp add: two_frees_def remote_init_def)
  then show ?thesis using exec_run_trace [of remote_exec] unfolding remote_step_def by blast
qed

lemma slots_sep_two: "slots_sep {65600, 65648}"
  by (simp add: slots_sep_def apart_def)

theorem remote_list_partition_witness:
  "\<exists>s rem loc wlk. rlocal s = 65648 \<and> chain (read_next (rmem s)) (rhead s) rem \<and>
     chain (read_next (rmem s)) (rlocal s) loc \<and>
     set (rem @ loc @ wlk) \<union> in_flight s \<union> rout s = {65600, 65648}"
proof -
  obtain s where "trace remote_step (remote_init (\<lambda>_. 0) {65600, 65648}) two_frees s" "rlocal s = 65648"
    using two_frees_run by blast
  then show ?thesis using remote_list_partition [OF slots_sep_two] by blast
qed

text \<open>
  C23. The page cache with any number of pushing threads and one popping thread: the cached list is
  a proper chain, disjoint from the pages being pushed and from the pages the threads own, and no
  page has two owners.
\<close>

theorem page_cache_single_popper:
  assumes "slots_sep S" and "\<forall>t x. x \<in> own t \<longrightarrow> x \<in> S \<and> (\<forall>u. x \<in> own u \<longrightarrow> u = t)"
    and "trace cache_step (cache_init m own) es s" and "list_all (pops_only w) es"
  shows "\<exists>st. chain (read_next (cmem s)) (chead s) st \<and> set st \<inter> pushing s = {} \<and>
    (\<forall>t x. x \<in> cowned s t \<longrightarrow> x \<notin> set st \<and> x \<notin> pushing s \<and> (\<forall>u. x \<in> cowned s u \<longrightarrow> u = t))"
  using cache_reachable_parts [OF assms] unfolding cache_parts_def by blast

definition one_popper :: "cache_event list" where
  "one_popper = [CachePush 1 65536 0, CacheWrite 1, CachePush 2 131072 0, CachePushCas 1 False, CacheWrite 2,
     CachePushCas 2 False, CacheWrite 2, CachePushCas 2 False, UncacheLoad 3, UncacheNext 3, UncacheCas 3 False]"

definition two_owners :: "nat \<Rightarrow> addr set" where
  "two_owners t = (if t = 1 then {65536} else if t = 2 then {131072} else {})"

theorem page_cache_single_popper_witness:
  "\<exists>s. trace cache_step (cache_init (\<lambda>_. 0) two_owners) one_popper s \<and> 131072 \<in> cowned s 3 \<and>
     (\<forall>u. 131072 \<in> cowned s u \<longrightarrow> u = 3)"
proof -
  obtain s where s: "exec_run cache_exec one_popper (cache_init (\<lambda>_. 0) two_owners) = Some s" "131072 \<in> cowned s 3"
    by (simp add: one_popper_def cache_init_def two_owners_def load_pc_def read_write_next)
  have tr: "trace cache_step (cache_init (\<lambda>_. 0) two_owners) one_popper s" using s(1) by (rule cache_run_trace)
  have "slots_sep {65536, 131072}" by (simp add: slots_sep_def apart_def)
  moreover have "\<forall>t x. x \<in> two_owners t \<longrightarrow> x \<in> {65536, 131072} \<and> (\<forall>u. x \<in> two_owners u \<longrightarrow> u = t)"
    by (simp add: two_owners_def split: if_splits)
  moreover have "list_all (pops_only 3) one_popper" by (simp add: one_popper_def)
  ultimately have "\<forall>u. 131072 \<in> cowned s u \<longrightarrow> u = 3"
    using page_cache_single_popper [OF _ _ tr, of "{65536, 131072}" 3] s(2) by blast
  then show ?thesis using s(2) tr by blast
qed

definition aba_schedule :: "cache_event list" where
  "aba_schedule = [CachePush 1 131072 0, CacheWrite 1, CachePushCas 1 False,
     CachePush 1 65536 131072, CacheWrite 1, CachePushCas 1 False, UncacheLoad 1, UncacheNext 1,
     UncacheLoad 2, UncacheNext 2, UncacheCas 2 False, UncacheLoad 2, UncacheNext 2, UncacheCas 2 False,
     OwnerWrite 2 65536 7, CachePush 2 65536 0, CacheWrite 2, CachePushCas 2 False,
     UncacheCas 1 False, UncacheLoad 1, UncacheNext 1, UncacheCas 1 False]"

text \<open>
  C24. With two popping threads the page cache is not safe. Thread 1 owns two pages and caches both;
  it starts a pop and reads the link of the first page. Thread 2 pops both pages and returns the
  first. The compare-exchange of thread 1 then succeeds on the old head and installs the outdated
  link, so that the second page, which thread 2 still uses, is popped again: one page has two
  owners.
\<close>

theorem page_cache_aba:
  "\<exists>es s. trace cache_step (cache_init (\<lambda>_. 0) (\<lambda>t. if t = 1 then {65536, 131072} else {})) es s \<and>
     131072 \<in> cowned s 1 \<and> 131072 \<in> cowned s 2"
proof -
  have "\<exists>s. exec_run cache_exec aba_schedule
      (cache_init (\<lambda>_. 0) (\<lambda>t. if t = 1 then {65536, 131072} else {})) = Some s \<and>
      131072 \<in> cowned s 1 \<and> 131072 \<in> cowned s 2"
    by (simp add: aba_schedule_def cache_init_def load_pc_def read_write_next read_write_next_apart apart_def)
  then show ?thesis using cache_run_trace by blast
qed

end
