(* ===== verification/Slab_List.thy ===== *)
theory Slab_List
  imports Slab
begin

text \<open>
  Slab lists (\<open>slab_list_push\<close>, \<open>slab_list_pop\<close>, \<open>slab_list_remove\<close> of \<open>src/src/slab.rs\<close>): the
  intrusive doubly-linked queues of a heap. A node's \<open>prev_link\<close> points to the predecessor's
  \<open>next_link\<close> field or to the list head, which is why removal needs neither the list nor its
  head. \<open>link_loc\<close> names these places; a write through a null \<open>prev_link\<close> does not return.

  \<open>dll s h xs\<close>: the list with head field \<open>h\<close> consists of the slabs \<open>xs\<close>, all links consistent.
\<close>

subsection \<open>Operations\<close>

definition write_link_loc :: "link_loc \<Rightarrow> addr option \<Rightarrow> store \<Rightarrow> store option" where
  "write_link_loc l v s = (case l of
       NullLoc \<Rightarrow> None
     | HeadLoc h \<Rightarrow> Some (s\<lparr>heads := (heads s)(h := v)\<rparr>)
     | NextLoc b \<Rightarrow> Some (set_next_link b v s))"

definition slab_list_push :: "head_id \<Rightarrow> addr \<Rightarrow> store \<Rightarrow> store" where
  "slab_list_push h slab s =
    (let s1 = set_next_link slab (heads s h) s;
         s2 = set_prev_link slab (HeadLoc h) s1;
         s3 = (case heads s2 h of
                 Some old_head \<Rightarrow> set_prev_link old_head (NextLoc slab) s2
               | None \<Rightarrow> s2)
     in s3\<lparr>heads := (heads s3)(h := Some slab)\<rparr>)"

definition slab_list_pop :: "head_id \<Rightarrow> store \<Rightarrow> addr option \<times> store" where
  "slab_list_pop h s =
    (case heads s h of
       None \<Rightarrow> (None, s)
     | Some slab \<Rightarrow>
         let s1 = s\<lparr>heads := (heads s)(h := next_link (hdr s slab))\<rparr>;
             s2 = (case heads s1 h of
                     Some new_head \<Rightarrow> set_prev_link new_head (HeadLoc h) s1
                   | None \<Rightarrow> s1);
             s3 = set_next_link slab None s2;
             s4 = set_prev_link slab NullLoc s3
         in (Some slab, s4))"

definition slab_list_remove :: "addr \<Rightarrow> store \<Rightarrow> store option" where
  "slab_list_remove slab s =
    (let prev = prev_link (hdr s slab);
         nxt = next_link (hdr s slab)
     in do {
          s1 \<leftarrow> write_link_loc prev nxt s;
          let s2 = (case nxt of
                      Some next_base \<Rightarrow> set_prev_link next_base prev s1
                    | None \<Rightarrow> s1);
          let s3 = set_next_link slab None s2;
          Some (set_prev_link slab NullLoc s3)
        })"

subsection \<open>Well-formed lists\<close>

definition first_of :: "addr list \<Rightarrow> addr option \<Rightarrow> addr option" where
  "first_of xs n = (case xs of [] \<Rightarrow> n | x # _ \<Rightarrow> Some x)"

definition last_loc :: "link_loc \<Rightarrow> addr list \<Rightarrow> link_loc" where
  "last_loc l xs = (if xs = [] then l else NextLoc (last xs))"

fun seg :: "store \<Rightarrow> link_loc \<Rightarrow> addr list \<Rightarrow> addr option \<Rightarrow> bool" where
  "seg s l [] n = True"
| "seg s l (x # xs) n =
     (prev_link (hdr s x) = l \<and> next_link (hdr s x) = first_of xs n \<and> seg s (NextLoc x) xs n)"

definition dll :: "store \<Rightarrow> head_id \<Rightarrow> addr list \<Rightarrow> bool" where
  "dll s h xs \<longleftrightarrow> heads s h = first_of xs None \<and> distinct xs \<and> seg s (HeadLoc h) xs None"

lemma first_of_simps [simp]: "first_of [] n = n" "first_of (x # xs) n = Some x"
  by (simp_all add: first_of_def)

lemma first_of_append: "first_of (xs @ ys) n = first_of xs (first_of ys n)"
  by (cases xs) simp_all

lemma seg_cong:
  "(\<And>x. x \<in> set xs \<Longrightarrow> prev_link (hdr s' x) = prev_link (hdr s x) \<and> next_link (hdr s' x) = next_link (hdr s x)) \<Longrightarrow>
     seg s' l xs n = seg s l xs n"
  by (induction xs arbitrary: l) auto

lemma dll_cong:
  assumes "heads s' h = heads s h"
    and "\<And>x. x \<in> set xs \<Longrightarrow> prev_link (hdr s' x) = prev_link (hdr s x) \<and> next_link (hdr s' x) = next_link (hdr s x)"
  shows "dll s' h xs = dll s h xs"
  using assms seg_cong [of xs s' s] by (simp add: dll_def)

lemma seg_append:
  "seg s l (xs @ ys) n \<longleftrightarrow> seg s l xs (first_of ys n) \<and> seg s (last_loc l xs) ys n"
  by (induction xs arbitrary: l) (auto simp: last_loc_def first_of_append)

lemma dll_functional: "dll s h xs \<Longrightarrow> dll s h ys \<Longrightarrow> xs = ys"
proof -
  have "seg s l xs None \<Longrightarrow> seg s l' ys None \<Longrightarrow> first_of xs None = first_of ys None \<Longrightarrow> xs = ys" for l l'
  proof (induction xs arbitrary: l l' ys)
    case (Cons x xs)
    then show ?case by (cases ys) auto
  qed (auto simp: first_of_def split: list.splits)
  then show "dll s h xs \<Longrightarrow> dll s h ys \<Longrightarrow> xs = ys" by (auto simp: dll_def)
qed

lemma dll_Nil: "dll s h [] \<longleftrightarrow> heads s h = None"
  by (simp add: dll_def)

subsection \<open>Link writes\<close>

lemma set_link_simps [simp]:
  "bytes (set_next_link b n s) = bytes s" "bytes (set_prev_link b l s) = bytes s"
  "heads (set_next_link b n s) = heads s" "heads (set_prev_link b l s) = heads s"
  "hdr (set_next_link b n s) a = (if a = b then (hdr s b)\<lparr>next_link := n\<rparr> else hdr s a)"
  "hdr (set_prev_link b l s) a = (if a = b then (hdr s b)\<lparr>prev_link := l\<rparr> else hdr s a)"
  by (simp_all add: set_next_link_def set_prev_link_def)

lemma seg_set_last:
  assumes "seg s l xs n" "xs \<noteq> []" "distinct xs"
  shows "seg (set_next_link (last xs) n' s) l xs n'"
  using assms
proof (induction xs arbitrary: l)
  case (Cons x xs)
  then show ?case by (cases xs) auto
qed simp

lemma seg_set_first:
  assumes "seg s l ys n" "ys \<noteq> []" "distinct ys"
  shows "seg (set_prev_link (hd ys) l' s) l' ys n"
proof (cases ys)
  case (Cons y zs)
  then have "seg (set_prev_link y l' s) (NextLoc y) zs n = seg s (NextLoc y) zs n"
    using assms(3) by (intro seg_cong) auto
  then show ?thesis using assms(1) Cons by simp
qed (use assms in simp)

text \<open>What list operations leave alone: everything but the list links.\<close>

definition links_only :: "store \<Rightarrow> store \<Rightarrow> bool" where
  "links_only s s' \<longleftrightarrow> bytes s' = bytes s \<and>
     (\<forall>b. slab_core (hdr s' b) = slab_core (hdr s b) \<and> heap_id (hdr s' b) = heap_id (hdr s b))"

lemma links_only_refl [simp]: "links_only s s"
  by (simp add: links_only_def)

lemma links_only_trans: "links_only s t \<Longrightarrow> links_only t u \<Longrightarrow> links_only s u"
  by (simp add: links_only_def)

lemma links_only_slab_ok:
  "links_only s s' \<Longrightarrow> slab_ok s' base c loc rem out = slab_ok s base c loc rem out"
  by (auto simp: links_only_def intro: slab_ok_frame)

lemma slab_core_upd [simp]:
  "slab_core (h\<lparr>next_link := n\<rparr>) = slab_core h" "slab_core (h\<lparr>prev_link := l\<rparr>) = slab_core h"
  "slab_core (h\<lparr>heap_id := i\<rparr>) = slab_core h"
  by (simp_all add: slab_core_def)

lemma links_only_push: "links_only s (slab_list_push h b s)"
  by (auto simp: links_only_def slab_list_push_def Let_def split: option.splits)

lemma links_only_pop: "slab_list_pop h s = (r, s') \<Longrightarrow> links_only s s'"
  by (auto simp: links_only_def slab_list_pop_def Let_def split: option.splits if_splits)

lemma links_only_remove: "slab_list_remove b s = Some s' \<Longrightarrow> links_only s s'"
  by (auto simp: links_only_def slab_list_remove_def write_link_loc_def Let_def
      split: option.splits if_splits link_loc.splits bind_splits)

subsection \<open>List operations keep lists well formed\<close>

lemma slab_list_push_dll:
  assumes d: "dll s h xs" and b: "b \<notin> set xs"
  shows "dll (slab_list_push h b s) h (b # xs)"
proof (cases xs)
  case Nil
  then show ?thesis using d by (simp add: dll_def slab_list_push_def)
next
  case (Cons x ys)
  let ?s2 = "set_prev_link b (HeadLoc h) (set_next_link b (heads s h) s)"
  have "seg ?s2 (HeadLoc h) xs None" using d b by (subst seg_cong [of _ _ s]) (auto simp: dll_def)
  then have "seg (set_prev_link x (NextLoc b) ?s2) (NextLoc b) xs None"
    using seg_set_first [of ?s2 "HeadLoc h" xs None "NextLoc b"] Cons d b by (auto simp: dll_def)
  then have "seg (slab_list_push h b s) (NextLoc b) xs None"
    using d Cons by (subst seg_cong [of _ _ "set_prev_link x (NextLoc b) ?s2"])
      (auto simp: dll_def slab_list_push_def)
  then show ?thesis using d b Cons by (auto simp: dll_def slab_list_push_def)
qed

lemma slab_list_pop_dll:
  assumes "dll s h (b # xs)"
  shows "\<exists>s'. slab_list_pop h s = (Some b, s') \<and> dll s' h xs \<and>
    next_link (hdr s' b) = None \<and> prev_link (hdr s' b) = NullLoc"
proof -
  have hb: "heads s h = Some b" "next_link (hdr s b) = first_of xs None" "distinct (b # xs)"
      "seg s (NextLoc b) xs None"
    using assms by (simp_all add: dll_def)
  define s1 where "s1 = s\<lparr>heads := (heads s)(h := first_of xs None)\<rparr>"
  define s2 where "s2 = (case xs of [] \<Rightarrow> s1 | x # _ \<Rightarrow> set_prev_link x (HeadLoc h) s1)"
  define s4 where "s4 = set_prev_link b NullLoc (set_next_link b None s2)"
  have pop: "slab_list_pop h s = (Some b, s4)"
    using hb by (cases xs) (simp_all add: slab_list_pop_def s1_def s2_def s4_def)
  have "seg s1 (NextLoc b) xs None" using hb(4) by (subst seg_cong [of _ _ s]) (simp_all add: s1_def)
  then have "seg s2 (HeadLoc h) xs None"
    using seg_set_first [of s1 "NextLoc b" xs None "HeadLoc h"] hb(3) by (cases xs) (simp_all add: s2_def)
  then have "seg s4 (HeadLoc h) xs None"
    using hb(3) by (subst seg_cong [of _ _ s2]) (auto simp: s4_def)
  moreover have "heads s4 h = first_of xs None" by (cases xs) (simp_all add: s4_def s2_def s1_def)
  ultimately have "dll s4 h xs" using hb(3) by (simp add: dll_def)
  then show ?thesis using pop by (simp add: s4_def)
qed

lemma slab_list_remove_dll:
  assumes "dll s h (xs @ b # ys)"
  shows "\<exists>s'. slab_list_remove b s = Some s' \<and> dll s' h (xs @ ys) \<and>
    next_link (hdr s' b) = None \<and> prev_link (hdr s' b) = NullLoc"
proof -
  let ?l = "last_loc (HeadLoc h) xs" and ?n = "first_of ys None"
  have d: "distinct (xs @ b # ys)" "seg s (HeadLoc h) xs (Some b)" "prev_link (hdr s b) = ?l"
      "next_link (hdr s b) = ?n" "seg s (NextLoc b) ys None" "heads s h = first_of xs (Some b)"
    using assms by (auto simp: dll_def seg_append first_of_append)
  define s1 where "s1 = (if xs = [] then s\<lparr>heads := (heads s)(h := ?n)\<rparr> else set_next_link (last xs) ?n s)"
  define s2 where "s2 = (case ys of [] \<Rightarrow> s1 | y # _ \<Rightarrow> set_prev_link y ?l s1)"
  define s4 where "s4 = set_prev_link b NullLoc (set_next_link b None s2)"
  have rem: "slab_list_remove b s = Some s4"
    using d(3,4) by (cases ys) (simp_all add: slab_list_remove_def write_link_loc_def last_loc_def s1_def s2_def s4_def)
  have lx: "last xs \<notin> set ys" if "xs \<noteq> []"
    using d(1) last_in_set [OF that] unfolding distinct_append disjoint_iff by simp
  have "seg s1 (HeadLoc h) xs ?n"
    using seg_set_last [OF d(2)] d(1) by (simp add: s1_def)
  then have "seg s2 (HeadLoc h) xs ?n"
    using d(1) by (subst seg_cong [of _ _ s1]) (auto simp: s2_def split: list.splits)
  then have sx: "seg s4 (HeadLoc h) xs ?n" using d(1) by (subst seg_cong [of _ _ s2]) (auto simp: s4_def)
  have "seg s1 (NextLoc b) ys None"
    using d(1,5) lx by (subst seg_cong [of _ _ s]) (auto simp: s1_def)
  then have "seg s2 ?l ys None"
    using seg_set_first [of s1 "NextLoc b" ys None ?l] d(1) by (cases ys) (simp_all add: s2_def)
  then have sy: "seg s4 ?l ys None" using d(1) by (subst seg_cong [of _ _ s2]) (auto simp: s4_def)
  have "heads s4 h = first_of xs ?n"
    using d(6) by (cases xs; cases ys) (simp_all add: s4_def s2_def s1_def)
  then have "dll s4 h (xs @ ys)" using sx sy d(1) by (auto simp: dll_def seg_append first_of_append)
  then show ?thesis using rem by (simp add: s4_def)
qed

text \<open>
  The links an operation on list \<open>h\<close> writes belong to \<open>X\<close>, the list's slabs and the slab moved;
  lists that share no slab with it stay as they are.
\<close>

definition links_within :: "head_id \<Rightarrow> addr set \<Rightarrow> store \<Rightarrow> store \<Rightarrow> bool" where
  "links_within h X s s' \<longleftrightarrow> (\<forall>h'. h' \<noteq> h \<longrightarrow> heads s' h' = heads s h') \<and>
     (\<forall>y. y \<notin> X \<longrightarrow> prev_link (hdr s' y) = prev_link (hdr s y) \<and> next_link (hdr s' y) = next_link (hdr s y))"

lemma links_within_dll:
  assumes "links_within h X s s'" "h' \<noteq> h" "X \<inter> set ys = {}"
  shows "dll s' h' ys = dll s h' ys"
proof (rule dll_cong)
  show "heads s' h' = heads s h'" using assms(1,2) unfolding links_within_def by blast
  show "prev_link (hdr s' x) = prev_link (hdr s x) \<and> next_link (hdr s' x) = next_link (hdr s x)" if "x \<in> set ys" for x
    using assms(1,3) that unfolding links_within_def by blast
qed

lemma slab_list_push_within:
  assumes "dll s h xs"
  shows "links_within h (insert b (set xs)) s (slab_list_push h b s)"
proof -
  have "x \<in> set xs" if "heads s h = Some x" for x
    using assms that by (cases xs) (auto simp: dll_def)
  then show ?thesis
    by (auto simp: links_within_def slab_list_push_def Let_def split: option.splits)
qed

lemma slab_list_pop_within:
  assumes "dll s h (b # xs)" "slab_list_pop h s = (r, s')"
  shows "links_within h (set (b # xs)) s s'"
proof -
  have b: "heads s h = Some b" "next_link (hdr s b) = first_of xs None" using assms(1) by (simp_all add: dll_def)
  have "x \<in> set xs" if "next_link (hdr s b) = Some x" for x using b that by (cases xs) auto
  then show ?thesis
    using assms(2) b(1) by (auto simp: links_within_def slab_list_pop_def Let_def split: option.splits)
qed

lemma slab_list_remove_within:
  assumes "dll s h (xs @ b # ys)" "slab_list_remove b s = Some s'"
  shows "links_within h (set (xs @ b # ys)) s s'"
proof -
  have b: "prev_link (hdr s b) = last_loc (HeadLoc h) xs" "next_link (hdr s b) = first_of ys None"
    using assms(1) by (auto simp: dll_def seg_append)
  have n: "x \<in> set ys" if "next_link (hdr s b) = Some x" for x
    using b(2) that by (cases ys) auto
  have p: "x \<in> set xs" if "prev_link (hdr s b) = NextLoc x" for x
    using b(1) that by (auto simp: last_loc_def split: if_splits)
  have p': "g = h" if "prev_link (hdr s b) = HeadLoc g" for g
    using b(1) that by (auto simp: last_loc_def split: if_splits)
  have "heads s' h' = heads s h'" if "h' \<noteq> h" for h'
    using assms(2) p' that
    by (auto simp: slab_list_remove_def write_link_loc_def Let_def split: option.splits link_loc.splits bind_splits)
  moreover have "prev_link (hdr s' y) = prev_link (hdr s y) \<and> next_link (hdr s' y) = next_link (hdr s y)"
      if "y \<notin> set (xs @ b # ys)" for y
    using that assms(2) n p
    by (auto simp: slab_list_remove_def write_link_loc_def Let_def split: option.splits link_loc.splits bind_splits)
  ultimately show ?thesis unfolding links_within_def by blast
qed

subsection \<open>Slab lists as intrusive stacks\<close>

interpretation slab_list: lifo_stack "\<lambda>s. dll s h" "\<lambda>x xs. x \<notin> set xs" "slab_list_push h" "slab_list_pop h"
  for h
proof unfold_locales
  show "dll s h xs \<Longrightarrow> dll s h ys \<Longrightarrow> xs = ys" for s xs ys by (rule dll_functional)
  show "dll s h xs \<Longrightarrow> x \<notin> set xs \<Longrightarrow> dll (slab_list_push h x s) h (x # xs)" for s x xs
    by (rule slab_list_push_dll)
  show "dll s h [] \<Longrightarrow> slab_list_pop h s = (None, s)" for s
    by (simp add: slab_list_pop_def dll_Nil)
  show "dll s h (x # xs) \<Longrightarrow> \<exists>s'. slab_list_pop h s = (Some x, s') \<and> dll s' h xs" for s x xs
    using slab_list_pop_dll by blast
qed

subsection \<open>Properties\<close>

text \<open>
  C21. Removing a slab from a doubly-linked slab list works from any position without knowing the
  list: the other slabs keep their order, the slab is unlinked, lists that share no slab with this
  one are unchanged, and no slot data is touched.
\<close>

theorem slab_list_remove_correct:
  assumes "dll s h (xs @ b # ys)"
  shows "\<exists>s'. slab_list_remove b s = Some s' \<and> dll s' h (xs @ ys) \<and>
     next_link (hdr s' b) = None \<and> prev_link (hdr s' b) = NullLoc \<and>
     (\<forall>h' zs. h' \<noteq> h \<longrightarrow> set zs \<inter> set (xs @ b # ys) = {} \<longrightarrow> dll s h' zs \<longrightarrow> dll s' h' zs) \<and>
     (\<forall>base c loc rem out. slab_ok s base c loc rem out \<longrightarrow> slab_ok s' base c loc rem out)"
proof -
  obtain s' where s': "slab_list_remove b s = Some s'" "dll s' h (xs @ ys)"
      "next_link (hdr s' b) = None" "prev_link (hdr s' b) = NullLoc"
    using slab_list_remove_dll [OF assms] by blast
  moreover have "dll s' h' zs" if "h' \<noteq> h" "set zs \<inter> set (xs @ b # ys) = {}" "dll s h' zs" for h' zs
    using links_within_dll [OF slab_list_remove_within [OF assms s'(1)] that(1)] that(2,3) by (simp add: Int_commute)
  moreover have "slab_ok s' base c loc rem out" if "slab_ok s base c loc rem out" for base c loc rem out
    using links_only_slab_ok [OF links_only_remove [OF s'(1)]] that by blast
  ultimately show ?thesis by blast
qed

theorem slab_list_remove_correct_witness:
  "\<exists>s'. slab_list_remove 65536 (slab_list_push (1, Full, 0) 131072
          (slab_list_push (1, Full, 0) 65536 zero_store)) = Some s' \<and> dll s' (1, Full, 0) [131072]"
proof -
  have "dll zero_store (1, Full, 0) []" by (simp add: dll_Nil zero_store_def)
  then have "dll (slab_list_push (1, Full, 0) 65536 zero_store) (1, Full, 0) [65536]"
    by (rule slab_list_push_dll) simp
  then have "dll (slab_list_push (1, Full, 0) 131072 (slab_list_push (1, Full, 0) 65536 zero_store))
      (1, Full, 0) ([131072] @ 65536 # [])"
    using slab_list_push_dll [of _ "(1, Full, 0)" "[65536]" 131072] by simp
  from slab_list_remove_correct [OF this] show ?thesis by auto
qed

text \<open>
  Pushing and popping a slab list is last-in first-out: popping after a push returns the
  pushed slab and restores the list, an empty list pops nothing, and the popped slab is unlinked.
\<close>

theorem slab_list_pop_push:
  assumes "dll s h xs" "b \<notin> set xs"
  shows "\<exists>s'. slab_list_pop h (slab_list_push h b s) = (Some b, s') \<and> dll s' h xs \<and>
     next_link (hdr s' b) = None \<and> prev_link (hdr s' b) = NullLoc \<and> links_only s s'"
proof -
  have d: "dll (slab_list_push h b s) h (b # xs)" by (rule slab_list_push_dll [OF assms])
  obtain s' where s': "slab_list_pop h (slab_list_push h b s) = (Some b, s')" "dll s' h xs"
      "next_link (hdr s' b) = None" "prev_link (hdr s' b) = NullLoc"
    using slab_list_pop_dll [OF d] by blast
  moreover have "links_only s s'"
    using links_only_trans [OF links_only_push links_only_pop [OF s'(1)]] .
  ultimately show ?thesis by blast
qed

theorem slab_list_pop_push_witness:
  "\<exists>s'. slab_list_pop (1, Partial, 3) (slab_list_push (1, Partial, 3) 65536 zero_store) = (Some 65536, s') \<and>
        dll s' (1, Partial, 3) []"
proof -
  have "dll zero_store (1, Partial, 3) []" by (simp add: dll_Nil zero_store_def)
  from slab_list_pop_push [OF this, of 65536] show ?thesis by auto
qed

end
