(* ===== verification/Sys.thy ===== *)
theory Sys
  imports Slab
begin

text \<open>
  The page allocator (\<open>src/src/sys.rs\<close>). The trait \<open>PageAllocator\<close> is a record of its three
  operations, which act on the backend's state and the memory; its documented contract is the
  locale \<open>page_allocator\<close>, with \<open>owns p R\<close> saying that the client holds the regions \<open>R\<close> (address
  and size). \<open>MmapAllocator\<close> is modelled over the three system calls it makes; the kernel is
  not part of the program, so the calls are a parameter, with their documented behaviour as the
  locale \<open>vm_syscalls\<close>. The lemmas show that over-allocating and trimming gives a region of the
  requested size and alignment that overlaps nothing held before.
\<close>

subsection \<open>The trait\<close>

record 'p PageAllocator =
  pa_alloc :: "layout \<Rightarrow> 'p \<times> memory \<Rightarrow> addr option \<times> 'p \<times> memory"
  pa_dealloc :: "addr \<Rightarrow> layout \<Rightarrow> 'p \<times> memory \<Rightarrow> 'p \<times> memory"
  pa_purge :: "addr \<Rightarrow> nat \<Rightarrow> 'p \<times> memory \<Rightarrow> 'p \<times> memory"

type_synonym region = "addr \<times> nat"

definition in_region :: "region \<Rightarrow> addr \<Rightarrow> bool" where
  "in_region r x \<longleftrightarrow> fst r \<le> x \<and> x < fst r + snd r"

definition disjoint_regions :: "region \<Rightarrow> region \<Rightarrow> bool" where
  "disjoint_regions r q \<longleftrightarrow> fst r + snd r \<le> fst q \<or> fst q + snd q \<le> fst r"

definition covered :: "region set \<Rightarrow> addr \<Rightarrow> bool" where
  "covered R x \<longleftrightarrow> (\<exists>r \<in> R. in_region r x)"

definition PAGE :: nat where [geom_simps]: "PAGE = 4096"

locale page_allocator =
  fixes A :: "'p PageAllocator" and owns :: "'p \<Rightarrow> region set \<Rightarrow> bool"
  assumes alloc_fail: "owns p R \<Longrightarrow> layout_ok l \<Longrightarrow> 0 < lsize l \<Longrightarrow> pa_alloc A l (p, m) = (None, p', m') \<Longrightarrow>
      owns p' R \<and> (\<forall>x. covered R x \<longrightarrow> m' x = m x)"
    and alloc_ok: "owns p R \<Longrightarrow> layout_ok l \<Longrightarrow> 0 < lsize l \<Longrightarrow> pa_alloc A l (p, m) = (Some a, p', m') \<Longrightarrow>
      0 < a \<and> lalign l dvd a \<and> a + lsize l \<le> 2 ^ 64 \<and> (\<forall>r \<in> R. disjoint_regions (a, lsize l) r) \<and>
      owns p' (insert (a, lsize l) R) \<and> (\<forall>x. in_region (a, lsize l) x \<longrightarrow> m' x = 0) \<and>
      (\<forall>x. covered R x \<longrightarrow> m' x = m x)"
    and dealloc_ok: "owns p R \<Longrightarrow> (a, lsize l) \<in> R \<Longrightarrow> pa_dealloc A a l (p, m) = (p', m') \<Longrightarrow>
      owns p' (R - {(a, lsize l)}) \<and> (\<forall>x. covered (R - {(a, lsize l)}) x \<longrightarrow> m' x = m x)"
    and purge_ok: "owns p R \<Longrightarrow> PAGE dvd a \<Longrightarrow> PAGE dvd n \<Longrightarrow> pa_purge A a n (p, m) = (p', m') \<Longrightarrow>
      owns p' R \<and> (\<forall>x. \<not> in_region (a, n) x \<longrightarrow> m' x = m x)"
begin

lemma alloc_keeps:
  "owns p R \<Longrightarrow> layout_ok l \<Longrightarrow> 0 < lsize l \<Longrightarrow> pa_alloc A l (p, m) = (r, p', m') \<Longrightarrow> covered R x \<Longrightarrow> m' x = m x"
  using alloc_fail alloc_ok by (cases r) blast+

end

subsection \<open>System calls\<close>

record 'k vm =
  mmap :: "nat \<Rightarrow> 'k \<times> memory \<Rightarrow> addr option \<times> 'k \<times> memory"
  munmap :: "addr \<Rightarrow> nat \<Rightarrow> 'k \<times> memory \<Rightarrow> 'k \<times> memory"
  madvise :: "addr \<Rightarrow> nat \<Rightarrow> 'k \<times> memory \<Rightarrow> 'k \<times> memory"

text \<open>The pages a byte range touches.\<close>

definition pages :: "addr \<Rightarrow> nat \<Rightarrow> nat set" where
  "pages a n = {a div PAGE ..< (a + n + PAGE - 1) div PAGE}"

locale vm_syscalls =
  fixes V :: "'k vm" and page_map :: "'k \<Rightarrow> nat set"
  assumes mmap_fail: "mmap V n (k, m) = (None, k', m') \<Longrightarrow>
      page_map k' = page_map k \<and> (\<forall>x. x div PAGE \<in> page_map k \<longrightarrow> m' x = m x)"
    and mmap_ok: "0 < n \<Longrightarrow> mmap V n (k, m) = (Some a, k', m') \<Longrightarrow>
      0 < a \<and> PAGE dvd a \<and> a + n \<le> 2 ^ 64 \<and> pages a n \<inter> page_map k = {} \<and>
      page_map k' = page_map k \<union> pages a n \<and> (\<forall>x. x div PAGE \<in> pages a n \<longrightarrow> m' x = 0) \<and>
      (\<forall>x. x div PAGE \<in> page_map k \<longrightarrow> m' x = m x)"
    and munmap_ok: "PAGE dvd a \<Longrightarrow> 0 < n \<Longrightarrow> munmap V a n (k, m) = (k', m') \<Longrightarrow>
      page_map k' = page_map k - pages a n \<and> (\<forall>x. x div PAGE \<in> page_map k' \<longrightarrow> m' x = m x)"
    and munmap_invalid: "\<not> PAGE dvd a \<Longrightarrow> munmap V a n (k, m) = (k, m)"
    and madvise_dontneed: "PAGE dvd a \<Longrightarrow> PAGE dvd n \<Longrightarrow> madvise V a n (k, m) = (k', m') \<Longrightarrow>
      page_map k' = page_map k \<and> (\<forall>x. \<not> in_region (a, n) x \<longrightarrow> m' x = m x)"

subsection \<open>The mmap backend\<close>

definition align_up :: "nat \<Rightarrow> nat \<Rightarrow> nat" where
  "align_up raw_addr align = unat (and (of_nat (raw_addr + align - 1)) (not (of_nat (align - 1))) :: u64)"

definition MmapAllocator_alloc :: "'k vm \<Rightarrow> layout \<Rightarrow> 'k \<times> memory \<Rightarrow> addr option \<times> 'k \<times> memory" where
  "MmapAllocator_alloc V l km =
    (let sz = lsize l; align = lalign l; alloc_size = sz + align
     in case mmap V alloc_size km of
          (None, km1) \<Rightarrow> (None, km1)
        | (Some raw_addr, km1) \<Rightarrow>
            let aligned_addr = align_up raw_addr align;
                leading = aligned_addr - raw_addr;
                km2 = (if leading > 0 then munmap V raw_addr leading km1 else km1);
                trailing = (raw_addr + alloc_size) - (aligned_addr + sz);
                km3 = (if trailing > 0 then munmap V (aligned_addr + sz) trailing km2 else km2)
            in (if aligned_addr = null then None else Some aligned_addr, km3))"

definition MmapAllocator :: "'k vm \<Rightarrow> 'k PageAllocator" where
  "MmapAllocator V = \<lparr>pa_alloc = MmapAllocator_alloc V,
     pa_dealloc = (\<lambda>ptr l. munmap V ptr (lsize l)),
     pa_purge = madvise V\<rparr>"

subsection \<open>The backend meets the contract\<close>

lemma align_up_eq:
  assumes "r + 2 ^ a \<le> 2 ^ 64"
  shows "align_up r (2 ^ a) = (r + 2 ^ a - 1) div 2 ^ a * 2 ^ a"
proof -
  let ?n = "r + 2 ^ a - 1"
  have n: "?n < 2 ^ 64" using assms by (simp add: Suc_le_eq)
  have "of_nat (2 ^ a - 1) = (mask a :: u64)" by (simp add: mask_eq_exp_minus_1 of_nat_diff)
  then have e: "align_up r (2 ^ a) = unat (of_nat ?n - take_bit a (of_nat ?n) :: u64)"
    by (simp only: align_up_def and_not_mask_eq)
  have w: "unat (of_nat ?n :: u64) = ?n" using n by (simp add: unat_of_nat)
  have t: "unat (take_bit a (of_nat ?n) :: u64) = ?n mod 2 ^ a"
    unfolding unsigned_take_bit_eq w by (simp add: take_bit_eq_mod)
  then have "take_bit a (of_nat ?n) \<le> (of_nat ?n :: u64)" unfolding word_le_nat_alt w by simp
  then show ?thesis unfolding e by (simp only: unat_sub w t minus_mod_eq_div_mult)
qed

lemma align_up_bounds:
  assumes "r + 2 ^ a \<le> 2 ^ 64"
  shows "r \<le> align_up r (2 ^ a)" "align_up r (2 ^ a) < r + 2 ^ a" "2 ^ a dvd align_up r (2 ^ a)"
proof -
  let ?n = "r + 2 ^ a - 1"
  have "?n div 2 ^ a * 2 ^ a + ?n mod 2 ^ a = ?n" by (rule div_mult_mod_eq)
  moreover have "?n mod 2 ^ a < 2 ^ a" by simp
  moreover have "0 < (2 :: nat) ^ a" by simp
  ultimately show "r \<le> align_up r (2 ^ a)" "align_up r (2 ^ a) < r + 2 ^ a"
    unfolding align_up_eq [OF assms] by linarith+
  show "2 ^ a dvd align_up r (2 ^ a)" unfolding align_up_eq [OF assms] by simp
qed

lemma align_up_page:
  assumes "r + 2 ^ a \<le> 2 ^ 64" "PAGE dvd r"
  shows "PAGE dvd align_up r (2 ^ a)"
proof (cases "a \<le> 12")
  case True
  have "(2 :: nat) ^ a dvd 2 ^ 12" using True by (rule le_imp_power_dvd)
  then have d: "2 ^ a dvd r" using assms(2) by (simp add: PAGE_def) (metis dvd_trans)
  have b: "align_up r (2 ^ a) - r < 2 ^ a" "2 ^ a dvd align_up r (2 ^ a) - r"
    using align_up_bounds [OF assms(1)] d by (simp_all add: dvd_diff_nat)
  then have "align_up r (2 ^ a) = r" using nat_dvd_not_less [of "align_up r (2 ^ a) - r" "2 ^ a"]
      align_up_bounds(1) [OF assms(1)] by force
  then show ?thesis using assms(2) by simp
next
  case False
  then have "(2 :: nat) ^ 12 dvd 2 ^ a" by (intro le_imp_power_dvd) simp
  then show ?thesis using align_up_bounds(3) [OF assms(1)] by (simp add: PAGE_def) (metis dvd_trans)
qed

lemma mem_pages: "PAGE dvd a \<Longrightarrow> i \<in> pages a n \<longleftrightarrow> a \<le> i * PAGE \<and> i * PAGE < a + n"
  unfolding pages_def PAGE_def by (elim dvdE) auto

definition owns_pages :: "('k \<Rightarrow> nat set) \<Rightarrow> 'k \<Rightarrow> region set \<Rightarrow> bool" where
  "owns_pages page_map k R \<longleftrightarrow>
     (\<forall>r \<in> R. 0 < snd r \<and> PAGE dvd fst r \<and> pages (fst r) (snd r) \<subseteq> page_map k) \<and>
     (\<forall>r \<in> R. \<forall>q \<in> R. r \<noteq> q \<longrightarrow> pages (fst r) (snd r) \<inter> pages (fst q) (snd q) = {})"

lemma region_page:
  assumes "PAGE dvd fst r" "in_region r x"
  shows "x div PAGE \<in> pages (fst r) (snd r)"
proof -
  have "fst r div PAGE \<le> x div PAGE" using assms(2) by (simp add: in_region_def div_le_mono)
  moreover have "x div PAGE * PAGE \<le> x" by simp
  ultimately show ?thesis using assms unfolding mem_pages [OF assms(1)] in_region_def
    by (metis dvd_div_mult_self le_trans mult_le_mono1 le_less_trans)
qed

lemma owned_page_mapped: "owns_pages page_map k R \<Longrightarrow> covered R x \<Longrightarrow> x div PAGE \<in> page_map k"
  using region_page by (fastforce simp: owns_pages_def covered_def)

lemma disjoint_pages_regions:
  assumes "PAGE dvd a" "PAGE dvd b" "0 < n" "0 < k" "pages a n \<inter> pages b k = {}"
  shows "disjoint_regions (a, n) (b, k)"
proof (rule ccontr)
  assume "\<not> disjoint_regions (a, n) (b, k)"
  then have "b < a + n" "a < b + k" by (auto simp: disjoint_regions_def)
  then have "(max a b) div PAGE \<in> pages a n \<inter> pages b k"
    using assms(1-4) by (auto simp: mem_pages max_def)
  then show False using assms(5) by blast
qed

text \<open>What is left mapped after the two trims.\<close>

lemma trimmed_pages:
  assumes "PAGE dvd r" "PAGE dvd al" "r \<le> al" "al \<le> r + k" "0 < sz"
  shows "pages al sz \<subseteq> pages r (sz + k)" "pages al sz \<inter> pages r (al - r) = {}"
    "pages r (al - r) \<subseteq> pages r (sz + k)"
    "PAGE dvd al + sz \<Longrightarrow> pages al sz \<inter> pages (al + sz) (r + (sz + k) - (al + sz)) = {}"
    "PAGE dvd al + sz \<Longrightarrow> pages (al + sz) (r + (sz + k) - (al + sz)) \<subseteq> pages r (sz + k)"
  using assms by (auto simp: mem_pages)

lemma owns_pages_insert:
  assumes "owns_pages pm k R" "pm k \<subseteq> pm k'" "pages a n \<subseteq> pm k'" "pages a n \<inter> pm k = {}" "PAGE dvd a" "0 < n"
  shows "owns_pages pm k' (insert (a, n) R)" "\<forall>r \<in> R. disjoint_regions (a, n) r"
proof -
  have dis: "pages a n \<inter> pages (fst r) (snd r) = {}" if "r \<in> R" for r
    using assms(1,4) that by (auto simp: owns_pages_def)
  have old: "0 < snd r \<and> PAGE dvd fst r \<and> pages (fst r) (snd r) \<subseteq> pm k'" if "r \<in> R" for r
    using assms(1,2) that unfolding owns_pages_def by blast
  show "owns_pages pm k' (insert (a, n) R)"
    unfolding owns_pages_def
  proof (intro conjI ballI impI)
    fix r q assume rq: "r \<in> insert (a, n) R" "q \<in> insert (a, n) R" "r \<noteq> q"
    consider "r = (a, n)" "q \<in> R" | "q = (a, n)" "r \<in> R" | "r \<in> R" "q \<in> R" using rq by blast
    then show "pages (fst r) (snd r) \<inter> pages (fst q) (snd q) = {}"
    proof cases
      case 3
      then show ?thesis using assms(1) rq(3) unfolding owns_pages_def by blast
    qed (use dis [of q] dis [of r] in auto)
  qed (use old assms(3,5,6) in auto)
  show "\<forall>r \<in> R. disjoint_regions (a, n) r"
  proof
    fix r assume "r \<in> R"
    then show "disjoint_regions (a, n) r"
      using disjoint_pages_regions [OF assms(5) _ assms(6), of "fst r" "snd r"] old dis by simp
  qed
qed

context vm_syscalls
begin

text \<open>One trim: pages outside the trimmed range stay mapped and keep their contents.\<close>

lemma trim:
  assumes "(k', m') = (if 0 < n then munmap V a n (k, m) else (k, m))" "i \<in> page_map k"
    "PAGE dvd a \<Longrightarrow> i \<notin> pages a n"
  shows "i \<in> page_map k'" "x div PAGE = i \<Longrightarrow> m' x = m x"
  using assms munmap_ok [of a n k m k' m'] munmap_invalid [of a n k m]
  by (cases "PAGE dvd a"; auto split: if_splits)+

lemma mmap_alloc_ok:
  assumes l: "lalign l = 2 ^ e" "0 < lsize l" "lsize l + lalign l \<le> 2 ^ 64"
    and al: "MmapAllocator_alloc V l (k, m) = (Some a, k', m')"
  shows "0 < a \<and> lalign l dvd a \<and> a + lsize l \<le> 2 ^ 64 \<and> PAGE dvd a \<and> page_map k \<subseteq> page_map k' \<and>
    pages a (lsize l) \<subseteq> page_map k' \<and> pages a (lsize l) \<inter> page_map k = {} \<and>
    (\<forall>x. in_region (a, lsize l) x \<longrightarrow> m' x = 0) \<and> (\<forall>x. x div PAGE \<in> page_map k \<longrightarrow> m' x = m x)"
proof -
  define n where "n = lsize l + lalign l"
  obtain raw k1 m1 where mm: "mmap V n (k, m) = (Some raw, k1, m1)"
    using al by (auto simp: MmapAllocator_alloc_def Let_def n_def split: prod.splits option.splits)
  have "0 < n" using l(2) by (simp add: n_def)
  note M = mmap_ok [OF this mm]
  define ad where "ad = align_up raw (lalign l)"
  have bnd: "raw + 2 ^ e \<le> 2 ^ 64" using M l(1) by (simp add: n_def)
  note A = align_up_bounds [OF bnd, folded l(1), folded ad_def]
  have pd: "PAGE dvd ad" using align_up_page [OF bnd] M by (simp add: ad_def l(1))
  obtain k2 m2 where s2: "(k2, m2) = (if 0 < ad - raw then munmap V raw (ad - raw) (k1, m1) else (k1, m1))"
    by (metis surj_pair)
  define tr where "tr = raw + n - (ad + lsize l)"
  have s3: "(k', m') = (if 0 < tr then munmap V (ad + lsize l) tr (k2, m2) else (k2, m2))" "a = ad" "ad \<noteq> 0"
    using al mm s2 by (auto simp: MmapAllocator_alloc_def Let_def n_def ad_def tr_def split: if_splits)
  have rd: "PAGE dvd raw" using M by simp
  note T = trimmed_pages [OF rd pd A(1) less_imp_le [OF A(2)] l(2), folded n_def, folded tr_def]
  have keep: "i \<in> page_map k' \<and> (\<forall>x. x div PAGE = i \<longrightarrow> m' x = m1 x)"
    if "i \<in> page_map k \<or> i \<in> pages ad (lsize l)" for i
  proof -
    have i: "i \<in> page_map k1" "i \<notin> pages raw (ad - raw)" "PAGE dvd ad + lsize l \<Longrightarrow> i \<notin> pages (ad + lsize l) tr"
      using that M T by blast+
    note t1 = trim [OF s2 i(1) i(2)]
    note t2 = trim [OF s3(1) t1(1) i(3)]
    show ?thesis using t1 t2 by simp
  qed
  have "m' x = 0" if "in_region (ad, lsize l) x" for x
  proof -
    have "x div PAGE \<in> pages ad (lsize l)" using region_page [of "(ad, lsize l)" x] pd that by simp
    then have "m1 x = 0" "m' x = m1 x" using keep M T(1) by blast+
    then show ?thesis by simp
  qed
  moreover have "m' x = m x" if "x div PAGE \<in> page_map k" for x
  proof -
    have "m1 x = m x" "m' x = m1 x" using that keep M by blast+
    then show ?thesis by simp
  qed
  moreover have "pages ad (lsize l) \<inter> page_map k = {}" using M T(1) by blast
  moreover have "page_map k \<subseteq> page_map k'" "pages ad (lsize l) \<subseteq> page_map k'" using keep by blast+
  moreover have "ad + lsize l \<le> 2 ^ 64" using A(2) M by (simp add: n_def)
  ultimately show ?thesis using A(3) s3(2,3) pd by simp
qed

lemma mmap_alloc_fail:
  assumes l: "lalign l = 2 ^ e" "0 < lsize l"
    and al: "MmapAllocator_alloc V l (k, m) = (None, k', m')"
  shows "page_map k' = page_map k \<and> (\<forall>x. x div PAGE \<in> page_map k \<longrightarrow> m' x = m x)"
proof (cases "mmap V (lsize l + lalign l) (k, m)")
  case (fields r k1 m1)
  show ?thesis
  proof (cases r)
    case None
    then show ?thesis using al fields mmap_fail by (simp add: MmapAllocator_alloc_def Let_def)
  next
    case (Some raw)
    then have "mmap V (lsize l + lalign l) (k, m) = (Some raw, k1, m1)" using fields by simp
    note M = mmap_ok [OF _ this]
    have b: "raw + 2 ^ e \<le> 2 ^ 64" "0 < raw" using M l by simp_all
    then have "align_up raw (lalign l) \<noteq> 0" using align_up_bounds(1) [OF b(1)] l(1) by simp
    then show ?thesis using al fields Some by (simp add: MmapAllocator_alloc_def Let_def)
  qed
qed

end

sublocale vm_syscalls \<subseteq> mmap_pages: page_allocator "MmapAllocator V" "owns_pages page_map"
proof
  fix p R l m p' m'
  assume o: "owns_pages page_map p R" and l: "layout_ok l" "0 < lsize l"
  obtain e where e: "lalign l = 2 ^ e" "e < 64" using l(1) by (auto simp: layout_ok_def)
  have "(2 :: nat) ^ e \<le> 2 ^ 63" using e(2) by (intro power_increasing) auto
  moreover have "lsize l < 2 ^ 63" using l(1) next_multiple_of_ge [of "lsize l" "lalign l"] by (simp add: layout_ok_def)
  ultimately have bnd: "lsize l + lalign l \<le> 2 ^ 64" using e(1) by simp
  show "owns_pages page_map p' R \<and> (\<forall>x. covered R x \<longrightarrow> m' x = m x)"
    if "pa_alloc (MmapAllocator V) l (p, m) = (None, p', m')"
    using mmap_alloc_fail [OF e(1) l(2)] that o owned_page_mapped [OF o]
    by (auto simp: MmapAllocator_def owns_pages_def)
  show "0 < a \<and> lalign l dvd a \<and> a + lsize l \<le> 2 ^ 64 \<and> (\<forall>r \<in> R. disjoint_regions (a, lsize l) r) \<and>
      owns_pages page_map p' (insert (a, lsize l) R) \<and> (\<forall>x. in_region (a, lsize l) x \<longrightarrow> m' x = 0) \<and>
      (\<forall>x. covered R x \<longrightarrow> m' x = m x)"
    if "pa_alloc (MmapAllocator V) l (p, m) = (Some a, p', m')" for a
  proof -
    have "MmapAllocator_alloc V l (p, m) = (Some a, p', m')" using that by (simp add: MmapAllocator_def)
    note K = mmap_alloc_ok [OF e(1) l(2) bnd this]
    note I = owns_pages_insert [OF o, of p' a "lsize l"]
    show ?thesis using K I l(2) owned_page_mapped [OF o] by blast
  qed
next
  fix p R a l m p' m'
  assume o: "owns_pages page_map p R" and r: "(a, lsize l) \<in> R" and d: "pa_dealloc (MmapAllocator V) a l (p, m) = (p', m')"
  have a: "PAGE dvd a" "0 < lsize l" "munmap V a (lsize l) (p, m) = (p', m')"
    using o r d by (force simp: owns_pages_def MmapAllocator_def)+
  note M = munmap_ok [OF a]
  have o': "owns_pages page_map p' (R - {(a, lsize l)})"
    unfolding owns_pages_def
  proof (intro conjI ballI impI)
    fix q assume q: "q \<in> R - {(a, lsize l)}"
    then have "pages (fst q) (snd q) \<inter> pages (fst (a, lsize l)) (snd (a, lsize l)) = {}"
      using o r unfolding owns_pages_def by blast
    moreover have "pages (fst q) (snd q) \<subseteq> page_map p" using o q unfolding owns_pages_def by blast
    moreover have pm: "page_map p' = page_map p - pages a (lsize l)" using M by simp
    ultimately show "pages (fst q) (snd q) \<subseteq> page_map p'" unfolding pm by auto
    show "0 < snd q" "PAGE dvd fst q" using o q unfolding owns_pages_def by blast+
  next
    fix r q assume "r \<in> R - {(a, lsize l)}" "q \<in> R - {(a, lsize l)}" "r \<noteq> q"
    then show "pages (fst r) (snd r) \<inter> pages (fst q) (snd q) = {}" using o unfolding owns_pages_def by blast
  qed
  then show "owns_pages page_map p' (R - {(a, lsize l)}) \<and> (\<forall>x. covered (R - {(a, lsize l)}) x \<longrightarrow> m' x = m x)"
    using M owned_page_mapped [OF o'] by blast
next
  show "owns_pages page_map p' R \<and> (\<forall>x. \<not> in_region (a, n) x \<longrightarrow> m' x = m x)"
    if "owns_pages page_map p R" "PAGE dvd a" "PAGE dvd n" "pa_purge (MmapAllocator V) a n (p, m) = (p', m')" for p R a n m p' m'
    using that madvise_dontneed [of a n p m p' m'] by (simp add: MmapAllocator_def owns_pages_def)
qed

context vm_syscalls
begin

lemma mmap_contract: "page_allocator (MmapAllocator V) (owns_pages page_map)"
  by (rule mmap_pages.page_allocator_axioms)

end

subsection \<open>A kernel that meets the system call contract\<close>

text \<open>
  A kernel that hands out address space upwards. Its state is the set of mapped pages and the next
  unused page number; it fails when the address space is exhausted.
\<close>

type_synonym bump_kernel = "nat set \<times> nat"

definition zero_pages :: "nat set \<Rightarrow> memory \<Rightarrow> memory" where
  "zero_pages P m x = (if x div PAGE \<in> P then 0 else m x)"

definition bump_mmap :: "nat \<Rightarrow> bump_kernel \<times> memory \<Rightarrow> addr option \<times> bump_kernel \<times> memory" where
  "bump_mmap n km = (case km of ((P, nxt), m) \<Rightarrow>
     let a = nxt * PAGE in
     if 0 < nxt \<and> a + n \<le> 2 ^ 64 \<and> (\<forall>p \<in> P. p < nxt)
     then (Some a, (P \<union> pages a n, (a + n + PAGE - 1) div PAGE), zero_pages (pages a n) m)
     else (None, (P, nxt), m))"

definition bump_munmap :: "addr \<Rightarrow> nat \<Rightarrow> bump_kernel \<times> memory \<Rightarrow> bump_kernel \<times> memory" where
  "bump_munmap a n km = (case km of ((P, nxt), m) \<Rightarrow>
     if PAGE dvd a then ((P - pages a n, nxt), m) else ((P, nxt), m))"

definition bump_madvise :: "addr \<Rightarrow> nat \<Rightarrow> bump_kernel \<times> memory \<Rightarrow> bump_kernel \<times> memory" where
  "bump_madvise a n km = (case km of (k, m) \<Rightarrow> (k, \<lambda>x. if in_region (a, n) x then 0 else m x))"

definition bump_vm :: "bump_kernel vm" where
  "bump_vm = \<lparr>mmap = bump_mmap, munmap = bump_munmap, madvise = bump_madvise\<rparr>"

interpretation bump: vm_syscalls bump_vm fst
proof
  fix n k m a k' m'
  assume n: "0 < (n::nat)" and mm: "mmap bump_vm n (k, m) = (Some a, k', m')"
  obtain P nxt where k: "k = (P, nxt)" by fastforce
  have r: "0 < nxt" "a = nxt * PAGE" "a + n \<le> 2 ^ 64" "\<forall>p \<in> P. p < nxt"
      "k' = (P \<union> pages a n, (a + n + PAGE - 1) div PAGE)" "m' = zero_pages (pages a n) m"
    using mm by (auto simp: bump_vm_def bump_mmap_def k Let_def split: if_splits)
  have "pages a n \<inter> P = {}" using r(2,4) by (auto simp: pages_def PAGE_def)
  then show "0 < a \<and> PAGE dvd a \<and> a + n \<le> 2 ^ 64 \<and> pages a n \<inter> fst k = {} \<and>
      fst k' = fst k \<union> pages a n \<and> (\<forall>x. x div PAGE \<in> pages a n \<longrightarrow> m' x = 0) \<and>
      (\<forall>x. x div PAGE \<in> fst k \<longrightarrow> m' x = m x)"
    using r by (auto simp: k zero_pages_def PAGE_def)
qed (auto simp: bump_vm_def bump_mmap_def bump_munmap_def bump_madvise_def Let_def split: if_splits prod.splits)

subsection \<open>Properties\<close>

text \<open>
  C27. The mmap backend meets the contract of the page allocator trait, given the documented
  behaviour of the system calls: a successful allocation is a zeroed region of the requested size
  and alignment that overlaps no region held before; the regions held before keep their contents,
  also when both ends of the mapping are trimmed; releasing a region leaves the others mapped and
  untouched.
\<close>

theorem mmap_allocator_contract:
  assumes "vm_syscalls V page_map" and "owns_pages page_map k R" and "layout_ok l" and "0 < lsize l"
  shows "(\<forall>a k' m'. pa_alloc (MmapAllocator V) l (k, m) = (Some a, k', m') \<longrightarrow>
      0 < a \<and> lalign l dvd a \<and> a + lsize l \<le> 2 ^ 64 \<and> (\<forall>r \<in> R. disjoint_regions (a, lsize l) r) \<and>
      owns_pages page_map k' (insert (a, lsize l) R) \<and> (\<forall>x. in_region (a, lsize l) x \<longrightarrow> m' x = 0) \<and>
      (\<forall>x. covered R x \<longrightarrow> m' x = m x)) \<and>
    (\<forall>a k' m'. (a, lsize l) \<in> R \<longrightarrow> pa_dealloc (MmapAllocator V) a l (k, m) = (k', m') \<longrightarrow>
      owns_pages page_map k' (R - {(a, lsize l)}) \<and> (\<forall>x. covered (R - {(a, lsize l)}) x \<longrightarrow> m' x = m x))"
proof -
  note C = vm_syscalls.mmap_contract [OF assms(1)]
  show ?thesis
    by (rule conjI; intro allI impI;
        (rule page_allocator.alloc_ok [OF C assms(2-4)] | rule page_allocator.dealloc_ok [OF C assms(2)]))
qed

definition segment_layout_2M :: layout where
  "segment_layout_2M = \<lparr>lsize = 2097152, lalign = 65536\<rparr>"

lemma segment_layout_2M_ok: "layout_ok segment_layout_2M"
  by (auto simp: layout_ok_def segment_layout_2M_def next_multiple_of_def intro!: exI [of _ 16])

theorem mmap_allocator_contract_witness:
  "\<exists>k' m'. pa_alloc (MmapAllocator bump_vm) segment_layout_2M (({}, 1), \<lambda>_. 0) = (Some 65536, k', m') \<and>
     owns_pages fst k' {(65536, 2097152)}"
proof -
  have al: "align_up 4096 65536 = 65536" using align_up_eq [of 4096 16] by simp
  have "\<exists>k' m'. pa_alloc (MmapAllocator bump_vm) segment_layout_2M (({}, 1), \<lambda>_. 0) = (Some 65536, k', m')"
    by (simp add: MmapAllocator_def MmapAllocator_alloc_def bump_vm_def bump_mmap_def segment_layout_2M_def
        al PAGE_def Let_def split: prod.splits)
  then obtain k' m' where A: "pa_alloc (MmapAllocator bump_vm) segment_layout_2M (({}, 1), \<lambda>_. 0) = (Some 65536, k', m')"
    by blast
  have "owns_pages fst ({}, 1::nat) {}" by (simp add: owns_pages_def)
  from mmap_allocator_contract [OF bump.vm_syscalls_axioms this segment_layout_2M_ok, of "\<lambda>_. 0"]
  have "owns_pages fst k' {(65536, 2097152)}" using A by (cases k') (simp add: segment_layout_2M_def)
  then show ?thesis using A by blast
qed

text \<open>The pages of a mapping that are neither in the region nor in its two trimmed ends.\<close>

lemma mapping_pages:
  assumes "PAGE dvd r" "PAGE dvd al" "r \<le> al" "al \<le> r + k" "0 < sz" "PAGE dvd al + sz"
  shows "pages r (sz + k) = pages r (al - r) \<union> pages al sz \<union> pages (al + sz) (r + (sz + k) - (al + sz))"
  using assms by (auto simp: mem_pages)

context vm_syscalls
begin

lemma map_unmap:
  assumes l: "layout_ok l" "0 < lsize l"
    and al: "pa_alloc (MmapAllocator V) l (k, m) = (Some a, k1, m1)"
    and de: "pa_dealloc (MmapAllocator V) a l (k1, m1) = (k2, m2)"
  obtains raw where "PAGE dvd raw" "raw \<le> a" "a < raw + lalign l" "PAGE dvd a"
    "pages raw (lsize l + lalign l) \<inter> page_map k = {}"
    "page_map k2 = page_map k \<union> (pages raw (lsize l + lalign l) - pages raw (a - raw) -
       (if PAGE dvd a + lsize l then pages (a + lsize l) (raw + (lsize l + lalign l) - (a + lsize l)) else {}) - pages a (lsize l))"
proof -
  obtain e where e: "lalign l = 2 ^ e" using l(1) by (auto simp: layout_ok_def)
  define n where "n = lsize l + lalign l"
  have al': "MmapAllocator_alloc V l (k, m) = (Some a, k1, m1)" using al by (simp add: MmapAllocator_def)
  obtain raw k0 m0 where mm: "mmap V n (k, m) = (Some raw, k0, m0)"
    using al' by (auto simp: MmapAllocator_alloc_def Let_def n_def split: prod.splits option.splits)
  have "0 < n" using l(2) by (simp add: n_def)
  note M = mmap_ok [OF this mm]
  have bnd: "raw + 2 ^ e \<le> 2 ^ 64" using M e by (simp add: n_def)
  obtain k3 m3 where s2: "(k3, m3) = (if 0 < a - raw then munmap V raw (a - raw) (k0, m0) else (k0, m0))"
    by (metis surj_pair)
  define tr where "tr = raw + n - (a + lsize l)"
  have s3: "(k1, m1) = (if 0 < tr then munmap V (a + lsize l) tr (k3, m3) else (k3, m3))" "a = align_up raw (lalign l)"
    using al' mm s2 by (auto simp: MmapAllocator_alloc_def Let_def n_def tr_def split: if_splits)
  note A = align_up_bounds [OF bnd, folded e, folded s3(2)]
  have pd: "PAGE dvd raw" "PAGE dvd a" using M align_up_page [OF bnd] by (simp_all add: s3(2) e)
  have tr0: "0 < tr" using A(2) by (simp add: tr_def n_def)
  have 1: "page_map k3 = page_map k0 - pages raw (a - raw)"
    using s2 munmap_ok [OF pd(1), of "a - raw" k0 m0 k3 m3] pd(1) by (auto simp: mem_pages split: if_splits)
  have 2: "page_map k1 = page_map k3 - (if PAGE dvd a + lsize l then pages (a + lsize l) tr else {})"
    using s3(1) tr0 munmap_ok [OF _ tr0, of "a + lsize l" k3 m3 k1 m1] munmap_invalid [of "a + lsize l" tr k3 m3]
    by (auto split: if_splits)
  have 3: "page_map k2 = page_map k1 - pages a (lsize l)"
    using de munmap_ok [OF pd(2) l(2), of k1 m1 k2 m2] by (simp add: MmapAllocator_def)
  have dis: "pages raw n \<inter> page_map k = {}" "page_map k0 = page_map k \<union> pages raw n" using M by auto
  have "pages raw (a - raw) \<subseteq> pages raw n" "pages a (lsize l) \<subseteq> pages raw n"
    "PAGE dvd a + lsize l \<Longrightarrow> pages (a + lsize l) tr \<subseteq> pages raw n"
    using trimmed_pages [OF pd A(1) less_imp_le [OF A(2)] l(2)] by (simp_all add: n_def tr_def)
  then have "page_map k2 = page_map k \<union> (pages raw n - pages raw (a - raw) -
      (if PAGE dvd a + lsize l then pages (a + lsize l) tr else {}) - pages a (lsize l))"
    unfolding 3 2 1 dis(2) using dis(1) by auto
  then show thesis using that [of raw] pd A dis(1) by (simp add: n_def tr_def)
qed

end

text \<open>
  C28. A request with an alignment of a page or more whose size is not a multiple of the page size
  leaks address space, over every kernel that behaves as documented: the trailing excess starts inside
  a page, \<open>munmap\<close> rejects the unaligned address, and releasing the region does not unmap the rest.
  The page after the region, which was not mapped before the allocation, is still mapped after the
  region was released. A request whose size is a multiple of the page size leaks nothing, whatever
  its alignment: allocating and releasing it gives back exactly the pages mapped before.
\<close>

theorem mmap_unaligned_trailing_leak:
  assumes "vm_syscalls V page_map" "layout_ok l" "0 < lsize l"
    "pa_alloc (MmapAllocator V) l (k, m) = (Some a, k1, m1)" "pa_dealloc (MmapAllocator V) a l (k1, m1) = (k2, m2)"
  shows "(PAGE \<le> lalign l \<and> \<not> PAGE dvd lsize l \<longrightarrow> Suc ((a + lsize l) div PAGE) \<in> page_map k2 - page_map k) \<and>
    (PAGE dvd lsize l \<longrightarrow> page_map k2 = page_map k)"
proof -
  obtain raw where r: "PAGE dvd raw" "raw \<le> a" "a < raw + lalign l" "PAGE dvd a"
    "pages raw (lsize l + lalign l) \<inter> page_map k = {}"
    "page_map k2 = page_map k \<union> (pages raw (lsize l + lalign l) - pages raw (a - raw) -
       (if PAGE dvd a + lsize l then pages (a + lsize l) (raw + (lsize l + lalign l) - (a + lsize l)) else {}) - pages a (lsize l))"
    by (rule vm_syscalls.map_unmap [OF assms])
  have "Suc ((a + lsize l) div PAGE) \<in> page_map k2 - page_map k" if al: "PAGE \<le> lalign l" and sz: "\<not> PAGE dvd lsize l"
  proof -
    obtain e where e: "lalign l = 2 ^ e" using assms(2) by (auto simp: layout_ok_def)
    have "PAGE dvd lalign l"
      using al power_le_imp_le_exp [of "2 :: nat" 12 e] le_imp_power_dvd [of 12 e "2 :: nat"] by (simp add: e PAGE_def)
    then obtain x y z where xyz: "raw = PAGE * x" "a = PAGE * y" "lalign l = PAGE * z" using r(1,4) by (auto elim!: dvdE)
    have "PAGE * y < PAGE * (x + z)" using r(3) by (simp only: xyz distrib_left)
    then have "PAGE * Suc y \<le> PAGE * (x + z)" by (intro mult_le_mono2) (simp add: Suc_le_eq)
    then have gap: "a + PAGE \<le> raw + lalign l" by (simp only: xyz distrib_left mult_Suc_right add.commute)
    define q where "q = (a + lsize l) div PAGE"
    have q: "q * PAGE \<le> a + lsize l" "a + lsize l < Suc q * PAGE" by (simp_all add: q_def PAGE_def)
    have "q * PAGE \<noteq> a + lsize l" using sz r(4) by (metis dvd_add_right_iff dvd_triv_right)
    then have sq: "a + lsize l < Suc q * PAGE" "Suc q * PAGE < a + lsize l + PAGE" using q by simp_all
    have "Suc q \<in> pages raw (lsize l + lalign l)" "Suc q \<notin> pages raw (a - raw)" "Suc q \<notin> pages a (lsize l)"
      unfolding mem_pages [OF r(1)] mem_pages [OF r(4)] using sq gap r(2) by linarith+
    moreover have "\<not> PAGE dvd a + lsize l" using sz r(4) by (simp add: dvd_add_right_iff)
    ultimately show ?thesis using r(5,6) unfolding q_def [symmetric] by auto
  qed
  moreover have "page_map k2 = page_map k" if "PAGE dvd lsize l"
  proof -
    have d: "PAGE dvd a + lsize l" using that r(4) by simp
    show ?thesis
      using r(6) mapping_pages [OF r(1,4,2) less_imp_le [OF r(3)] assms(3) d] d by auto
  qed
  ultimately show ?thesis by blast
qed

theorem mmap_unaligned_trailing_leak_witness:
  "\<exists>k1 m1 k2 m2. pa_alloc (MmapAllocator bump_vm) \<lparr>lsize = 100000, lalign = 65536\<rparr> (({}, 16), \<lambda>_. 0) = (Some 65536, k1, m1) \<and>
     pa_dealloc (MmapAllocator bump_vm) 65536 \<lparr>lsize = 100000, lalign = 65536\<rparr> (k1, m1) = (k2, m2) \<and> 41 \<in> fst k2"
proof -
  let ?l = "\<lparr>lsize = 100000, lalign = 65536\<rparr>"
  have al: "align_up 65536 65536 = 65536" using align_up_eq [of 65536 16] by simp
  have "\<exists>k1 m1. pa_alloc (MmapAllocator bump_vm) ?l (({}, 16), \<lambda>_. 0) = (Some 65536, k1, m1)"
    by (simp add: MmapAllocator_def MmapAllocator_alloc_def bump_vm_def bump_mmap_def al PAGE_def Let_def split: prod.splits)
  then obtain k1 m1 where a: "pa_alloc (MmapAllocator bump_vm) ?l (({}, 16), \<lambda>_. 0) = (Some 65536, k1, m1)" by blast
  obtain k2 m2 where d: "pa_dealloc (MmapAllocator bump_vm) 65536 ?l (k1, m1) = (k2, m2)" by fastforce
  have ok: "layout_ok ?l" "0 < lsize ?l" by (auto simp: layout_ok_def next_multiple_of_def intro!: exI [of _ 16])
  from mmap_unaligned_trailing_leak [OF bump.vm_syscalls_axioms ok a d] have "41 \<in> fst k2" by (simp add: PAGE_def)
  then show ?thesis using a d by blast
qed

end
