(* ===== verification/Metrics.thy ===== *)
theory Metrics
  imports Size_Class "HOL-Library.Multiset"
begin

text \<open>
  Allocation counters (\<open>src/src/metrics.rs\<close>): the counters of a heap, the registry of live heaps
  kept by the pool, and the snapshot that sums them. Counters are 64-bit words and wrap as the
  release build does. Each counter block has one writer, so the load-add-store of \<open>inc\<close> is one
  step. Arrays over the size classes are functions; a registered heap is a pointer into a store of
  counter blocks, so that the registry can write the index of a moved entry back through it.

  The lemmas show that the registry stays an exact indexed list of the live heaps, that no count
  is lost when a heap dies, and the accounting identities between the counters.
\<close>

definition MAX_HEAPS :: nat where "MAX_HEAPS = 1024"

definition inc :: "u64 \<Rightarrow> u64 \<Rightarrow> u64" where
  "inc a v = a + v"

subsection \<open>Counters of a heap\<close>

record HeapMetrics =
  registry_idx :: u32
  alloc_bytes :: u64
  free_bytes :: u64
  class_alloc_count :: "nat \<Rightarrow> u64"
  class_dealloc_count :: "nat \<Rightarrow> u64"
  class_alloc_bytes :: "nat \<Rightarrow> u64"
  class_free_bytes :: "nat \<Rightarrow> u64"
  remote_free_count :: u64
  large_alloc_count :: u64
  large_alloc_bytes :: u64
  large_dealloc_bytes :: u64

definition HeapMetrics_ZERO :: HeapMetrics where
  "HeapMetrics_ZERO = \<lparr>registry_idx = - 1, alloc_bytes = 0, free_bytes = 0,
     class_alloc_count = (\<lambda>_. 0), class_dealloc_count = (\<lambda>_. 0), class_alloc_bytes = (\<lambda>_. 0),
     class_free_bytes = (\<lambda>_. 0), remote_free_count = 0, large_alloc_count = 0,
     large_alloc_bytes = 0, large_dealloc_bytes = 0\<rparr>"

definition inc_at :: "(nat \<Rightarrow> u64) \<Rightarrow> nat \<Rightarrow> u64 \<Rightarrow> nat \<Rightarrow> u64" where
  "inc_at a idx v = a(idx := inc (a idx) v)"

definition on_alloc :: "nat \<Rightarrow> nat \<Rightarrow> HeapMetrics \<Rightarrow> HeapMetrics" where
  "on_alloc idx cs m =
    (let sz = of_nat cs in
     m\<lparr>alloc_bytes := inc (alloc_bytes m) sz, class_alloc_count := inc_at (class_alloc_count m) idx 1,
       class_alloc_bytes := inc_at (class_alloc_bytes m) idx sz\<rparr>)"

definition on_dealloc :: "nat \<Rightarrow> nat \<Rightarrow> HeapMetrics \<Rightarrow> HeapMetrics" where
  "on_dealloc idx cs m =
    (let sz = of_nat cs in
     m\<lparr>free_bytes := inc (free_bytes m) sz, class_dealloc_count := inc_at (class_dealloc_count m) idx 1,
       class_free_bytes := inc_at (class_free_bytes m) idx sz\<rparr>)"

definition on_large_alloc :: "nat \<Rightarrow> HeapMetrics \<Rightarrow> HeapMetrics" where
  "on_large_alloc sz m =
    m\<lparr>alloc_bytes := inc (alloc_bytes m) (of_nat sz), large_alloc_count := inc (large_alloc_count m) 1,
      large_alloc_bytes := inc (large_alloc_bytes m) (of_nat sz)\<rparr>"

definition on_large_dealloc :: "nat \<Rightarrow> HeapMetrics \<Rightarrow> HeapMetrics" where
  "on_large_dealloc sz m =
    m\<lparr>free_bytes := inc (free_bytes m) (of_nat sz),
      large_dealloc_bytes := inc (large_dealloc_bytes m) (of_nat sz)\<rparr>"

definition on_remote_free :: "u64 \<Rightarrow> HeapMetrics \<Rightarrow> HeapMetrics" where
  "on_remote_free n m = m\<lparr>remote_free_count := inc (remote_free_count m) n\<rparr>"

text \<open>The loops over the size classes: entries below \<open>NUM_CLASSES\<close> are added.\<close>

definition add_classes :: "(nat \<Rightarrow> u64) \<Rightarrow> (nat \<Rightarrow> u64) \<Rightarrow> nat \<Rightarrow> u64" where
  "add_classes a b i = (if i < NUM_CLASSES then a i + b i else a i)"

definition accumulate :: "HeapMetrics \<Rightarrow> HeapMetrics \<Rightarrow> HeapMetrics" where
  "accumulate self other =
    self\<lparr>alloc_bytes := alloc_bytes self + alloc_bytes other,
      free_bytes := free_bytes self + free_bytes other,
      remote_free_count := remote_free_count self + remote_free_count other,
      large_alloc_count := large_alloc_count self + large_alloc_count other,
      large_alloc_bytes := large_alloc_bytes self + large_alloc_bytes other,
      large_dealloc_bytes := large_dealloc_bytes self + large_dealloc_bytes other,
      class_alloc_count := add_classes (class_alloc_count self) (class_alloc_count other),
      class_dealloc_count := add_classes (class_dealloc_count self) (class_dealloc_count other),
      class_alloc_bytes := add_classes (class_alloc_bytes self) (class_alloc_bytes other),
      class_free_bytes := add_classes (class_free_bytes self) (class_free_bytes other)\<rparr>"

subsection \<open>The registry of heaps\<close>

record PoolMetrics =
  abandon_count :: "nat \<Rightarrow> u64"
  adopt_count :: "nat \<Rightarrow> u64"
  segment_mmap_count :: u64
  segment_munmap_count :: u64
  slab_purge_count :: u64
  pool_lock_count :: u64
  heap_ptrs :: "nat \<Rightarrow> addr"
  heap_count :: nat
  dead :: HeapMetrics

definition PoolMetrics_new :: PoolMetrics where
  "PoolMetrics_new = \<lparr>abandon_count = (\<lambda>_. 0), adopt_count = (\<lambda>_. 0), segment_mmap_count = 0,
     segment_munmap_count = 0, slab_purge_count = 0, pool_lock_count = 0,
     heap_ptrs = (\<lambda>_. null), heap_count = 0, dead = HeapMetrics_ZERO\<rparr>"

type_synonym metrics_store = "addr \<Rightarrow> HeapMetrics"

definition set_registry_idx :: "addr \<Rightarrow> nat \<Rightarrow> metrics_store \<Rightarrow> metrics_store" where
  "set_registry_idx ptr idx hm = hm(ptr := hm ptr\<lparr>registry_idx := of_nat idx\<rparr>)"

text \<open>\<open>None\<close> is the panic of the assertion.\<close>

definition register_heap :: "addr \<Rightarrow> PoolMetrics \<Rightarrow> metrics_store \<Rightarrow> (PoolMetrics \<times> metrics_store) option" where
  "register_heap ptr pm hm =
    (if heap_count pm < MAX_HEAPS
     then let idx = heap_count pm in
       Some (pm\<lparr>heap_ptrs := (heap_ptrs pm)(idx := ptr), heap_count := heap_count pm + 1\<rparr>,
             set_registry_idx ptr idx hm)
     else None)"

text \<open>
  With no registered heap the decrement wraps and the following array access panics, as it does
  for an index outside the array.
\<close>

definition deregister_heap :: "addr \<Rightarrow> PoolMetrics \<Rightarrow> metrics_store \<Rightarrow> (PoolMetrics \<times> metrics_store) option" where
  "deregister_heap ptr pm hm =
    (let metrics = hm ptr; idx = unat (registry_idx metrics);
         pm1 = pm\<lparr>dead := accumulate (dead pm) metrics\<rparr>
     in if heap_count pm = 0 then None
        else let n = heap_count pm - 1 in
          if idx \<noteq> n
          then if MAX_HEAPS \<le> idx then None
               else let moved = heap_ptrs pm n in
                 Some (pm1\<lparr>heap_count := n, heap_ptrs := (heap_ptrs pm)(idx := moved, n := null)\<rparr>,
                       set_registry_idx moved idx hm)
          else Some (pm1\<lparr>heap_count := n, heap_ptrs := (heap_ptrs pm)(n := null)\<rparr>, hm))"

subsection \<open>Snapshots\<close>

record MetricsSnapshot =
  allocated :: u64
  active :: u64
  mapped :: u64
  s_alloc_bytes :: u64
  s_free_bytes :: u64
  s_class_alloc_count :: "nat \<Rightarrow> u64"
  s_class_dealloc_count :: "nat \<Rightarrow> u64"
  s_class_alloc_bytes :: "nat \<Rightarrow> u64"
  s_class_free_bytes :: "nat \<Rightarrow> u64"
  class_live_count :: "nat \<Rightarrow> u64"
  class_live_bytes :: "nat \<Rightarrow> u64"
  s_abandon_count :: "nat \<Rightarrow> u64"
  s_adopt_count :: "nat \<Rightarrow> u64"
  s_segment_mmap_count :: u64
  s_segment_munmap_count :: u64
  s_slab_purge_count :: u64
  s_large_alloc_count :: u64
  s_large_alloc_bytes :: u64
  s_large_dealloc_bytes :: u64
  s_remote_free_count :: u64
  s_pool_lock_count :: u64

definition MetricsSnapshot_new :: MetricsSnapshot where
  "MetricsSnapshot_new = \<lparr>allocated = 0, active = 0, mapped = 0, s_alloc_bytes = 0, s_free_bytes = 0,
     s_class_alloc_count = (\<lambda>_. 0), s_class_dealloc_count = (\<lambda>_. 0), s_class_alloc_bytes = (\<lambda>_. 0),
     s_class_free_bytes = (\<lambda>_. 0), class_live_count = (\<lambda>_. 0), class_live_bytes = (\<lambda>_. 0),
     s_abandon_count = (\<lambda>_. 0), s_adopt_count = (\<lambda>_. 0), s_segment_mmap_count = 0,
     s_segment_munmap_count = 0, s_slab_purge_count = 0, s_large_alloc_count = 0,
     s_large_alloc_bytes = 0, s_large_dealloc_bytes = 0, s_remote_free_count = 0,
     s_pool_lock_count = 0\<rparr>"

definition accumulate_heap :: "HeapMetrics \<Rightarrow> MetricsSnapshot \<Rightarrow> MetricsSnapshot" where
  "accumulate_heap h self =
    self\<lparr>s_alloc_bytes := s_alloc_bytes self + alloc_bytes h,
      s_free_bytes := s_free_bytes self + free_bytes h,
      s_remote_free_count := s_remote_free_count self + remote_free_count h,
      s_large_alloc_count := s_large_alloc_count self + large_alloc_count h,
      s_large_alloc_bytes := s_large_alloc_bytes self + large_alloc_bytes h,
      s_large_dealloc_bytes := s_large_dealloc_bytes self + large_dealloc_bytes h,
      s_class_alloc_count := add_classes (s_class_alloc_count self) (class_alloc_count h),
      s_class_dealloc_count := add_classes (s_class_dealloc_count self) (class_dealloc_count h),
      s_class_alloc_bytes := add_classes (s_class_alloc_bytes self) (class_alloc_bytes h),
      s_class_free_bytes := add_classes (s_class_free_bytes self) (class_free_bytes h)\<rparr>"

definition aggregate_heap_metrics :: "PoolMetrics \<Rightarrow> metrics_store \<Rightarrow> MetricsSnapshot \<Rightarrow> MetricsSnapshot" where
  "aggregate_heap_metrics pm hm snap =
    (let snap1 = fold (\<lambda>i. accumulate_heap (hm (heap_ptrs pm i))) [0..<heap_count pm]
                   (accumulate_heap (dead pm) snap)
     in snap1\<lparr>s_abandon_count := abandon_count pm, s_adopt_count := adopt_count pm,
          s_segment_mmap_count := segment_mmap_count pm, s_segment_munmap_count := segment_munmap_count pm,
          s_slab_purge_count := slab_purge_count pm, s_pool_lock_count := pool_lock_count pm\<rparr>)"

definition saturating_sub :: "u64 \<Rightarrow> u64 \<Rightarrow> u64" where
  "saturating_sub a b = (if b \<le> a then a - b else 0)"

text \<open>
  The live counts are \<open>i64\<close> values: the same bits, read signed. The signed subtraction wraps like
  the unsigned one.
\<close>

definition finalize :: "MetricsSnapshot \<Rightarrow> MetricsSnapshot" where
  "finalize self =
    self\<lparr>class_live_count := (\<lambda>i. if i < NUM_CLASSES
           then s_class_alloc_count self i - s_class_dealloc_count self i else class_live_count self i),
      class_live_bytes := (\<lambda>i. if i < NUM_CLASSES
           then s_class_alloc_bytes self i - s_class_free_bytes self i else class_live_bytes self i),
      allocated := saturating_sub (s_alloc_bytes self) (s_free_bytes self)\<rparr>"

subsection \<open>The registry is an exact indexed list\<close>

definition registry_ok :: "PoolMetrics \<Rightarrow> metrics_store \<Rightarrow> addr list \<Rightarrow> bool" where
  "registry_ok pm hm ps \<longleftrightarrow>
     heap_count pm = length ps \<and> length ps \<le> MAX_HEAPS \<and> distinct ps \<and> 0 \<notin> set ps \<and>
     (\<forall>i. heap_ptrs pm i = (if i < length ps then ps ! i else null)) \<and>
     (\<forall>i < length ps. registry_idx (hm (ps ! i)) = of_nat i)"

lemma registry_new: "registry_ok PoolMetrics_new hm []"
  by (simp add: registry_ok_def PoolMetrics_new_def)

lemma register_heap_ok:
  assumes "registry_ok pm hm ps" "p \<noteq> 0" "p \<notin> set ps" "length ps < MAX_HEAPS"
  shows "\<exists>pm' hm'. register_heap p pm hm = Some (pm', hm') \<and> registry_ok pm' hm' (ps @ [p])"
  using assms
  by (auto simp: register_heap_def registry_ok_def set_registry_idx_def nth_append Let_def less_Suc_eq)

text \<open>Swap-remove on lists.\<close>

definition swap_remove :: "nat \<Rightarrow> 'a list \<Rightarrow> 'a list" where
  "swap_remove i xs = butlast (xs[i := last xs])"

lemma swap_remove_nth:
  "j < length xs - 1 \<Longrightarrow> swap_remove i xs ! j = (if j = i then last xs else xs ! j)"
  by (simp add: swap_remove_def nth_butlast nth_list_update)

lemma length_swap_remove [simp]: "length (swap_remove i xs) = length xs - 1"
  by (simp add: swap_remove_def)

lemma mset_swap_remove:
  assumes "i < length xs"
  shows "mset xs = add_mset (xs ! i) (mset (swap_remove i xs))"
proof (cases xs rule: rev_cases)
  case (snoc ys l)
  show ?thesis
  proof (cases "i = length ys")
    case True
    then show ?thesis by (simp add: snoc swap_remove_def list_update_append)
  next
    case False
    then have i: "i < length ys" using assms snoc by simp
    then have "swap_remove i xs = ys[i := l]" "xs ! i = ys ! i"
      by (simp_all add: snoc swap_remove_def list_update_append nth_append butlast_append)
    then show ?thesis using i by (simp add: snoc mset_update)
  qed
qed (use assms in simp)

lemma set_swap_remove: "i < length xs \<Longrightarrow> distinct xs \<Longrightarrow> set (swap_remove i xs) = set xs - {xs ! i} \<and> distinct (swap_remove i xs)"
proof -
  assume i: "i < length xs" and d: "distinct xs"
  have m: "mset xs = mset (xs ! i # swap_remove i xs)" using mset_swap_remove [OF i] by simp
  then show ?thesis using mset_eq_imp_distinct_iff [OF m] mset_eq_setD [OF m] d by auto
qed

lemma deregister_heap_ok:
  assumes ok: "registry_ok pm hm ps" and i: "i < length ps"
  shows "\<exists>pm' hm'. deregister_heap (ps ! i) pm hm = Some (pm', hm') \<and> registry_ok pm' hm' (swap_remove i ps) \<and>
    dead pm' = accumulate (dead pm) (hm (ps ! i)) \<and>
    (\<forall>p. hm' p = hm p \<or> (\<exists>j. hm' p = hm p\<lparr>registry_idx := j\<rparr>))"
proof -
  have "length ps \<le> 1024" using ok by (simp add: registry_ok_def MAX_HEAPS_def)
  then have idx: "unat (registry_idx (hm (ps ! i))) = i" using ok i
    by (simp add: registry_ok_def unat_of_nat)
  have n: "heap_count pm = length ps" using ok by (simp add: registry_ok_def)
  note sr = set_swap_remove [OF i]
  have len: "length ps \<le> MAX_HEAPS" "distinct ps" "0 \<notin> set ps" using ok by (simp_all add: registry_ok_def)
  show ?thesis
  proof (cases "i = length ps - 1")
    case True
    let ?pm = "pm\<lparr>dead := accumulate (dead pm) (hm (ps ! i)), heap_count := length ps - 1,
       heap_ptrs := (heap_ptrs pm)(length ps - 1 := null)\<rparr>"
    have "deregister_heap (ps ! i) pm hm = Some (?pm, hm)"
      using idx n i True by (auto simp: deregister_heap_def Let_def)
    moreover have "registry_ok ?pm hm (swap_remove i ps)"
      using ok sr i True by (auto simp: registry_ok_def swap_remove_nth)
    ultimately show ?thesis by auto
  next
    case False
    let ?pm = "pm\<lparr>dead := accumulate (dead pm) (hm (ps ! i)), heap_count := length ps - 1,
       heap_ptrs := (heap_ptrs pm)(i := last ps, length ps - 1 := null)\<rparr>"
    let ?hm = "set_registry_idx (last ps) i hm"
    have l: "last ps = ps ! (length ps - 1)" "heap_ptrs pm (length ps - 1) = last ps"
      using i ok last_conv_nth [of ps] by (cases "ps = []"; simp add: registry_ok_def)+
    have "deregister_heap (ps ! i) pm hm = Some (?pm, ?hm)"
      using idx n i False len l by (auto simp: deregister_heap_def Let_def)
    moreover have "registry_idx (?hm (swap_remove i ps ! j)) = of_nat j" if j: "j < length ps - 1" for j
    proof -
      have "ps ! j \<noteq> last ps" using j len(2) by (simp add: l(1) nth_eq_iff_index_eq)
      then show ?thesis using ok j by (simp add: swap_remove_nth set_registry_idx_def registry_ok_def)
    qed
    then have "registry_ok ?pm ?hm (swap_remove i ps)"
      using ok sr i False len by (auto simp: registry_ok_def swap_remove_nth)
    ultimately show ?thesis by (auto simp: set_registry_idx_def)
  qed
qed

subsection \<open>No count is lost when a heap dies\<close>

lemma add_classes_assoc: "add_classes (add_classes a b) c = add_classes a (add_classes b c)"
  by (auto simp: add_classes_def add.assoc)

lemma add_classes_right_commute: "add_classes (add_classes a b) c = add_classes (add_classes a c) b"
  by (auto simp: add_classes_def)

lemma accumulate_heap_commute:
  "accumulate_heap a (accumulate_heap b s) = accumulate_heap b (accumulate_heap a s)"
  by (simp add: accumulate_heap_def add_classes_right_commute [of _ "class_alloc_count a"]
      add_classes_right_commute [of _ "class_dealloc_count a"]
      add_classes_right_commute [of _ "class_alloc_bytes a"]
      add_classes_right_commute [of _ "class_free_bytes a"] add_ac)

lemma accumulate_heap_accumulate:
  "accumulate_heap (accumulate a b) s = accumulate_heap b (accumulate_heap a s)"
  by (simp add: accumulate_heap_def accumulate_def add_classes_assoc add.assoc)

lemma accumulate_heap_idx [simp]: "accumulate_heap (h\<lparr>registry_idx := j\<rparr>) s = accumulate_heap h s"
  by (simp add: accumulate_heap_def)

definition sum_heaps :: "metrics_store \<Rightarrow> addr list \<Rightarrow> MetricsSnapshot \<Rightarrow> MetricsSnapshot" where
  "sum_heaps hm ps = fold (\<lambda>p. accumulate_heap (hm p)) ps"

lemma sum_heaps_push: "sum_heaps hm ps (accumulate_heap a s) = accumulate_heap a (sum_heaps hm ps s)"
proof (induction ps arbitrary: s)
  case (Cons p ps)
  then show ?case by (simp add: sum_heaps_def accumulate_heap_commute [of "hm p" a])
qed (simp add: sum_heaps_def)

lemma sum_heaps_Cons: "sum_heaps hm (p # ps) s = accumulate_heap (hm p) (sum_heaps hm ps s)"
  using sum_heaps_push [of hm ps "hm p" s] by (simp add: sum_heaps_def)

lemma sum_heaps_perm: "mset ps = mset qs \<Longrightarrow> sum_heaps hm ps = sum_heaps hm qs"
  unfolding sum_heaps_def
  by (rule fold_multiset_equiv) (auto simp: fun_eq_iff accumulate_heap_commute)

lemma aggregate_sum_heaps:
  assumes "registry_ok pm hm ps"
  shows "fold (\<lambda>i. accumulate_heap (hm (heap_ptrs pm i))) [0..<heap_count pm] s = sum_heaps hm ps s"
proof -
  have "ps = map (heap_ptrs pm) [0..<heap_count pm]"
    using assms by (intro nth_equalityI) (auto simp: registry_ok_def)
  then have "sum_heaps hm ps s = fold ((\<lambda>p. accumulate_heap (hm p)) \<circ> heap_ptrs pm) [0..<heap_count pm] s"
    unfolding sum_heaps_def fold_map [symmetric] by simp
  then show ?thesis by (simp add: comp_def)
qed

lemma deregister_aggregate:
  assumes ok: "registry_ok pm hm ps" and i: "i < length ps"
    and d: "deregister_heap (ps ! i) pm hm = Some (pm', hm')"
  shows "aggregate_heap_metrics pm' hm' s = aggregate_heap_metrics pm hm s"
proof -
  have ok': "registry_ok pm' hm' (swap_remove i ps)" and dead: "dead pm' = accumulate (dead pm) (hm (ps ! i))"
    and hm: "\<And>p. hm' p = hm p \<or> (\<exists>j. hm' p = hm p\<lparr>registry_idx := j\<rparr>)"
    using deregister_heap_ok [OF ok i] d by auto
  have "accumulate_heap (hm' p) = accumulate_heap (hm p)" for p
    using hm [of p] by (auto simp: fun_eq_iff)
  then have "sum_heaps hm' = sum_heaps hm" by (intro ext) (simp add: sum_heaps_def)
  moreover have "sum_heaps hm ps = sum_heaps hm (ps ! i # swap_remove i ps)"
    using mset_swap_remove [OF i] by (intro sum_heaps_perm) simp
  ultimately have "sum_heaps hm' (swap_remove i ps) (accumulate_heap (dead pm') s) =
      sum_heaps hm ps (accumulate_heap (dead pm) s)"
    by (simp add: dead accumulate_heap_accumulate sum_heaps_push sum_heaps_Cons accumulate_heap_commute)
  moreover have "abandon_count pm' = abandon_count pm" "adopt_count pm' = adopt_count pm"
      "segment_mmap_count pm' = segment_mmap_count pm" "segment_munmap_count pm' = segment_munmap_count pm"
      "slab_purge_count pm' = slab_purge_count pm" "pool_lock_count pm' = pool_lock_count pm"
    using d by (auto simp: deregister_heap_def Let_def split: if_splits)
  ultimately show ?thesis
    by (simp add: aggregate_heap_metrics_def aggregate_sum_heaps [OF ok] aggregate_sum_heaps [OF ok'])
qed

subsection \<open>Accounting\<close>

text \<open>
  The byte totals are the sums of the per-class bytes and the large bytes, and the bytes of a class
  are its count times its slot size. The equations hold modulo \<open>2 ^ 64\<close>.
\<close>

definition balanced ::
  "u64 \<Rightarrow> (nat \<Rightarrow> u64) \<Rightarrow> (nat \<Rightarrow> u64) \<Rightarrow> u64 \<Rightarrow> bool" where
  "balanced t counts byts large \<longleftrightarrow>
     t = (\<Sum>i<NUM_CLASSES. byts i) + large \<and>
     (\<forall>i<NUM_CLASSES. byts i = counts i * of_nat (class_size i))"

definition accounted :: "HeapMetrics \<Rightarrow> bool" where
  "accounted m \<longleftrightarrow>
     balanced (alloc_bytes m) (class_alloc_count m) (class_alloc_bytes m) (large_alloc_bytes m) \<and>
     balanced (free_bytes m) (class_dealloc_count m) (class_free_bytes m) (large_dealloc_bytes m)"

definition snap_accounted :: "MetricsSnapshot \<Rightarrow> bool" where
  "snap_accounted s \<longleftrightarrow>
     balanced (s_alloc_bytes s) (s_class_alloc_count s) (s_class_alloc_bytes s) (s_large_alloc_bytes s) \<and>
     balanced (s_free_bytes s) (s_class_dealloc_count s) (s_class_free_bytes s) (s_large_dealloc_bytes s)"

lemma balanced_zero: "balanced 0 (\<lambda>_. 0) (\<lambda>_. 0) 0"
  by (simp add: balanced_def)

lemma sum_inc_at: "idx < n \<Longrightarrow> (\<Sum>i<n. inc_at b idx v i) = (\<Sum>i<n. b i) + v"
proof -
  assume "idx < n"
  then have "(\<Sum>i<n. inc_at b idx v i) = inc_at b idx v idx + (\<Sum>i\<in>{..<n} - {idx}. inc_at b idx v i)"
      "(\<Sum>i<n. b i) = b idx + (\<Sum>i\<in>{..<n} - {idx}. b i)"
    by (simp_all add: sum.remove)
  moreover have "(\<Sum>i\<in>{..<n} - {idx}. inc_at b idx v i) = (\<Sum>i\<in>{..<n} - {idx}. b i)"
    by (rule sum.cong) (simp_all add: inc_at_def)
  ultimately show ?thesis by (simp add: inc_at_def inc_def)
qed

lemma balanced_inc:
  assumes "balanced t c b l" "idx < NUM_CLASSES"
  shows "balanced (inc t (of_nat (class_size idx))) (inc_at c idx 1) (inc_at b idx (of_nat (class_size idx))) l"
  using assms unfolding balanced_def
  by (simp add: sum_inc_at) (simp add: inc_at_def inc_def algebra_simps)

lemma balanced_large: "balanced t c b l \<Longrightarrow> balanced (inc t v) c b (inc l v)"
  by (simp add: balanced_def inc_def)

lemma balanced_add:
  assumes "balanced t c b l" "balanced t' c' b' l'"
  shows "balanced (t + t') (add_classes c c') (add_classes b b') (l + l')"
proof -
  have "(\<Sum>i<NUM_CLASSES. add_classes b b' i) = (\<Sum>i<NUM_CLASSES. b i) + (\<Sum>i<NUM_CLASSES. b' i)"
    unfolding sum.distrib [symmetric] by (rule sum.cong) (simp_all add: add_classes_def)
  then show ?thesis using assms by (simp add: balanced_def) (simp add: add_classes_def algebra_simps)
qed

lemmas balance_rules = balanced_inc balanced_large balanced_add

datatype metrics_event = MAlloc nat | MDealloc nat | MLargeAlloc nat | MLargeDealloc nat | MRemote u64

fun metrics_apply :: "metrics_event \<Rightarrow> HeapMetrics \<Rightarrow> HeapMetrics" where
  "metrics_apply (MAlloc i) m = on_alloc i (class_size i) m"
| "metrics_apply (MDealloc i) m = on_dealloc i (class_size i) m"
| "metrics_apply (MLargeAlloc n) m = on_large_alloc n m"
| "metrics_apply (MLargeDealloc n) m = on_large_dealloc n m"
| "metrics_apply (MRemote n) m = on_remote_free n m"

fun event_class_ok :: "metrics_event \<Rightarrow> bool" where
  "event_class_ok (MAlloc i) = (i < NUM_CLASSES)"
| "event_class_ok (MDealloc i) = (i < NUM_CLASSES)"
| "event_class_ok _ = True"

lemma metrics_apply_accounted:
  assumes "accounted m" "event_class_ok e"
  shows "accounted (metrics_apply e m)"
  using assms balanced_inc balanced_large
  by (cases e) (simp_all add: accounted_def on_alloc_def on_dealloc_def on_large_alloc_def
      on_large_dealloc_def on_remote_free_def Let_def)

lemma events_accounted:
  "accounted m \<Longrightarrow> list_all event_class_ok es \<Longrightarrow> accounted (fold metrics_apply es m)"
  by (induction es arbitrary: m) (simp_all add: metrics_apply_accounted)

lemma accumulate_heap_accounted:
  "accounted h \<Longrightarrow> snap_accounted s \<Longrightarrow> snap_accounted (accumulate_heap h s)"
  using balanced_add by (simp add: accounted_def snap_accounted_def accumulate_heap_def)

lemma sum_heaps_accounted:
  "(\<And>p. p \<in> set ps \<Longrightarrow> accounted (hm p)) \<Longrightarrow> snap_accounted s \<Longrightarrow> snap_accounted (sum_heaps hm ps s)"
  by (induction ps arbitrary: s) (simp_all add: sum_heaps_def accumulate_heap_accounted)

lemma sint_sub_small: "unat a < 2 ^ 63 \<Longrightarrow> unat b < 2 ^ 63 \<Longrightarrow> sint (a - b) = int (unat a) - int (unat (b :: u64))"
proof -
  assume a: "unat a < 2 ^ 63" and b: "unat b < 2 ^ 63"
  have "sint (a - b) = signed_take_bit 63 (take_bit 64 (uint a - uint b))"
    by (simp only: sint_uint uint_word_ariths take_bit_eq_mod) simp
  also have "\<dots> = signed_take_bit 63 (uint a - uint b)"
    by (simp only: signed_take_bit_take_bit) simp
  also have "\<dots> = uint a - uint b"
  proof (rule signed_take_bit_int_eq_self)
    have "uint a < 2 ^ 63" "uint b < 2 ^ 63"
      using a b unfolding unat_eq_nat_uint by (simp_all only: nat_less_iff uint_ge_0 of_nat_power of_nat_numeral)
    then show "- (2 ^ 63) \<le> uint a - uint b" "uint a - uint b < 2 ^ 63"
      using uint_ge_0 [of a] uint_ge_0 [of b] by linarith+
  qed
  finally show ?thesis by (simp only: uint_nat)
qed
subsection \<open>Properties\<close>

text \<open>
  C25. The heap registry stays an exact indexed list of the live heaps: registering appends,
  deregistering any live heap swap-removes it, writes the new index back into the moved heap and
  never panics. Registering panics exactly when 1024 heaps are live.
\<close>

theorem registry_exact:
  assumes "registry_ok pm hm ps"
  shows "(length ps < MAX_HEAPS \<longrightarrow> (\<forall>p. p \<noteq> 0 \<and> p \<notin> set ps \<longrightarrow>
      (\<exists>pm' hm'. register_heap p pm hm = Some (pm', hm') \<and> registry_ok pm' hm' (ps @ [p])))) \<and>
    (register_heap p pm hm = None \<longleftrightarrow> length ps = MAX_HEAPS) \<and>
    (\<forall>i < length ps. \<exists>pm' hm'. deregister_heap (ps ! i) pm hm = Some (pm', hm') \<and>
      registry_ok pm' hm' (swap_remove i ps) \<and> set (swap_remove i ps) = set ps - {ps ! i})"
proof -
  have d: "distinct ps" "length ps \<le> MAX_HEAPS" "heap_count pm = length ps"
    using assms by (simp_all add: registry_ok_def)
  have "\<exists>pm' hm'. deregister_heap (ps ! i) pm hm = Some (pm', hm') \<and>
      registry_ok pm' hm' (swap_remove i ps) \<and> set (swap_remove i ps) = set ps - {ps ! i}"
    if "i < length ps" for i
    using deregister_heap_ok [OF assms that] set_swap_remove [OF that d(1)] by blast
  moreover have "register_heap p pm hm = None \<longleftrightarrow> length ps = MAX_HEAPS"
    using d by (auto simp: register_heap_def Let_def)
  ultimately show ?thesis using register_heap_ok [OF assms] by blast
qed

theorem registry_exact_witness:
  "\<exists>pm hm. registry_ok pm hm [4096] \<and> (\<exists>pm' hm'. deregister_heap 4096 pm hm = Some (pm', hm') \<and> registry_ok pm' hm' [])"
proof -
  obtain pm hm where r: "registry_ok pm hm [4096]"
    using registry_exact [OF registry_new [of "\<lambda>_. HeapMetrics_ZERO"], of 4096]
    by (auto simp: MAX_HEAPS_def elim!: allE [of _ 4096])
  moreover have "\<exists>pm' hm'. deregister_heap 4096 pm hm = Some (pm', hm') \<and> registry_ok pm' hm' []"
    using registry_exact [OF r, of 0] by (simp add: swap_remove_def)
  ultimately show ?thesis by blast
qed

text \<open>
  No count is lost when a heap dies: deregistering a heap folds its counters into the dead
  totals, and the snapshot that sums dead and live counters is the same before and after.
\<close>

theorem deregister_keeps_totals:
  assumes "registry_ok pm hm ps" and "ptr \<in> set ps"
  shows "\<exists>pm' hm'. deregister_heap ptr pm hm = Some (pm', hm') \<and>
    (\<forall>s. aggregate_heap_metrics pm' hm' s = aggregate_heap_metrics pm hm s)"
proof -
  obtain i where i: "i < length ps" "ptr = ps ! i" using assms(2) by (auto simp: in_set_conv_nth)
  then show ?thesis using deregister_heap_ok [OF assms(1) i(1)] deregister_aggregate [OF assms(1) i(1)] by blast
qed

definition one_heap :: "addr \<Rightarrow> HeapMetrics" where
  "one_heap p = (on_alloc 0 8 HeapMetrics_ZERO)\<lparr>registry_idx := 0\<rparr>"

definition one_registry :: PoolMetrics where
  "one_registry = PoolMetrics_new\<lparr>heap_ptrs := (\<lambda>_. null)(0 := 4096), heap_count := 1\<rparr>"

theorem deregister_keeps_totals_witness:
  "\<exists>pm' hm'. deregister_heap 4096 one_registry one_heap = Some (pm', hm') \<and> heap_count pm' = 0 \<and>
     s_alloc_bytes (aggregate_heap_metrics pm' hm' MetricsSnapshot_new) = 8"
proof -
  have "registry_ok one_registry one_heap [4096]"
    by (simp add: registry_ok_def one_registry_def one_heap_def PoolMetrics_new_def MAX_HEAPS_def)
  moreover have "heap_count one_registry = 1" by (simp add: one_registry_def)
  moreover have "s_alloc_bytes (aggregate_heap_metrics one_registry one_heap MetricsSnapshot_new) = 8"
    by (simp add: aggregate_heap_metrics_def one_registry_def one_heap_def PoolMetrics_new_def on_alloc_def
        accumulate_heap_def MetricsSnapshot_new_def HeapMetrics_ZERO_def inc_def Let_def)
  ultimately show ?thesis using deregister_keeps_totals [of one_registry one_heap "[4096]" 4096]
    by (fastforce simp: deregister_heap_def Let_def split: if_splits)
qed

text \<open>
  The accounting identities: after any sequence of counter events on fresh counters, and in any
  snapshot over such heaps, the allocated (freed) bytes are the sum of the per-class bytes and the
  large bytes, and the bytes of a class are its count times its slot size, modulo \<open>2 ^ 64\<close>.
\<close>

theorem metrics_accounting:
  assumes "registry_ok pm hm ps" and "accounted (dead pm)"
    and "\<And>p. p \<in> set ps \<Longrightarrow> \<exists>es idx. list_all event_class_ok es \<and>
      hm p = (fold metrics_apply es HeapMetrics_ZERO)\<lparr>registry_idx := idx\<rparr>"
  shows "snap_accounted (finalize (aggregate_heap_metrics pm hm MetricsSnapshot_new))"
proof -
  have zero: "accounted HeapMetrics_ZERO" "snap_accounted MetricsSnapshot_new"
    by (simp_all add: accounted_def snap_accounted_def HeapMetrics_ZERO_def MetricsSnapshot_new_def balanced_zero)
  have "accounted (hm p)" if p: "p \<in> set ps" for p
  proof -
    obtain es idx where es: "list_all event_class_ok es"
        "hm p = (fold metrics_apply es HeapMetrics_ZERO)\<lparr>registry_idx := idx\<rparr>"
      using assms(3) p by blast
    then have "accounted (fold metrics_apply es HeapMetrics_ZERO)" using zero(1) events_accounted by blast
    then show ?thesis using es(2) by (simp add: accounted_def)
  qed
  then have "snap_accounted (sum_heaps hm ps (accumulate_heap (dead pm) MetricsSnapshot_new))"
    using assms(2) zero(2) by (intro sum_heaps_accounted accumulate_heap_accounted)
  then show ?thesis
    by (simp add: aggregate_heap_metrics_def aggregate_sum_heaps [OF assms(1)] snap_accounted_def finalize_def)
qed

theorem metrics_accounting_witness:
  "snap_accounted (finalize (aggregate_heap_metrics one_registry one_heap MetricsSnapshot_new))"
proof (rule metrics_accounting [of one_registry one_heap "[4096]"])
  show "registry_ok one_registry one_heap [4096]"
    by (simp add: registry_ok_def one_registry_def one_heap_def PoolMetrics_new_def MAX_HEAPS_def)
  show "accounted (dead one_registry)"
    by (simp add: one_registry_def PoolMetrics_new_def accounted_def HeapMetrics_ZERO_def balanced_zero)
  have "one_heap p = (fold metrics_apply [MAlloc 0] HeapMetrics_ZERO)\<lparr>registry_idx := 0\<rparr>" for p
    by (simp add: one_heap_def class_size_def MIN_SIZE_def NUM_REGULAR_def NUM_GROUPS_def geom_simps)
  moreover have "list_all event_class_ok [MAlloc 0]" by (simp add: NUM_CLASSES_def)
  ultimately show "\<exists>es idx. list_all event_class_ok es \<and>
      one_heap p = (fold metrics_apply es HeapMetrics_ZERO)\<lparr>registry_idx := idx\<rparr>" for p by blast
qed

text \<open>
  The finished snapshot: while the true counts are below \<open>2 ^ 63\<close>, the live count of a class
  read as a signed number is allocations minus deallocations, and the allocated bytes are the
  difference of the byte totals, zero when more was freed than allocated.
\<close>

theorem snapshot_live_counts:
  assumes "unat (s_class_alloc_count s i) < 2 ^ 63" and "unat (s_class_dealloc_count s i) < 2 ^ 63"
    and "i < NUM_CLASSES"
  shows "sint (class_live_count (finalize s) i) =
      int (unat (s_class_alloc_count s i)) - int (unat (s_class_dealloc_count s i)) \<and>
    unat (allocated (finalize s)) = unat (s_alloc_bytes s) - unat (s_free_bytes s)"
  using assms by (simp add: finalize_def sint_sub_small saturating_sub_def word_le_nat_alt unat_sub)

theorem snapshot_live_counts_witness:
  "sint (class_live_count (finalize (MetricsSnapshot_new\<lparr>s_class_alloc_count := (\<lambda>_. 3),
     s_class_dealloc_count := (\<lambda>_. 5)\<rparr>)) 0) = - 2"
  using snapshot_live_counts [of "MetricsSnapshot_new\<lparr>s_class_alloc_count := (\<lambda>_. 3),
     s_class_dealloc_count := (\<lambda>_. 5)\<rparr>" 0]
  by (simp add: NUM_CLASSES_def)

end
