(* ===== verification/Pool.thy ===== *)
theory Pool
  imports Slab_List Sys Metrics
begin

text \<open>
  The page pool (\<open>src/src/pool.rs\<close>): segments of 2 MiB obtained from the page allocator, carved
  into 64 KiB slab pages; dirty and clean lists of free pages, linked through the first word of
  each page; the abandoned lists and the page cache.

  The code between taking and releasing the mutex is one locked phase: \<open>alloc_slab_locked\<close>,
  \<open>install_segment\<close>, \<open>dealloc_slab_locked\<close>, \<open>purge_take\<close>, \<open>purge_put\<close>. A public operation
  is the sequence of its phases and page allocator calls. Phases of different threads interleave
  in any order; the invariant \<open>pool_ok\<close> holds between phases, with a ghost set \<open>held\<close> of the pages
  that are with heaps, on the abandoned lists, in the cache or in a purge buffer.

  A panic (\<open>unreachable!\<close>, an index outside an array) is \<open>None\<close>. The walk of \<open>remove_if\<close> over a
  cyclic list would not end, so it is a partial function. Lengths and indices are natural numbers.
\<close>

subsection \<open>Free lists of pages\<close>

definition SEGMENT_SIZE :: nat where [geom_simps]: "SEGMENT_SIZE = 2 * 1024 * 1024"
definition MAX_SEGMENTS :: nat where [geom_simps]: "MAX_SEGMENTS = 4096"
definition SLABS_PER_SEGMENT :: nat where "SLABS_PER_SEGMENT = SEGMENT_SIZE div SLAB_SIZE"
definition PURGE_HIGH_WATER :: nat where [geom_simps]: "PURGE_HIGH_WATER = 64"
definition PURGE_LOW_WATER :: nat where [geom_simps]: "PURGE_LOW_WATER = 32"
definition SLAB_CACHE_MAX :: nat where [geom_simps]: "SLAB_CACHE_MAX = 512"

text \<open>\<open>Layout::new::<Segment>()\<close>: a segment is aligned like a slab page.\<close>

definition segment_layout :: layout where
  "segment_layout = \<lparr>lsize = SEGMENT_SIZE, lalign = SLAB_SIZE\<rparr>"

record PageFreeList =
  pl_head :: addr
  pl_len :: nat

definition PageFreeList_EMPTY :: PageFreeList where
  "PageFreeList_EMPTY = \<lparr>pl_head = null, pl_len = 0\<rparr>"

definition page_push :: "addr \<Rightarrow> memory \<times> PageFreeList \<Rightarrow> memory \<times> PageFreeList" where
  "page_push slab = (\<lambda>(m, fl). (write_next m slab (pl_head fl), \<lparr>pl_head = slab, pl_len = pl_len fl + 1\<rparr>))"

definition page_pop :: "memory \<times> PageFreeList \<Rightarrow> addr option \<times> memory \<times> PageFreeList" where
  "page_pop = (\<lambda>(m, fl).
     if pl_head fl = null then (None, m, fl)
     else (Some (pl_head fl), m, \<lparr>pl_head = read_next m (pl_head fl), pl_len = pl_len fl - 1\<rparr>))"

text \<open>
  \<open>cursor\<close> points at the list head (\<open>None\<close>) or at the link of a page; reading and writing through
  it is \<open>cursor_read\<close> and \<open>cursor_write\<close>.
\<close>

definition cursor_read :: "addr option \<Rightarrow> memory \<Rightarrow> PageFreeList \<Rightarrow> addr" where
  "cursor_read cursor m fl = (case cursor of None \<Rightarrow> pl_head fl | Some p \<Rightarrow> read_next m p)"

definition cursor_write :: "addr option \<Rightarrow> addr \<Rightarrow> memory \<Rightarrow> PageFreeList \<Rightarrow> memory \<times> PageFreeList" where
  "cursor_write cursor v m fl =
    (case cursor of None \<Rightarrow> (m, fl\<lparr>pl_head := v\<rparr>) | Some p \<Rightarrow> (write_next m p v, fl))"

partial_function (option) remove_if_loop ::
  "(addr \<Rightarrow> bool) \<Rightarrow> addr option \<Rightarrow> memory \<Rightarrow> PageFreeList \<Rightarrow> (memory \<times> PageFreeList) option" where
  "remove_if_loop pred cursor m fl =
    (let slab = cursor_read cursor m fl in
     if slab = null then Some (m, fl)
     else if pred slab
     then let (m1, fl1) = cursor_write cursor (read_next m slab) m fl
          in remove_if_loop pred cursor m1 (fl1\<lparr>pl_len := pl_len fl1 - 1\<rparr>)
     else remove_if_loop pred (Some slab) m fl)"

definition remove_if :: "(addr \<Rightarrow> bool) \<Rightarrow> memory \<times> PageFreeList \<Rightarrow> (memory \<times> PageFreeList) option" where
  "remove_if pred = (\<lambda>(m, fl). remove_if_loop pred None m fl)"

subsection \<open>State\<close>

record PoolState =
  dirty_list :: PageFreeList
  clean_list :: PageFreeList
  segment_cursor :: addr
  segment_end :: addr
  carving_idx :: nat
  segments :: "nat \<Rightarrow> addr"
  segment_count :: nat
  seg_outstanding :: "nat \<Rightarrow> u8"
  outstanding_slabs :: u64
  large_mapped_bytes :: u64
  metrics :: PoolMetrics

record 'p PagePool =
  page_alloc :: 'p
  state :: PoolState
  abandoned :: "nat \<Rightarrow> addr"
  slab_cache :: addr
  slab_cache_len :: nat

definition PagePool_new :: "'p \<Rightarrow> 'p PagePool" where
  "PagePool_new pa = \<lparr>page_alloc = pa,
     state = \<lparr>dirty_list = PageFreeList_EMPTY, clean_list = PageFreeList_EMPTY, segment_cursor = null,
       segment_end = null, carving_idx = 0, segments = (\<lambda>_. null), segment_count = 0,
       seg_outstanding = (\<lambda>_. 0), outstanding_slabs = 0, large_mapped_bytes = 0,
       metrics = PoolMetrics_new\<rparr>,
     abandoned = (\<lambda>_. null), slab_cache = null, slab_cache_len = 0\<rparr>"

text \<open>Counter updates.\<close>

definition count_lock :: "PoolState \<Rightarrow> PoolState" where
  "count_lock st = st\<lparr>metrics := metrics st\<lparr>pool_lock_count := pool_lock_count (metrics st) + 1\<rparr>\<rparr>"

definition seg_add :: "nat \<Rightarrow> u8 \<Rightarrow> PoolState \<Rightarrow> PoolState" where
  "seg_add i d st = st\<lparr>seg_outstanding := (seg_outstanding st)(i := seg_outstanding st i + d)\<rparr>"

definition slabs_add :: "u64 \<Rightarrow> PoolState \<Rightarrow> PoolState" where
  "slabs_add d st = st\<lparr>outstanding_slabs := outstanding_slabs st + d\<rparr>"

subsection \<open>Segments\<close>

definition in_segment :: "addr \<Rightarrow> addr \<Rightarrow> bool" where
  "in_segment seg_base a \<longleftrightarrow> seg_base \<le> a \<and> a < seg_base + SEGMENT_SIZE"

definition segment_fully_carved :: "PoolState \<Rightarrow> nat \<Rightarrow> bool" where
  "segment_fully_carved st seg_idx =
    (let seg_base = segments st seg_idx; seg_end = seg_base + SEGMENT_SIZE; cursor = segment_cursor st
     in \<not> (cursor \<ge> seg_base \<and> cursor < seg_end))"

definition find_segment :: "PoolState \<Rightarrow> addr \<Rightarrow> nat option" where
  "find_segment st a = List.find (\<lambda>i. in_segment (segments st i) a) [0..<segment_count st]"

definition remove_segment_slabs :: "addr \<Rightarrow> memory \<Rightarrow> PoolState \<Rightarrow> (memory \<times> PoolState) option" where
  "remove_segment_slabs seg_base m st =
    do {
      (m1, dl) \<leftarrow> remove_if (in_segment seg_base) (m, dirty_list st);
      (m2, cl) \<leftarrow> remove_if (in_segment seg_base) (m1, clean_list st);
      Some (m2, st\<lparr>dirty_list := dl, clean_list := cl\<rparr>)
    }"

definition swap_remove_segment :: "nat \<Rightarrow> PoolState \<Rightarrow> PoolState" where
  "swap_remove_segment seg_idx st =
    (let lst = segment_count st - 1;
         st1 = (if seg_idx \<noteq> lst
                then st\<lparr>segments := (segments st)(seg_idx := segments st lst),
                        seg_outstanding := (seg_outstanding st)(seg_idx := seg_outstanding st lst),
                        carving_idx := (if carving_idx st = lst then seg_idx else carving_idx st)\<rparr>
                else st)
     in st1\<lparr>segments := (segments st1)(lst := null), seg_outstanding := (seg_outstanding st1)(lst := 0),
            segment_count := lst\<rparr>)"

subsection \<open>Allocating and returning slab pages\<close>

definition hand_out :: "addr \<Rightarrow> PoolState \<Rightarrow> (addr option \<times> PoolState) option" where
  "hand_out slab st =
    (case find_segment st slab of
       None \<Rightarrow> None
     | Some sg \<Rightarrow> Some (Some slab, slabs_add 1 (seg_add sg 1 st)))"

text \<open>The first locked phase of \<open>alloc_slab\<close>; it returns no page when the slow path is needed.\<close>

definition alloc_slab_locked :: "memory \<Rightarrow> PoolState \<Rightarrow> (addr option \<times> PoolState) option" where
  "alloc_slab_locked m st0 =
    (let st = count_lock st0 in
     case page_pop (m, dirty_list st) of
       (Some slab, _, dl) \<Rightarrow> hand_out slab (st\<lparr>dirty_list := dl\<rparr>)
     | (None, _, _) \<Rightarrow>
        (case page_pop (m, clean_list st) of
           (Some slab, _, cl) \<Rightarrow> hand_out slab (st\<lparr>clean_list := cl\<rparr>)
         | (None, _, _) \<Rightarrow>
            if segment_cursor st < segment_end st
            then if carving_idx st < MAX_SEGMENTS
                 then Some (Some (segment_cursor st),
                        slabs_add 1 (seg_add (carving_idx st) 1
                          (st\<lparr>segment_cursor := segment_cursor st + SLAB_SIZE\<rparr>)))
                 else None
            else Some (None, st)))"

text \<open>
  The second locked phase: the segment at \<open>base\<close> is entered in the table, unless it is full. The
  pages after the first are carved later, or, when another thread is carving a segment, pushed on
  the clean list.
\<close>

definition install_segment :: "addr \<Rightarrow> memory \<Rightarrow> PoolState \<Rightarrow> bool \<times> memory \<times> PoolState" where
  "install_segment base m st0 =
    (let st = (count_lock st0)\<lparr>metrics := metrics (count_lock st0)\<lparr>segment_mmap_count :=
                 segment_mmap_count (metrics st0) + 1\<rparr>\<rparr>
     in if segment_count st \<ge> MAX_SEGMENTS then (False, m, st)
        else let seg_idx = segment_count st;
                 st1 = slabs_add 1 (st\<lparr>segments := (segments st)(seg_idx := base), segment_count := seg_idx + 1,
                          seg_outstanding := (seg_outstanding st)(seg_idx := 1)\<rparr>)
             in if segment_cursor st1 < segment_end st1
                then let (m1, cl) = fold (\<lambda>i. page_push (base + i * SLAB_SIZE)) (rev [1..<SLABS_PER_SEGMENT])
                                      (m, clean_list st1)
                     in (True, m1, st1\<lparr>clean_list := cl\<rparr>)
                else (True, m, st1\<lparr>carving_idx := seg_idx, segment_cursor := base + SLAB_SIZE,
                               segment_end := base + SEGMENT_SIZE\<rparr>))"

definition alloc_slab_slow ::
  "'p PageAllocator \<Rightarrow> 'p PagePool \<Rightarrow> store \<Rightarrow> addr option \<times> 'p PagePool \<times> store" where
  "alloc_slab_slow A pool s =
    (case pa_alloc A segment_layout (page_alloc pool, bytes s) of
       (None, pa, m) \<Rightarrow> (None, pool\<lparr>page_alloc := pa\<rparr>, s\<lparr>bytes := m\<rparr>)
     | (Some base, pa, m) \<Rightarrow>
        (case install_segment base m (state pool) of
           (True, m1, st) \<Rightarrow> (Some base, pool\<lparr>page_alloc := pa, state := st\<rparr>, s\<lparr>bytes := m1\<rparr>)
         | (False, m1, st) \<Rightarrow>
            (case pa_dealloc A base segment_layout (pa, m1) of
               (pa2, m2) \<Rightarrow> (None, pool\<lparr>page_alloc := pa2, state := st\<rparr>, s\<lparr>bytes := m2\<rparr>))))"

definition alloc_slab ::
  "'p PageAllocator \<Rightarrow> 'p PagePool \<Rightarrow> store \<Rightarrow> (addr option \<times> 'p PagePool \<times> store) option" where
  "alloc_slab A pool s =
    (case alloc_slab_locked (bytes s) (state pool) of
       None \<Rightarrow> None
     | Some (Some slab, st) \<Rightarrow> Some (Some slab, pool\<lparr>state := st\<rparr>, s)
     | Some (None, st) \<Rightarrow> Some (alloc_slab_slow A (pool\<lparr>state := st\<rparr>) s))"

text \<open>What the caller of the locked phase of \<open>dealloc_slab\<close> does next.\<close>

datatype dealloc_action = Done | Purge | Release addr

definition dealloc_slab_locked :: "addr \<Rightarrow> memory \<Rightarrow> PoolState \<Rightarrow> (dealloc_action \<times> memory \<times> PoolState) option" where
  "dealloc_slab_locked slab m st0 =
    (let st = count_lock st0;
         (m1, dl) = page_push slab (m, dirty_list st);
         st1 = st\<lparr>dirty_list := dl\<rparr>
     in do {
          sg \<leftarrow> find_segment st1 slab;
          let st2 = slabs_add (- 1) (seg_add sg (- 1) st1);
          if seg_outstanding st2 sg = 0 \<and> segment_fully_carved st2 sg
          then let segment_ptr = segments st2 sg in
            do {
              (m2, st3) \<leftarrow> remove_segment_slabs segment_ptr m1 st2;
              let st4 = swap_remove_segment sg st3;
              Some (Release segment_ptr, m2,
                st4\<lparr>metrics := metrics st4\<lparr>segment_munmap_count := segment_munmap_count (metrics st4) + 1\<rparr>\<rparr>)
            }
          else Some (if pl_len (dirty_list st2) > PURGE_HIGH_WATER then Purge else Done, m1, st2)
        })"

subsection \<open>Purging\<close>

definition PURGE_BATCH :: nat where "PURGE_BATCH = PURGE_HIGH_WATER - PURGE_LOW_WATER"

text \<open>The loop that fills the buffer; \<open>n\<close> is the room left in it.\<close>

fun purge_take_loop :: "nat \<Rightarrow> memory \<Rightarrow> PoolState \<Rightarrow> (addr list \<times> PoolState) option" where
  "purge_take_loop 0 m st = Some ([], st)"
| "purge_take_loop (Suc n) m st =
    (if pl_len (dirty_list st) > PURGE_LOW_WATER
     then (case page_pop (m, dirty_list st) of
             (None, _, _) \<Rightarrow> Some ([], st)
           | (Some slab, _, dl) \<Rightarrow>
               do {
                 sg \<leftarrow> find_segment st slab;
                 (buf, st') \<leftarrow> purge_take_loop n m (seg_add sg 1 (st\<lparr>dirty_list := dl\<rparr>));
                 Some (slab # buf, st')
               })
     else Some ([], st))"

definition purge_take :: "memory \<Rightarrow> PoolState \<Rightarrow> (addr list \<times> PoolState) option" where
  "purge_take m st = purge_take_loop PURGE_BATCH m (count_lock st)"

fun purge_put_loop :: "addr list \<Rightarrow> memory \<Rightarrow> PoolState \<Rightarrow> (memory \<times> PoolState) option" where
  "purge_put_loop [] m st = Some (m, st)"
| "purge_put_loop (slab # buf) m st =
    do {
      sg \<leftarrow> find_segment st slab;
      let st1 = seg_add sg (- 1) st;
      let (m1, cl) = page_push slab (m, clean_list st1);
      purge_put_loop buf m1 (st1\<lparr>clean_list := cl\<rparr>)
    }"

definition purge_put :: "addr list \<Rightarrow> memory \<Rightarrow> PoolState \<Rightarrow> (memory \<times> PoolState) option" where
  "purge_put buf m st =
    (let st1 = count_lock st in
     purge_put_loop buf m (st1\<lparr>metrics := metrics st1\<lparr>slab_purge_count :=
       slab_purge_count (metrics st1) + of_nat (length buf)\<rparr>\<rparr>))"

definition purge_pages :: "'p PageAllocator \<Rightarrow> addr list \<Rightarrow> 'p \<times> memory \<Rightarrow> 'p \<times> memory" where
  "purge_pages A buf = fold (\<lambda>slab. pa_purge A slab SLAB_SIZE) buf"

definition purge_excess :: "'p PageAllocator \<Rightarrow> 'p PagePool \<Rightarrow> store \<Rightarrow> ('p PagePool \<times> store) option" where
  "purge_excess A pool s =
    do {
      (buf, st1) \<leftarrow> purge_take (bytes s) (state pool);
      let (pa, m1) = purge_pages A buf (page_alloc pool, bytes s);
      (m2, st2) \<leftarrow> purge_put buf m1 st1;
      Some (pool\<lparr>page_alloc := pa, state := st2\<rparr>, s\<lparr>bytes := m2\<rparr>)
    }"

definition dealloc_slab :: "'p PageAllocator \<Rightarrow> addr \<Rightarrow> 'p PagePool \<Rightarrow> store \<Rightarrow> ('p PagePool \<times> store) option" where
  "dealloc_slab A base pool s =
    do {
      (act, m1, st) \<leftarrow> dealloc_slab_locked base (bytes s) (state pool);
      case act of
        Done \<Rightarrow> Some (pool\<lparr>state := st\<rparr>, s\<lparr>bytes := m1\<rparr>)
      | Purge \<Rightarrow> purge_excess A (pool\<lparr>state := st\<rparr>) (s\<lparr>bytes := m1\<rparr>)
      | Release segment_ptr \<Rightarrow>
          (let (pa, m2) = pa_dealloc A segment_ptr segment_layout (page_alloc pool, m1)
           in Some (pool\<lparr>page_alloc := pa, state := st\<rparr>, s\<lparr>bytes := m2\<rparr>))
    }"

subsection \<open>Abandoned slabs, the page cache, large allocations\<close>

text \<open>
  The compare-exchange loops without interference; interleavings of the page cache are the subject
  of the theory \<open>Treiber\<close>.
\<close>

definition nonnull :: "addr \<Rightarrow> addr option" where
  "nonnull p = (if p = null then None else Some p)"

definition abandon_slab :: "addr \<Rightarrow> 'p PagePool \<Rightarrow> store \<Rightarrow> ('p PagePool \<times> store) option" where
  "abandon_slab base pool s =
    (let class_idx = unat (size_class_index (hdr s base)) in
     if class_idx < NUM_CLASSES
     then let current = abandoned pool class_idx;
              s1 = set_next_link base (nonnull current) s;
              st = state pool
          in Some (pool\<lparr>abandoned := (abandoned pool)(class_idx := base),
                     state := st\<lparr>metrics := metrics st\<lparr>abandon_count := (abandon_count (metrics st))
                       (class_idx := abandon_count (metrics st) class_idx + 1)\<rparr>\<rparr>\<rparr>, s1)
     else None)"

definition adopt_all :: "nat \<Rightarrow> 'p PagePool \<Rightarrow> addr option \<times> 'p PagePool" where
  "adopt_all class_idx pool =
    (let head = abandoned pool class_idx in
     if head = null then (None, pool)
     else (Some head, pool\<lparr>abandoned := (abandoned pool)(class_idx := null)\<rparr>))"

definition cache_slab :: "'p PageAllocator \<Rightarrow> addr \<Rightarrow> 'p PagePool \<Rightarrow> store \<Rightarrow> ('p PagePool \<times> store) option" where
  "cache_slab A base pool s =
    (if slab_cache_len pool \<ge> SLAB_CACHE_MAX then dealloc_slab A base pool s
     else Some (pool\<lparr>slab_cache := base, slab_cache_len := slab_cache_len pool + 1\<rparr>,
                s\<lparr>bytes := write_next (bytes s) base (slab_cache pool)\<rparr>))"

definition uncache_slab :: "'p PagePool \<Rightarrow> store \<Rightarrow> addr option \<times> 'p PagePool" where
  "uncache_slab pool s =
    (let head = slab_cache pool in
     if head = null then (None, pool)
     else (Some head, pool\<lparr>slab_cache := read_next (bytes s) head, slab_cache_len := slab_cache_len pool - 1\<rparr>))"

definition alloc_large ::
  "'p PageAllocator \<Rightarrow> layout \<Rightarrow> 'p PagePool \<Rightarrow> store \<Rightarrow> addr option \<times> 'p PagePool \<times> store" where
  "alloc_large A l pool s =
    (case pa_alloc A l (page_alloc pool, bytes s) of
       (None, pa, m) \<Rightarrow> (None, pool\<lparr>page_alloc := pa\<rparr>, s\<lparr>bytes := m\<rparr>)
     | (Some ptr, pa, m) \<Rightarrow>
         (Some ptr, pool\<lparr>page_alloc := pa, state := state pool\<lparr>large_mapped_bytes :=
            large_mapped_bytes (state pool) + of_nat (lsize l)\<rparr>\<rparr>, s\<lparr>bytes := m\<rparr>))"

definition dealloc_large ::
  "'p PageAllocator \<Rightarrow> addr \<Rightarrow> layout \<Rightarrow> 'p PagePool \<Rightarrow> store \<Rightarrow> 'p PagePool \<times> store" where
  "dealloc_large A ptr l pool s =
    (let st = state pool\<lparr>large_mapped_bytes := large_mapped_bytes (state pool) - of_nat (lsize l)\<rparr>
     in case pa_dealloc A ptr l (page_alloc pool, bytes s) of
          (pa, m) \<Rightarrow> (pool\<lparr>page_alloc := pa, state := st\<rparr>, s\<lparr>bytes := m\<rparr>))"

definition inc_adopt_count :: "nat \<Rightarrow> 'p PagePool \<Rightarrow> 'p PagePool" where
  "inc_adopt_count class_idx pool =
    (let st = state pool in
     pool\<lparr>state := st\<lparr>metrics := metrics st\<lparr>adopt_count := (adopt_count (metrics st))
       (class_idx := adopt_count (metrics st) class_idx + 1)\<rparr>\<rparr>\<rparr>)"

definition pool_register_heap :: "addr \<Rightarrow> 'p PagePool \<Rightarrow> metrics_store \<Rightarrow> ('p PagePool \<times> metrics_store) option" where
  "pool_register_heap ptr pool hm =
    do {
      (pm, hm1) \<leftarrow> register_heap ptr (metrics (state pool)) hm;
      Some (pool\<lparr>state := state pool\<lparr>metrics := pm\<rparr>\<rparr>, hm1)
    }"

definition pool_deregister_heap :: "addr \<Rightarrow> 'p PagePool \<Rightarrow> metrics_store \<Rightarrow> ('p PagePool \<times> metrics_store) option" where
  "pool_deregister_heap ptr pool hm =
    do {
      (pm, hm1) \<leftarrow> deregister_heap ptr (metrics (state pool)) hm;
      Some (pool\<lparr>state := state pool\<lparr>metrics := pm\<rparr>\<rparr>, hm1)
    }"

definition pool_snapshot :: "'p PagePool \<Rightarrow> metrics_store \<Rightarrow> MetricsSnapshot" where
  "pool_snapshot pool hm =
    (let st = state pool;
         snap0 = MetricsSnapshot_new\<lparr>mapped :=
                   of_nat (segment_count st) * of_nat SEGMENT_SIZE + large_mapped_bytes st\<rparr>;
         snap1 = finalize (aggregate_heap_metrics (metrics st) hm snap0);
         large_live = saturating_sub (s_large_alloc_bytes snap1) (s_large_dealloc_bytes snap1)
     in snap1\<lparr>active := outstanding_slabs st * of_nat SLAB_SIZE + large_live\<rparr>)"

text \<open>Dropping the pool: the cache is emptied through \<open>dealloc_slab\<close>, then all segments go back.\<close>

partial_function (option) drop_cache ::
  "'p PageAllocator \<Rightarrow> 'p PagePool \<Rightarrow> store \<Rightarrow> ('p PagePool \<times> store) option" where
  "drop_cache A pool s =
    (case uncache_slab pool s of
       (None, pool1) \<Rightarrow> Some (pool1, s)
     | (Some slab, pool1) \<Rightarrow> do { (pool2, s2) \<leftarrow> dealloc_slab A slab pool1 s; drop_cache A pool2 s2 })"

definition pool_drop :: "'p PageAllocator \<Rightarrow> 'p PagePool \<Rightarrow> store \<Rightarrow> ('p \<times> memory) option" where
  "pool_drop A pool s =
    do {
      (pool1, s1) \<leftarrow> drop_cache A pool s;
      Some (fold (\<lambda>i pm. if segments (state pool1) i = null then pm
                         else pa_dealloc A (segments (state pool1) i) segment_layout pm)
              [0..<segment_count (state pool1)] (page_alloc pool1, bytes s1))
    }"

subsection \<open>The page lists as intrusive stacks\<close>

definition page_ok :: "addr \<Rightarrow> bool" where
  "page_ok x \<longleftrightarrow> SLAB_SIZE dvd x \<and> 0 < x \<and> x < 2 ^ 64"

definition page_list :: "memory \<times> PageFreeList \<Rightarrow> addr list \<Rightarrow> bool" where
  "page_list = (\<lambda>(m, fl) xs. chain (read_next m) (pl_head fl) xs \<and> pl_len fl = length xs \<and> (\<forall>x \<in> set xs. page_ok x))"

lemma page_apart: "page_ok x \<Longrightarrow> page_ok y \<Longrightarrow> x \<noteq> y \<Longrightarrow> apart x y"
proof -
  assume "page_ok x" "page_ok y" "x \<noteq> y"
  then obtain i j where "x = 65536 * i" "y = 65536 * j" "i \<noteq> j" by (auto simp: page_ok_def SLAB_SIZE_def dvd_def)
  then show ?thesis unfolding apart_def by arith
qed

lemma page_list_push:
  assumes "page_list (m, fl) xs" "page_ok x" "x \<notin> set xs"
  shows "page_list (page_push x (m, fl)) (x # xs)"
proof -
  have h: "pl_head fl < 2 ^ 64"
    using assms(1) chain_head_mem [of "read_next m" "pl_head fl" xs] by (auto simp: page_list_def page_ok_def)
  have "apart x y" if "y \<in> set xs" for y
    using assms that by (intro page_apart) (auto simp: page_list_def)
  then have "chain (read_next (write_next m x (pl_head fl))) x (x # xs)"
    using assms h by (intro chain_push) (auto simp: page_list_def page_ok_def)
  then show ?thesis using assms by (simp add: page_list_def page_push_def)
qed

interpretation page_list: lifo_stack page_list "\<lambda>x xs. page_ok x \<and> x \<notin> set xs" page_push page_pop
proof
  show "page_list s xs \<Longrightarrow> page_list s ys \<Longrightarrow> xs = ys" for s xs ys
    by (auto simp: page_list_def split: prod.splits dest: chain_functional)
  show "page_list s xs \<Longrightarrow> page_ok x \<and> x \<notin> set xs \<Longrightarrow> page_list (page_push x s) (x # xs)" for s xs x
    using page_list_push by (cases s) blast
qed (auto simp: page_list_def page_pop_def split: prod.splits)

text \<open>Writing the link of a page that is not on a list leaves the list alone.\<close>

lemma page_list_write:
  assumes "page_list (m, fl) xs" "page_ok x" "x \<notin> set xs"
  shows "page_list (write_next m x v, fl) xs"
proof -
  have "chain (read_next (write_next m x v)) (pl_head fl) xs = chain (read_next m) (pl_head fl) xs"
    using assms by (intro chain_write page_apart) (auto simp: page_list_def)
  then show ?thesis using assms by (simp add: page_list_def)
qed

lemma page_list_cong:
  assumes "page_list (m, fl) xs" "\<And>x a. x \<in> set xs \<Longrightarrow> x \<le> a \<Longrightarrow> a < x + 8 \<Longrightarrow> m' a = m a"
  shows "page_list (m', fl) xs"
proof -
  have "chain (read_next m') (pl_head fl) xs = chain (read_next m) (pl_head fl) xs"
    using assms(2) by (intro chain_cong read_next_cong) auto
  then show ?thesis using assms(1) by (simp add: page_list_def)
qed

text \<open>Unlinking the successor of a page.\<close>

lemma chain_splice:
  assumes "chain (read_next m) p (ws @ l # x # vs)" "\<forall>y \<in> set (ws @ l # x # vs). page_ok y"
  shows "chain (read_next (write_next m l (read_next m x))) p (ws @ l # vs)"
  using assms
proof (induction ws arbitrary: p)
  case Nil
  then have c: "p = l" "l \<noteq> 0" "chain (read_next m) (read_next m x) vs" by auto
  have "read_next m x < 2 ^ 64"
    using chain_head_mem [OF c(3)] Nil.prems(2) by (auto simp: page_ok_def)
  moreover have "l \<notin> set vs" using chain_distinct [OF Nil.prems(1)] by simp
  then have "chain (read_next (write_next m l (read_next m x))) (read_next m x) vs"
    using Nil.prems(2) c(3) by (subst chain_write) (auto intro!: page_apart)
  ultimately show ?case using c by (simp add: read_write_next)
next
  case (Cons w ws)
  have "w \<noteq> l" using chain_distinct [OF Cons.prems(1)] by simp
  then have "read_next (write_next m l (read_next m x)) w = read_next m w"
    using Cons.prems(2) by (intro read_write_next_apart page_apart) auto
  then show ?case using Cons by simp
qed

lemma remove_if_loop_ok:
  assumes "page_list (m, fl) (us @ vs)" "cursor = (if us = [] then None else Some (last us))"
  shows "\<exists>m' fl'. remove_if_loop pred cursor m fl = Some (m', fl') \<and>
    page_list (m', fl') (us @ filter (\<lambda>x. \<not> pred x) vs) \<and>
    (\<forall>a. (\<forall>x \<in> set (us @ vs). a < x \<or> x + 8 \<le> a) \<longrightarrow> m' a = m a)"
  using assms
proof (induction vs arbitrary: us m fl cursor)
  case Nil
  have "cursor_read cursor m fl = 0"
  proof (cases us rule: rev_cases)
    case (snoc ws l)
    then have "chain (read_next m) l [l]" using Nil chain_append [of "read_next m" "pl_head fl" ws l "[]"]
      by (simp add: page_list_def)
    then show ?thesis using snoc Nil.prems(2) by (simp add: cursor_read_def)
  qed (use Nil in \<open>simp add: cursor_read_def page_list_def\<close>)
  then show ?case using Nil by (subst remove_if_loop.simps) simp
next
  case (Cons x vs)
  have pages: "\<forall>y \<in> set (us @ x # vs). page_ok y" "chain (read_next m) (pl_head fl) (us @ x # vs)"
    using Cons.prems(1) by (auto simp: page_list_def)
  have x: "cursor_read cursor m fl = x \<and> x \<noteq> 0"
  proof (cases us rule: rev_cases)
    case (snoc ws l)
    then have "chain (read_next m) l (l # x # vs)" using pages(2) chain_append [of "read_next m" "pl_head fl" ws l "x # vs"]
      by simp
    then show ?thesis using snoc Cons.prems(2) by (simp add: cursor_read_def)
  qed (use Cons.prems pages in \<open>auto simp: cursor_read_def\<close>)
  show ?case
  proof (cases "pred x")
    case False
    have "remove_if_loop pred cursor m fl = remove_if_loop pred (Some x) m fl"
      using x False by (subst remove_if_loop.simps) simp
    then show ?thesis using Cons.IH [of m fl "us @ [x]" "Some x"] Cons.prems(1) False by simp
  next
    case True
    obtain m1 fl1 where w: "cursor_write cursor (read_next m x) m fl = (m1, fl1)" by fastforce
    have "page_list (m1, fl1\<lparr>pl_len := pl_len fl1 - 1\<rparr>) (us @ vs) \<and>
        (\<forall>a. (\<forall>y \<in> set (us @ x # vs). a < y \<or> y + 8 \<le> a) \<longrightarrow> m1 a = m a)"
    proof (cases us rule: rev_cases)
      case Nil
      then show ?thesis using w Cons.prems by (auto simp: cursor_write_def page_list_def)
    next
      case (snoc ws l)
      have "m1 = write_next m l (read_next m x)" "fl1 = fl"
        using w Cons.prems(2) snoc by (simp_all add: cursor_write_def)
      then show ?thesis using chain_splice [of m "pl_head fl" ws l x vs] pages Cons.prems(1) snoc
        by (auto simp: page_list_def write_next_outside)
    qed
    moreover from this have "\<exists>m' fl'. remove_if_loop pred cursor m1 (fl1\<lparr>pl_len := pl_len fl1 - 1\<rparr>) = Some (m', fl') \<and>
        page_list (m', fl') (us @ filter (\<lambda>x. \<not> pred x) vs) \<and>
        (\<forall>a. (\<forall>x \<in> set (us @ vs). a < x \<or> x + 8 \<le> a) \<longrightarrow> m' a = m1 a)"
      using Cons.IH Cons.prems(2) by blast
    moreover have "remove_if_loop pred cursor m fl = remove_if_loop pred cursor m1 (fl1\<lparr>pl_len := pl_len fl1 - 1\<rparr>)"
      using x True w by (subst remove_if_loop.simps) simp
    ultimately show ?thesis using True by fastforce
  qed
qed

lemma remove_if_ok:
  assumes "page_list (m, fl) xs"
  shows "\<exists>m' fl'. remove_if pred (m, fl) = Some (m', fl') \<and> page_list (m', fl') (filter (\<lambda>x. \<not> pred x) xs) \<and>
    (\<forall>a. (\<forall>x \<in> set xs. a < x \<or> x + 8 \<le> a) \<longrightarrow> m' a = m a)"
  using remove_if_loop_ok [of m fl "[]" xs None pred] assms by (simp add: remove_if_def)

end
