(* ===== verification/Pool_Invariant.thy ===== *)
theory Pool_Invariant
  imports Pool
begin

text \<open>
  The invariant of the page pool and its preservation by every locked phase. \<open>held\<close> is the set of
  slab pages outside the pool: with heaps, abandoned, cached, or in a purge buffer. The pages of
  the mapped segments are partitioned into the dirty list, the clean list, the pages not yet carved
  and the held pages, and \<open>seg_outstanding\<close> counts the held pages of each segment exactly.
\<close>

subsection \<open>Segments and their pages\<close>

definition seg_pages :: "addr \<Rightarrow> addr set" where
  "seg_pages b = (\<lambda>k. b + k * SLAB_SIZE) ` {..<SLABS_PER_SEGMENT}"

definition seg_list :: "PoolState \<Rightarrow> addr list" where
  "seg_list st = map (segments st) [0..<segment_count st]"

definition pool_pages :: "PoolState \<Rightarrow> addr set" where
  "pool_pages st = (\<Union>b \<in> set (seg_list st). seg_pages b)"

definition uncarved :: "PoolState \<Rightarrow> addr set" where
  "uncarved st = {x. SLAB_SIZE dvd x \<and> segment_cursor st \<le> x \<and> x < segment_end st}"

definition seg_regions :: "PoolState \<Rightarrow> region set" where
  "seg_regions st = (\<lambda>b. (b, SEGMENT_SIZE)) ` set (seg_list st)"

definition seg_base_ok :: "addr \<Rightarrow> bool" where
  "seg_base_ok b \<longleftrightarrow> SLAB_SIZE dvd b \<and> 0 < b \<and> b + SEGMENT_SIZE \<le> 2 ^ 64"

definition segs_ok :: "addr list \<Rightarrow> bool" where
  "segs_ok bs \<longleftrightarrow> distinct bs \<and> length bs \<le> MAX_SEGMENTS \<and> (\<forall>b \<in> set bs. seg_base_ok b) \<and>
     (\<forall>b \<in> set bs. \<forall>c \<in> set bs. b \<noteq> c \<longrightarrow> disjoint_regions (b, SEGMENT_SIZE) (c, SEGMENT_SIZE))"

lemma SLABS_PER_SEGMENT_val [geom_simps]: "SLABS_PER_SEGMENT = 32"
  by (simp add: SLABS_PER_SEGMENT_def geom_simps)

lemma seg_pages_iff: "SLAB_SIZE dvd b \<Longrightarrow> x \<in> seg_pages b \<longleftrightarrow> SLAB_SIZE dvd x \<and> in_segment b x"
proof -
  assume "SLAB_SIZE dvd b"
  then obtain j where j: "b = 65536 * j" by (auto simp: SLAB_SIZE_def dvd_def)
  have "x \<in> seg_pages b \<longleftrightarrow> (\<exists>k < 32. x = 65536 * (j + k))"
    unfolding seg_pages_def j geom_simps by (auto simp: algebra_simps)
  also have "\<dots> \<longleftrightarrow> (\<exists>i. x = 65536 * i \<and> j \<le> i \<and> i < j + 32)"
    by (metis le_Suc_ex le_add1 nat_add_left_cancel_less)
  also have "\<dots> \<longleftrightarrow> SLAB_SIZE dvd x \<and> in_segment b x"
    unfolding in_segment_def j geom_simps dvd_def by auto
  finally show ?thesis .
qed

lemma seg_pages_finite [simp]: "finite (seg_pages b)"
  by (simp add: seg_pages_def)

lemma card_seg_pages: "card (seg_pages b) \<le> 32"
  unfolding seg_pages_def geom_simps by (rule order_trans [OF card_image_le]) simp_all

lemma segs_in_unique:
  "segs_ok bs \<Longrightarrow> b \<in> set bs \<Longrightarrow> c \<in> set bs \<Longrightarrow> in_segment b x \<Longrightarrow> in_segment c x \<Longrightarrow> b = c"
  unfolding segs_ok_def disjoint_regions_def in_segment_def by fastforce

lemma segs_disjoint:
  assumes "segs_ok bs" "b \<in> set bs" "c \<in> set bs" "b \<noteq> c"
  shows "seg_pages b \<inter> seg_pages c = {}"
proof -
  have "SLAB_SIZE dvd b" "SLAB_SIZE dvd c" using assms by (auto simp: segs_ok_def seg_base_ok_def)
  then show ?thesis using segs_in_unique [OF assms(1-3)] assms(4) by (auto simp: seg_pages_iff)
qed

lemma seg_base_in: "b \<in> seg_pages b"
  by (auto simp: seg_pages_def geom_simps intro!: image_eqI [of _ _ 0])

lemma seg_page_ok: "seg_base_ok b \<Longrightarrow> x \<in> seg_pages b \<Longrightarrow> page_ok x"
  by (auto simp: seg_base_ok_def seg_pages_iff in_segment_def page_ok_def)

lemma seg_index_unique:
  "segs_ok (seg_list st) \<Longrightarrow> i < segment_count st \<Longrightarrow> j < segment_count st \<Longrightarrow> segments st i = segments st j \<Longrightarrow> i = j"
  by (auto simp: segs_ok_def seg_list_def distinct_map inj_on_def)

lemma find_segment_page:
  assumes ok: "segs_ok (seg_list st)" and i: "i < segment_count st" and x: "x \<in> seg_pages (segments st i)"
  shows "find_segment st x = Some i"
proof -
  have b: "segments st j \<in> set (seg_list st)" if "j < segment_count st" for j
    using that by (simp add: seg_list_def)
  have "SLAB_SIZE dvd segments st i" using ok b [OF i] by (auto simp: segs_ok_def seg_base_ok_def)
  then have xi: "in_segment (segments st i) x" using x by (simp add: seg_pages_iff)
  have "\<not> in_segment (segments st j) x" if "j < i" for j
  proof
    assume "in_segment (segments st j) x"
    then have "segments st j = segments st i" using segs_in_unique [OF ok b b] that i xi by simp
    then show False using seg_index_unique [OF ok, of j i] that i by simp
  qed
  then show ?thesis using i xi by (auto simp: find_segment_def find_Some_iff intro!: exI [of _ i])
qed

lemma pool_pages_seg:
  assumes "x \<in> pool_pages st"
  obtains i where "i < segment_count st" "x \<in> seg_pages (segments st i)"
  using assms by (auto simp: pool_pages_def seg_list_def)

subsection \<open>The invariant\<close>

definition carve_ok :: "PoolState \<Rightarrow> bool" where
  "carve_ok st \<longleftrightarrow> segment_cursor st < segment_end st \<longrightarrow>
     carving_idx st < segment_count st \<and> segment_end st = segments st (carving_idx st) + SEGMENT_SIZE \<and>
     segments st (carving_idx st) < segment_cursor st \<and> SLAB_SIZE dvd segment_cursor st"

definition counts_ok :: "PoolState \<Rightarrow> addr set \<Rightarrow> bool" where
  "counts_ok st H \<longleftrightarrow>
     (\<forall>i < segment_count st. unat (seg_outstanding st i) = card (H \<inter> seg_pages (segments st i)))"

definition pool_ok :: "memory \<Rightarrow> PoolState \<Rightarrow> addr list \<Rightarrow> addr list \<Rightarrow> addr set \<Rightarrow> bool" where
  "pool_ok m st dl cl held \<longleftrightarrow>
     segs_ok (seg_list st) \<and> carve_ok st \<and> counts_ok st held \<and>
     page_list (m, dirty_list st) dl \<and> page_list (m, clean_list st) cl \<and>
     distinct (dl @ cl) \<and> set (dl @ cl) \<inter> held = {} \<and> (set (dl @ cl) \<union> held) \<inter> uncarved st = {} \<and>
     set (dl @ cl) \<union> held \<union> uncarved st = pool_pages st"

definition keeps :: "addr set \<Rightarrow> memory \<Rightarrow> memory \<Rightarrow> bool" where
  "keeps H m m' \<longleftrightarrow> (\<forall>x \<in> H. \<forall>a. x \<le> a \<and> a < x + SLAB_SIZE \<longrightarrow> m' a = m a)"

lemmas pool_upd = count_lock_def seg_add_def slabs_add_def

lemma pool_okD:
  assumes "pool_ok m st dl cl H"
  shows "segs_ok (seg_list st)" "carve_ok st" "counts_ok st H" "page_list (m, dirty_list st) dl"
    "page_list (m, clean_list st) cl" "distinct (dl @ cl)" "H \<subseteq> pool_pages st" "set dl \<subseteq> pool_pages st"
    "set cl \<subseteq> pool_pages st"
  using assms by (auto simp: pool_ok_def)

lemma pool_page_ok: "segs_ok (seg_list st) \<Longrightarrow> x \<in> pool_pages st \<Longrightarrow> page_ok x"
  using seg_page_ok by (auto simp: pool_pages_def segs_ok_def)

text \<open>Taking a page out of the pool and putting one back, in the counts.\<close>

lemma seg_list_upd [simp]:
  "seg_list (seg_add i d st) = seg_list st" "seg_list (slabs_add e st) = seg_list st"
  "seg_list (count_lock st) = seg_list st" "seg_list (st\<lparr>dirty_list := dl\<rparr>) = seg_list st"
  "seg_list (st\<lparr>clean_list := cl\<rparr>) = seg_list st" "seg_list (st\<lparr>metrics := pm\<rparr>) = seg_list st"
  "seg_list (st\<lparr>segment_cursor := c\<rparr>) = seg_list st"
  by (simp_all add: seg_list_def pool_upd)

lemma pool_pages_upd [simp]:
  "pool_pages (seg_add i d st) = pool_pages st" "pool_pages (slabs_add e st) = pool_pages st"
  "pool_pages (count_lock st) = pool_pages st" "pool_pages (st\<lparr>dirty_list := dl\<rparr>) = pool_pages st"
  "pool_pages (st\<lparr>clean_list := cl\<rparr>) = pool_pages st" "pool_pages (st\<lparr>metrics := pm\<rparr>) = pool_pages st"
  "pool_pages (st\<lparr>segment_cursor := c\<rparr>) = pool_pages st"
  by (simp_all add: pool_pages_def)

lemma hold_counts:
  assumes ok: "segs_ok (seg_list st)" and c: "counts_ok st H" and i: "i < segment_count st"
    and x: "x \<in> seg_pages (segments st i)" "x \<notin> H"
  shows "counts_ok (seg_add i 1 st) (insert x H)"
  unfolding counts_ok_def
proof (intro allI impI)
  fix j assume "j < segment_count (seg_add i 1 st)"
  then have j: "j < segment_count st" by (simp add: pool_upd)
  show "unat (seg_outstanding (seg_add i 1 st) j) = card (insert x H \<inter> seg_pages (segments (seg_add i 1 st) j))"
  proof (cases "j = i")
    case True
    have "card (insert x (H \<inter> seg_pages (segments st i))) = Suc (card (H \<inter> seg_pages (segments st i)))"
      using x by simp
    moreover have "card (insert x (H \<inter> seg_pages (segments st i))) \<le> 32"
      using card_mono [of "seg_pages (segments st i)" "insert x (H \<inter> seg_pages (segments st i))"] x
        card_seg_pages [of "segments st i"] by auto
    ultimately show ?thesis using True c j x by (simp add: pool_upd counts_ok_def unat_word_ariths)
  next
    case False
    have "segments st j \<noteq> segments st i"
      using seg_index_unique [OF ok j i] False by blast
    then have "x \<notin> seg_pages (segments st j)"
      using segs_disjoint [OF ok, of "segments st i" "segments st j"] i j x by (auto simp: seg_list_def)
    then show ?thesis using False c j by (simp add: pool_upd counts_ok_def)
  qed
qed

lemma unhold_counts:
  assumes ok: "segs_ok (seg_list st)" and c: "counts_ok st H" and i: "i < segment_count st"
    and x: "x \<in> seg_pages (segments st i)" "x \<in> H"
  shows "counts_ok (seg_add i (- 1) st) (H - {x})"
  unfolding counts_ok_def
proof (intro allI impI)
  fix j assume "j < segment_count (seg_add i (- 1) st)"
  then have j: "j < segment_count st" by (simp add: pool_upd)
  have e: "(H - {x}) \<inter> seg_pages b = H \<inter> seg_pages b - {x}" for b by blast
  show "unat (seg_outstanding (seg_add i (- 1) st) j) = card ((H - {x}) \<inter> seg_pages (segments (seg_add i (- 1) st) j))"
  proof (cases "j = i")
    case True
    have "0 < card (H \<inter> seg_pages (segments st i))" using x by (auto simp: card_gt_0_iff)
    moreover from this have "seg_outstanding st i \<noteq> 0" using c i by (auto simp: counts_ok_def)
    ultimately show ?thesis using True c j x by (simp add: pool_upd counts_ok_def e unat_minus_one)
  next
    case False
    have "segments st j \<noteq> segments st i"
      using seg_index_unique [OF ok j i] False by blast
    then have "x \<notin> seg_pages (segments st j)"
      using segs_disjoint [OF ok, of "segments st i" "segments st j"] i j x by (auto simp: seg_list_def)
    then show ?thesis using False c j by (simp add: pool_upd counts_ok_def e)
  qed
qed

subsection \<open>Allocation\<close>

text \<open>Fields the invariant does not depend on.\<close>

lemma pool_ok_cong:
  assumes "seg_list st' = seg_list st" "segment_cursor st' = segment_cursor st" "segment_end st' = segment_end st"
    "carving_idx st' = carving_idx st" "segments st' = segments st" "segment_count st' = segment_count st"
    "seg_outstanding st' = seg_outstanding st" "dirty_list st' = dirty_list st" "clean_list st' = clean_list st"
  shows "pool_ok m st' dl cl H = pool_ok m st dl cl H"
  using assms by (simp add: pool_ok_def carve_ok_def counts_ok_def uncarved_def pool_pages_def)

lemma pool_ok_simps [simp]:
  "pool_ok m (count_lock st) dl cl H = pool_ok m st dl cl H"
  "pool_ok m (slabs_add d st) dl cl H = pool_ok m st dl cl H"
  "pool_ok m (st\<lparr>metrics := pm\<rparr>) dl cl H = pool_ok m st dl cl H"
  by (rule pool_ok_cong; simp add: pool_upd seg_list_def)+

lemma uncarved_upd [simp]:
  "uncarved (seg_add i d st) = uncarved st" "uncarved (st\<lparr>dirty_list := fl\<rparr>) = uncarved st"
  "uncarved (st\<lparr>clean_list := fl\<rparr>) = uncarved st"
  by (simp_all add: uncarved_def pool_upd)

lemma carve_ok_upd [simp]:
  "carve_ok (seg_add i d st) = carve_ok st" "carve_ok (st\<lparr>dirty_list := fl\<rparr>) = carve_ok st"
  "carve_ok (st\<lparr>clean_list := fl\<rparr>) = carve_ok st"
  by (simp_all add: carve_ok_def pool_upd)

lemma counts_ok_upd [simp]:
  "counts_ok (st\<lparr>dirty_list := fl\<rparr>) H = counts_ok st H" "counts_ok (st\<lparr>clean_list := fl\<rparr>) H = counts_ok st H"
  by (simp_all add: counts_ok_def)

lemma seg_add_upd [simp]:
  "dirty_list (seg_add i d st) = dirty_list st" "clean_list (seg_add i d st) = clean_list st"
  "segment_count (seg_add i d st) = segment_count st" "segments (seg_add i d st) = segments st"
  by (simp_all add: pool_upd)

text \<open>Popping the head of a page list and counting the page as held.\<close>

lemma take_dirty:
  assumes P: "pool_ok m st (x # dl) cl H"
  shows "\<exists>i fl. i < segment_count st \<and> find_segment st x = Some i \<and> page_pop (m, dirty_list st) = (Some x, m, fl) \<and>
    x \<notin> H \<and> x \<in> pool_pages st \<and> pool_ok m (seg_add i 1 (st\<lparr>dirty_list := fl\<rparr>)) dl cl (insert x H)"
proof -
  note D = pool_okD [OF P]
  have x: "x \<in> pool_pages st" "x \<notin> H" "x \<notin> uncarved st" using P by (auto simp: pool_ok_def)
  obtain i where i: "i < segment_count st" "x \<in> seg_pages (segments st i)" using x(1) by (rule pool_pages_seg)
  obtain s' where "page_pop (m, dirty_list st) = (Some x, s')" "page_list s' dl"
    using page_list.pop_cons [OF D(4)] by blast
  then obtain fl where fl: "page_pop (m, dirty_list st) = (Some x, m, fl)" "page_list (m, fl) dl"
    by (auto simp: page_pop_def split: if_splits)
  have "counts_ok (seg_add i 1 (st\<lparr>dirty_list := fl\<rparr>)) (insert x H)"
    using hold_counts [of "st\<lparr>dirty_list := fl\<rparr>"] D(1,3) i x by simp
  then have "pool_ok m (seg_add i 1 (st\<lparr>dirty_list := fl\<rparr>)) dl cl (insert x H)"
    using P fl(2) x by (auto simp: pool_ok_def)
  then show ?thesis using i fl(1) x find_segment_page [OF D(1) i] by blast
qed

lemma take_clean:
  assumes P: "pool_ok m st dl (x # cl) H"
  shows "\<exists>i fl. i < segment_count st \<and> find_segment st x = Some i \<and> page_pop (m, clean_list st) = (Some x, m, fl) \<and>
    x \<notin> H \<and> x \<in> pool_pages st \<and> pool_ok m (seg_add i 1 (st\<lparr>clean_list := fl\<rparr>)) dl cl (insert x H)"
proof -
  note D = pool_okD [OF P]
  have x: "x \<in> pool_pages st" "x \<notin> H" "x \<notin> uncarved st" using P by (auto simp: pool_ok_def)
  obtain i where i: "i < segment_count st" "x \<in> seg_pages (segments st i)" using x(1) by (rule pool_pages_seg)
  obtain s' where "page_pop (m, clean_list st) = (Some x, s')" "page_list s' cl"
    using page_list.pop_cons [OF D(5)] by blast
  then obtain fl where fl: "page_pop (m, clean_list st) = (Some x, m, fl)" "page_list (m, fl) cl"
    by (auto simp: page_pop_def split: if_splits)
  have "counts_ok (seg_add i 1 (st\<lparr>clean_list := fl\<rparr>)) (insert x H)"
    using hold_counts [of "st\<lparr>clean_list := fl\<rparr>"] D(1,3) i x by simp
  then have "pool_ok m (seg_add i 1 (st\<lparr>clean_list := fl\<rparr>)) dl cl (insert x H)"
    using P fl(2) x by (auto simp: pool_ok_def)
  then show ?thesis using i fl(1) x find_segment_page [OF D(1) i] by blast
qed

lemma carve_page:
  assumes P: "pool_ok m st dl cl H" and c: "segment_cursor st < segment_end st"
  shows "carving_idx st < MAX_SEGMENTS" "segment_cursor st \<in> pool_pages st" "segment_cursor st \<notin> H"
    "pool_ok m (seg_add (carving_idx st) 1 (st\<lparr>segment_cursor := segment_cursor st + SLAB_SIZE\<rparr>)) dl cl
       (insert (segment_cursor st) H)"
proof -
  note D = pool_okD [OF P]
  let ?x = "segment_cursor st" and ?i = "carving_idx st"
  let ?st = "st\<lparr>segment_cursor := ?x + SLAB_SIZE\<rparr>"
  have k: "?i < segment_count st" "segment_end st = segments st ?i + SEGMENT_SIZE" "segments st ?i < ?x" "SLAB_SIZE dvd ?x"
    using D(2) c by (auto simp: carve_ok_def)
  have b: "SLAB_SIZE dvd segments st ?i" "length (seg_list st) \<le> MAX_SEGMENTS"
    using D(1) k(1) by (auto simp: segs_ok_def seg_base_ok_def seg_list_def)
  then show "?i < MAX_SEGMENTS" using k(1) by (simp add: seg_list_def)
  have xs: "?x \<in> seg_pages (segments st ?i)" using k c b(1) by (simp add: seg_pages_iff in_segment_def)
  then show xp: "?x \<in> pool_pages st" using k(1) by (auto simp: pool_pages_def seg_list_def)
  have u: "?x \<in> uncarved st" using c k(4) by (simp add: uncarved_def)
  then show xh: "?x \<notin> H" using P by (auto simp: pool_ok_def)
  have "y \<in> uncarved ?st \<longleftrightarrow> y \<in> uncarved st \<and> y \<noteq> ?x" for y
  proof -
    have "?x + SLAB_SIZE \<le> y \<longleftrightarrow> ?x \<le> y \<and> y \<noteq> ?x" if "SLAB_SIZE dvd y"
      using that k(4) unfolding SLAB_SIZE_def dvd_def by auto
    then show ?thesis by (auto simp: uncarved_def)
  qed
  then have un: "uncarved ?st = uncarved st - {?x}" by blast
  have "counts_ok (seg_add ?i 1 ?st) (insert ?x H)"
    using D(1,3) k(1) xs xh by (intro hold_counts) (simp_all add: counts_ok_def)
  moreover have "carve_ok ?st"
    using D(2) c k(3) by (auto simp: carve_ok_def dvd_add geom_simps)
  ultimately show "pool_ok m (seg_add ?i 1 ?st) dl cl (insert ?x H)"
    using P u un xh by (auto simp: pool_ok_def)
qed

lemma pop_nil: "page_list (m, fl) [] \<Longrightarrow> page_pop (m, fl) = (None, m, fl)"
  by (rule page_list.pop_empty)

lemma pool_lists_upd [simp]:
  "dirty_list (count_lock st) = dirty_list st" "clean_list (count_lock st) = clean_list st"
  "find_segment (st\<lparr>dirty_list := fl\<rparr>) x = find_segment st x" "find_segment (st\<lparr>clean_list := fl\<rparr>) x = find_segment st x"
  "find_segment (count_lock st) x = find_segment st x"
  "segments (count_lock st) = segments st" "segment_count (count_lock st) = segment_count st"
  "segment_cursor (count_lock st) = segment_cursor st" "segment_end (count_lock st) = segment_end st"
  "carving_idx (count_lock st) = carving_idx st" "seg_outstanding (count_lock st) = seg_outstanding st"
  by (simp_all add: find_segment_def pool_upd)

lemma outstanding_upd [simp]:
  "outstanding_slabs (slabs_add d st) = outstanding_slabs st + d" "outstanding_slabs (seg_add i e st) = outstanding_slabs st"
  "outstanding_slabs (count_lock st) = outstanding_slabs st"
  by (simp_all add: pool_upd)

lemma alloc_slab_locked_ok:
  assumes P: "pool_ok m st dl cl H"
  shows "(\<exists>x st' dl' cl'. alloc_slab_locked m st = Some (Some x, st') \<and> x \<in> pool_pages st \<and> x \<notin> H \<and>
      pool_ok m st' dl' cl' (insert x H) \<and> seg_list st' = seg_list st \<and>
      outstanding_slabs st' = outstanding_slabs st + 1) \<or>
    (\<exists>st'. alloc_slab_locked m st = Some (None, st') \<and> dl = [] \<and> cl = [] \<and> uncarved st = {} \<and> pool_ok m st' [] [] H \<and>
      seg_list st' = seg_list st \<and> outstanding_slabs st' = outstanding_slabs st)"
proof -
  let ?st = "count_lock st"
  have P': "pool_ok m ?st dl cl H" using P by simp
  have st: "seg_list ?st = seg_list st" "pool_pages ?st = pool_pages st" "outstanding_slabs ?st = outstanding_slabs st"
    by simp_all
  show ?thesis
  proof (cases dl)
    case (Cons x dl')
    obtain i fl where t: "i < segment_count ?st" "find_segment ?st x = Some i" "page_pop (m, dirty_list ?st) = (Some x, m, fl)"
        "x \<notin> H" "x \<in> pool_pages ?st" "pool_ok m (seg_add i 1 (?st\<lparr>dirty_list := fl\<rparr>)) dl' cl (insert x H)"
      using take_dirty [of m ?st x dl' cl H] P' Cons by auto
    have "alloc_slab_locked m st = Some (Some x, slabs_add 1 (seg_add i 1 (?st\<lparr>dirty_list := fl\<rparr>)))"
      using t(2,3) by (simp add: alloc_slab_locked_def hand_out_def)
    then show ?thesis using t st by auto
  next
    case Nil
    note n = pop_nil [OF pool_okD(4) [OF P', unfolded Nil]]
    show ?thesis
    proof (cases cl)
      case (Cons x cl')
      obtain i fl where t: "i < segment_count ?st" "find_segment ?st x = Some i" "page_pop (m, clean_list ?st) = (Some x, m, fl)"
          "x \<notin> H" "x \<in> pool_pages ?st" "pool_ok m (seg_add i 1 (?st\<lparr>clean_list := fl\<rparr>)) dl cl' (insert x H)"
        using take_clean [of m ?st dl x cl' H] P' Cons by auto
      have "alloc_slab_locked m st = Some (Some x, slabs_add 1 (seg_add i 1 (?st\<lparr>clean_list := fl\<rparr>)))"
        using n t(2,3) by (simp add: alloc_slab_locked_def hand_out_def)
      then show ?thesis using t st by auto
    next
      case Nil2: Nil
      note n2 = pop_nil [OF pool_okD(5) [OF P', unfolded Nil2]]
      show ?thesis
      proof (cases "segment_cursor ?st < segment_end ?st")
        case True
        note c = carve_page [OF P' True]
        have "alloc_slab_locked m st = Some (Some (segment_cursor ?st), slabs_add 1 (seg_add (carving_idx ?st) 1
            (?st\<lparr>segment_cursor := segment_cursor ?st + SLAB_SIZE\<rparr>)))"
          using n n2 True c(1) by (simp add: alloc_slab_locked_def Let_def)
        then show ?thesis using c st by auto
      next
        case False
        then have "alloc_slab_locked m st = Some (None, ?st)"
          using n n2 by (simp add: alloc_slab_locked_def Let_def)
        moreover have "uncarved st = {}" using False by (auto simp: uncarved_def)
        ultimately show ?thesis using P' Nil Nil2 st by auto
      qed
    qed
  qed
qed

subsection \<open>New segments\<close>

definition fresh_segment :: "addr \<Rightarrow> PoolState \<Rightarrow> bool" where
  "fresh_segment base st \<longleftrightarrow> seg_base_ok base \<and>
     (\<forall>b \<in> set (seg_list st). disjoint_regions (base, SEGMENT_SIZE) (b, SEGMENT_SIZE))"

lemma push_segment_pages:
  assumes "page_list (m, fl) xs" "seg_base_ok base" "set xs \<inter> seg_pages base = {}"
  shows "\<exists>m' fl'. fold (\<lambda>i. page_push (base + i * SLAB_SIZE)) (rev [1..<SLABS_PER_SEGMENT]) (m, fl) = (m', fl') \<and>
    page_list (m', fl') (map (\<lambda>i. base + i * SLAB_SIZE) [1..<SLABS_PER_SEGMENT] @ xs) \<and>
    (\<forall>a. \<not> in_segment base a \<longrightarrow> m' a = m a)"
proof -
  have "\<exists>m' fl'. fold (\<lambda>i. page_push (base + i * SLAB_SIZE)) (rev [k..<SLABS_PER_SEGMENT]) (m, fl) = (m', fl') \<and>
      page_list (m', fl') (map (\<lambda>i. base + i * SLAB_SIZE) [k..<SLABS_PER_SEGMENT] @ xs) \<and>
      (\<forall>a. \<not> in_segment base a \<longrightarrow> m' a = m a)" if "k \<le> SLABS_PER_SEGMENT" for k
    using that
  proof (induction rule: inc_induct)
    case base
    then show ?case using assms(1) by simp
  next
    case (step k)
    let ?x = "base + k * SLAB_SIZE"
    obtain m' fl' where IH: "fold (\<lambda>i. page_push (base + i * SLAB_SIZE)) (rev [Suc k..<SLABS_PER_SEGMENT]) (m, fl) = (m', fl')"
        "page_list (m', fl') (map (\<lambda>i. base + i * SLAB_SIZE) [Suc k..<SLABS_PER_SEGMENT] @ xs)"
        "\<forall>a. \<not> in_segment base a \<longrightarrow> m' a = m a" using step.IH by blast
    have x: "?x \<in> seg_pages base" using step.hyps unfolding seg_pages_def by blast
    then have "page_list (page_push ?x (m', fl')) (?x # map (\<lambda>i. base + i * SLAB_SIZE) [Suc k..<SLABS_PER_SEGMENT] @ xs)"
      using IH(2) seg_page_ok [OF assms(2)] assms(3) by (intro page_list_push) (auto simp: geom_simps)
    moreover have "[k..<SLABS_PER_SEGMENT] = k # [Suc k..<SLABS_PER_SEGMENT]" using step.hyps by (simp add: upt_conv_Cons)
    moreover have "in_segment base a" if "?x \<le> a" "a < ?x + 8" for a
      using that step.hyps(2) by (simp add: in_segment_def geom_simps)
    then have "\<forall>a. \<not> in_segment base a \<longrightarrow> fst (page_push ?x (m', fl')) a = m a"
      using IH(3) write_next_outside [of _ ?x m'] by (auto simp: page_push_def) (metis leI)
    ultimately show ?case using IH(1) by (cases "page_push ?x (m', fl')") simp
  qed
  then show ?thesis by (simp add: geom_simps)
qed

text \<open>The state after a segment is entered in the table, before its pages are distributed.\<close>

definition with_segment :: "addr \<Rightarrow> PoolState \<Rightarrow> PoolState" where
  "with_segment base st = st\<lparr>segments := (segments st)(segment_count st := base),
     segment_count := segment_count st + 1, seg_outstanding := (seg_outstanding st)(segment_count st := 1)\<rparr>"

lemma with_segment_list [simp]: "seg_list (with_segment base st) = seg_list st @ [base]"
  by (simp add: seg_list_def with_segment_def)

lemma disjoint_seg_pages:
  "SLAB_SIZE dvd b \<Longrightarrow> disjoint_regions (b, SEGMENT_SIZE) (c, SEGMENT_SIZE) \<Longrightarrow> SLAB_SIZE dvd c \<Longrightarrow>
     seg_pages b \<inter> seg_pages c = {}"
  by (auto simp: seg_pages_iff in_segment_def disjoint_regions_def)

lemma segs_ok_snoc:
  assumes "segs_ok bs" "seg_base_ok b" "\<forall>c \<in> set bs. disjoint_regions (b, SEGMENT_SIZE) (c, SEGMENT_SIZE)"
    "b \<notin> set bs" "length bs < MAX_SEGMENTS"
  shows "segs_ok (bs @ [b])"
proof -
  have "disjoint_regions (c, SEGMENT_SIZE) (b, SEGMENT_SIZE)" if "c \<in> set bs" for c
    using assms(3) that by (auto simp: disjoint_regions_def)
  then show ?thesis using assms by (auto simp: segs_ok_def)
qed

lemma length_seg_list [simp]: "length (seg_list st) = segment_count st"
  by (simp add: seg_list_def)

lemma fresh_not_pool_page:
  assumes "segs_ok (seg_list st)" "fresh_segment base st"
  shows "seg_pages base \<inter> pool_pages st = {}" "base \<notin> set (seg_list st)"
proof -
  have d: "disjoint_regions (base, SEGMENT_SIZE) (b, SEGMENT_SIZE)" "SLAB_SIZE dvd b" if "b \<in> set (seg_list st)" for b
    using assms that by (auto simp: fresh_segment_def segs_ok_def seg_base_ok_def)
  have "SLAB_SIZE dvd base" using assms(2) by (simp add: fresh_segment_def seg_base_ok_def)
  then have "seg_pages base \<inter> seg_pages b = {}" if "b \<in> set (seg_list st)" for b
    using d [OF that] by (intro disjoint_seg_pages)
  then show "seg_pages base \<inter> pool_pages st = {}" unfolding pool_pages_def by blast
  show "base \<notin> set (seg_list st)" using d(1) [of base] by (auto simp: disjoint_regions_def geom_simps)
qed

lemma with_segment_ok:
  assumes ok: "segs_ok (seg_list st)" "counts_ok st H" "H \<subseteq> pool_pages st" and fresh: "fresh_segment base st"
    and room: "segment_count st < MAX_SEGMENTS"
  shows "segs_ok (seg_list (with_segment base st))" "counts_ok (with_segment base st) (insert base H)"
    "pool_pages (with_segment base st) = seg_pages base \<union> pool_pages st"
proof -
  note F = fresh_not_pool_page [OF ok(1) fresh]
  show "segs_ok (seg_list (with_segment base st))"
    unfolding with_segment_list using ok(1) fresh F(2) room by (intro segs_ok_snoc) (auto simp: fresh_segment_def)
  show "pool_pages (with_segment base st) = seg_pages base \<union> pool_pages st"
    by (auto simp: pool_pages_def)
  have "unat (seg_outstanding (with_segment base st) i) = card (insert base H \<inter> seg_pages (segments (with_segment base st) i))"
    if i: "i < segment_count st + 1" for i
  proof (cases "i = segment_count st")
    case True
    have "insert base H \<inter> seg_pages base = {base}" using F(1) ok(3) seg_base_in by auto
    then show ?thesis using True by (simp add: with_segment_def)
  next
    case False
    then have i': "i < segment_count st" using i by simp
    then have "seg_pages (segments st i) \<subseteq> pool_pages st" by (auto simp: pool_pages_def seg_list_def)
    then have "base \<notin> seg_pages (segments st i)" using F(1) seg_base_in [of base] by blast
    then show ?thesis using ok(2) i' by (simp add: with_segment_def counts_ok_def)
  qed
  then show "counts_ok (with_segment base st) (insert base H)" unfolding counts_ok_def by (simp add: with_segment_def)
qed

lemma seg_pages_rest: "set (map (\<lambda>i. b + i * SLAB_SIZE) [1..<SLABS_PER_SEGMENT]) = seg_pages b - {b}"
proof -
  have "{..<SLABS_PER_SEGMENT} = insert 0 {1..<SLABS_PER_SEGMENT}" by (auto simp: geom_simps)
  then have "seg_pages b = insert b ((\<lambda>i. b + i * SLAB_SIZE) ` {1..<SLABS_PER_SEGMENT})" by (simp add: seg_pages_def)
  moreover have "b \<notin> (\<lambda>i. b + i * SLAB_SIZE) ` {1..<SLABS_PER_SEGMENT}" by (auto simp: geom_simps)
  ultimately show ?thesis by simp
qed

lemma add_block:
  assumes "X \<inter> H = {}" "(X \<union> H) \<inter> U = {}" "X \<union> H \<union> U = PP" "S \<inter> PP = {}" "b \<in> S"
  shows "(X \<union> (S - {b})) \<inter> insert b H = {}" "(X \<union> (S - {b}) \<union> insert b H) \<inter> U = {}"
    "X \<union> (S - {b}) \<union> insert b H \<union> U = S \<union> PP"
  using assms by blast+

lemma add_uncarved:
  assumes "X \<inter> H = {}" "X \<union> H = PP" "S \<inter> PP = {}" "b \<in> S"
  shows "X \<inter> insert b H = {}" "(X \<union> insert b H) \<inter> (S - {b}) = {}" "X \<union> insert b H \<union> (S - {b}) = S \<union> PP"
  using assms by blast+

lemma install_segment_ok:
  assumes P: "pool_ok m st dl cl H" and fresh: "fresh_segment base st" and room: "segment_count st < MAX_SEGMENTS"
  shows "\<exists>m' st' dl' cl'. install_segment base m st = (True, m', st') \<and> pool_ok m' st' dl' cl' (insert base H) \<and>
    seg_list st' = seg_list st @ [base] \<and> base \<notin> H \<and> (\<forall>a. \<not> in_segment base a \<longrightarrow> m' a = m a) \<and>
    outstanding_slabs st' = outstanding_slabs st + 1"
proof -
  note D = pool_okD [OF P]
  note F = fresh_not_pool_page [OF D(1) fresh]
  note W = with_segment_ok [OF D(1,3,7) fresh room]
  have bok: "seg_base_ok base" using fresh by (simp add: fresh_segment_def)
  define st1 where "st1 = slabs_add 1 (with_segment base ((count_lock st)\<lparr>metrics := metrics (count_lock st)
      \<lparr>segment_mmap_count := segment_mmap_count (metrics st) + 1\<rparr>\<rparr>))"
  have st1: "seg_list st1 = seg_list st @ [base]" "pool_pages st1 = seg_pages base \<union> pool_pages st"
      "segs_ok (seg_list st1)" "counts_ok st1 (insert base H)" "dirty_list st1 = dirty_list st"
      "clean_list st1 = clean_list st" "segment_cursor st1 = segment_cursor st" "segment_end st1 = segment_end st"
      "carving_idx st1 = carving_idx st" "outstanding_slabs st1 = outstanding_slabs st + 1"
      "segment_count st1 = segment_count st + 1" "segments st1 = (segments st)(segment_count st := base)"
    using W by (simp_all add: st1_def pool_upd with_segment_def seg_list_def pool_pages_def counts_ok_def)
  have base: "base \<notin> H" "base \<notin> set (dl @ cl)" using F(1) D(7-9) seg_base_in [of base] by auto
  show ?thesis
  proof (cases "segment_cursor st < segment_end st")
    case True
    have "set cl \<inter> seg_pages base = {}" using D(9) F(1) by blast
    from push_segment_pages [OF D(5) bok this] obtain m' fl'
      where f: "fold (\<lambda>i. page_push (base + i * SLAB_SIZE)) (rev [1..<SLABS_PER_SEGMENT]) (m, clean_list st) = (m', fl')"
        "page_list (m', fl') (map (\<lambda>i. base + i * SLAB_SIZE) [1..<SLABS_PER_SEGMENT] @ cl)"
        "\<forall>a. \<not> in_segment base a \<longrightarrow> m' a = m a" by blast
    have i: "install_segment base m st = (True, m', st1\<lparr>clean_list := fl'\<rparr>)"
      using room True f(1) by (simp add: install_segment_def st1_def with_segment_def pool_upd Let_def)
    define cl' where "cl' = map (\<lambda>i. base + i * SLAB_SIZE) [1..<SLABS_PER_SEGMENT] @ cl"
    have cl': "set cl' = seg_pages base - {base} \<union> set cl" unfolding cl'_def set_append seg_pages_rest ..
    have dirty: "page_list (m', dirty_list st) dl"
    proof (rule page_list_cong [OF D(4)])
      fix x a assume x: "x \<in> set dl" "x \<le> a" "a < x + 8"
      have xp: "page_ok x" "x \<notin> seg_pages base" using pool_page_ok [OF D(1)] D(8) F(1) x(1) by auto
      have "\<not> in_segment base a"
      proof
        assume "in_segment base a"
        then have "in_segment base x" using xp(1) bok x(2,3)
          unfolding in_segment_def page_ok_def seg_base_ok_def geom_simps dvd_def by auto
        then show False using xp bok by (simp add: seg_pages_iff seg_base_ok_def page_ok_def)
      qed
      then show "m' a = m a" using f(3) by blast
    qed
    have u: "uncarved st1 = uncarved st" using st1 by (simp add: uncarved_def)
    have "carving_idx st < segment_count st" using D(2) True by (simp add: carve_ok_def)
    then have c: "carve_ok st1" using D(2) st1 by (simp add: carve_ok_def)
    have "distinct (map (\<lambda>i. base + i * SLAB_SIZE) [1..<SLABS_PER_SEGMENT])"
      by (simp add: distinct_map inj_on_def geom_simps)
    moreover have "(seg_pages base - {base}) \<inter> set cl = {}" "set dl \<inter> set cl' = {}" "distinct dl" "distinct cl"
      using D(6,8,9) F(1) unfolding cl' distinct_append by blast+
    ultimately have dist: "distinct (dl @ cl')"
      unfolding distinct_append cl'_def seg_pages_rest by (simp add: cl'_def)
    have part: "(set (dl @ cl') \<union> insert base H) \<inter> uncarved st = {}" "set (dl @ cl') \<inter> insert base H = {}"
        "set (dl @ cl') \<union> insert base H \<union> uncarved st = seg_pages base \<union> pool_pages st"
    proof -
      have s: "set (dl @ cl') = set (dl @ cl) \<union> (seg_pages base - {base})" unfolding set_append cl' by blast
      have p: "set (dl @ cl) \<inter> H = {}" "(set (dl @ cl) \<union> H) \<inter> uncarved st = {}" "set (dl @ cl) \<union> H \<union> uncarved st = pool_pages st"
        using P by (simp_all add: pool_ok_def)
      show "(set (dl @ cl') \<union> insert base H) \<inter> uncarved st = {}" "set (dl @ cl') \<inter> insert base H = {}"
        "set (dl @ cl') \<union> insert base H \<union> uncarved st = seg_pages base \<union> pool_pages st"
        unfolding s using add_block [OF p F(1) seg_base_in] by blast+
    qed
    have "pool_ok m' (st1\<lparr>clean_list := fl'\<rparr>) dl cl' (insert base H)"
      using st1 c u dist part f(2) dirty unfolding pool_ok_def cl'_def by simp
    then show ?thesis using i st1(1,10) base(1) f(3) by auto
  next
    case False
    define st2 where "st2 = st1\<lparr>carving_idx := segment_count st, segment_cursor := base + SLAB_SIZE,
        segment_end := base + SEGMENT_SIZE\<rparr>"
    have i: "install_segment base m st = (True, m, st2)"
      using room False by (simp add: install_segment_def st2_def st1_def with_segment_def pool_upd Let_def)
    have bd: "SLAB_SIZE dvd base" using bok by (simp add: seg_base_ok_def)
    have "uncarved st = {}" using False by (auto simp: uncarved_def)
    moreover have un: "uncarved st2 = seg_pages base - {base}"
    proof (rule set_eqI)
      fix y
      have "base + SLAB_SIZE \<le> y \<longleftrightarrow> base \<le> y \<and> y \<noteq> base" if "SLAB_SIZE dvd y"
        using that bd unfolding SLAB_SIZE_def dvd_def by auto
      then show "y \<in> uncarved st2 \<longleftrightarrow> y \<in> seg_pages base - {base}"
        by (cases "SLAB_SIZE dvd y") (simp_all add: uncarved_def st2_def seg_pages_iff [OF bd] in_segment_def conj_ac)
    qed
    ultimately have p: "set (dl @ cl) \<inter> H = {}" "set (dl @ cl) \<union> H = pool_pages st" using P by (simp_all add: pool_ok_def)
    note part = add_uncarved [OF p F(1) seg_base_in, folded un]
    have "carve_ok st2" using st1 bd bok by (simp add: carve_ok_def st2_def dvd_add geom_simps)
    moreover have "seg_list st2 = seg_list st1" "counts_ok st2 H' = counts_ok st1 H'" for H'
      by (simp_all add: st2_def seg_list_def counts_ok_def)
    moreover have "pool_pages st2 = pool_pages st1" by (simp add: st2_def pool_pages_def seg_list_def)
    moreover have "dirty_list st2 = dirty_list st" "clean_list st2 = clean_list st" using st1 by (simp_all add: st2_def)
    ultimately have "pool_ok m st2 dl cl (insert base H)"
      using st1 part D(4-6) unfolding pool_ok_def by simp
    then show ?thesis using i st1 base(1) \<open>seg_list st2 = seg_list st1\<close> by (auto simp: st2_def)
  qed
qed

subsection \<open>Returning pages\<close>

lemma page_block:
  assumes "page_ok x" "page_ok y" "x \<noteq> y" "y \<le> a" "a < y + SLAB_SIZE"
  shows "a < x \<or> x + SLAB_SIZE \<le> a"
proof -
  obtain i j where "x = 65536 * i" "y = 65536 * j" using assms(1,2) by (auto simp: page_ok_def SLAB_SIZE_def dvd_def)
  then show ?thesis using assms(3-5) unfolding SLAB_SIZE_def by auto
qed

definition touches :: "addr set \<Rightarrow> memory \<Rightarrow> memory \<Rightarrow> bool" where
  "touches X m m' \<longleftrightarrow> (\<forall>a. (\<forall>x \<in> X. a < x \<or> x + SLAB_SIZE \<le> a) \<longrightarrow> m' a = m a)"

lemma touches_keeps:
  assumes "touches X m m'" "\<forall>x \<in> X. page_ok x" "\<forall>y \<in> H. page_ok y" "X \<inter> H = {}"
  shows "keeps H m m'"
  unfolding keeps_def
proof (intro ballI allI impI)
  fix y a assume y: "y \<in> H" "y \<le> a \<and> a < y + SLAB_SIZE"
  have "a < x \<or> x + SLAB_SIZE \<le> a" if "x \<in> X" for x
    using page_block [of x y a] assms(2-4) y that by blast
  then show "m' a = m a" using assms(1) unfolding touches_def by blast
qed

lemma touches_refl [simp]: "touches X m m"
  by (simp add: touches_def)

lemma touches_trans: "touches X m m1 \<Longrightarrow> touches X m1 m2 \<Longrightarrow> touches X m m2"
  by (simp add: touches_def)

lemma touches_mono: "touches X m m' \<Longrightarrow> X \<subseteq> Y \<Longrightarrow> touches Y m m'"
  unfolding touches_def by blast

lemma touches_links: "\<forall>a. (\<forall>x \<in> X. a < x \<or> x + 8 \<le> a) \<longrightarrow> m' a = m a \<Longrightarrow> touches X m m'"
  unfolding touches_def by (fastforce simp: geom_simps)

lemma keeps_refl [simp]: "keeps H m m"
  by (simp add: keeps_def)

lemma keeps_trans: "keeps H m m1 \<Longrightarrow> keeps H m1 m2 \<Longrightarrow> keeps H m m2"
  by (simp add: keeps_def)

lemma keeps_mono: "keeps H m m' \<Longrightarrow> G \<subseteq> H \<Longrightarrow> keeps G m m'"
  by (auto simp: keeps_def)

lemma keeps_list:
  assumes "page_list (m, fl) xs" "keeps G m m'" "set xs \<subseteq> G"
  shows "page_list (m', fl) xs"
proof (rule page_list_cong [OF assms(1)])
  fix x a assume "x \<in> set xs" "x \<le> a" "a < x + 8"
  moreover from this have "a < x + SLAB_SIZE" by (simp add: geom_simps)
  ultimately show "m' a = m a" using assms(2,3) unfolding keeps_def by blast
qed

lemma put_back_parts:
  assumes "x \<in> H" "X \<inter> H = {}" "(X \<union> H) \<inter> U = {}" "X \<union> H \<union> U = PP"
  shows "insert x X \<inter> (H - {x}) = {}" "(insert x X \<union> (H - {x})) \<inter> U = {}" "insert x X \<union> (H - {x}) \<union> U = PP"
  using assms by blast+

lemma pool_ok_parts:
  assumes "pool_ok m st dl cl H"
  shows "set (dl @ cl) \<inter> H = {}" "(set (dl @ cl) \<union> H) \<inter> uncarved st = {}" "set (dl @ cl) \<union> H \<union> uncarved st = pool_pages st"
  using assms by (simp_all add: pool_ok_def)

lemma push_touches: "page_push x (m, fl) = (m1, fl') \<Longrightarrow> touches {x} m m1"
  by (rule touches_links) (auto simp: page_push_def write_next_outside)

lemma put_dirty:
  assumes P: "pool_ok m st dl cl H" and x: "x \<in> H" and pp: "page_push x (m, dirty_list st) = (m1, fl)"
  shows "\<exists>i. i < segment_count st \<and> x \<in> seg_pages (segments st i) \<and> find_segment st x = Some i \<and>
    pool_ok m1 (seg_add i (- 1) (st\<lparr>dirty_list := fl\<rparr>)) (x # dl) cl (H - {x}) \<and> touches {x} m m1"
proof -
  note D = pool_okD [OF P]
  note parts = put_back_parts [OF x pool_ok_parts [OF P]]
  have xp: "x \<in> pool_pages st" "page_ok x" "x \<notin> set (dl @ cl)" using x D(7) pool_page_ok [OF D(1)] pool_ok_parts(1) [OF P] by auto
  obtain i where i: "i < segment_count st" "x \<in> seg_pages (segments st i)" using xp(1) by (rule pool_pages_seg)
  have "counts_ok (seg_add i (- 1) (st\<lparr>dirty_list := fl\<rparr>)) (H - {x})"
    using unhold_counts [of "st\<lparr>dirty_list := fl\<rparr>"] D(1,3) i x by simp
  moreover have "page_list (m1, fl) (x # dl)"
    using page_list_push [OF D(4) xp(2)] xp(3) pp by simp
  moreover have "page_list (m1, clean_list st) cl"
    using page_list_write [OF D(5) xp(2)] xp(3) pp by (auto simp: page_push_def)
  ultimately have "pool_ok m1 (seg_add i (- 1) (st\<lparr>dirty_list := fl\<rparr>)) (x # dl) cl (H - {x})"
    using D(1,2,6) parts xp(3) unfolding pool_ok_def by simp
  moreover have "touches {x} m m1" using pp by (rule push_touches)
  ultimately show ?thesis using i find_segment_page [OF D(1) i] by blast
qed

lemma put_clean:
  assumes P: "pool_ok m st dl cl H" and x: "x \<in> H" and pp: "page_push x (m, clean_list st) = (m1, fl)"
  shows "\<exists>i. i < segment_count st \<and> find_segment st x = Some i \<and>
    pool_ok m1 (seg_add i (- 1) st\<lparr>clean_list := fl\<rparr>) dl (x # cl) (H - {x}) \<and> touches {x} m m1"
proof -
  note D = pool_okD [OF P]
  have xp: "x \<in> pool_pages st" "page_ok x" "x \<notin> set (dl @ cl)" using x D(7) pool_page_ok [OF D(1)] pool_ok_parts(1) [OF P] by auto
  have "set (dl @ x # cl) = insert x (set (dl @ cl))" by auto
  note parts = put_back_parts [OF x pool_ok_parts [OF P], folded this]
  obtain i where i: "i < segment_count st" "x \<in> seg_pages (segments st i)" using xp(1) by (rule pool_pages_seg)
  have "counts_ok (seg_add i (- 1) st) (H - {x})" using unhold_counts D(1,3) i x by simp
  moreover have "page_list (m1, fl) (x # cl)" using page_list_push [OF D(5) xp(2)] xp(3) pp by simp
  moreover have "page_list (m1, dirty_list st) dl"
    using page_list_write [OF D(4) xp(2)] xp(3) pp by (auto simp: page_push_def)
  ultimately have "pool_ok m1 (seg_add i (- 1) st\<lparr>clean_list := fl\<rparr>) dl (x # cl) (H - {x})"
    using D(1,2,6) parts xp(3) unfolding pool_ok_def by simp
  moreover have "touches {x} m m1" using pp by (rule push_touches)
  ultimately show ?thesis using i find_segment_page [OF D(1) i] by blast
qed

subsection \<open>Releasing a segment\<close>

lemma swap_remove_segs:
  "i < segment_count st \<Longrightarrow> seg_list (swap_remove_segment i st) = swap_remove i (seg_list st)"
  by (rule nth_equalityI)
    (auto simp: seg_list_def swap_remove_segment_def Let_def swap_remove_nth last_map last_conv_nth)

lemma remove_segment_slabs_ok:
  assumes P: "pool_ok m st dl cl H" and b: "seg_base_ok b"
  shows "\<exists>m' dfl cfl. remove_segment_slabs b m st = Some (m', st\<lparr>dirty_list := dfl, clean_list := cfl\<rparr>) \<and>
    page_list (m', dfl) (filter (\<lambda>x. \<not> in_segment b x) dl) \<and> page_list (m', cfl) (filter (\<lambda>x. \<not> in_segment b x) cl) \<and>
    touches (set (dl @ cl)) m m'"
proof -
  note D = pool_okD [OF P]
  have ok: "\<forall>x \<in> set dl. page_ok x" "\<forall>x \<in> set cl. page_ok x"
    using D(8,9) pool_page_ok [OF D(1)] by auto
  have dj: "set dl \<inter> set cl = {}" using D(6) by simp
  obtain m1 dfl where d: "remove_if (in_segment b) (m, dirty_list st) = Some (m1, dfl)"
      "page_list (m1, dfl) (filter (\<lambda>x. \<not> in_segment b x) dl)"
      "\<forall>a. (\<forall>x \<in> set dl. a < x \<or> x + 8 \<le> a) \<longrightarrow> m1 a = m a"
    using remove_if_ok [OF D(4), of "in_segment b"] by blast
  have t1: "touches (set dl) m m1" using d(3) by (rule touches_links)
  then have k1: "keeps (set cl) m m1" using ok dj(1) by (rule touches_keeps)
  have "page_list (m1, clean_list st) cl"
    using keeps_list [OF D(5) k1] by simp
  then obtain m2 cfl where c: "remove_if (in_segment b) (m1, clean_list st) = Some (m2, cfl)"
      "page_list (m2, cfl) (filter (\<lambda>x. \<not> in_segment b x) cl)"
      "\<forall>a. (\<forall>x \<in> set cl. a < x \<or> x + 8 \<le> a) \<longrightarrow> m2 a = m1 a"
    using remove_if_ok [of m1 "clean_list st" cl "in_segment b"] by blast
  have t2: "touches (set cl) m1 m2" using c(3) by (rule touches_links)
  then have k2: "keeps (set dl) m1 m2" using ok dj(1) by (intro touches_keeps [of "set cl"]) auto
  have "page_list (m2, dfl) (filter (\<lambda>x. \<not> in_segment b x) dl)"
    using keeps_list [OF d(2) k2] by auto
  moreover have "touches (set (dl @ cl)) m m2"
    using touches_trans [OF touches_mono [OF t1] touches_mono [OF t2]] by simp
  moreover have "remove_segment_slabs b m st = Some (m2, st\<lparr>dirty_list := dfl, clean_list := cfl\<rparr>)"
    using c(1) d(1) by (simp add: remove_segment_slabs_def)
  ultimately show ?thesis using c(2) by blast
qed

lemma swap_remove_fields [simp]:
  "dirty_list (swap_remove_segment i st) = dirty_list st" "clean_list (swap_remove_segment i st) = clean_list st"
  "segment_cursor (swap_remove_segment i st) = segment_cursor st" "segment_end (swap_remove_segment i st) = segment_end st"
  "outstanding_slabs (swap_remove_segment i st) = outstanding_slabs st"
  by (simp_all add: swap_remove_segment_def Let_def)

lemma swap_remove_carve:
  assumes ok: "segs_ok (seg_list st)" and c: "carve_ok st" and i: "i < segment_count st"
    and full: "segment_fully_carved st i"
  shows "carve_ok (swap_remove_segment i st)"
  unfolding carve_ok_def
proof
  let ?st = "swap_remove_segment i st" and ?l = "segment_count st - 1"
  assume "segment_cursor ?st < segment_end ?st"
  then have lt: "segment_cursor st < segment_end st" by simp
  then have k: "carving_idx st < segment_count st" "segment_end st = segments st (carving_idx st) + SEGMENT_SIZE"
      "segments st (carving_idx st) < segment_cursor st" "SLAB_SIZE dvd segment_cursor st"
    using c by (simp_all add: carve_ok_def)
  have ne: "carving_idx st \<noteq> i"
    using full k lt by (auto simp: segment_fully_carved_def Let_def)
  show "carving_idx ?st < segment_count ?st \<and> segment_end ?st = segments ?st (carving_idx ?st) + SEGMENT_SIZE \<and>
      segments ?st (carving_idx ?st) < segment_cursor ?st \<and> SLAB_SIZE dvd segment_cursor ?st"
  proof (cases "i = ?l")
    case True
    then show ?thesis using k ne by (auto simp: swap_remove_segment_def Let_def)
  next
    case False
    then show ?thesis using k ne i by (auto simp: swap_remove_segment_def Let_def)
  qed
qed

lemma swap_remove_counts:
  assumes "counts_ok st H" "i < segment_count st"
  shows "counts_ok (swap_remove_segment i st) H"
  using assms by (auto simp: counts_ok_def swap_remove_segment_def Let_def)

lemma segs_ok_subset:
  "segs_ok bs \<Longrightarrow> distinct cs \<Longrightarrow> set cs \<subseteq> set bs \<Longrightarrow> length cs \<le> length bs \<Longrightarrow> segs_ok cs"
  unfolding segs_ok_def by (meson order_trans subsetD)

text \<open>Removing a block of pages from all parts of a partition.\<close>

lemma drop_block:
  assumes "X \<inter> H = {}" "(X \<union> H) \<inter> U = {}" "X \<union> H \<union> U = PP" "H \<inter> S = {}" "U \<inter> S = {}"
  shows "(X - S) \<inter> H = {}" "((X - S) \<union> H) \<inter> U = {}" "(X - S) \<union> H \<union> U = PP - S"
  using assms by blast+

lemma release_ok:
  assumes P: "pool_ok m st dl cl H" and i: "i < segment_count st" and z: "seg_outstanding st i = 0"
    and full: "segment_fully_carved st i" and b: "b = segments st i"
  shows "\<exists>m' st' dl' cl'. remove_segment_slabs b m st = Some (m', st') \<and>
    pool_ok m' (swap_remove_segment i st') dl' cl' H \<and> touches (set (dl @ cl)) m m' \<and>
    set (seg_list (swap_remove_segment i st')) = set (seg_list st) - {b} \<and> H \<inter> seg_pages b = {} \<and>
    outstanding_slabs st' = outstanding_slabs st"
proof -
  note D = pool_okD [OF P]
  have bs: "b \<in> set (seg_list st)" using i by (simp add: b seg_list_def)
  then have bok: "seg_base_ok b" using D(1) by (simp add: segs_ok_def)
  then have bd: "SLAB_SIZE dvd b" by (simp add: seg_base_ok_def)
  have "card (H \<inter> seg_pages b) = 0" using D(3) i z unfolding counts_ok_def b by (metis unat_0)
  then have Hb: "H \<inter> seg_pages b = {}" by simp
  have Ub: "uncarved st \<inter> seg_pages b = {}"
  proof (rule ccontr)
    assume "uncarved st \<inter> seg_pages b \<noteq> {}"
    then obtain y where y: "y \<in> uncarved st" "in_segment b y" using bd by (auto simp: seg_pages_iff)
    then have lt: "segment_cursor st < segment_end st" by (auto simp: uncarved_def)
    let ?c = "segments st (carving_idx st)"
    have k: "carving_idx st < segment_count st" "segment_end st = ?c + SEGMENT_SIZE" "?c < segment_cursor st"
      using D(2) lt by (auto simp: carve_ok_def)
    then have c: "?c \<in> set (seg_list st)" "in_segment ?c y" "in_segment ?c (segment_cursor st)"
      using y lt by (auto simp: seg_list_def uncarved_def in_segment_def)
    then have "?c = b" using segs_in_unique [OF D(1) c(1) bs] y(2) by blast
    then show False using c(3) full by (auto simp: segment_fully_carved_def in_segment_def b Let_def)
  qed
  obtain m' dfl cfl where r: "remove_segment_slabs b m st = Some (m', st\<lparr>dirty_list := dfl, clean_list := cfl\<rparr>)"
      "page_list (m', dfl) (filter (\<lambda>x. \<not> in_segment b x) dl)"
      "page_list (m', cfl) (filter (\<lambda>x. \<not> in_segment b x) cl)" "touches (set (dl @ cl)) m m'"
    using remove_segment_slabs_ok [OF P bok] by blast
  let ?st3 = "st\<lparr>dirty_list := dfl, clean_list := cfl\<rparr>"
  let ?st = "swap_remove_segment i ?st3"
  let ?dl = "filter (\<lambda>x. \<not> in_segment b x) dl" and ?cl = "filter (\<lambda>x. \<not> in_segment b x) cl"
  have sl: "seg_list ?st = swap_remove i (seg_list st)" using i swap_remove_segs [of i ?st3] by simp
  have "seg_list st ! i = b" using i by (simp add: b seg_list_def)
  then have sr: "set (seg_list ?st) = set (seg_list st) - {b}" "distinct (seg_list ?st)"
    using set_swap_remove [of i "seg_list st"] i D(1) sl by (simp_all add: segs_ok_def)
  have segs: "segs_ok (seg_list ?st)"
    using sr sl by (intro segs_ok_subset [OF D(1)]) auto
  have fields: "dirty_list ?st = dfl" "clean_list ?st = cfl" "segment_cursor ?st = segment_cursor st"
      "segment_end ?st = segment_end st"
    by simp_all
  have pp: "pool_pages ?st = pool_pages st - seg_pages b"
  proof -
    have "seg_pages c \<inter> seg_pages b = {}" if "c \<in> set (seg_list st) - {b}" for c
      using segs_disjoint [OF D(1) _ bs] that by blast
    then show ?thesis unfolding pool_pages_def sr(1) by blast
  qed
  have page: "\<forall>x \<in> set (dl @ cl). x \<in> seg_pages b \<longleftrightarrow> in_segment b x"
    using D(8,9) pool_page_ok [OF D(1)] by (auto simp: seg_pages_iff [OF bd] page_ok_def)
  then have lists: "set (?dl @ ?cl) = set (dl @ cl) - seg_pages b" by auto
  note part = drop_block [OF pool_ok_parts [OF P] Hb Ub, folded lists pp]
  have "carve_ok ?st" using swap_remove_carve [of ?st3 i] D(1,2) i full by (simp add: segment_fully_carved_def)
  moreover have "counts_ok ?st H" using swap_remove_counts [of ?st3 H i] D(3) i by simp
  moreover have "uncarved ?st = uncarved st" using fields by (simp add: uncarved_def)
  moreover have "distinct (?dl @ ?cl)" using D(6) by auto
  ultimately have "pool_ok m' ?st ?dl ?cl H"
    using segs r(2,3) fields part unfolding pool_ok_def by simp
  then show ?thesis using r(1,4) sr(1) Hb by auto
qed

text \<open>The segments that remain after the locked phase of \<open>dealloc_slab\<close>.\<close>

definition segs_after :: "dealloc_action \<Rightarrow> PoolState \<Rightarrow> addr set" where
  "segs_after act st = (case act of Release b \<Rightarrow> set (seg_list st) - {b} | _ \<Rightarrow> set (seg_list st))"

lemma dealloc_slab_locked_ok:
  assumes P: "pool_ok m st dl cl H" and x: "x \<in> H"
  shows "\<exists>act m' st' dl' cl'. dealloc_slab_locked x m st = Some (act, m', st') \<and> pool_ok m' st' dl' cl' (H - {x}) \<and>
    touches (pool_pages st - (H - {x})) m m' \<and> set (seg_list st') = segs_after act st \<and>
    outstanding_slabs st' = outstanding_slabs st - 1 \<and>
    (\<forall>b. act = Release b \<longleftrightarrow> b \<in> set (seg_list st) \<and> H \<inter> seg_pages b = {x} \<and> \<not> in_segment b (segment_cursor st))"
proof -
  let ?st = "count_lock st"
  have P': "pool_ok m ?st dl cl H" using P by simp
  obtain m1 fl where pp: "page_push x (m, dirty_list ?st) = (m1, fl)" by fastforce
  obtain i where i: "i < segment_count ?st" "x \<in> seg_pages (segments ?st i)" "find_segment ?st x = Some i"
      "pool_ok m1 (seg_add i (- 1) (?st\<lparr>dirty_list := fl\<rparr>)) (x # dl) cl (H - {x})" "touches {x} m m1"
    using put_dirty [OF P' x pp] by blast
  define st2 where "st2 = slabs_add (- 1) (seg_add i (- 1) (?st\<lparr>dirty_list := fl\<rparr>))"
  have P2: "pool_ok m1 st2 (x # dl) cl (H - {x})" using i(4) by (simp add: st2_def)
  have st2: "seg_list st2 = seg_list st" "segments st2 = segments st" "outstanding_slabs st2 = outstanding_slabs st - 1"
      "segment_count st2 = segment_count st" "segment_cursor st2 = segment_cursor st"
    by (simp_all add: st2_def) (simp_all add: pool_upd)
  have carved: "segment_fully_carved st2 i \<longleftrightarrow> \<not> in_segment (segments st i) (segment_cursor st)"
    using st2 by (auto simp: segment_fully_carved_def in_segment_def Let_def)
  have isegs: "segments st i \<in> set (seg_list st)" "x \<in> seg_pages (segments st i)"
    using i(1,2) by (simp_all add: seg_list_def)
  have only: "b = segments st i" if "b \<in> set (seg_list st)" "H \<inter> seg_pages b = {x}" for b
    using segs_disjoint [OF pool_okD(1) [OF P] that(1) isegs(1)] that(2) isegs(2) by blast
  have sub: "set ((x # dl) @ cl) \<subseteq> pool_pages st - (H - {x})" "{x} \<subseteq> pool_pages st - (H - {x})"
    using pool_okD(7-9) [OF P] pool_ok_parts(1) [OF P] x by auto
  have t1: "touches (pool_pages st - (H - {x})) m m1" using i(5) sub(2) by (rule touches_mono)
  show ?thesis
  proof (cases "seg_outstanding st2 i = 0 \<and> segment_fully_carved st2 i")
    case True
    let ?b = "segments st2 i"
    obtain m' st3 dl' cl' where r: "remove_segment_slabs ?b m1 st2 = Some (m', st3)"
        "pool_ok m' (swap_remove_segment i st3) dl' cl' (H - {x})" "touches (set ((x # dl) @ cl)) m1 m'"
        "set (seg_list (swap_remove_segment i st3)) = set (seg_list st2) - {?b}" "(H - {x}) \<inter> seg_pages ?b = {}"
        "outstanding_slabs st3 = outstanding_slabs st2"
      using release_ok [OF P2, of i ?b] i(1) True st2(4) by auto
    let ?st4 = "swap_remove_segment i st3"
    let ?st5 = "?st4\<lparr>metrics := metrics ?st4\<lparr>segment_munmap_count := segment_munmap_count (metrics ?st4) + 1\<rparr>\<rparr>"
    have "dealloc_slab_locked x m st = Some (Release ?b, m', ?st5)"
      using pp i(3) True r(1) unfolding dealloc_slab_locked_def by (simp add: st2_def Let_def)
    moreover have "H \<inter> seg_pages ?b = {x}" "?b = segments st i"
      using isegs(2) x r(5) st2 by auto
    then have "\<forall>b. ?b = b \<longleftrightarrow> b \<in> set (seg_list st) \<and> H \<inter> seg_pages b = {x} \<and> \<not> in_segment b (segment_cursor st)"
      using isegs(1) only True carved by metis
    moreover have "touches (pool_pages st - (H - {x})) m m'"
      using t1 touches_mono [OF r(3) sub(1)] by (rule touches_trans)
    ultimately show ?thesis using r st2 by (auto simp: segs_after_def)
  next
    case False
    have nrel: "\<not> (H \<inter> seg_pages b = {x} \<and> \<not> in_segment b (segment_cursor st))" if "b \<in> set (seg_list st)" for b
    proof
      assume b: "H \<inter> seg_pages b = {x} \<and> \<not> in_segment b (segment_cursor st)"
      then have e: "b = segments st i" using only that by blast
      have "(H - {x}) \<inter> seg_pages (segments st2 i) = {}" using b e st2 by auto
      then have "unat (seg_outstanding st2 i) = 0"
        using pool_okD(3) [OF P2] i(1) st2(4) unfolding counts_ok_def by simp
      then show False using False carved b e by (simp add: unat_eq_0)
    qed
    have "dealloc_slab_locked x m st =
        Some (if pl_len (dirty_list st2) > PURGE_HIGH_WATER then Purge else Done, m1, st2)"
      using pp i(3) False unfolding dealloc_slab_locked_def st2_def by (auto simp: Let_def)
    then show ?thesis using P2 t1 st2 nrel by (auto simp: segs_after_def)
  qed
qed

subsection \<open>Purging\<close>

lemma find_segment_upd [simp]:
  "find_segment (seg_add i d st) x = find_segment st x"
  by (simp add: find_segment_def)

lemma purge_take_loop_ok:
  assumes "pool_ok m st dl cl H"
  shows "\<exists>buf st' dl'. purge_take_loop n m st = Some (buf, st') \<and> pool_ok m st' dl' cl (H \<union> set buf) \<and>
    distinct buf \<and> set buf \<inter> H = {} \<and> set buf \<subseteq> pool_pages st \<and> length buf \<le> n \<and> seg_list st' = seg_list st \<and>
    length dl - n \<le> length dl' \<and> outstanding_slabs st' = outstanding_slabs st"
  using assms
proof (induction n arbitrary: st dl H)
  case 0
  then show ?case by auto
next
  case (Suc n)
  note D = pool_okD [OF Suc.prems]
  have len: "pl_len (dirty_list st) = length dl" using D(4) by (simp add: page_list_def)
  show ?case
  proof (cases "PURGE_LOW_WATER < length dl")
    case False
    then show ?thesis using len Suc.prems by fastforce
  next
    case True
    then obtain x ys where dl: "dl = x # ys" by (cases dl) auto
    obtain i fl where t: "find_segment st x = Some i" "page_pop (m, dirty_list st) = (Some x, m, fl)" "x \<notin> H"
        "x \<in> pool_pages st" "pool_ok m (seg_add i 1 (st\<lparr>dirty_list := fl\<rparr>)) ys cl (insert x H)"
      using take_dirty [of m st x ys cl H] Suc.prems dl by blast
    obtain buf st' dl' where IH: "purge_take_loop n m (seg_add i 1 (st\<lparr>dirty_list := fl\<rparr>)) = Some (buf, st')"
        "pool_ok m st' dl' cl (insert x H \<union> set buf)" "distinct buf" "set buf \<inter> insert x H = {}"
        "set buf \<subseteq> pool_pages st" "length buf \<le> n" "seg_list st' = seg_list st" "length ys - n \<le> length dl'"
        "outstanding_slabs st' = outstanding_slabs st"
      using Suc.IH [OF t(5)] by auto
    have "purge_take_loop (Suc n) m st = Some (x # buf, st')" using len True t(1,2) IH(1) by simp
    then show ?thesis using IH t(3,4) dl by auto
  qed
qed

lemma purge_put_loop_ok:
  assumes "pool_ok m st dl cl H" "distinct buf" "set buf \<subseteq> H"
  shows "\<exists>m' st' cl'. purge_put_loop buf m st = Some (m', st') \<and> pool_ok m' st' dl cl' (H - set buf) \<and>
    touches (set buf) m m' \<and> seg_list st' = seg_list st \<and> outstanding_slabs st' = outstanding_slabs st"
  using assms
proof (induction buf arbitrary: m st cl H)
  case Nil
  then show ?case by auto
next
  case (Cons x buf)
  obtain m1 fl where pp: "page_push x (m, clean_list st) = (m1, fl)" by fastforce
  have xH: "x \<in> H" using Cons.prems(3) by simp
  obtain i where i: "find_segment st x = Some i" "pool_ok m1 (seg_add i (- 1) st\<lparr>clean_list := fl\<rparr>) dl (x # cl) (H - {x})"
      "touches {x} m m1"
    using put_clean [OF Cons.prems(1) xH pp] by blast
  have "set buf \<subseteq> H - {x}" using Cons.prems(2,3) by auto
  then obtain m' st' cl' where IH: "purge_put_loop buf m1 (seg_add i (- 1) st\<lparr>clean_list := fl\<rparr>) = Some (m', st')"
      "pool_ok m' st' dl cl' (H - {x} - set buf)" "touches (set buf) m1 m'" "seg_list st' = seg_list st"
      "outstanding_slabs st' = outstanding_slabs st"
    using Cons.IH [OF i(2)] Cons.prems(2) by auto
  have e: "H - {x} - set buf = H - set (x # buf)" by auto
  have "touches (set (x # buf)) m m'"
    using touches_trans [OF touches_mono [OF i(3)] touches_mono [OF IH(3)], of "set (x # buf)"] by auto
  then show ?case using IH pp i(1) e by auto
qed

end
