(* ===== verification/Pool_Correct.thy ===== *)
theory Pool_Correct
  imports Pool_Invariant
begin

text \<open>
  The operations of the page pool over any page allocator that meets the trait's contract:
  \<open>alloc_slab\<close>, \<open>dealloc_slab\<close> with segment release and deferred purging, and the large
  allocations. \<open>pool_inv owns pool m R held\<close> joins the invariant of the pool state with the
  regions the pool holds from the page allocator; \<open>R\<close> are the regions of large allocations.
\<close>

definition pool_inv :: "('p \<Rightarrow> region set \<Rightarrow> bool) \<Rightarrow> 'p PagePool \<Rightarrow> memory \<Rightarrow> region set \<Rightarrow> addr set \<Rightarrow> bool" where
  "pool_inv owns pool m R H \<longleftrightarrow> (\<exists>dl cl. pool_ok m (state pool) dl cl H) \<and>
     owns (page_alloc pool) (R \<union> seg_regions (state pool)) \<and>
     (\<forall>r \<in> R. \<forall>q \<in> seg_regions (state pool). disjoint_regions r q)"

text \<open>What a pool operation leaves alone: slab headers, list heads, the lock-free lists.\<close>

definition same_links :: "'p PagePool \<Rightarrow> store \<Rightarrow> 'p PagePool \<Rightarrow> store \<Rightarrow> bool" where
  "same_links pool s pool' s' \<longleftrightarrow> hdr s' = hdr s \<and> heads s' = heads s \<and> abandoned pool' = abandoned pool \<and>
     slab_cache pool' = slab_cache pool \<and> slab_cache_len pool' = slab_cache_len pool"

lemma same_links_refl [simp]: "same_links pool s pool s"
  by (simp add: same_links_def)

lemma same_links_trans:
  "same_links p0 s0 p1 s1 \<Longrightarrow> same_links p1 s1 p2 s2 \<Longrightarrow> same_links p0 s0 p2 s2"
  by (simp add: same_links_def)

definition keeps_regions :: "region set \<Rightarrow> memory \<Rightarrow> memory \<Rightarrow> bool" where
  "keeps_regions R m m' \<longleftrightarrow> (\<forall>a. covered R a \<longrightarrow> m' a = m a)"

lemma keeps_regions_refl [simp]: "keeps_regions R m m"
  by (simp add: keeps_regions_def)

lemma keeps_regions_trans: "keeps_regions R m m1 \<Longrightarrow> keeps_regions R m1 m2 \<Longrightarrow> keeps_regions R m m2"
  by (simp add: keeps_regions_def)

lemma covered_Un [simp]: "covered (R \<union> Q) a \<longleftrightarrow> covered R a \<or> covered Q a"
  by (auto simp: covered_def)

lemma keeps_regions_Un [simp]: "keeps_regions (R \<union> Q) m m' \<longleftrightarrow> keeps_regions R m m' \<and> keeps_regions Q m m'"
  by (auto simp: keeps_regions_def)

lemma pool_page_covered:
  assumes "segs_ok (seg_list st)" "x \<in> pool_pages st" "x \<le> a" "a < x + SLAB_SIZE"
  shows "covered (seg_regions st) a"
proof -
  obtain b where b: "b \<in> set (seg_list st)" "x \<in> seg_pages b" using assms(2) by (auto simp: pool_pages_def)
  then obtain k where "x = b + k * SLAB_SIZE" "k < SLABS_PER_SEGMENT" by (auto simp: seg_pages_def)
  then have "in_region (b, SEGMENT_SIZE) a" using assms(3,4) by (simp add: in_region_def geom_simps)
  then show ?thesis using b(1) by (auto simp: covered_def seg_regions_def)
qed

lemma keeps_regions_keeps:
  assumes "segs_ok (seg_list st)" "keeps_regions (seg_regions st) m m'" "H \<subseteq> pool_pages st"
  shows "keeps H m m'"
  using assms pool_page_covered [OF assms(1)] unfolding keeps_def keeps_regions_def by blast

lemma pool_ok_mem:
  assumes P: "pool_ok m st dl cl H" and k: "keeps_regions (seg_regions st) m m'"
  shows "pool_ok m' st dl cl H"
proof -
  note D = pool_okD [OF P]
  have "page_list (m', dirty_list st) dl" "page_list (m', clean_list st) cl"
    using keeps_list [OF D(4) keeps_regions_keeps [OF D(1) k D(8)]]
      keeps_list [OF D(5) keeps_regions_keeps [OF D(1) k D(9)]] by simp_all
  then show ?thesis using P by (simp add: pool_ok_def)
qed

text \<open>Changes to pages of the pool do not reach the large allocations.\<close>

lemma touches_regions:
  assumes "touches X m m'" "X \<subseteq> pool_pages st" "segs_ok (seg_list st)"
    "\<forall>r \<in> R. \<forall>q \<in> seg_regions st. disjoint_regions r q"
  shows "keeps_regions R m m'"
  unfolding keeps_regions_def
proof (intro allI impI)
  fix a assume "covered R a"
  then obtain r where r: "r \<in> R" "in_region r a" by (auto simp: covered_def)
  have "a < x \<or> x + SLAB_SIZE \<le> a" if x: "x \<in> X" for x
  proof (rule ccontr)
    assume "\<not> (a < x \<or> x + SLAB_SIZE \<le> a)"
    then have "covered (seg_regions st) a" using pool_page_covered [OF assms(3), of x a] x assms(2) by auto
    then show False using r assms(4) by (fastforce simp: covered_def in_region_def disjoint_regions_def)
  qed
  then show "m' a = m a" using assms(1) by (simp add: touches_def)
qed

lemma pool_invD:
  assumes "pool_inv owns pool m R H"
  obtains dl cl where "pool_ok m (state pool) dl cl H" "segs_ok (seg_list (state pool))" "H \<subseteq> pool_pages (state pool)"
    "owns (page_alloc pool) (R \<union> seg_regions (state pool))" "\<forall>r \<in> R. \<forall>q \<in> seg_regions (state pool). disjoint_regions r q"
  using assms pool_okD(1,7) unfolding pool_inv_def by blast

lemma segment_layout_ok: "layout_ok segment_layout" "0 < lsize segment_layout" "lsize segment_layout = SEGMENT_SIZE"
    "lalign segment_layout = SLAB_SIZE"
proof -
  have "SLAB_SIZE = 2 ^ 16" "(16 :: nat) < 64" by (simp_all add: SLAB_SIZE_def)
  then show "layout_ok segment_layout"
    unfolding layout_ok_def segment_layout_def by (auto simp: next_multiple_of_def geom_simps intro!: exI [of _ 16])
qed (simp_all add: segment_layout_def geom_simps)

lemma page_base_ok: "page_ok x \<Longrightarrow> base_ok x"
proof -
  assume x: "page_ok x"
  then obtain i where i: "x = 65536 * i" by (auto simp: page_ok_def SLAB_SIZE_def dvd_def)
  have "x < 2 ^ 64" using x by (simp add: page_ok_def)
  then have "i < 2 ^ 48" using i by simp
  then have "x + 65536 \<le> 2 ^ 64" using i by simp
  then show ?thesis using x by (simp add: base_ok_def page_ok_def geom_simps)
qed

subsection \<open>The phases of the operations\<close>

text \<open>
  Each operation is a sequence of critical sections and of calls of the page allocator outside the
  lock. One lemma per phase says what it keeps of the invariant; the operations below and the
  interleavings of \<open>Pool_Threads\<close> are composed of them. Between two phases the set \<open>R\<close> also holds
  the segment that is mapped but not yet entered in the table, or removed but not yet unmapped.
\<close>

lemma pool_inv_state:
  assumes "pool_inv owns pool m R H" "pool_ok m' st dl cl H'" "seg_regions st = seg_regions (state pool)"
  shows "pool_inv owns (pool\<lparr>state := st\<rparr>) m' R H'"
  using assms by (auto simp: pool_inv_def)

lemma pool_inv_pages:
  assumes I: "pool_inv owns pool m R H" and own: "owns pa (Q \<union> seg_regions (state pool))"
    and k: "keeps_regions (seg_regions (state pool)) m m'"
    and Q: "\<forall>r \<in> Q. \<forall>q \<in> seg_regions (state pool). disjoint_regions r q"
  shows "pool_inv owns (pool\<lparr>page_alloc := pa\<rparr>) m' Q H" "keeps H m m'"
proof -
  obtain dl cl where P: "pool_ok m (state pool) dl cl H" using I by (auto simp: pool_inv_def)
  show "pool_inv owns (pool\<lparr>page_alloc := pa\<rparr>) m' Q H"
    using pool_ok_mem [OF P k] own Q by (auto simp: pool_inv_def)
  show "keeps H m m'" using keeps_regions_keeps [OF pool_okD(1) [OF P] k pool_okD(7) [OF P]] .
qed

lemma disjoint_regions_sym: "disjoint_regions r q \<longleftrightarrow> disjoint_regions q r"
  by (auto simp: disjoint_regions_def)

lemma disjoint_not_mem: "\<forall>q \<in> R. disjoint_regions (b, SEGMENT_SIZE) q \<Longrightarrow> (b, SEGMENT_SIZE) \<notin> R"
  by (auto simp: disjoint_regions_def geom_simps)

lemma disjoint_keeps_regions:
  assumes "\<forall>a. \<not> in_segment b a \<longrightarrow> m' a = m a" "\<forall>q \<in> R. disjoint_regions (b, SEGMENT_SIZE) q"
  shows "keeps_regions R m m'"
  unfolding keeps_regions_def
proof (intro allI impI)
  fix a assume "covered R a"
  then obtain q where "q \<in> R" "in_region q a" unfolding covered_def by blast
  then have "\<not> in_segment b a" using assms(2) by (fastforce simp: in_region_def in_segment_def disjoint_regions_def)
  then show "m' a = m a" using assms(1) by blast
qed

lemma take_phase:
  assumes I: "pool_inv owns pool m R H"
  shows "\<exists>r st. alloc_slab_locked m (state pool) = Some (r, st) \<and>
    (case r of None \<Rightarrow> pool_inv owns (pool\<lparr>state := st\<rparr>) m R H
     | Some x \<Rightarrow> x \<notin> H \<and> base_ok x \<and> pool_inv owns (pool\<lparr>state := st\<rparr>) m R (insert x H))"
proof -
  obtain dl cl where P: "pool_ok m (state pool) dl cl H" and segs: "segs_ok (seg_list (state pool))"
    using I by (rule pool_invD)
  have reg: "seg_list st = seg_list (state pool) \<Longrightarrow> seg_regions st = seg_regions (state pool)" for st
    by (simp add: seg_regions_def)
  from alloc_slab_locked_ok [OF P] show ?thesis
  proof (elim disjE exE conjE)
    fix x st dl' cl'
    assume a: "alloc_slab_locked m (state pool) = Some (Some x, st)" "x \<in> pool_pages (state pool)" "x \<notin> H"
      "pool_ok m st dl' cl' (insert x H)" "seg_list st = seg_list (state pool)"
    have "base_ok x" using pool_page_ok [OF segs a(2)] by (rule page_base_ok)
    then show ?thesis using a(1,3) pool_inv_state [OF I a(4) reg [OF a(5)]] by simp
  next
    fix st assume "alloc_slab_locked m (state pool) = Some (None, st)" "pool_ok m st [] [] H" "seg_list st = seg_list (state pool)"
    then show ?thesis using pool_inv_state [OF I _ reg] by fastforce
  qed
qed

lemma install_phase:
  assumes I: "pool_inv owns pool m (insert (b, SEGMENT_SIZE) R) H" and b: "seg_base_ok b"
    and R: "\<forall>q \<in> R. disjoint_regions (b, SEGMENT_SIZE) q"
  shows "\<exists>ok m' st. install_segment b m (state pool) = (ok, m', st) \<and> keeps H m m' \<and> keeps_regions R m m' \<and>
    (if ok then b \<notin> H \<and> base_ok b \<and> pool_inv owns (pool\<lparr>state := st\<rparr>) m' R (insert b H)
     else m' = m \<and> pool_inv owns (pool\<lparr>state := st\<rparr>) m (insert (b, SEGMENT_SIZE) R) H)"
proof -
  obtain dl cl where P: "pool_ok m (state pool) dl cl H" and segs: "segs_ok (seg_list (state pool))"
    and Hp: "H \<subseteq> pool_pages (state pool)" and own: "owns (page_alloc pool) (insert (b, SEGMENT_SIZE) R \<union> seg_regions (state pool))"
    and dis: "\<forall>r \<in> insert (b, SEGMENT_SIZE) R. \<forall>q \<in> seg_regions (state pool). disjoint_regions r q"
    using I by (rule pool_invD)
  have fresh: "fresh_segment b (state pool)" using b dis unfolding fresh_segment_def seg_regions_def by auto
  show ?thesis
  proof (cases "segment_count (state pool) < MAX_SEGMENTS")
    case True
    obtain m' st dl' cl' where i: "install_segment b m (state pool) = (True, m', st)"
        "pool_ok m' st dl' cl' (insert b H)" "seg_list st = seg_list (state pool) @ [b]" "b \<notin> H"
        "\<forall>a. \<not> in_segment b a \<longrightarrow> m' a = m a"
      using install_segment_ok [OF P fresh True] by blast
    have "keeps_regions (R \<union> seg_regions (state pool)) m m'"
      using R dis by (intro disjoint_keeps_regions [OF i(5)]) blast
    then have k: "keeps_regions R m m'" "keeps H m m'" using keeps_regions_keeps [OF segs _ Hp] by simp_all
    have "seg_regions st = insert (b, SEGMENT_SIZE) (seg_regions (state pool))" using i(3) by (simp add: seg_regions_def)
    then have "pool_inv owns (pool\<lparr>state := st\<rparr>) m' R (insert b H)"
      using i(2) own dis R disjoint_regions_sym by (auto simp: pool_inv_def)
    moreover have "base_ok b" using seg_page_ok [OF b seg_base_in] by (rule page_base_ok)
    ultimately show ?thesis using i(1,4) k by (intro exI [of _ True] exI [of _ m'] exI [of _ st]) simp
  next
    case False
    define st where "st = (count_lock (state pool))\<lparr>metrics := metrics (count_lock (state pool))\<lparr>segment_mmap_count :=
               segment_mmap_count (metrics (state pool)) + 1\<rparr>\<rparr>"
    have "install_segment b m (state pool) = (False, m, st)"
      using False by (simp add: install_segment_def st_def Let_def)
    moreover have "pool_inv owns (pool\<lparr>state := st\<rparr>) m (insert (b, SEGMENT_SIZE) R) H"
      using P by (intro pool_inv_state [OF I]) (simp_all add: st_def seg_regions_def)
    ultimately show ?thesis by (intro exI [of _ False] exI [of _ m] exI [of _ st]) simp
  qed
qed

lemma give_phase:
  assumes I: "pool_inv owns pool m R H" and x: "x \<in> H"
  shows "\<exists>act m' st. dealloc_slab_locked x m (state pool) = Some (act, m', st) \<and> keeps (H - {x}) m m' \<and>
    keeps_regions R m m' \<and>
    (case act of
       Release b \<Rightarrow> (\<forall>q \<in> R. disjoint_regions (b, SEGMENT_SIZE) q) \<and>
         pool_inv owns (pool\<lparr>state := st\<rparr>) m' (insert (b, SEGMENT_SIZE) R) (H - {x})
     | _ \<Rightarrow> pool_inv owns (pool\<lparr>state := st\<rparr>) m' R (H - {x}))"
proof -
  obtain dl cl where P: "pool_ok m (state pool) dl cl H" and segs: "segs_ok (seg_list (state pool))"
    and Hp: "H \<subseteq> pool_pages (state pool)" and own: "owns (page_alloc pool) (R \<union> seg_regions (state pool))"
    and dis: "\<forall>r \<in> R. \<forall>q \<in> seg_regions (state pool). disjoint_regions r q"
    using I by (rule pool_invD)
  obtain act m' st dl' cl' where d: "dealloc_slab_locked x m (state pool) = Some (act, m', st)"
      "pool_ok m' st dl' cl' (H - {x})" "touches (pool_pages (state pool) - (H - {x})) m m'"
      "set (seg_list st) = segs_after act (state pool)" 
      "\<forall>b. act = Release b \<longleftrightarrow> b \<in> set (seg_list (state pool)) \<and> H \<inter> seg_pages b = {x} \<and>
         \<not> in_segment b (segment_cursor (state pool))"
    using dealloc_slab_locked_ok [OF P x] by (elim exE conjE)
  have k: "keeps (H - {x}) m m'"
    using pool_page_ok [OF segs] Hp by (intro touches_keeps [OF d(3)]) auto
  have kr: "keeps_regions R m m'" using touches_regions [OF d(3) _ segs dis] by blast
  have "pool_inv owns (pool\<lparr>state := st\<rparr>) m' R (H - {x})" if "\<forall>b. act \<noteq> Release b"
    using that d(4) by (intro pool_inv_state [OF I d(2)]) (simp add: seg_regions_def segs_after_def split: dealloc_action.splits)
  moreover have "(\<forall>q \<in> R. disjoint_regions (b, SEGMENT_SIZE) q) \<and>
      pool_inv owns (pool\<lparr>state := st\<rparr>) m' (insert (b, SEGMENT_SIZE) R) (H - {x})" if a: "act = Release b" for b
  proof -
    have b: "b \<in> set (seg_list (state pool))" using d(5) a by blast
    have sr: "seg_regions (state pool) = insert (b, SEGMENT_SIZE) (seg_regions st)"
        "\<forall>q \<in> seg_regions st. disjoint_regions (b, SEGMENT_SIZE) q"
      using b d(4) a segs by (auto simp: seg_regions_def segs_after_def segs_ok_def)
    then show ?thesis using d(2) own dis disjoint_regions_sym by (auto simp: pool_inv_def)
  qed
  ultimately show ?thesis using d(1) k kr by (cases act) simp_all
qed

lemma purge_take_phase:
  assumes I: "pool_inv owns pool m R H"
  shows "\<exists>buf st. purge_take m (state pool) = Some (buf, st) \<and> distinct buf \<and> set buf \<inter> H = {} \<and>
    pool_inv owns (pool\<lparr>state := st\<rparr>) m R (H \<union> set buf)"
proof -
  obtain dl cl where "pool_ok m (state pool) dl cl H" using I by (rule pool_invD)
  then have "pool_ok m (count_lock (state pool)) dl cl H" by simp
  from purge_take_loop_ok [OF this, of PURGE_BATCH] obtain buf st dl1
    where t: "purge_take m (state pool) = Some (buf, st)" "pool_ok m st dl1 cl (H \<union> set buf)"
      "distinct buf" "set buf \<inter> H = {}" "seg_list st = seg_list (state pool)"
    unfolding purge_take_def by auto
  have "seg_regions st = seg_regions (state pool)" using t(5) by (simp add: seg_regions_def)
  then show ?thesis using t pool_inv_state [OF I t(2)] by blast
qed

lemma held_pages_change:
  assumes I: "pool_inv owns pool m R H" and t: "touches X m m'" and X: "X \<subseteq> H"
  shows "pool_inv owns pool m' R H" "keeps (H - X) m m'" "keeps_regions R m m'"
proof -
  obtain dl cl where P: "pool_ok m (state pool) dl cl H" and segs: "segs_ok (seg_list (state pool))"
    and Hp: "H \<subseteq> pool_pages (state pool)"
    and dis: "\<forall>r \<in> R. \<forall>q \<in> seg_regions (state pool). disjoint_regions r q"
    using I by (rule pool_invD)
  note D = pool_okD [OF P]
  have ok: "\<forall>x \<in> X. page_ok x" "\<forall>x \<in> H. page_ok x" "\<forall>x \<in> set (dl @ cl). page_ok x"
    using pool_page_ok [OF segs] X Hp D(8,9) by auto
  then show "keeps (H - X) m m'" by (intro touches_keeps [OF t]) auto
  show "keeps_regions R m m'" using touches_regions [OF t _ segs dis] X Hp by blast
  have "X \<inter> set (dl @ cl) = {}" using pool_ok_parts(1) [OF P] X by blast
  then have kl: "keeps (set (dl @ cl)) m m'" using ok by (intro touches_keeps [OF t])
  have "pool_ok m' (state pool) dl cl H"
    using P keeps_list [OF D(4) kl] keeps_list [OF D(5) kl] by (simp add: pool_ok_def)
  then show "pool_inv owns pool m' R H" using I by (auto simp: pool_inv_def)
qed

lemma purge_put_phase:
  assumes I: "pool_inv owns pool m R H" and buf: "distinct buf" "set buf \<subseteq> H"
  shows "\<exists>m' st. purge_put buf m (state pool) = Some (m', st) \<and> keeps (H - set buf) m m' \<and> keeps_regions R m m' \<and>
    pool_inv owns (pool\<lparr>state := st\<rparr>) m' R (H - set buf)"
proof -
  obtain dl cl where P: "pool_ok m (state pool) dl cl H" using I by (rule pool_invD)
  let ?st = "(count_lock (state pool))\<lparr>metrics := metrics (count_lock (state pool))\<lparr>slab_purge_count :=
       slab_purge_count (metrics (count_lock (state pool))) + of_nat (length buf)\<rparr>\<rparr>"
  have "pool_ok m ?st dl cl H" using P by simp
  from purge_put_loop_ok [OF this buf] obtain m' st cl'
    where u: "purge_put buf m (state pool) = Some (m', st)" "pool_ok m' st dl cl' (H - set buf)"
      "touches (set buf) m m'" "seg_list st = seg_list (state pool)"
    unfolding purge_put_def Let_def by auto
  have "seg_regions st = seg_regions (state pool)" using u(4) by (simp add: seg_regions_def)
  then show ?thesis using u pool_inv_state [OF I u(2)] held_pages_change(2,3) [OF I u(3) buf(2)] by blast
qed

context page_allocator
begin

lemma map_phase:
  assumes I: "pool_inv owns pool m R H" and al: "pa_alloc A segment_layout (page_alloc pool, m) = (r, pa, m')"
  shows "keeps H m m'" "keeps_regions R m m'"
    "case r of None \<Rightarrow> pool_inv owns (pool\<lparr>page_alloc := pa\<rparr>) m' R H
     | Some b \<Rightarrow> seg_base_ok b \<and> (\<forall>q \<in> R. disjoint_regions (b, SEGMENT_SIZE) q) \<and>
         pool_inv owns (pool\<lparr>page_alloc := pa\<rparr>) m' (insert (b, SEGMENT_SIZE) R) H"
proof -
  obtain dl cl where segs: "segs_ok (seg_list (state pool))" and Hp: "H \<subseteq> pool_pages (state pool)"
    and own: "owns (page_alloc pool) (R \<union> seg_regions (state pool))"
    and dis: "\<forall>r \<in> R. \<forall>q \<in> seg_regions (state pool). disjoint_regions r q"
    using I by (rule pool_invD)
  have kr: "keeps_regions R m m'" "keeps_regions (seg_regions (state pool)) m m'"
    using alloc_keeps [OF own segment_layout_ok(1,2) al] unfolding keeps_regions_def by simp_all
  show "keeps_regions R m m'" "keeps H m m'" using kr keeps_regions_keeps [OF segs _ Hp] by blast+
  show "case r of None \<Rightarrow> pool_inv owns (pool\<lparr>page_alloc := pa\<rparr>) m' R H
     | Some b \<Rightarrow> seg_base_ok b \<and> (\<forall>q \<in> R. disjoint_regions (b, SEGMENT_SIZE) q) \<and>
         pool_inv owns (pool\<lparr>page_alloc := pa\<rparr>) m' (insert (b, SEGMENT_SIZE) R) H"
  proof (cases r)
    case None
    have "owns pa (R \<union> seg_regions (state pool))" using alloc_fail [OF own segment_layout_ok(1,2)] al None by blast
    then show ?thesis using pool_inv_pages(1) [OF I _ kr(2) dis] None by simp
  next
    case (Some b)
    note N = alloc_ok [OF own segment_layout_ok(1,2) al [unfolded Some], unfolded segment_layout_ok(3,4)]
    have "owns pa (insert (b, SEGMENT_SIZE) R \<union> seg_regions (state pool))" using N by simp
    then have "pool_inv owns (pool\<lparr>page_alloc := pa\<rparr>) m' (insert (b, SEGMENT_SIZE) R) H"
      using N dis by (intro pool_inv_pages(1) [OF I _ kr(2)]) auto
    then show ?thesis using N Some by (simp add: seg_base_ok_def)
  qed
qed

lemma unmap_phase:
  assumes I: "pool_inv owns pool m (insert (b, SEGMENT_SIZE) R) H" and R: "\<forall>q \<in> R. disjoint_regions (b, SEGMENT_SIZE) q"
    and de: "pa_dealloc A b segment_layout (page_alloc pool, m) = (pa, m')"
  shows "keeps H m m'" "keeps_regions R m m'" "pool_inv owns (pool\<lparr>page_alloc := pa\<rparr>) m' R H"
proof -
  obtain dl cl where own: "owns (page_alloc pool) (insert (b, SEGMENT_SIZE) R \<union> seg_regions (state pool))"
    and dis: "\<forall>r \<in> insert (b, SEGMENT_SIZE) R. \<forall>q \<in> seg_regions (state pool). disjoint_regions r q"
    using I by (rule pool_invD)
  have "(b, SEGMENT_SIZE) \<notin> R \<union> seg_regions (state pool)" using R dis by (intro disjoint_not_mem) blast
  then have e: "insert (b, SEGMENT_SIZE) R \<union> seg_regions (state pool) - {(b, SEGMENT_SIZE)} = R \<union> seg_regions (state pool)"
    by blast
  note M = dealloc_ok [OF own _ de, unfolded segment_layout_ok(3) e]
  have k: "keeps_regions R m m'" "keeps_regions (seg_regions (state pool)) m m'" using M by (auto simp: keeps_regions_def)
  show "keeps_regions R m m'" by (rule k(1))
  have "owns pa (R \<union> seg_regions (state pool))" using M by blast
  then show "keeps H m m'" "pool_inv owns (pool\<lparr>page_alloc := pa\<rparr>) m' R H"
    using pool_inv_pages [OF I _ k(2)] dis by blast+
qed

lemma held_page_aligned: "pool_inv owns pool m R H \<Longrightarrow> x \<in> H \<Longrightarrow> PAGE dvd x"
proof (rule dvd_trans)
  assume I: "pool_inv owns pool m R H" and x: "x \<in> H"
  show "SLAB_SIZE dvd x" using I pool_page_ok x by (auto elim!: pool_invD simp: page_ok_def)
qed (simp add: geom_simps)

lemma purge_phase:
  assumes I: "pool_inv owns pool m R H" and x: "x \<in> H" and pu: "pa_purge A x SLAB_SIZE (page_alloc pool, m) = (pa, m')"
  shows "keeps (H - {x}) m m'" "keeps_regions R m m'" "pool_inv owns (pool\<lparr>page_alloc := pa\<rparr>) m' R H"
proof -
  have own: "owns (page_alloc pool) (R \<union> seg_regions (state pool))" using I by (simp add: pool_inv_def)
  have pg: "PAGE dvd x" "PAGE dvd SLAB_SIZE" using held_page_aligned [OF I x] by (simp_all add: geom_simps)
  note P = purge_ok [OF own pg pu]
  have t: "touches {x} m m'" using P by (auto simp: touches_def in_region_def)
  note C = held_pages_change [OF I t]
  show "keeps (H - {x}) m m'" "keeps_regions R m m'" using C x by auto
  have "pool_inv owns pool m' R H" using C(1) x by simp
  then show "pool_inv owns (pool\<lparr>page_alloc := pa\<rparr>) m' R H" using P by (auto simp: pool_inv_def)
qed

text \<open>The operations.\<close>

lemma alloc_slab_slow_ok:
  assumes I: "pool_inv owns pool (bytes s) R H"
  shows "\<exists>r pool' s'. alloc_slab_slow A pool s = (r, pool', s') \<and> same_links pool s pool' s' \<and>
    keeps H (bytes s) (bytes s') \<and> keeps_regions R (bytes s) (bytes s') \<and>
    (case r of None \<Rightarrow> pool_inv owns pool' (bytes s') R H
     | Some x \<Rightarrow> x \<notin> H \<and> base_ok x \<and> pool_inv owns pool' (bytes s') R (insert x H))"
proof -
  obtain r pa m where al: "pa_alloc A segment_layout (page_alloc pool, bytes s) = (r, pa, m)" by (metis surj_pair)
  note M = map_phase [OF I al]
  show ?thesis
  proof (cases r)
    case None
    then show ?thesis using al M by (simp add: alloc_slab_slow_def same_links_def)
  next
    case (Some base)
    then have b: "seg_base_ok base" "\<forall>q \<in> R. disjoint_regions (base, SEGMENT_SIZE) q"
        "pool_inv owns (pool\<lparr>page_alloc := pa\<rparr>) m (insert (base, SEGMENT_SIZE) R) H" using M(3) by simp_all
    obtain ok m1 st where i: "install_segment base m (state pool) = (ok, m1, st)" "keeps H m m1" "keeps_regions R m m1"
        "if ok then base \<notin> H \<and> base_ok base \<and> pool_inv owns (pool\<lparr>page_alloc := pa, state := st\<rparr>) m1 R (insert base H)
         else m1 = m \<and> pool_inv owns (pool\<lparr>page_alloc := pa, state := st\<rparr>) m (insert (base, SEGMENT_SIZE) R) H"
      using install_phase [OF b(3,1,2)] by auto
    have k: "keeps H (bytes s) m1" "keeps_regions R (bytes s) m1"
      using M(1,2) i(2,3) keeps_trans keeps_regions_trans by blast+
    show ?thesis
    proof (cases ok)
      case True
      then show ?thesis using al Some i k by (simp add: alloc_slab_slow_def same_links_def)
    next
      case False
      obtain pa2 m2 where de: "pa_dealloc A base segment_layout (pa, m1) = (pa2, m2)" by fastforce
      have J: "pool_inv owns (pool\<lparr>page_alloc := pa, state := st\<rparr>) m1 (insert (base, SEGMENT_SIZE) R) H"
        using i(4) False by simp
      have U: "keeps H m1 m2" "keeps_regions R m1 m2" "pool_inv owns (pool\<lparr>page_alloc := pa2, state := st\<rparr>) m2 R H"
        using unmap_phase [OF J b(2), of pa2 m2] de by (simp_all add: pool_inv_def)
      then have "keeps H (bytes s) m2" "keeps_regions R (bytes s) m2"
        using k keeps_trans keeps_regions_trans by blast+
      then show ?thesis using al Some i(1) False de U(3) by (simp add: alloc_slab_slow_def same_links_def)
    qed
  qed
qed

lemma alloc_slab_ok:
  assumes I: "pool_inv owns pool (bytes s) R H"
  shows "\<exists>r pool' s'. alloc_slab A pool s = Some (r, pool', s') \<and> same_links pool s pool' s' \<and>
    keeps H (bytes s) (bytes s') \<and> keeps_regions R (bytes s) (bytes s') \<and>
    (case r of None \<Rightarrow> pool_inv owns pool' (bytes s') R H
     | Some x \<Rightarrow> x \<notin> H \<and> base_ok x \<and> pool_inv owns pool' (bytes s') R (insert x H))"
proof -
  obtain r st where t: "alloc_slab_locked (bytes s) (state pool) = Some (r, st)"
      "case r of None \<Rightarrow> pool_inv owns (pool\<lparr>state := st\<rparr>) (bytes s) R H
       | Some x \<Rightarrow> x \<notin> H \<and> base_ok x \<and> pool_inv owns (pool\<lparr>state := st\<rparr>) (bytes s) R (insert x H)"
    using take_phase [OF I] by blast
  show ?thesis
  proof (cases r)
    case None
    then have "pool_inv owns (pool\<lparr>state := st\<rparr>) (bytes s) R H" using t(2) by simp
    from alloc_slab_slow_ok [OF this] show ?thesis using t(1) None by (auto simp: alloc_slab_def same_links_def)
  qed (use t in \<open>simp add: alloc_slab_def same_links_def\<close>)
qed

lemma purge_pages_ok:
  assumes "owns p R" "purge_pages A buf (p, m) = (p', m')" "\<forall>x \<in> set buf. PAGE dvd x"
  shows "owns p' R \<and> touches (set buf) m m'"
  using assms
proof (induction buf arbitrary: p m)
  case Nil
  then show ?case by (simp add: purge_pages_def)
next
  case (Cons x buf)
  obtain p1 m1 where x: "pa_purge A x SLAB_SIZE (p, m) = (p1, m1)" by fastforce
  have "owns p1 R" "touches {x} m m1"
    using purge_ok [OF Cons.prems(1) _ _ x] Cons.prems(3) by (auto simp: touches_def in_region_def geom_simps)
  moreover from this have "owns p' R \<and> touches (set buf) m1 m'"
    using Cons.IH Cons.prems(2,3) x by (simp add: purge_pages_def)
  ultimately show ?case
    using touches_trans [OF touches_mono touches_mono, of "{x}" m m1 "set (x # buf)" "set buf" m'] by auto
qed

lemma purge_excess_ok:
  assumes I: "pool_inv owns pool (bytes s) R H"
  shows "\<exists>pool' s'. purge_excess A pool s = Some (pool', s') \<and> same_links pool s pool' s' \<and>
    keeps H (bytes s) (bytes s') \<and> keeps_regions R (bytes s) (bytes s') \<and> pool_inv owns pool' (bytes s') R H"
proof -
  obtain buf st1 where t: "purge_take (bytes s) (state pool) = Some (buf, st1)" "distinct buf" "set buf \<inter> H = {}"
      "pool_inv owns (pool\<lparr>state := st1\<rparr>) (bytes s) R (H \<union> set buf)"
    using purge_take_phase [OF I] by blast
  obtain pa m1 where pu: "purge_pages A buf (page_alloc pool, bytes s) = (pa, m1)" by fastforce
  have own: "owns (page_alloc pool) (R \<union> seg_regions st1)" using t(4) by (simp add: pool_inv_def)
  have "\<forall>x \<in> set buf. PAGE dvd x" using held_page_aligned [OF t(4)] by blast
  note U = purge_pages_ok [OF own pu this]
  have C: "pool_inv owns (pool\<lparr>state := st1\<rparr>) m1 R (H \<union> set buf)" "keeps H (bytes s) m1" "keeps_regions R (bytes s) m1"
    using held_pages_change [OF t(4), of "set buf" m1] U keeps_mono [of "H \<union> set buf - set buf"] t(3) by blast+
  have "pool_inv owns (pool\<lparr>page_alloc := pa, state := st1\<rparr>) m1 R (H \<union> set buf)"
    using C(1) U by (auto simp: pool_inv_def)
  from purge_put_phase [OF this t(2)] obtain m2 st2
    where u: "purge_put buf m1 st1 = Some (m2, st2)" "keeps (H \<union> set buf - set buf) m1 m2" "keeps_regions R m1 m2"
      "pool_inv owns (pool\<lparr>page_alloc := pa, state := st2\<rparr>) m2 R (H \<union> set buf - set buf)" by auto
  have e: "H \<union> set buf - set buf = H" using t(3) by blast
  have "keeps H (bytes s) m2" "keeps_regions R (bytes s) m2"
    using C(2,3) u(2,3) keeps_trans keeps_regions_trans unfolding e by blast+
  moreover have "purge_excess A pool s = Some (pool\<lparr>page_alloc := pa, state := st2\<rparr>, s\<lparr>bytes := m2\<rparr>)"
    using t(1) pu u(1) by (simp add: purge_excess_def)
  ultimately show ?thesis using u(4) e by (simp add: same_links_def)
qed

lemma dealloc_slab_ok:
  assumes I: "pool_inv owns pool (bytes s) R H" and x: "x \<in> H"
  shows "\<exists>pool' s'. dealloc_slab A x pool s = Some (pool', s') \<and> same_links pool s pool' s' \<and>
    keeps (H - {x}) (bytes s) (bytes s') \<and> keeps_regions R (bytes s) (bytes s') \<and>
    pool_inv owns pool' (bytes s') R (H - {x})"
proof -
  obtain act m1 st where d: "dealloc_slab_locked x (bytes s) (state pool) = Some (act, m1, st)"
      "keeps (H - {x}) (bytes s) m1" "keeps_regions R (bytes s) m1"
      "case act of Release b \<Rightarrow> (\<forall>q \<in> R. disjoint_regions (b, SEGMENT_SIZE) q) \<and>
         pool_inv owns (pool\<lparr>state := st\<rparr>) m1 (insert (b, SEGMENT_SIZE) R) (H - {x})
       | _ \<Rightarrow> pool_inv owns (pool\<lparr>state := st\<rparr>) m1 R (H - {x})"
    using give_phase [OF I x] by (elim exE conjE)
  show ?thesis
  proof (cases act)
    case Done
    then show ?thesis using d by (simp add: dealloc_slab_def same_links_def)
  next
    case Purge
    then have "pool_inv owns (pool\<lparr>state := st\<rparr>) (bytes (s\<lparr>bytes := m1\<rparr>)) R (H - {x})" using d(4) by simp
    from purge_excess_ok [OF this] obtain pool' s' where p: "purge_excess A (pool\<lparr>state := st\<rparr>) (s\<lparr>bytes := m1\<rparr>) = Some (pool', s')"
        "same_links (pool\<lparr>state := st\<rparr>) (s\<lparr>bytes := m1\<rparr>) pool' s'" "keeps (H - {x}) m1 (bytes s')"
        "keeps_regions R m1 (bytes s')" "pool_inv owns pool' (bytes s') R (H - {x})" by auto
    have "keeps (H - {x}) (bytes s) (bytes s')" "keeps_regions R (bytes s) (bytes s')"
      using d(2,3) p(3,4) keeps_trans keeps_regions_trans by blast+
    then show ?thesis using d(1) Purge p by (auto simp: dealloc_slab_def same_links_def)
  next
    case (Release b)
    obtain pa m2 where de: "pa_dealloc A b segment_layout (page_alloc pool, m1) = (pa, m2)" by fastforce
    have R: "\<forall>q \<in> R. disjoint_regions (b, SEGMENT_SIZE) q"
      and J: "pool_inv owns (pool\<lparr>state := st\<rparr>) m1 (insert (b, SEGMENT_SIZE) R) (H - {x})" using d(4) Release by simp_all
    have U: "keeps (H - {x}) m1 m2" "keeps_regions R m1 m2" "pool_inv owns (pool\<lparr>page_alloc := pa, state := st\<rparr>) m2 R (H - {x})"
      using unmap_phase [OF J R, of pa m2] de by (simp_all add: pool_inv_def)
    then have "keeps (H - {x}) (bytes s) m2" "keeps_regions R (bytes s) m2"
      using d(2,3) keeps_trans keeps_regions_trans by blast+
    then show ?thesis using d(1) Release de U(3) by (simp add: dealloc_slab_def same_links_def)
  qed
qed

end

lemma PagePool_new_inv: "owns pa {} \<Longrightarrow> pool_inv owns (PagePool_new pa) m {} {}"
proof -
  assume "owns pa {}"
  moreover have "pool_ok m (state (PagePool_new pa)) [] [] {}"
    by (auto simp: pool_ok_def PagePool_new_def segs_ok_def seg_list_def carve_ok_def counts_ok_def uncarved_def
        pool_pages_def page_list_def PageFreeList_EMPTY_def)
  moreover have "seg_regions (state (PagePool_new pa)) = {}"
    by (simp add: seg_regions_def seg_list_def PagePool_new_def)
  ultimately show ?thesis by (auto simp: pool_inv_def PagePool_new_def)
qed

subsection \<open>Properties\<close>

text \<open>
  C29. Allocating a slab page, over any page allocator that meets the contract: the operation never
  panics; a page it returns is slab-aligned, non-null and not held by anybody, and it is then held
  exactly once; when the page allocator has no memory or the segment table is full the pool is
  unchanged in what it holds. Pages held by others and large allocations keep their contents.
\<close>

theorem alloc_slab_fresh:
  assumes "page_allocator A owns" and "pool_inv owns pool (bytes s) R held"
  shows "\<exists>r pool' s'. alloc_slab A pool s = Some (r, pool', s') \<and> keeps held (bytes s) (bytes s') \<and>
    keeps_regions R (bytes s) (bytes s') \<and>
    (case r of None \<Rightarrow> pool_inv owns pool' (bytes s') R held
     | Some x \<Rightarrow> x \<notin> held \<and> base_ok x \<and> pool_inv owns pool' (bytes s') R (insert x held))"
  using page_allocator.alloc_slab_ok [OF assms] by blast

abbreviation bump_pages :: "bump_kernel PageAllocator" where
  "bump_pages \<equiv> MmapAllocator bump_vm"

lemma bump_contract: "page_allocator bump_pages (owns_pages fst)"
  by (rule bump.mmap_contract)

definition bump_pool :: "bump_kernel PagePool" where
  "bump_pool = PagePool_new ({}, 16)"

lemma bump_pool_inv: "pool_inv (owns_pages fst) bump_pool (bytes zero_store) {} {}"
  unfolding bump_pool_def by (rule PagePool_new_inv) (simp add: owns_pages_def)

lemma bump_alloc: "\<exists>pool s. alloc_slab bump_pages bump_pool zero_store = Some (Some 65536, pool, s)"
proof -
  have al: "align_up 65536 65536 = 65536" using align_up_eq [of 65536 16] by simp
  show ?thesis
    by (simp add: alloc_slab_def alloc_slab_locked_def bump_pool_def PagePool_new_def page_pop_def PageFreeList_EMPTY_def
        count_lock_def alloc_slab_slow_def MmapAllocator_def MmapAllocator_alloc_def segment_layout_def bump_vm_def
        bump_mmap_def install_segment_def slabs_add_def al Let_def geom_simps split: prod.splits)
qed

theorem alloc_slab_fresh_witness:
  "\<exists>pool s. alloc_slab bump_pages bump_pool zero_store = Some (Some 65536, pool, s) \<and>
     pool_inv (owns_pages fst) pool (bytes s) {} {65536}"
  using alloc_slab_fresh [OF bump_contract bump_pool_inv] bump_alloc by fastforce

text \<open>
  Returning a slab page that is held: the operation never panics and ends; afterwards the page
  is not held, all other held pages and the large allocations keep their contents, also when the
  return triggers a purge or releases the whole segment to the operating system.
\<close>

theorem dealloc_slab_safe:
  assumes "page_allocator A owns" and "pool_inv owns pool (bytes s) R held" and "x \<in> held"
  shows "\<exists>pool' s'. dealloc_slab A x pool s = Some (pool', s') \<and> keeps (held - {x}) (bytes s) (bytes s') \<and>
    keeps_regions R (bytes s) (bytes s') \<and> pool_inv owns pool' (bytes s') R (held - {x})"
  using page_allocator.dealloc_slab_ok [OF assms] by blast

theorem dealloc_slab_safe_witness:
  "\<exists>pool s pool' s'. pool_inv (owns_pages fst) pool (bytes s) {} {65536} \<and>
     dealloc_slab bump_pages 65536 pool s = Some (pool', s') \<and> pool_inv (owns_pages fst) pool' (bytes s') {} {}"
proof -
  obtain pool s where p: "alloc_slab bump_pages bump_pool zero_store = Some (Some 65536, pool, s)"
    using bump_alloc by blast
  have i: "pool_inv (owns_pages fst) pool (bytes s) {} {65536}"
    using page_allocator.alloc_slab_ok [OF bump_contract bump_pool_inv] p by fastforce
  then show ?thesis using dealloc_slab_safe [OF bump_contract i, of 65536] by auto
qed

text \<open>
  C30. A segment is released to the operating system exactly when it has become empty: returning
  page \<open>x\<close> releases segment \<open>b\<close> if and only if \<open>x\<close> was its only held page, counting pages in
  purge buffers, and the carving cursor is outside it. Afterwards the segment is gone from the
  table and none of its pages belongs to the pool, so that no later allocation hands one out.
\<close>

theorem release_iff_empty_segment:
  assumes "pool_ok m st dl cl held" and "x \<in> held"
  shows "\<exists>act m' st'. dealloc_slab_locked x m st = Some (act, m', st') \<and>
    (\<forall>b. act = Release b \<longleftrightarrow> b \<in> set (seg_list st) \<and> held \<inter> seg_pages b = {x} \<and> \<not> in_segment b (segment_cursor st)) \<and>
    (\<forall>b. act = Release b \<longrightarrow> set (seg_list st') = set (seg_list st) - {b} \<and> seg_pages b \<inter> pool_pages st' = {}) \<and>
    (\<exists>dl' cl'. pool_ok m' st' dl' cl' (held - {x}))"
proof -
  obtain act m' st' dl' cl' where r: "dealloc_slab_locked x m st = Some (act, m', st')" "pool_ok m' st' dl' cl' (held - {x})"
      "set (seg_list st') = segs_after act st"
      "\<And>b. act = Release b \<longleftrightarrow> b \<in> set (seg_list st) \<and> held \<inter> seg_pages b = {x} \<and> \<not> in_segment b (segment_cursor st)"
    using dealloc_slab_locked_ok [OF assms] by blast
  have "set (seg_list st') = set (seg_list st) - {b} \<and> seg_pages b \<inter> pool_pages st' = {}" if a: "act = Release b" for b
  proof -
    have s: "set (seg_list st') = set (seg_list st) - {b}" using r(3) a by (simp add: segs_after_def)
    have "b \<in> set (seg_list st)" using r(4) a by blast
    then have "seg_pages c \<inter> seg_pages b = {}" if "c \<in> set (seg_list st')" for c
      using segs_disjoint [OF pool_okD(1) [OF assms(1)]] that unfolding s by blast
    then show ?thesis using s unfolding pool_pages_def by blast
  qed
  then show ?thesis using r by blast
qed

text \<open>A pool with one segment at 65536 whose pages are all carved, one of them held.\<close>

definition one_segment :: PoolState where
  "one_segment = (state (PagePool_new (\<lambda>_::nat. ())))\<lparr>segments := (\<lambda>_. 0)(0 := 65536), segment_count := 1,
     seg_outstanding := (\<lambda>_. 0)(0 := 32), segment_cursor := 65536 + 2097152, segment_end := 65536 + 2097152\<rparr>"

lemma one_segment_ok: "pool_ok m one_segment [] [] (seg_pages 65536)"
proof -
  have sl: "seg_list one_segment = [65536]" "pool_pages one_segment = seg_pages 65536"
    by (simp_all add: one_segment_def seg_list_def pool_pages_def)
  have "uncarved one_segment = {}" by (auto simp: uncarved_def one_segment_def)
  moreover have "card (seg_pages 65536) = 32"
    unfolding seg_pages_def geom_simps by (subst card_image) (simp_all add: inj_on_def)
  then have "counts_ok one_segment (seg_pages 65536)" by (simp add: counts_ok_def one_segment_def)
  moreover have "segs_ok [65536]" by (simp add: segs_ok_def seg_base_ok_def geom_simps)
  ultimately show ?thesis using sl
    by (simp add: pool_ok_def carve_ok_def page_list_def one_segment_def PagePool_new_def PageFreeList_EMPTY_def)
qed

theorem release_iff_empty_segment_witness:
  "\<exists>act m' st'. dealloc_slab_locked 131072 (\<lambda>_. 0) one_segment = Some (act, m', st') \<and> act \<noteq> Release 65536 \<and>
     (\<exists>dl' cl'. pool_ok m' st' dl' cl' (seg_pages 65536 - {131072}))"
proof -
  have "131072 \<in> seg_pages 65536" "65536 \<in> seg_pages 65536" by (simp_all add: seg_pages_iff in_segment_def geom_simps)
  moreover from this have "seg_pages 65536 \<noteq> {131072}" by auto
  ultimately show ?thesis using release_iff_empty_segment [OF one_segment_ok, of 131072 "\<lambda>_. 0"] by auto
qed

end
