(* ===== verification/Pool_Threads.thy ===== *)
theory Pool_Threads
  imports Pool_Correct Simulation
begin

text \<open>
  The page pool under concurrency (\<open>src/src/pool.rs\<close>): any number of threads inside \<open>alloc_slab\<close> and
  \<open>dealloc_slab\<close> at once. A step is one critical section of the pool's lock or one call of the page
  allocator outside it; between two steps of a thread the others take any number of theirs. The
  program counter of a thread says which step of which operation comes next and holds the local
  variables that survive: the mapped segment, the segment to unmap, the purge buffer. Between its
  operations a thread may hand a page it holds to another thread, as heaps do through the abandoned
  lists and the page cache.

  The theorems show what the comments of \<open>purge_excess\<close> and \<open>dealloc_slab\<close> promise: pages in a purge
  buffer keep their segment from being unmapped, no page is in the hands of two threads, threads do
  not touch each other's pages, and no critical section panics.
\<close>

datatype pool_pc = Idle | NeedSegment | Mapped addr | Unmapping addr | NeedPurge | Purging "addr list" "addr list"

record 'p pool_procs =
  pp_pool :: "'p PagePool"
  pp_mem :: memory
  pp_pc :: "nat \<Rightarrow> pool_pc"
  pp_hold :: "nat \<Rightarrow> addr set"

text \<open>
  \<open>Take\<close> and \<open>Give\<close> start an allocation and a return; the others continue. \<open>Store\<close> is a write of a
  thread into a page it holds, \<open>Hand\<close> passes a page to another thread (an adopted slab, a cached page).
\<close>

datatype pool_event = Take nat | MapSegment nat | Install nat | Unmap nat | Give nat addr | TakeDirty nat |
  PurgeOne nat | PutClean nat | Store nat addr u8 | Hand nat nat addr

definition goto :: "nat \<Rightarrow> pool_pc \<Rightarrow> 'p pool_procs \<Rightarrow> 'p pool_procs" where
  "goto t c w = w\<lparr>pp_pc := (pp_pc w)(t := c)\<rparr>"

definition set_hold :: "nat \<Rightarrow> addr set \<Rightarrow> 'p pool_procs \<Rightarrow> 'p pool_procs" where
  "set_hold t X w = w\<lparr>pp_hold := (pp_hold w)(t := X)\<rparr>"

definition set_state :: "memory \<Rightarrow> PoolState \<Rightarrow> 'p pool_procs \<Rightarrow> 'p pool_procs" where
  "set_state m st w = w\<lparr>pp_pool := (pp_pool w)\<lparr>state := st\<rparr>, pp_mem := m\<rparr>"

definition set_pages :: "'p \<times> memory \<Rightarrow> 'p pool_procs \<Rightarrow> 'p pool_procs" where
  "set_pages pm w = w\<lparr>pp_pool := (pp_pool w)\<lparr>page_alloc := fst pm\<rparr>, pp_mem := snd pm\<rparr>"

text \<open>Which events a thread can be at.\<close>

fun at_event :: "pool_event \<Rightarrow> 'p pool_procs \<Rightarrow> bool" where
  "at_event (Take t) w = (pp_pc w t = Idle)"
| "at_event (MapSegment t) w = (pp_pc w t = NeedSegment)"
| "at_event (Install t) w = (\<exists>b. pp_pc w t = Mapped b)"
| "at_event (Unmap t) w = (\<exists>b. pp_pc w t = Unmapping b)"
| "at_event (Give t x) w = (pp_pc w t = Idle \<and> x \<in> pp_hold w t)"
| "at_event (TakeDirty t) w = (pp_pc w t = NeedPurge)"
| "at_event (PurgeOne t) w = (\<exists>x todo buf. pp_pc w t = Purging (x # todo) buf)"
| "at_event (PutClean t) w = (\<exists>buf. pp_pc w t = Purging [] buf)"
| "at_event (Store t a v) w = (\<exists>x \<in> pp_hold w t. x \<le> a \<and> a < x + SLAB_SIZE)"
| "at_event (Hand t u x) w = (t \<noteq> u \<and> x \<in> pp_hold w t)"

text \<open>The steps; \<open>None\<close> is a panic in a critical section.\<close>

fun pool_exec :: "'p PageAllocator \<Rightarrow> pool_event \<Rightarrow> 'p pool_procs \<Rightarrow> 'p pool_procs option" where
  "pool_exec A (Take t) w =
    do {
      (r, st) \<leftarrow> alloc_slab_locked (pp_mem w) (state (pp_pool w));
      let w1 = set_state (pp_mem w) st w;
      Some (case r of Some x \<Rightarrow> set_hold t (insert x (pp_hold w t)) w1 | None \<Rightarrow> goto t NeedSegment w1)
    }"
| "pool_exec A (MapSegment t) w =
    (case pa_alloc A segment_layout (page_alloc (pp_pool w), pp_mem w) of
       (None, pm) \<Rightarrow> Some (goto t Idle (set_pages pm w))
     | (Some base, pm) \<Rightarrow> Some (goto t (Mapped base) (set_pages pm w)))"
| "pool_exec A (Install t) w =
    (case pp_pc w t of
       Mapped base \<Rightarrow>
         (case install_segment base (pp_mem w) (state (pp_pool w)) of
            (True, m, st) \<Rightarrow> Some (goto t Idle (set_hold t (insert base (pp_hold w t)) (set_state m st w)))
          | (False, m, st) \<Rightarrow> Some (goto t (Unmapping base) (set_state m st w)))
     | _ \<Rightarrow> None)"
| "pool_exec A (Unmap t) w =
    (case pp_pc w t of
       Unmapping base \<Rightarrow> Some (goto t Idle (set_pages (pa_dealloc A base segment_layout (page_alloc (pp_pool w), pp_mem w)) w))
     | _ \<Rightarrow> None)"
| "pool_exec A (Give t x) w =
    do {
      (act, m, st) \<leftarrow> dealloc_slab_locked x (pp_mem w) (state (pp_pool w));
      let w1 = set_hold t (pp_hold w t - {x}) (set_state m st w);
      Some (goto t (case act of Done \<Rightarrow> Idle | Purge \<Rightarrow> NeedPurge | Release b \<Rightarrow> Unmapping b) w1)
    }"
| "pool_exec A (TakeDirty t) w =
    do {
      (buf, st) \<leftarrow> purge_take (pp_mem w) (state (pp_pool w));
      Some (goto t (Purging buf buf) (set_state (pp_mem w) st w))
    }"
| "pool_exec A (PurgeOne t) w =
    (case pp_pc w t of
       Purging (x # todo) buf \<Rightarrow>
         Some (goto t (Purging todo buf) (set_pages (pa_purge A x SLAB_SIZE (page_alloc (pp_pool w), pp_mem w)) w))
     | _ \<Rightarrow> None)"
| "pool_exec A (PutClean t) w =
    (case pp_pc w t of
       Purging [] buf \<Rightarrow>
         do {
           (m, st) \<leftarrow> purge_put buf (pp_mem w) (state (pp_pool w));
           Some (goto t Idle (set_state m st w))
         }
     | _ \<Rightarrow> None)"
| "pool_exec A (Store t a v) w = Some (w\<lparr>pp_mem := (pp_mem w)(a := v)\<rparr>)"
| "pool_exec A (Hand t u x) w = Some (set_hold u (insert x (pp_hold w u)) (set_hold t (pp_hold w t - {x}) w))"

definition pool_step :: "'p PageAllocator \<Rightarrow> 'p pool_procs \<Rightarrow> pool_event \<Rightarrow> 'p pool_procs \<Rightarrow> bool" where
  "pool_step A w e w' \<longleftrightarrow> at_event e w \<and> pool_exec A e w = Some w'"

definition procs_init :: "'p \<Rightarrow> memory \<Rightarrow> 'p pool_procs" where
  "procs_init pa m = \<lparr>pp_pool = PagePool_new pa, pp_mem = m, pp_pc = (\<lambda>_. Idle), pp_hold = (\<lambda>_. {})\<rparr>"

subsection \<open>The invariant of a group of threads\<close>

text \<open>
  The pages in a purge buffer and the segment between the page allocator and the table, by program
  counter; \<open>owned\<close> are all pages a thread is responsible for, \<open>others\<close> and \<open>others_pending\<close> what belongs
  to the threads other than \<open>t\<close>.
\<close>

fun buffers :: "pool_pc \<Rightarrow> addr set" where
  "buffers (Purging todo buf) = set buf"
| "buffers c = {}"

fun pending :: "pool_pc \<Rightarrow> region set" where
  "pending (Mapped b) = {(b, SEGMENT_SIZE)}"
| "pending (Unmapping b) = {(b, SEGMENT_SIZE)}"
| "pending c = {}"

fun pc_ok :: "pool_pc \<Rightarrow> bool" where
  "pc_ok (Purging todo buf) = (distinct buf \<and> set todo \<subseteq> set buf)"
| "pc_ok (Mapped b) = seg_base_ok b"
| "pc_ok c = True"

definition owned :: "'p pool_procs \<Rightarrow> nat \<Rightarrow> addr set" where
  "owned w t = pp_hold w t \<union> buffers (pp_pc w t)"

definition others :: "'p pool_procs \<Rightarrow> nat \<Rightarrow> addr set" where
  "others w t = (\<Union>u \<in> - {t}. owned w u)"

definition others_pending :: "'p pool_procs \<Rightarrow> nat \<Rightarrow> region set" where
  "others_pending w t = (\<Union>u \<in> - {t}. pending (pp_pc w u))"

definition apart_regions :: "region set \<Rightarrow> region set \<Rightarrow> bool" where
  "apart_regions P R \<longleftrightarrow> (\<forall>r \<in> P. \<forall>q \<in> R. disjoint_regions r q)"

definition procs_ok :: "('p \<Rightarrow> region set \<Rightarrow> bool) \<Rightarrow> 'p pool_procs \<Rightarrow> bool" where
  "procs_ok owns w \<longleftrightarrow>
     pool_inv owns (pp_pool w) (pp_mem w) (\<Union>t. pending (pp_pc w t)) (\<Union>t. owned w t) \<and>
     (\<forall>t u. t \<noteq> u \<longrightarrow> owned w t \<inter> owned w u = {} \<and> apart_regions (pending (pp_pc w t)) (pending (pp_pc w u))) \<and>
     (\<forall>t. pp_hold w t \<inter> buffers (pp_pc w t) = {} \<and> pc_ok (pp_pc w t))"

text \<open>A step of thread \<open>t\<close>: it changes the pool, the memory, and its own counter and pages.\<close>

definition thread_to :: "nat \<Rightarrow> pool_pc \<Rightarrow> addr set \<Rightarrow> 'p PagePool \<Rightarrow> memory \<Rightarrow> 'p pool_procs \<Rightarrow> 'p pool_procs" where
  "thread_to t c X pool m w = w\<lparr>pp_pool := pool, pp_mem := m, pp_pc := (pp_pc w)(t := c), pp_hold := (pp_hold w)(t := X)\<rparr>"

lemma thread_to_views:
  "owned (thread_to t c X pool m w) t = X \<union> buffers c"
  "u \<noteq> t \<Longrightarrow> owned (thread_to t c X pool m w) u = owned w u"
  "(\<Union>u. owned (thread_to t c X pool m w) u) = X \<union> buffers c \<union> others w t"
  "(\<Union>u. pending (pp_pc (thread_to t c X pool m w) u)) = pending c \<union> others_pending w t"
proof -
  show own: "owned (thread_to t c X pool m w) t = X \<union> buffers c"
    "u \<noteq> t \<Longrightarrow> owned (thread_to t c X pool m w) u = owned w u" for u
    by (simp_all add: owned_def thread_to_def)
  have U: "(UNIV :: nat set) = insert t (- {t})" by blast
  show "(\<Union>u. owned (thread_to t c X pool m w) u) = X \<union> buffers c \<union> others w t"
    unfolding U others_def using own by auto
  show "(\<Union>u. pending (pp_pc (thread_to t c X pool m w) u)) = pending c \<union> others_pending w t"
    unfolding U others_pending_def by (auto simp: thread_to_def)
qed

lemma procs_okD:
  assumes "procs_ok owns w"
  shows "pool_inv owns (pp_pool w) (pp_mem w) (pending (pp_pc w t) \<union> others_pending w t)
      (pp_hold w t \<union> buffers (pp_pc w t) \<union> others w t)"
    "apart_regions (pending (pp_pc w t)) (others_pending w t)"
    "(pp_hold w t \<union> buffers (pp_pc w t)) \<inter> others w t = {}"
    "pp_hold w t \<inter> buffers (pp_pc w t) = {}" "pc_ok (pp_pc w t)"
proof -
  have "thread_to t (pp_pc w t) (pp_hold w t) (pp_pool w) (pp_mem w) w = w" by (simp add: thread_to_def)
  note V = thread_to_views(3,4) [of t "pp_pc w t" "pp_hold w t" "pp_pool w" "pp_mem w" w, unfolded this]
  have "(\<Union>u. owned w u) = pp_hold w t \<union> buffers (pp_pc w t) \<union> others w t"
      "(\<Union>u. pending (pp_pc w u)) = pending (pp_pc w t) \<union> others_pending w t"
    by (fact V)+
  then show "pool_inv owns (pp_pool w) (pp_mem w) (pending (pp_pc w t) \<union> others_pending w t)
      (pp_hold w t \<union> buffers (pp_pc w t) \<union> others w t)"
    using assms by (simp add: procs_ok_def)
  show "apart_regions (pending (pp_pc w t)) (others_pending w t)"
    unfolding others_pending_def apart_regions_def
  proof (intro ballI)
    fix r q assume r: "r \<in> pending (pp_pc w t)" and "q \<in> (\<Union>u \<in> - {t}. pending (pp_pc w u))"
    then obtain u where u: "u \<noteq> t" "q \<in> pending (pp_pc w u)" by blast
    have "apart_regions (pending (pp_pc w t)) (pending (pp_pc w u))" using assms u(1) unfolding procs_ok_def by metis
    then show "disjoint_regions r q" using r u(2) by (simp add: apart_regions_def)
  qed
  show "(pp_hold w t \<union> buffers (pp_pc w t)) \<inter> others w t = {}"
    using assms unfolding procs_ok_def others_def owned_def [symmetric] by blast
qed (use assms in \<open>simp_all add: procs_ok_def\<close>)

text \<open>What a step may change: no page that a thread holds before and after it, except by a store of that thread.\<close>

fun stores :: "pool_event \<Rightarrow> nat \<Rightarrow> bool" where
  "stores (Store t a v) u = (u = t)"
| "stores e u = False"

definition step_ok :: "('p \<Rightarrow> region set \<Rightarrow> bool) \<Rightarrow> pool_event \<Rightarrow> 'p pool_procs \<Rightarrow> 'p pool_procs \<Rightarrow> bool" where
  "step_ok owns e w w' \<longleftrightarrow> procs_ok owns w' \<and>
     (\<forall>u. \<not> stores e u \<longrightarrow> keeps (pp_hold w u \<inter> pp_hold w' u) (pp_mem w) (pp_mem w'))"

lemma apart_regions_sym: "apart_regions P R \<longleftrightarrow> apart_regions R P"
  unfolding apart_regions_def using disjoint_regions_sym by blast

lemma thread_step:
  assumes W: "procs_ok owns w"
    and I: "pool_inv owns pool m (pending c \<union> others_pending w t) (X \<union> buffers c \<union> others w t)"
    and P: "apart_regions (pending c) (others_pending w t)" and O: "(X \<union> buffers c) \<inter> others w t = {}"
    and c: "X \<inter> buffers c = {}" "pc_ok c"
    and k: "keeps (others w t) (pp_mem w) m" "\<not> stores e t \<Longrightarrow> keeps (pp_hold w t \<inter> X) (pp_mem w) m"
  shows "step_ok owns e w (thread_to t c X pool m w)"
proof -
  let ?w = "thread_to t c X pool m w"
  note V = thread_to_views [where t = t and c = c and X = X and pool = pool and m = m and w = w]
  have oth: "owned w u \<subseteq> others w t" "pending (pp_pc w u) \<subseteq> others_pending w t" if "u \<noteq> t" for u
    using that by (auto simp: others_def others_pending_def)
  have pc: "pp_pc ?w t = c" "u \<noteq> t \<Longrightarrow> pp_pc ?w u = pp_pc w u" "pp_hold ?w t = X"
      "u \<noteq> t \<Longrightarrow> pp_hold ?w u = pp_hold w u" for u by (simp_all add: thread_to_def)
  have t: "owned ?w t \<inter> owned ?w u = {} \<and> apart_regions (pending (pp_pc ?w t)) (pending (pp_pc ?w u))" if "u \<noteq> t" for u
    using O P oth [OF that] V(1) V(2) [OF that] pc(1) pc(2) [OF that] unfolding apart_regions_def by auto
  have "owned ?w u \<inter> owned ?w v = {} \<and> apart_regions (pending (pp_pc ?w u)) (pending (pp_pc ?w v))" if uv: "u \<noteq> v" for u v
  proof (cases "u = t \<or> v = t")
    case True
    then show ?thesis using t [of v] t [of u] uv apart_regions_sym by blast
  next
    case False
    then show ?thesis using W uv V(2) pc(2) by (simp add: procs_ok_def)
  qed
  moreover have "pp_hold ?w u \<inter> buffers (pp_pc ?w u) = {} \<and> pc_ok (pp_pc ?w u)" for u
    using W c pc by (cases "u = t") (simp_all add: procs_ok_def)
  moreover have "pool_inv owns (pp_pool ?w) (pp_mem ?w) (\<Union>t. pending (pp_pc ?w t)) (\<Union>t. owned ?w t)"
    unfolding V(3,4) using I by (simp add: thread_to_def)
  ultimately have "procs_ok owns ?w" unfolding procs_ok_def by blast
  moreover have "keeps (pp_hold w u \<inter> pp_hold ?w u) (pp_mem w) (pp_mem ?w)" if "\<not> stores e u" for u
  proof (cases "u = t")
    case False
    then show ?thesis using keeps_mono [OF k(1)] oth(1) [of u] by (auto simp: thread_to_def owned_def)
  qed (use k(2) that in \<open>simp add: thread_to_def\<close>)
  ultimately show ?thesis by (simp add: step_ok_def)
qed

lemmas pool_moves = goto_def set_hold_def set_state_def set_pages_def thread_to_def

lemma insert_parts: "x \<notin> H \<union> G \<Longrightarrow> H \<inter> G = {} \<Longrightarrow> insert x H \<inter> G = {}"
  by blast

lemma apart_insert: "apart_regions {r} R \<longleftrightarrow> (\<forall>q \<in> R. disjoint_regions r q)" "apart_regions {} R"
  by (simp_all add: apart_regions_def)

lemma take_step:
  assumes W: "procs_ok owns w" and at: "at_event (Take t) w"
  shows "\<exists>w'. pool_exec A (Take t) w = Some w' \<and> step_ok owns (Take t) w w'"
proof -
  have c: "pp_pc w t = Idle" using at by simp
  note D = procs_okD [OF W, of t, unfolded c, simplified]
  obtain r st where r: "alloc_slab_locked (pp_mem w) (state (pp_pool w)) = Some (r, st)"
      "case r of None \<Rightarrow> pool_inv owns ((pp_pool w)\<lparr>state := st\<rparr>) (pp_mem w) (others_pending w t) (pp_hold w t \<union> others w t)
       | Some x \<Rightarrow> x \<notin> pp_hold w t \<union> others w t \<and> base_ok x \<and>
           pool_inv owns ((pp_pool w)\<lparr>state := st\<rparr>) (pp_mem w) (others_pending w t) (insert x (pp_hold w t \<union> others w t))"
    using take_phase [OF D(1)] by blast
  show ?thesis
  proof (cases r)
    case None
    then have "pool_exec A (Take t) w = Some (thread_to t NeedSegment (pp_hold w t) ((pp_pool w)\<lparr>state := st\<rparr>) (pp_mem w) w)"
      using r(1) by (simp add: pool_moves)
    then show ?thesis using r(2) None D by (auto intro!: thread_step [OF W] simp: apart_insert)
  next
    case (Some x)
    then have "pool_exec A (Take t) w = Some (thread_to t Idle (insert x (pp_hold w t)) ((pp_pool w)\<lparr>state := st\<rparr>) (pp_mem w) w)"
      using r(1) c by (simp add: pool_moves fun_upd_idem)
    then show ?thesis using r(2) Some D by (auto intro!: thread_step [OF W] simp: apart_insert)
  qed
qed

lemma install_step:
  assumes W: "procs_ok owns w" and at: "at_event (Install t) w"
  shows "\<exists>w'. pool_exec A (Install t) w = Some w' \<and> step_ok owns (Install t) w w'"
proof -
  obtain b where c: "pp_pc w t = Mapped b" using at by auto
  note D = procs_okD [OF W, of t, unfolded c, simplified, unfolded apart_insert]
  obtain ok m st where i: "install_segment b (pp_mem w) (state (pp_pool w)) = (ok, m, st)"
      "keeps (pp_hold w t \<union> others w t) (pp_mem w) m"
      "if ok then b \<notin> pp_hold w t \<union> others w t \<and> base_ok b \<and>
         pool_inv owns ((pp_pool w)\<lparr>state := st\<rparr>) m (others_pending w t) (insert b (pp_hold w t \<union> others w t))
       else m = pp_mem w \<and>
         pool_inv owns ((pp_pool w)\<lparr>state := st\<rparr>) (pp_mem w) (insert (b, SEGMENT_SIZE) (others_pending w t)) (pp_hold w t \<union> others w t)"
    using install_phase [OF D(1,5,2)] by blast
  have k: "keeps (others w t) (pp_mem w) m" "keeps (pp_hold w t \<inter> X) (pp_mem w) m" for X
    using keeps_mono [OF i(2)] by blast+
  show ?thesis
  proof (cases ok)
    case True
    then have "pool_exec A (Install t) w = Some (thread_to t Idle (insert b (pp_hold w t)) ((pp_pool w)\<lparr>state := st\<rparr>) m w)"
      using i(1) c by (simp add: pool_moves)
    then show ?thesis using i(3) True D k by (auto intro!: thread_step [OF W] simp: apart_insert)
  next
    case False
    then have "pool_exec A (Install t) w = Some (thread_to t (Unmapping b) (pp_hold w t) ((pp_pool w)\<lparr>state := st\<rparr>) m w)"
      using i(1) c by (simp add: pool_moves)
    then show ?thesis using i(3) False D k by (auto intro!: thread_step [OF W] simp: apart_insert)
  qed
qed

lemma give_step:
  assumes W: "procs_ok owns w" and at: "at_event (Give t x) w"
  shows "\<exists>w'. pool_exec A (Give t x) w = Some w' \<and> step_ok owns (Give t x) w w'"
proof -
  have c: "pp_pc w t = Idle" and x: "x \<in> pp_hold w t" using at by simp_all
  note D = procs_okD [OF W, of t, unfolded c, simplified]
  have xo: "x \<in> pp_hold w t \<union> others w t" "pp_hold w t \<union> others w t - {x} = pp_hold w t - {x} \<union> others w t"
    using x D(3) by blast+
  obtain act m st where d: "dealloc_slab_locked x (pp_mem w) (state (pp_pool w)) = Some (act, m, st)"
      "keeps (pp_hold w t - {x} \<union> others w t) (pp_mem w) m"
      "case act of Release b \<Rightarrow> (\<forall>q \<in> others_pending w t. disjoint_regions (b, SEGMENT_SIZE) q) \<and>
         pool_inv owns ((pp_pool w)\<lparr>state := st\<rparr>) m (insert (b, SEGMENT_SIZE) (others_pending w t)) (pp_hold w t - {x} \<union> others w t)
       | _ \<Rightarrow> pool_inv owns ((pp_pool w)\<lparr>state := st\<rparr>) m (others_pending w t) (pp_hold w t - {x} \<union> others w t)"
    using give_phase [OF D(1) xo(1), unfolded xo(2)] by blast
  define c' where "c' = (case act of Done \<Rightarrow> Idle | Purge \<Rightarrow> NeedPurge | Release b \<Rightarrow> Unmapping b)"
  have "pool_exec A (Give t x) w = Some (thread_to t c' (pp_hold w t - {x}) ((pp_pool w)\<lparr>state := st\<rparr>) m w)"
    using d(1) by (simp add: pool_moves c'_def)
  moreover have "keeps (others w t) (pp_mem w) m" "keeps (pp_hold w t \<inter> (pp_hold w t - {x})) (pp_mem w) m"
    by (auto intro!: keeps_mono [OF d(2)])
  then have "step_ok owns (Give t x) w (thread_to t c' (pp_hold w t - {x}) ((pp_pool w)\<lparr>state := st\<rparr>) m w)"
    using d(3) D by (intro thread_step [OF W]; cases act) (auto simp: c'_def apart_insert)
  ultimately show ?thesis by blast
qed

lemma take_dirty_step:
  assumes W: "procs_ok owns w" and at: "at_event (TakeDirty t) w"
  shows "\<exists>w'. pool_exec A (TakeDirty t) w = Some w' \<and> step_ok owns (TakeDirty t) w w'"
proof -
  have c: "pp_pc w t = NeedPurge" using at by simp
  note D = procs_okD [OF W, of t, unfolded c, simplified]
  obtain buf st where b: "purge_take (pp_mem w) (state (pp_pool w)) = Some (buf, st)" "distinct buf"
      "set buf \<inter> (pp_hold w t \<union> others w t) = {}"
      "pool_inv owns ((pp_pool w)\<lparr>state := st\<rparr>) (pp_mem w) (others_pending w t) (pp_hold w t \<union> others w t \<union> set buf)"
    using purge_take_phase [OF D(1)] by blast
  have e: "pp_hold w t \<union> others w t \<union> set buf = pp_hold w t \<union> set buf \<union> others w t" by blast
  have "pool_exec A (TakeDirty t) w = Some (thread_to t (Purging buf buf) (pp_hold w t) ((pp_pool w)\<lparr>state := st\<rparr>) (pp_mem w) w)"
    using b(1) by (simp add: pool_moves)
  moreover have "step_ok owns (TakeDirty t) w
      (thread_to t (Purging buf buf) (pp_hold w t) ((pp_pool w)\<lparr>state := st\<rparr>) (pp_mem w) w)"
    using b(2-4) D unfolding e by (intro thread_step [OF W]) (auto simp: apart_insert)
  ultimately show ?thesis by blast
qed

lemma put_clean_step:
  assumes W: "procs_ok owns w" and at: "at_event (PutClean t) w"
  shows "\<exists>w'. pool_exec A (PutClean t) w = Some w' \<and> step_ok owns (PutClean t) w w'"
proof -
  obtain buf where c: "pp_pc w t = Purging [] buf" using at by auto
  note D = procs_okD [OF W, of t, unfolded c, simplified]
  have e: "pp_hold w t \<union> set buf \<union> others w t - set buf = pp_hold w t \<union> others w t" using D(3,4) by blast
  have "set buf \<subseteq> pp_hold w t \<union> set buf \<union> others w t" by blast
  from purge_put_phase [OF D(1,5) this, unfolded e] obtain m st
    where p: "purge_put buf (pp_mem w) (state (pp_pool w)) = Some (m, st)" "keeps (pp_hold w t \<union> others w t) (pp_mem w) m"
      "pool_inv owns ((pp_pool w)\<lparr>state := st\<rparr>) m (others_pending w t) (pp_hold w t \<union> others w t)" by blast
  have "pool_exec A (PutClean t) w = Some (thread_to t Idle (pp_hold w t) ((pp_pool w)\<lparr>state := st\<rparr>) m w)"
    using p(1) c by (simp add: pool_moves)
  moreover have "keeps (others w t) (pp_mem w) m" "keeps (pp_hold w t \<inter> pp_hold w t) (pp_mem w) m"
    using keeps_mono [OF p(2)] by blast+
  then have "step_ok owns (PutClean t) w (thread_to t Idle (pp_hold w t) ((pp_pool w)\<lparr>state := st\<rparr>) m w)"
    using p(3) D by (intro thread_step [OF W]) (auto simp: apart_insert)
  ultimately show ?thesis by blast
qed

lemma store_step:
  assumes W: "procs_ok owns w" and at: "at_event (Store t a v) w"
  shows "\<exists>w'. pool_exec A (Store t a v) w = Some w' \<and> step_ok owns (Store t a v) w w'"
proof -
  obtain x where x: "x \<in> pp_hold w t" "x \<le> a" "a < x + SLAB_SIZE" using at by auto
  note D = procs_okD [OF W, of t]
  let ?m = "(pp_mem w)(a := v)"
  have "touches {x} (pp_mem w) ?m" using x by (auto simp: touches_def)
  note C = held_pages_change [OF D(1) this]
  have "keeps (others w t) (pp_mem w) ?m"
    by (rule keeps_mono [OF C(2)]) (use x D(3) in blast)+
  then have "step_ok owns (Store t a v) w (thread_to t (pp_pc w t) (pp_hold w t) (pp_pool w) ?m w)"
    using C(1) x D by (intro thread_step [OF W]) auto
  moreover have "pool_exec A (Store t a v) w = Some (thread_to t (pp_pc w t) (pp_hold w t) (pp_pool w) ?m w)"
    by (simp add: pool_moves)
  ultimately show ?thesis by blast
qed

lemma hand_step:
  assumes W: "procs_ok owns w" and at: "at_event (Hand t u x) w"
  shows "\<exists>w'. pool_exec A (Hand t u x) w = Some w' \<and> step_ok owns (Hand t u x) w w'"
proof -
  have x: "t \<noteq> u" "x \<in> pp_hold w t" "x \<notin> buffers (pp_pc w t)" using at W by (auto simp: procs_ok_def)
  let ?w = "set_hold u (insert x (pp_hold w u)) (set_hold t (pp_hold w t - {x}) w)"
  have own: "owned ?w v = (if v = t then owned w t - {x} else if v = u then insert x (owned w u) else owned w v)" for v
    using x by (auto simp: owned_def set_hold_def)
  have dis: "owned w v \<inter> owned w v' = {}" if "v \<noteq> v'" for v v' using W that unfolding procs_ok_def by blast
  have xt: "x \<in> owned w v \<Longrightarrow> v = t" for v using dis [of v t] x(2) by (auto simp: owned_def)
  have "(\<Union>v. owned ?w v) = (\<Union>v. owned w v)"
  proof
    show "(\<Union>v. owned ?w v) \<subseteq> (\<Union>v. owned w v)" using x(2) unfolding own by (auto simp: owned_def split: if_splits)
    show "(\<Union>v. owned w v) \<subseteq> (\<Union>v. owned ?w v)" unfolding own using x(1) by (auto split: if_splits)
  qed
  moreover have "owned ?w v \<inter> owned ?w v' = {}" if "v \<noteq> v'" for v v'
    using dis [OF that] dis xt that x(1) unfolding own by (auto split: if_splits)
  moreover have "pp_pool ?w = pp_pool w" "pp_mem ?w = pp_mem w" "pp_pc ?w = pp_pc w" by (simp_all add: set_hold_def)
  moreover have "pp_hold ?w v \<inter> buffers (pp_pc w v) = {}" for v
    using W xt x(1) unfolding procs_ok_def by (auto simp: set_hold_def owned_def)
  ultimately have "procs_ok owns ?w" using W unfolding procs_ok_def by auto
  then show ?thesis by (simp add: step_ok_def set_hold_def keeps_def)
qed

context page_allocator
begin

lemma map_step:
  assumes W: "procs_ok owns w" and at: "at_event (MapSegment t) w"
  shows "\<exists>w'. pool_exec A (MapSegment t) w = Some w' \<and> step_ok owns (MapSegment t) w w'"
proof -
  have c: "pp_pc w t = NeedSegment" using at by simp
  note D = procs_okD [OF W, of t, unfolded c, simplified]
  obtain r pa m where al: "pa_alloc A segment_layout (page_alloc (pp_pool w), pp_mem w) = (r, pa, m)" by (metis surj_pair)
  note M = map_phase [OF D(1) al]
  have k: "keeps (others w t) (pp_mem w) m" "keeps (pp_hold w t \<inter> X) (pp_mem w) m" for X
    using keeps_mono [OF M(1)] by blast+
  show ?thesis
  proof (cases r)
    case None
    then have "pool_exec A (MapSegment t) w = Some (thread_to t Idle (pp_hold w t) ((pp_pool w)\<lparr>page_alloc := pa\<rparr>) m w)"
      using al by (simp add: pool_moves)
    then show ?thesis using M(3) None D k by (auto intro!: thread_step [OF W] simp: apart_insert)
  next
    case (Some b)
    then have "pool_exec A (MapSegment t) w = Some (thread_to t (Mapped b) (pp_hold w t) ((pp_pool w)\<lparr>page_alloc := pa\<rparr>) m w)"
      using al by (simp add: pool_moves)
    then show ?thesis using M(3) Some D k by (auto intro!: thread_step [OF W] simp: apart_insert)
  qed
qed

lemma unmap_step:
  assumes W: "procs_ok owns w" and at: "at_event (Unmap t) w"
  shows "\<exists>w'. pool_exec A (Unmap t) w = Some w' \<and> step_ok owns (Unmap t) w w'"
proof -
  obtain b where c: "pp_pc w t = Unmapping b" using at by auto
  note D = procs_okD [OF W, of t, unfolded c, simplified, unfolded apart_insert]
  obtain pa m where de: "pa_dealloc A b segment_layout (page_alloc (pp_pool w), pp_mem w) = (pa, m)" by fastforce
  note U = unmap_phase [OF D(1,2) de]
  have "pool_exec A (Unmap t) w = Some (thread_to t Idle (pp_hold w t) ((pp_pool w)\<lparr>page_alloc := pa\<rparr>) m w)"
    using de c by (simp add: pool_moves)
  moreover have "keeps (others w t) (pp_mem w) m" "keeps (pp_hold w t \<inter> pp_hold w t) (pp_mem w) m"
    using keeps_mono [OF U(1)] by blast+
  then have "step_ok owns (Unmap t) w (thread_to t Idle (pp_hold w t) ((pp_pool w)\<lparr>page_alloc := pa\<rparr>) m w)"
    using U(3) D by (intro thread_step [OF W]) (auto simp: apart_insert)
  ultimately show ?thesis by blast
qed

lemma purge_step:
  assumes W: "procs_ok owns w" and at: "at_event (PurgeOne t) w"
  shows "\<exists>w'. pool_exec A (PurgeOne t) w = Some w' \<and> step_ok owns (PurgeOne t) w w'"
proof -
  obtain x todo buf where c: "pp_pc w t = Purging (x # todo) buf" using at by auto
  note D = procs_okD [OF W, of t, unfolded c, simplified]
  obtain pa m where pu: "pa_purge A x SLAB_SIZE (page_alloc (pp_pool w), pp_mem w) = (pa, m)" by fastforce
  have x: "x \<in> pp_hold w t \<union> set buf \<union> others w t" "x \<notin> others w t" "x \<notin> pp_hold w t" using D(3-5) by blast+
  note U = purge_phase [OF D(1) x(1) pu]
  have "pool_exec A (PurgeOne t) w = Some (thread_to t (Purging todo buf) (pp_hold w t) ((pp_pool w)\<lparr>page_alloc := pa\<rparr>) m w)"
    using pu c by (simp add: pool_moves)
  moreover have "keeps (others w t) (pp_mem w) m" "keeps (pp_hold w t \<inter> pp_hold w t) (pp_mem w) m"
    by (rule keeps_mono [OF U(1)], use x in blast)+
  then have "step_ok owns (PurgeOne t) w (thread_to t (Purging todo buf) (pp_hold w t) ((pp_pool w)\<lparr>page_alloc := pa\<rparr>) m w)"
    using U(3) D by (intro thread_step [OF W]) (auto simp: apart_insert)
  ultimately show ?thesis by blast
qed

lemma every_step:
  assumes "procs_ok owns w" "at_event e w"
  shows "\<exists>w'. pool_exec A e w = Some w' \<and> step_ok owns e w w'"
  using assms
  by (cases e; simp only:)
    (erule take_step map_step install_step unmap_step give_step take_dirty_step purge_step put_clean_step store_step hand_step, assumption)+

lemma pool_step_ok: "procs_ok owns w \<Longrightarrow> pool_step A w e w' \<Longrightarrow> step_ok owns e w w'"
  using every_step [of w e] by (auto simp: pool_step_def)

lemma reachable_ok: "trace (pool_step A) w es w' \<Longrightarrow> procs_ok owns w \<Longrightarrow> procs_ok owns w'"
  using trace_invariant [of "pool_step A" w es w' "procs_ok owns"] pool_step_ok unfolding step_ok_def by blast

end

lemma procs_init_ok: "owns pa {} \<Longrightarrow> procs_ok owns (procs_init pa m)"
  using PagePool_new_inv [of owns pa m] by (simp add: procs_ok_def procs_init_def owned_def apart_insert)

subsection \<open>Operations end\<close>

text \<open>
  How many more steps of its own a thread needs to leave the operation it is in. Steps of other threads
  do not change it; \<open>starts\<close> are the events that enter an operation.
\<close>

fun remaining :: "pool_pc \<Rightarrow> nat" where
  "remaining Idle = 0"
| "remaining NeedSegment = 3"
| "remaining (Mapped b) = 2"
| "remaining (Unmapping b) = 1"
| "remaining NeedPurge = PURGE_BATCH + 2"
| "remaining (Purging todo buf) = length todo + 1"

fun continues :: "nat \<Rightarrow> pool_event \<Rightarrow> bool" where
  "continues t (MapSegment u) = (u = t)"
| "continues t (Install u) = (u = t)"
| "continues t (Unmap u) = (u = t)"
| "continues t (TakeDirty u) = (u = t)"
| "continues t (PurgeOne u) = (u = t)"
| "continues t (PutClean u) = (u = t)"
| "continues t e = False"

fun starts :: "nat \<Rightarrow> pool_event \<Rightarrow> bool" where
  "starts t (Take u) = (u = t)"
| "starts t (Give u x) = (u = t)"
| "starts t e = False"

lemma purge_take_length: "purge_take_loop n m st = Some (buf, st') \<Longrightarrow> length buf \<le> n"
proof (induction n arbitrary: st buf)
  case (Suc n)
  then show ?case by (fastforce split: if_splits prod.splits option.splits simp: bind_eq_Some_conv)
qed simp

lemma continue_step:
  assumes "pool_step A w e w'" "continues t e"
  shows "remaining (pp_pc w' t) < remaining (pp_pc w t)"
  using assms purge_take_length [of PURGE_BATCH]
  by (cases e) (fastforce simp: pool_step_def pool_moves purge_take_def bind_eq_Some_conv split: option.splits prod.splits bool.splits)+

lemma other_step:
  assumes "pool_step A w e w'" "\<not> continues t e" "\<not> starts t e"
  shows "pp_pc w' t = pp_pc w t"
  using assms
  by (cases e) (auto simp: pool_step_def pool_moves Let_def bind_eq_Some_conv split: option.splits prod.splits bool.splits)

lemma remaining_le:
  assumes "pool_step A w e w'" "remaining (pp_pc w t) \<le> PURGE_BATCH + 2"
  shows "remaining (pp_pc w' t) \<le> PURGE_BATCH + 2"
proof -
  have B: "1 \<le> PURGE_BATCH" by (simp add: PURGE_BATCH_def geom_simps)
  have G: "remaining (case act of Done \<Rightarrow> Idle | Purge \<Rightarrow> NeedPurge | Release b \<Rightarrow> Unmapping b) \<le> PURGE_BATCH + 2" for act
    by (cases act) simp_all
  consider "continues t e" | "\<not> continues t e" "\<not> starts t e" | "starts t e" by blast
  then show ?thesis
  proof cases
    case 3
    then show ?thesis using assms B G
      by (cases e) (auto simp: pool_step_def pool_moves Let_def bind_eq_Some_conv split: option.splits)
  qed (use assms continue_step [OF assms(1), of t] other_step [OF assms(1), of t] in auto)
qed

lemma reachable_remaining:
  "trace (pool_step A) (procs_init pa m) es w \<Longrightarrow> remaining (pp_pc w t) \<le> PURGE_BATCH + 2"
  using trace_invariant [of "pool_step A" "procs_init pa m" es w "\<lambda>w. remaining (pp_pc w t) \<le> PURGE_BATCH + 2"] remaining_le
  by (fastforce simp: procs_init_def)

lemma busy_continues: "pp_pc w t \<noteq> Idle \<Longrightarrow> \<exists>e. continues t e \<and> at_event e w"
proof -
  have "continues t (MapSegment t)" "continues t (Install t)" "continues t (Unmap t)" "continues t (TakeDirty t)"
    "continues t (PurgeOne t)" "continues t (PutClean t)" by simp_all
  moreover assume "pp_pc w t \<noteq> Idle"
  moreover have "todo = [] \<or> (\<exists>x ys. todo = x # ys)" for todo :: "addr list" by (cases todo) auto
  ultimately show ?thesis by (cases "pp_pc w t") (metis at_event.simps)+
qed

lemma steps_bounded:
  assumes "trace (pool_step A) w es w'" "\<forall>e \<in> set es. \<not> starts t e"
  shows "length (filter (continues t) es) + remaining (pp_pc w' t) \<le> remaining (pp_pc w t)"
  using assms
proof (induction rule: trace.induct)
  case (trace_cons w e w1 es w')
  show ?case
  proof (cases "continues t e")
    case True
    then show ?thesis using continue_step [OF trace_cons.hyps(1) True] trace_cons by simp
  next
    case False
    then show ?thesis using other_step [OF trace_cons.hyps(1) False] trace_cons by simp
  qed
qed simp

subsection \<open>Properties\<close>

lemma procs_ok_disjoint:
  assumes "procs_ok owns w"
  shows "t \<noteq> u \<Longrightarrow> (pp_hold w t \<union> buffers (pp_pc w t)) \<inter> (pp_hold w u \<union> buffers (pp_pc w u)) = {}"
    "x \<in> pp_hold w t \<union> buffers (pp_pc w t) \<Longrightarrow> x \<in> pool_pages (state (pp_pool w))"
    "owns (page_alloc (pp_pool w)) ((\<Union>t. pending (pp_pc w t)) \<union> seg_regions (state (pp_pool w)))"
proof -
  show "t \<noteq> u \<Longrightarrow> (pp_hold w t \<union> buffers (pp_pc w t)) \<inter> (pp_hold w u \<union> buffers (pp_pc w u)) = {}"
    using assms unfolding procs_ok_def owned_def [symmetric] by blast
  have I: "pool_inv owns (pp_pool w) (pp_mem w) (\<Union>t. pending (pp_pc w t)) (\<Union>t. owned w t)"
    using assms by (simp add: procs_ok_def)
  then show "owns (page_alloc (pp_pool w)) ((\<Union>t. pending (pp_pc w t)) \<union> seg_regions (state (pp_pool w)))"
    by (simp add: pool_inv_def)
  show "x \<in> pp_hold w t \<union> buffers (pp_pc w t) \<Longrightarrow> x \<in> pool_pages (state (pp_pool w))"
    using I by (rule pool_invD) (auto simp: owned_def)
qed

text \<open>Two threads that both find the pool empty and map a segment each: the second finds the first one carving.\<close>

definition guarded :: "'p PageAllocator \<Rightarrow> pool_event \<Rightarrow> 'p pool_procs \<Rightarrow> 'p pool_procs option" where
  "guarded A e w = (if at_event e w then pool_exec A e w else None)"

lemma guarded_trace: "exec_run (guarded A) es w = Some w' \<Longrightarrow> trace (pool_step A) w es w'"
proof -
  have e: "(\<lambda>s e s'. guarded A e s = Some s') = pool_step A"
    by (intro ext) (simp add: guarded_def pool_step_def)
  show "exec_run (guarded A) es w = Some w' \<Longrightarrow> trace (pool_step A) w es w'"
    using exec_run_trace [of "guarded A" es w w'] unfolding e .
qed

definition race_start :: "bump_kernel pool_procs" where
  "race_start = procs_init ({}, 16) (\<lambda>_. 0)"

lemma race_run:
  "\<exists>w. exec_run (guarded bump_pages) [Take 0, Take 1, MapSegment 0, MapSegment 1, Install 0, Install 1] race_start = Some w \<and>
     pp_hold w 0 = {65536} \<and> pp_hold w 1 = {2228224} \<and> pp_pc w 0 = Idle \<and> pp_pc w 1 = Idle"
proof -
  have al: "align_up 65536 65536 = 65536" "align_up 2228224 65536 = 2228224"
    using align_up_eq [of 65536 16] align_up_eq [of 2228224 16] by simp_all
  have pg: "p \<in> pages 65536 2162688 \<Longrightarrow> p < 544" for p by (auto simp: pages_def PAGE_def)
  show ?thesis
    by (simp add: race_start_def procs_init_def guarded_def pool_moves alloc_slab_locked_def PagePool_new_def page_pop_def
        PageFreeList_EMPTY_def count_lock_def MmapAllocator_def MmapAllocator_alloc_def segment_layout_def bump_vm_def
        bump_mmap_def bump_munmap_def install_segment_def slabs_add_def al pg Let_def geom_simps split: prod.splits)
qed

text \<open>
  C5. The page pool used by any number of threads at once, with their critical sections, mappings,
  unmappings and purges interleaved in any order, over any page allocator that meets the contract. In
  every reachable state: no page is with two threads, whether handed out or in a purge buffer; each such
  page lies in a segment of the table, so no segment is unmapped under a page being purged; the regions
  held from the page allocator are exactly the segments of the table and those between the table and
  the allocator, so that none is lost by a race. Every step a thread can take succeeds without a panic,
  and only a thread's own stores change a page that it holds before and after the step.
\<close>

theorem pool_threads_safe:
  assumes "page_allocator A owns" and "owns pa {}" and "trace (pool_step A) (procs_init pa m) es w"
  shows "(\<forall>t u. t \<noteq> u \<longrightarrow> (pp_hold w t \<union> buffers (pp_pc w t)) \<inter> (pp_hold w u \<union> buffers (pp_pc w u)) = {}) \<and>
    (\<forall>t. pp_hold w t \<union> buffers (pp_pc w t) \<subseteq> pool_pages (state (pp_pool w))) \<and>
    owns (page_alloc (pp_pool w)) ((\<Union>t. pending (pp_pc w t)) \<union> seg_regions (state (pp_pool w))) \<and>
    (\<forall>e. at_event e w \<longrightarrow> (\<exists>w'. pool_exec A e w = Some w' \<and>
       (\<forall>u. \<not> stores e u \<longrightarrow> keeps (pp_hold w u \<inter> pp_hold w' u) (pp_mem w) (pp_mem w'))))"
proof -
  have W: "procs_ok owns w"
    using page_allocator.reachable_ok [OF assms(1,3)] procs_init_ok [of owns, OF assms(2)] by blast
  then show ?thesis
    using procs_ok_disjoint [OF W] page_allocator.every_step [OF assms(1) W] unfolding step_ok_def by blast
qed

theorem pool_threads_safe_witness:
  "\<exists>w. trace (pool_step bump_pages) race_start [Take 0, Take 1, MapSegment 0, MapSegment 1, Install 0, Install 1] w \<and>
     pp_hold w 0 = {65536} \<and> pp_hold w 1 = {2228224} \<and> {65536, 2228224} \<subseteq> pool_pages (state (pp_pool w)) \<and>
     (\<exists>w'. pool_exec bump_pages (Give 1 2228224) w = Some w' \<and> keeps (pp_hold w 0 \<inter> pp_hold w' 0) (pp_mem w) (pp_mem w'))"
proof -
  obtain w where w: "trace (pool_step bump_pages) race_start [Take 0, Take 1, MapSegment 0, MapSegment 1, Install 0, Install 1] w"
      "pp_hold w 0 = {65536}" "pp_hold w 1 = {2228224}" "pp_pc w 0 = Idle" "pp_pc w 1 = Idle"
    using race_run guarded_trace by blast
  have "owns_pages fst ({}, 16) {}" by (simp add: owns_pages_def)
  note S = pool_threads_safe [OF bump_contract this w(1) [unfolded race_start_def]]
  have "pp_hold w 0 \<union> buffers (pp_pc w 0) \<subseteq> pool_pages (state (pp_pool w))"
      "pp_hold w 1 \<union> buffers (pp_pc w 1) \<subseteq> pool_pages (state (pp_pool w))" using S by blast+
  moreover have "at_event (Give 1 2228224) w" "\<not> stores (Give 1 2228224) 0" using w by simp_all
  then have "\<exists>w'. pool_exec bump_pages (Give 1 2228224) w = Some w' \<and> keeps (pp_hold w 0 \<inter> pp_hold w' 0) (pp_mem w) (pp_mem w')"
    using S by blast
  ultimately show ?thesis using w by auto
qed

text \<open>
  C6. A thread inside \<open>alloc_slab\<close> or \<open>dealloc_slab\<close> leaves the operation after a bounded number of its
  own steps, whatever the other threads do: in a run in which it starts no new operation, the steps it
  takes and the steps it still needs are together at most what it needed at the beginning, which is at
  most one purge batch and two critical sections; and while it is inside, its next step is enabled and
  succeeds. Holding the lock is one step, so no thread waits for another outside a critical section.
\<close>

theorem pool_operations_end:
  assumes "page_allocator A owns" and "owns pa {}" and "trace (pool_step A) (procs_init pa m) es0 w"
    and "trace (pool_step A) w es w'" and "\<forall>e \<in> set es. \<not> starts t e"
  shows "length (filter (continues t) es) + remaining (pp_pc w' t) \<le> remaining (pp_pc w t) \<and>
    remaining (pp_pc w t) \<le> PURGE_BATCH + 2 \<and> (remaining (pp_pc w' t) = 0 \<longleftrightarrow> pp_pc w' t = Idle) \<and>
    (pp_pc w' t \<noteq> Idle \<longrightarrow> (\<exists>e w''. continues t e \<and> pool_step A w' e w'' \<and> remaining (pp_pc w'' t) < remaining (pp_pc w' t)))"
proof -
  have "procs_ok owns w'"
    using page_allocator.reachable_ok [OF assms(1)] assms(3,4) procs_init_ok [of owns, OF assms(2)] by blast
  note S = page_allocator.every_step [OF assms(1) this]
  have "\<exists>e w''. continues t e \<and> pool_step A w' e w'' \<and> remaining (pp_pc w'' t) < remaining (pp_pc w' t)" if b: "pp_pc w' t \<noteq> Idle"
  proof -
    obtain e where e: "continues t e" "at_event e w'" using busy_continues [OF b] by blast
    then obtain w'' where "pool_step A w' e w''" using S unfolding pool_step_def by blast
    then show ?thesis using e(1) continue_step by blast
  qed
  moreover have "remaining (pp_pc w' t) = 0 \<longleftrightarrow> pp_pc w' t = Idle" by (cases "pp_pc w' t") simp_all
  ultimately show ?thesis using steps_bounded [OF assms(4,5)] reachable_remaining [OF assms(3)] by blast
qed

theorem pool_operations_end_witness:
  "\<exists>w w'. trace (pool_step bump_pages) race_start [Take 0, Take 1] w \<and>
     trace (pool_step bump_pages) w [MapSegment 0, MapSegment 1, Install 0, Install 1] w' \<and>
     2 + remaining (pp_pc w' 1) \<le> remaining (pp_pc w 1)"
proof -
  obtain w0 where "trace (pool_step bump_pages) race_start [Take 0, Take 1, MapSegment 0, MapSegment 1, Install 0, Install 1] w0"
    using race_run guarded_trace by blast
  then obtain w where w: "trace (pool_step bump_pages) race_start [Take 0, Take 1] w"
      "trace (pool_step bump_pages) w [MapSegment 0, MapSegment 1, Install 0, Install 1] w0"
    by (elim trace_consE) (meson trace.intros)
  have "owns_pages fst ({}, 16) {}" by (simp add: owns_pages_def)
  note E = pool_operations_end [OF bump_contract this w(1) [unfolded race_start_def] w(2), of 1]
  have "2 + remaining (pp_pc w0 1) \<le> remaining (pp_pc w 1)" using E by simp
  then show ?thesis using w by blast
qed

end
