(* ===== verification/Pool_Drop.thy ===== *)
theory Pool_Drop
  imports Pool_Correct
begin

text \<open>
  Dropping a page pool (\<open>Drop for PagePool\<close> of \<open>src/src/pool.rs\<close>): the pages of the lock-free cache
  are returned one by one, which may purge pages and release segments on the way, then the segments
  that are left go back to the page allocator. The theorem shows that the loop ends and that the page
  allocator gets back everything the pool ever mapped for slabs.
\<close>

lemma uncache_head:
  assumes "chain (read_next (bytes s)) (slab_cache pool) (x # xs)"
  shows "uncache_slab pool s = (Some x, pool\<lparr>slab_cache := read_next (bytes s) x, slab_cache_len := slab_cache_len pool - 1\<rparr>)"
  using assms by (auto simp: uncache_slab_def)

lemma uncache_nil: "chain (read_next (bytes s)) (slab_cache pool) [] \<Longrightarrow> uncache_slab pool s = (None, pool)"
  by (simp add: uncache_slab_def)

lemma chain_keeps: "chain (read_next m) p xs \<Longrightarrow> keeps (set xs) m m' \<Longrightarrow> chain (read_next m') p xs"
proof -
  assume "chain (read_next m) p xs" and k: "keeps (set xs) m m'"
  moreover have "read_next m x = read_next m' x" if "x \<in> set xs" for x
    using k that by (intro read_next_cong) (simp add: keeps_def geom_simps)
  ultimately show "chain (read_next m') p xs" using chain_cong [of xs "read_next m" "read_next m'" p] by simp
qed

context page_allocator
begin

lemma drop_cache_ok:
  assumes "pool_inv owns pool (bytes s) R H" "chain (read_next (bytes s)) (slab_cache pool) xs" "set xs \<subseteq> H"
  shows "\<exists>pool' s'. drop_cache A pool s = Some (pool', s') \<and> slab_cache pool' = null \<and>
    keeps (H - set xs) (bytes s) (bytes s') \<and> keeps_regions R (bytes s) (bytes s') \<and>
    pool_inv owns pool' (bytes s') R (H - set xs)"
  using assms
proof (induction xs arbitrary: pool s H)
  case Nil
  then show ?case using uncache_nil [OF Nil.prems(2)] by (subst drop_cache.simps) simp
next
  case (Cons x xs)
  define pool1 where "pool1 = pool\<lparr>slab_cache := read_next (bytes s) x, slab_cache_len := slab_cache_len pool - 1\<rparr>"
  note u = uncache_head [OF Cons.prems(2), folded pool1_def]
  have x: "x \<in> H" "x \<notin> set xs" using Cons.prems(3) chain_distinct [OF Cons.prems(2)] by simp_all
  have I: "pool_inv owns pool1 (bytes s) R H" using Cons.prems(1) by (simp add: pool1_def pool_inv_def)
  from dealloc_slab_ok [OF this x(1)] obtain pool2 s2 where d: "dealloc_slab A x pool1 s = Some (pool2, s2)"
      "same_links pool1 s pool2 s2" "keeps (H - {x}) (bytes s) (bytes s2)" "keeps_regions R (bytes s) (bytes s2)"
      "pool_inv owns pool2 (bytes s2) R (H - {x})" by blast
  have sub: "set xs \<subseteq> H - {x}" using Cons.prems(3) x(2) by auto
  have "slab_cache pool2 = read_next (bytes s) x" using d(2) by (simp add: same_links_def pool1_def)
  then have "chain (read_next (bytes s2)) (slab_cache pool2) xs"
    using Cons.prems(2) chain_keeps [OF _ keeps_mono [OF d(3) sub]] by simp
  from Cons.IH [OF d(5) this sub] obtain pool' s' where r: "drop_cache A pool2 s2 = Some (pool', s')" "slab_cache pool' = null"
      "keeps (H - {x} - set xs) (bytes s2) (bytes s')" "keeps_regions R (bytes s2) (bytes s')"
      "pool_inv owns pool' (bytes s') R (H - {x} - set xs)" by blast
  have e: "H - {x} - set xs = H - set (x # xs)" by auto
  have "keeps (H - set (x # xs)) (bytes s) (bytes s')"
    using keeps_trans [OF keeps_mono [OF d(3)] r(3) [unfolded e]] by auto
  moreover have "keeps_regions R (bytes s) (bytes s')" using d(4) r(4) by (rule keeps_regions_trans)
  moreover have "drop_cache A pool s = Some (pool', s')" using u d(1) r(1) by (subst drop_cache.simps) simp
  ultimately show ?case using r(2,5) unfolding e by blast
qed

lemma release_segments:
  assumes "owns p (R \<union> (\<lambda>b. (b, SEGMENT_SIZE)) ` set bs)" "distinct bs" "\<forall>b \<in> set bs. b \<noteq> null \<and> (b, SEGMENT_SIZE) \<notin> R"
    "fold (\<lambda>b pm. if b = null then pm else pa_dealloc A b segment_layout pm) bs (p, m) = (p', m')"
  shows "owns p' R \<and> keeps_regions R m m'"
  using assms
proof (induction bs arbitrary: p m)
  case (Cons b bs)
  let ?Q = "(\<lambda>b. (b, SEGMENT_SIZE)) ` set bs"
  obtain p1 m1 where d: "pa_dealloc A b segment_layout (p, m) = (p1, m1)" by fastforce
  have e: "R \<union> (\<lambda>b. (b, SEGMENT_SIZE)) ` set (b # bs) - {(b, SEGMENT_SIZE)} = R \<union> ?Q" using Cons.prems(2,3) by auto
  have M: "owns p1 (R \<union> ?Q)" "keeps_regions (R \<union> ?Q) m m1"
    using dealloc_ok [OF Cons.prems(1) _ d, unfolded segment_layout_ok(3) e] by (auto simp: keeps_regions_def)
  have "owns p' R \<and> keeps_regions R m1 m'"
    using Cons.prems(2-4) d by (intro Cons.IH [OF M(1)]) auto
  then show ?case using M(2) keeps_regions_trans by auto
qed simp

lemma pool_drop_ok:
  assumes I: "pool_inv owns pool (bytes s) R H" and c: "chain (read_next (bytes s)) (slab_cache pool) xs" "set xs \<subseteq> H"
  shows "\<exists>p m. pool_drop A pool s = Some (p, m) \<and> owns p R \<and> keeps_regions R (bytes s) m"
proof -
  obtain pool1 s1 where d: "drop_cache A pool s = Some (pool1, s1)" "keeps_regions R (bytes s) (bytes s1)"
      "pool_inv owns pool1 (bytes s1) R (H - set xs)" using drop_cache_ok [OF I c] by blast
  let ?release = "\<lambda>b pm. if b = null then pm else pa_dealloc A b segment_layout pm"
  obtain p m where f: "fold ?release (seg_list (state pool1)) (page_alloc pool1, bytes s1) = (p, m)" by fastforce
  have segs: "segs_ok (seg_list (state pool1))" and own: "owns (page_alloc pool1) (R \<union> seg_regions (state pool1))"
    and dis: "\<forall>r \<in> R. \<forall>q \<in> seg_regions (state pool1). disjoint_regions r q"
    using d(3) by (auto elim: pool_invD)
  have "(b, SEGMENT_SIZE) \<notin> R" if "b \<in> set (seg_list (state pool1))" for b
    using that dis disjoint_regions_sym by (intro disjoint_not_mem) (auto simp: seg_regions_def)
  then have "distinct (seg_list (state pool1))" "\<forall>b \<in> set (seg_list (state pool1)). b \<noteq> null \<and> (b, SEGMENT_SIZE) \<notin> R"
    using segs by (auto simp: segs_ok_def seg_base_ok_def)
  from release_segments [OF own [unfolded seg_regions_def] this f]
  have "owns p R" "keeps_regions R (bytes s) m" using d(2) keeps_regions_trans by blast+
  moreover have "pool_drop A pool s = Some (p, m)"
    using d(1) f by (simp add: pool_drop_def seg_list_def fold_map comp_def)
  ultimately show ?thesis by blast
qed

end

text \<open>
  C31. Dropping the page pool: the loop over the page cache ends and no step panics, and afterwards
  the page allocator holds exactly the regions \<open>R\<close> of the large allocations that are still live, with
  their contents; all segments have been returned once, those released while the cache was emptied
  and those left at the end.
\<close>

theorem pool_drop_returns_all:
  assumes "page_allocator A owns" and "pool_inv owns pool (bytes s) R held"
    and "chain (read_next (bytes s)) (slab_cache pool) xs" and "set xs \<subseteq> held"
  shows "\<exists>p m. pool_drop A pool s = Some (p, m) \<and> owns p R \<and> keeps_regions R (bytes s) m"
  using page_allocator.pool_drop_ok [OF assms] .

theorem pool_drop_returns_all_witness:
  "\<exists>pool s pool1 s1 p m. alloc_slab bump_pages bump_pool zero_store = Some (Some 65536, pool, s) \<and>
     cache_slab bump_pages 65536 pool s = Some (pool1, s1) \<and> slab_cache pool1 = 65536 \<and>
     pool_drop bump_pages pool1 s1 = Some (p, m) \<and> owns_pages fst p {}"
proof -
  obtain pool s where p: "alloc_slab bump_pages bump_pool zero_store = Some (Some 65536, pool, s)"
    using bump_alloc by blast
  have a: "pool_inv (owns_pages fst) pool (bytes s) {} {65536}" "same_links bump_pool zero_store pool s"
    using page_allocator.alloc_slab_ok [OF bump_contract bump_pool_inv] p by fastforce+
  then have c: "slab_cache pool = 0" "slab_cache_len pool = 0" by (simp_all add: same_links_def bump_pool_def PagePool_new_def)
  define s1 where "s1 = s\<lparr>bytes := write_next (bytes s) 65536 0\<rparr>"
  define pool1 where "pool1 = pool\<lparr>slab_cache := 65536, slab_cache_len := 1\<rparr>"
  have ca: "cache_slab bump_pages 65536 pool s = Some (pool1, s1)"
    using c by (simp add: cache_slab_def s1_def pool1_def SLAB_CACHE_MAX_def)
  have "touches {65536} (bytes s) (bytes s1)"
    by (auto simp: touches_def s1_def geom_simps intro!: write_next_outside)
  then have "pool_inv (owns_pages fst) pool (bytes s1) {} {65536}" using held_pages_change(1) [OF a(1)] by blast
  then have I: "pool_inv (owns_pages fst) pool1 (bytes s1) {} {65536}" by (simp add: pool_inv_def pool1_def)
  have "chain (read_next (bytes s1)) (slab_cache pool1) [65536]" by (simp add: s1_def pool1_def read_write_next)
  then show ?thesis using pool_drop_returns_all [OF bump_contract I, of "[65536]"] p ca by (auto simp: pool1_def)
qed

end
