(* ===== verification/Heap.thy ===== *)
theory Heap
  imports Pool
begin

text \<open>
  Thread-local heaps (\<open>src/src/heap.rs\<close>), in the build with the \<open>metrics\<close> feature and without the
  \<open>pprof\<close> feature. A heap has an active slab per size class (\<open>bins\<close>); its full and partial queues
  are slab lists whose head fields are part of the \<open>store\<close>, named by the heap's id, the kind of
  queue and the class. The operations take and return the heap, the pool and the store
  (\<open>'p heap_world\<close>).

  \<open>None\<close> is a panic, a write through a null link or a loop that does not end. \<open>alloc\<close> calls itself
  after it has installed another active slab, and the queue walks follow links, so these are
  partial functions; the theory \<open>Heap_Correct\<close> shows that they return.
\<close>

record heap =
  hid :: u64
  bins :: "nat \<Rightarrow> addr option"
  hmetrics :: HeapMetrics

type_synonym 'p heap_world = "heap \<times> 'p PagePool \<times> store"

text \<open>\<open>fetch_add\<close> on the static counter: the id and the counter's new value.\<close>

definition next_heap_id :: "u64 \<Rightarrow> u64 \<times> u64" where
  "next_heap_id counter = (counter, counter + 1)"

text \<open>The new heap's queues are empty: their head fields are cleared in the store.\<close>

definition Heap_new :: "u64 \<Rightarrow> store \<Rightarrow> heap \<times> u64 \<times> store" where
  "Heap_new counter s =
    (let (i, counter') = next_heap_id counter in
     (\<lparr>hid = i, bins = (\<lambda>_. None), hmetrics = HeapMetrics_ZERO\<rparr>, counter',
      s\<lparr>heads := (\<lambda>(j, k, c). if j = i then None else heads s (j, k, c))\<rparr>))"

definition set_bin :: "nat \<Rightarrow> addr option \<Rightarrow> heap \<Rightarrow> heap" where
  "set_bin c b h = h\<lparr>bins := (bins h)(c := b)\<rparr>"

definition count_alloc :: "nat \<Rightarrow> nat \<Rightarrow> heap \<Rightarrow> heap" where
  "count_alloc idx sz h = h\<lparr>hmetrics := on_alloc idx sz (hmetrics h)\<rparr>"

subsection \<open>Queues and reclaiming\<close>

definition try_partial :: "nat \<Rightarrow> 'p heap_world \<Rightarrow> bool \<times> 'p heap_world" where
  "try_partial class_idx = (\<lambda>(h, pool, s).
     case slab_list_pop (hid h, Partial, class_idx) s of
       (Some slab, s1) \<Rightarrow> (True, set_bin class_idx (Some slab) h, pool, s1)
     | (None, s1) \<Rightarrow> (False, h, pool, s1))"

text \<open>What \<open>scan_full_list\<close> does with one slab of the full queue, after reading its link.\<close>

definition scan_slab :: "'p PageAllocator \<Rightarrow> nat \<Rightarrow> addr \<Rightarrow> 'p heap_world \<Rightarrow> 'p heap_world option" where
  "scan_slab A class_idx base = (\<lambda>(h, pool, s).
     do {
       s1 \<leftarrow> (if has_pending_remote base s then map_option snd (drain_remote base s) else Some s);
       if is_fully_free base s1
       then do {
         s2 \<leftarrow> slab_list_remove base s1;
         (pool1, s3) \<leftarrow> cache_slab A base pool s2;
         Some (h, pool1, s3)
       }
       else if free_count base s1 > 0
       then do {
         s2 \<leftarrow> slab_list_remove base s1;
         if bins h class_idx = None then Some (set_bin class_idx (Some base) h, pool, s2)
         else Some (h, pool, slab_list_push (hid h, Partial, class_idx) base s2)
       }
       else Some (h, pool, s1)
     })"

partial_function (option) scan_loop ::
  "'p PageAllocator \<Rightarrow> nat \<Rightarrow> addr option \<Rightarrow> 'p heap_world \<Rightarrow> 'p heap_world option" where
  "scan_loop A class_idx current w =
    (case current of
       None \<Rightarrow> Some w
     | Some base \<Rightarrow>
         do {
           w1 \<leftarrow> scan_slab A class_idx base w;
           scan_loop A class_idx (next_link (hdr (snd (snd w)) base)) w1
         })"

definition scan_full_list :: "'p PageAllocator \<Rightarrow> nat \<Rightarrow> 'p heap_world \<Rightarrow> 'p heap_world option" where
  "scan_full_list A class_idx w =
    (case w of (h, pool, s) \<Rightarrow> scan_loop A class_idx (heads s (hid h, Full, class_idx)) w)"

definition reclaim_slab :: "'p PageAllocator \<Rightarrow> addr \<Rightarrow> 'p heap_world \<Rightarrow> 'p heap_world option" where
  "reclaim_slab A target = (\<lambda>(h, pool, s).
     do {
       s1 \<leftarrow> slab_list_remove target s;
       (pool1, s2) \<leftarrow> cache_slab A target pool s1;
       Some (h, pool1, s2)
     })"

definition retire_active :: "nat \<Rightarrow> 'p heap_world \<Rightarrow> 'p heap_world" where
  "retire_active class_idx = (\<lambda>(h, pool, s).
     case bins h class_idx of
       None \<Rightarrow> (h, pool, s)
     | Some slab \<Rightarrow> (set_bin class_idx None h, pool, slab_list_push (hid h, Full, class_idx) slab s))"

text \<open>Draining a slab and giving it to the cache when it is free, to the abandoned list otherwise.\<close>

definition give_up_slab :: "'p PageAllocator \<Rightarrow> addr \<Rightarrow> 'p PagePool \<Rightarrow> store \<Rightarrow> ('p PagePool \<times> store) option" where
  "give_up_slab A slab pool s =
    do {
      (n, s1) \<leftarrow> drain_remote slab s;
      if is_fully_free slab s1 then cache_slab A slab pool s1 else abandon_slab slab pool s1
    }"

definition retire_slab :: "'p PageAllocator \<Rightarrow> nat \<Rightarrow> 'p heap_world \<Rightarrow> 'p heap_world option" where
  "retire_slab A class_idx = (\<lambda>(h, pool, s).
     case bins h class_idx of
       None \<Rightarrow> Some (h, pool, s)
     | Some slab \<Rightarrow>
         do {
           (pool1, s1) \<leftarrow> give_up_slab A slab pool s;
           Some (set_bin class_idx None h, pool1, s1)
         })"

subsection \<open>Adoption and new slabs\<close>

text \<open>One iteration of the walk over adopted slabs.\<close>

definition adopt_slab :: "'p PageAllocator \<Rightarrow> nat \<Rightarrow> addr \<Rightarrow> addr option \<times> 'p heap_world \<Rightarrow> (addr option \<times> 'p heap_world) option" where
  "adopt_slab A class_idx slab = (\<lambda>(result, h, pool, s0).
     do {
       let s1 = set_heap_id slab (hid h) (set_prev_link slab NullLoc (set_next_link slab None s0));
       (n, s2) \<leftarrow> drain_remote slab s1;
       let pool1 = inc_adopt_count class_idx pool;
       if is_fully_free slab s2
       then do { (pool2, s3) \<leftarrow> cache_slab A slab pool1 s2; Some (result, h, pool2, s3) }
       else
         (case (if result = None then slab_alloc slab s2 else (None, s2)) of
            (Some ptr, s3) \<Rightarrow> Some (Some ptr, set_bin class_idx (Some slab) h, pool1, s3)
          | (None, s3) \<Rightarrow>
              if free_count slab s3 > 0
              then Some (result, h, pool1, slab_list_push (hid h, Partial, class_idx) slab s3)
              else Some (result, h, pool1, slab_list_push (hid h, Full, class_idx) slab s3))
     })"

partial_function (option) adopt_loop ::
  "'p PageAllocator \<Rightarrow> nat \<Rightarrow> addr option \<Rightarrow> addr option \<times> 'p heap_world \<Rightarrow> (addr option \<times> 'p heap_world) option" where
  "adopt_loop A class_idx slab_opt rw =
    (case slab_opt of
       None \<Rightarrow> Some rw
     | Some slab \<Rightarrow>
         do {
           rw1 \<leftarrow> adopt_slab A class_idx slab rw;
           adopt_loop A class_idx (next_link (hdr (snd (snd (snd rw))) slab)) rw1
         })"

definition try_adopt :: "'p PageAllocator \<Rightarrow> nat \<Rightarrow> 'p heap_world \<Rightarrow> (addr option \<times> 'p heap_world) option" where
  "try_adopt A class_idx = (\<lambda>(h, pool, s).
     case adopt_all class_idx pool of
       (slab_opt, pool1) \<Rightarrow> adopt_loop A class_idx slab_opt (None, h, pool1, s))"

definition request_slab :: "'p PageAllocator \<Rightarrow> nat \<Rightarrow> nat \<Rightarrow> 'p heap_world \<Rightarrow> (addr option \<times> 'p heap_world) option" where
  "request_slab A class_idx cs w =
    do {
      (r, h, pool, s) \<leftarrow> try_adopt A class_idx w;
      (case r of
         Some ptr \<Rightarrow> Some (Some ptr, count_alloc class_idx cs h, pool, s)
       | None \<Rightarrow>
           do {
             (raw, pool1, s1) \<leftarrow> (case uncache_slab pool s of
                 (Some base, pool1) \<Rightarrow> Some (Some base, pool1, s)
               | (None, pool1) \<Rightarrow> alloc_slab A pool1 s);
             (case raw of
                None \<Rightarrow> Some (None, h, pool1, s1)
              | Some base \<Rightarrow>
                  (let s2 = slab_init base (of_nat class_idx) (hid h) s1;
                       (ptr, s3) = slab_alloc base s2;
                       h1 = set_bin class_idx (Some base) h
                   in Some (ptr, if ptr = None then h1 else count_alloc class_idx cs h1, pool1, s3)))
           })
    }"

subsection \<open>Allocation and deallocation\<close>

text \<open>
  The attempt on the active slab: an allocated slot, or the world after the exhausted slab was
  retired (or unchanged when there is no active slab).
\<close>

definition alloc_active :: "nat \<Rightarrow> nat \<Rightarrow> 'p heap_world \<Rightarrow> (addr option \<times> 'p heap_world) option" where
  "alloc_active idx cs = (\<lambda>(h, pool, s).
     case bins h idx of
       None \<Rightarrow> Some (None, h, pool, s)
     | Some slab \<Rightarrow>
        (case slab_alloc slab s of
           (Some ptr, s1) \<Rightarrow> Some (Some ptr, count_alloc idx cs h, pool, s1)
         | (None, s1) \<Rightarrow>
             do {
               (n, s2) \<leftarrow> drain_remote slab s1;
               (case slab_alloc slab s2 of
                  (Some ptr, s3) \<Rightarrow> Some (Some ptr, count_alloc idx cs h, pool, s3)
                | (None, s3) \<Rightarrow> Some (None, retire_active idx (h, pool, s3)))
             }))"

definition heap_alloc_large :: "'p PageAllocator \<Rightarrow> layout \<Rightarrow> 'p heap_world \<Rightarrow> addr option \<times> 'p heap_world" where
  "heap_alloc_large A l = (\<lambda>(h, pool, s).
     case alloc_large A l pool s of
       (None, pool1, s1) \<Rightarrow> (None, h, pool1, s1)
     | (Some ptr, pool1, s1) \<Rightarrow> (Some ptr, h\<lparr>hmetrics := on_large_alloc (lsize l) (hmetrics h)\<rparr>, pool1, s1))"

partial_function (option) heap_alloc ::
  "'p PageAllocator \<Rightarrow> layout \<Rightarrow> 'p heap_world \<Rightarrow> (addr option \<times> 'p heap_world) option" where
  "heap_alloc A l w =
    (case class_index l of
       None \<Rightarrow> Some (heap_alloc_large A l w)
     | Some idx \<Rightarrow>
         do {
           (r, w1) \<leftarrow> alloc_active idx (class_size idx) w;
           if r \<noteq> None then Some (r, w1)
           else let (found, w2) = try_partial idx w1 in
             if found then heap_alloc A l w2
             else do {
               w3 \<leftarrow> scan_full_list A idx w2;
               if bins (fst w3) idx \<noteq> None then heap_alloc A l w3
               else let (found2, w4) = try_partial idx w3 in
                 if found2 then heap_alloc A l w4
                 else request_slab A idx (class_size idx) w4
             }
         })"

definition heap_dealloc :: "'p PageAllocator \<Rightarrow> addr \<Rightarrow> layout \<Rightarrow> 'p heap_world \<Rightarrow> 'p heap_world option" where
  "heap_dealloc A ptr l = (\<lambda>(h, pool, s).
     case class_index l of
       None \<Rightarrow>
         (case dealloc_large A ptr l pool s of
            (pool1, s1) \<Rightarrow> Some (h\<lparr>hmetrics := on_large_dealloc (lsize l) (hmetrics h)\<rparr>, pool1, s1))
     | Some idx \<Rightarrow>
         (let h1 = h\<lparr>hmetrics := on_dealloc idx (class_size idx) (hmetrics h)\<rparr>;
              slab = slab_from_ptr ptr
          in if (case bins h1 idx of Some active_slab \<Rightarrow> header_eq active_slab slab | None \<Rightarrow> False)
             then Some (h1, pool, dealloc_local slab ptr s)
             else if heap_id (hdr s slab) = hid h1
             then (let s1 = dealloc_local slab ptr s in
                   if is_fully_free slab s1 then reclaim_slab A slab (h1, pool, s1)
                   else if free_count slab s1 = 1
                   then do {
                     s2 \<leftarrow> slab_list_remove slab s1;
                     if bins h1 idx = None then Some (set_bin idx (Some slab) h1, pool, s2)
                     else Some (h1, pool, slab_list_push (hid h1, Partial, idx) slab s2)
                   }
                   else Some (h1, pool, s1))
             else Some (h1\<lparr>hmetrics := on_remote_free 1 (hmetrics h1)\<rparr>, pool, dealloc_remote slab ptr s)))"

subsection \<open>Dropping a heap\<close>

partial_function (option) drop_queue ::
  "'p PageAllocator \<Rightarrow> head_id \<Rightarrow> 'p PagePool \<times> store \<Rightarrow> ('p PagePool \<times> store) option" where
  "drop_queue A q ps =
    (case slab_list_pop q (snd ps) of
       (None, s1) \<Rightarrow> Some (fst ps, s1)
     | (Some slab, s1) \<Rightarrow>
         do {
           ps1 \<leftarrow> give_up_slab A slab (fst ps) s1;
           drop_queue A q ps1
         })"

definition drop_class :: "'p PageAllocator \<Rightarrow> nat \<Rightarrow> 'p heap_world \<Rightarrow> 'p heap_world option" where
  "drop_class A idx w =
    do {
      (h, pool, s) \<leftarrow> retire_slab A idx w;
      ps1 \<leftarrow> drop_queue A (hid h, Full, idx) (pool, s);
      ps2 \<leftarrow> drop_queue A (hid h, Partial, idx) ps1;
      Some (h, ps2)
    }"

fun drop_classes :: "'p PageAllocator \<Rightarrow> nat list \<Rightarrow> 'p heap_world \<Rightarrow> 'p heap_world option" where
  "drop_classes A [] w = Some w"
| "drop_classes A (idx # rest) w = do { w1 \<leftarrow> drop_class A idx w; drop_classes A rest w1 }"

definition heap_drop :: "'p PageAllocator \<Rightarrow> 'p heap_world \<Rightarrow> 'p heap_world option" where
  "heap_drop A w = drop_classes A [0..<NUM_CLASSES] w"

end
