(* ===== verification/Heap_Invariant.thy ===== *)
theory Heap_Invariant
  imports Heap Pool_Correct
begin

text \<open>
  The invariant of all heaps over one pool. Ghost state records where every page that is outside
  the pool's free lists is: in the bin or a queue of a heap, on an abandoned list, on the chain a
  heap is adopting (\<open>Walk\<close>), in the page cache, or in the hands of the running operation, as a slab
  (\<open>Loose\<close>) or as a raw page (\<open>Page\<close>). A page has one place, so no slab is in two structures. It
  also records the allocated slots (\<open>live\<close>), the size class each was allocated with (\<open>lcls\<close>), the
  large regions, and what the program stored in its allocations (\<open>img\<close>): the invariant says that the
  memory still holds it.

  \<open>ids\<close> are the existing heaps, \<open>used\<close> all ids ever given out. \<open>busy\<close> is a slab that is about to
  change queue because its free count changed; \<open>dying\<close> are the heaps being dropped, whose
  abandoned slabs still carry their id.
\<close>

datatype place = Bin u64 nat | Queue u64 list_kind nat | Aband nat | Walk | Loose | Cache | Page

record ghost =
  ids :: "u64 set"
  used :: "u64 set"
  dying :: "u64 set"
  busy :: addr
  place_of :: "addr \<Rightarrow> place option"
  queue :: "head_id \<Rightarrow> addr list"
  abq :: "nat \<Rightarrow> addr list"
  walk :: "addr list"
  wcls :: nat
  cached :: "addr list"
  live :: "addr set"
  lcls :: "addr \<Rightarrow> nat"
  img :: memory
  large :: "region set"

definition is_slab :: "place \<Rightarrow> bool" where
  "is_slab pl \<longleftrightarrow> pl \<noteq> Cache \<and> pl \<noteq> Page"

definition block :: "addr \<Rightarrow> addr set" where
  "block b = {b..<b + SLAB_SIZE}"

definition cls :: "store \<Rightarrow> addr \<Rightarrow> nat" where
  "cls s b = unat (size_class_index (hdr s b))"

definition holds :: "memory \<Rightarrow> memory \<Rightarrow> addr \<Rightarrow> nat \<Rightarrow> bool" where
  "holds m M p n \<longleftrightarrow> (\<forall>a. p \<le> a \<and> a < p + n \<longrightarrow> m a = M a)"

definition fill :: "memory \<Rightarrow> addr \<Rightarrow> nat \<Rightarrow> memory \<Rightarrow> memory" where
  "fill M p n m = (\<lambda>a. if p \<le> a \<and> a < p + n then m a else M a)"

definition slab_at :: "store \<Rightarrow> addr \<Rightarrow> addr set \<Rightarrow> (addr \<Rightarrow> nat) \<Rightarrow> memory \<Rightarrow> bool" where
  "slab_at s b L K M \<longleftrightarrow> (\<exists>loc rem. slab_ok s b (cls s b) loc rem (L \<inter> block b)) \<and>
     (\<forall>p \<in> L \<inter> block b. K p = cls s b \<and> holds (bytes s) M p (class_size (cls s b)))"

text \<open>Chains through the \<open>next_link\<close> fields of slab headers.\<close>

fun schain :: "store \<Rightarrow> addr option \<Rightarrow> addr list \<Rightarrow> bool" where
  "schain s p [] \<longleftrightarrow> p = None"
| "schain s p (x # xs) \<longleftrightarrow> p = Some x \<and> schain s (next_link (hdr s x)) xs"

definition place_ok :: "ghost \<Rightarrow> store \<Rightarrow> addr \<Rightarrow> place \<Rightarrow> bool" where
  "place_ok G s b pl = (case pl of
      Bin i c \<Rightarrow> i \<in> ids G \<and> c < NUM_CLASSES \<and> heap_id (hdr s b) = i \<and> cls s b = c
    | Queue i k c \<Rightarrow> i \<in> ids G \<and> c < NUM_CLASSES \<and> heap_id (hdr s b) = i \<and> cls s b = c \<and>
        (b \<noteq> busy G \<longrightarrow> (k = Full \<longleftrightarrow> free_count b s = 0))
    | Aband c \<Rightarrow> c < NUM_CLASSES \<and> cls s b = c \<and> heap_id (hdr s b) \<in> used G - (ids G - dying G)
    | Walk \<Rightarrow> cls s b = wcls G
    | _ \<Rightarrow> True)"

definition bins_ok :: "ghost \<Rightarrow> (u64 \<Rightarrow> heap) \<Rightarrow> bool" where
  "bins_ok G hs \<longleftrightarrow> ids G \<subseteq> used G \<and> (\<forall>i \<in> ids G. hid (hs i) = i \<and> (\<forall>c b. bins (hs i) c = Some b \<longleftrightarrow> place_of G b = Some (Bin i c)))"

definition queues_ok :: "ghost \<Rightarrow> store \<Rightarrow> bool" where
  "queues_ok G s \<longleftrightarrow> (\<forall>i \<in> ids G. \<forall>k c. dll s (i, k, c) (queue G (i, k, c)) \<and>
     set (queue G (i, k, c)) = {b. place_of G b = Some (Queue i k c)})"

definition aband_ok :: "ghost \<Rightarrow> 'p PagePool \<Rightarrow> store \<Rightarrow> bool" where
  "aband_ok G pool s \<longleftrightarrow> (\<forall>c < NUM_CLASSES. schain s (nonnull (abandoned pool c)) (abq G c) \<and> distinct (abq G c) \<and>
     set (abq G c) = {b. place_of G b = Some (Aband c)})"

definition walk_ok :: "ghost \<Rightarrow> store \<Rightarrow> addr option \<Rightarrow> bool" where
  "walk_ok G s w \<longleftrightarrow> schain s w (walk G) \<and> distinct (walk G) \<and> set (walk G) = {b. place_of G b = Some Walk}"

definition cache_list_ok :: "ghost \<Rightarrow> 'p PagePool \<Rightarrow> memory \<Rightarrow> bool" where
  "cache_list_ok G pool m \<longleftrightarrow> chain (read_next m) (slab_cache pool) (cached G) \<and> slab_cache_len pool = length (cached G) \<and>
     set (cached G) = {b. place_of G b = Some Cache}"

definition slabs_ok :: "ghost \<Rightarrow> store \<Rightarrow> bool" where
  "slabs_ok G s \<longleftrightarrow> (\<forall>b pl. place_of G b = Some pl \<longrightarrow> is_slab pl \<longrightarrow> slab_at s b (live G) (lcls G) (img G) \<and> place_ok G s b pl)"

definition live_ok :: "ghost \<Rightarrow> bool" where
  "live_ok G \<longleftrightarrow> (\<forall>p \<in> live G. \<exists>b pl. place_of G b = Some pl \<and> is_slab pl \<and> p \<in> block b)"

definition sys_ok ::
  "('p \<Rightarrow> region set \<Rightarrow> bool) \<Rightarrow> ghost \<Rightarrow> (u64 \<Rightarrow> heap) \<Rightarrow> 'p PagePool \<Rightarrow> store \<Rightarrow> addr option \<Rightarrow> bool" where
  "sys_ok owns G hs pool s w \<longleftrightarrow>
     pool_inv owns pool (bytes s) (large G) (dom (place_of G)) \<and> bins_ok G hs \<and> queues_ok G s \<and>
     aband_ok G pool s \<and> walk_ok G s w \<and> cache_list_ok G pool (bytes s) \<and> slabs_ok G s \<and> live_ok G \<and>
     keeps_regions (large G) (img G) (bytes s)"

text \<open>Between operations nothing is in transit.\<close>

definition settled :: "ghost \<Rightarrow> bool" where
  "settled G \<longleftrightarrow> busy G = 0 \<and> (\<forall>b. place_of G b \<noteq> Some Loose \<and> place_of G b \<noteq> Some Page)"

definition idle :: "ghost \<Rightarrow> bool" where
  "idle G \<longleftrightarrow> settled G \<and> dying G = {} \<and> walk G = []"

lemma sys_okD:
  assumes "sys_ok owns G hs pool s w"
  shows "pool_inv owns pool (bytes s) (large G) (dom (place_of G))" "bins_ok G hs" "queues_ok G s"
    "aband_ok G pool s" "walk_ok G s w" "cache_list_ok G pool (bytes s)" "slabs_ok G s" "live_ok G"
    "keeps_regions (large G) (img G) (bytes s)"
  using assms by (simp_all add: sys_ok_def)

subsection \<open>Held pages\<close>

lemma held_page_ok: "pool_inv owns pool m R H \<Longrightarrow> b \<in> H \<Longrightarrow> page_ok b"
  using pool_page_ok by (auto elim!: pool_invD)

lemma place_page_ok: "sys_ok owns G hs pool s w \<Longrightarrow> place_of G b = Some pl \<Longrightarrow> page_ok b"
  using held_page_ok sys_okD(1) by blast

lemma blocks_disjoint: "page_ok x \<Longrightarrow> page_ok y \<Longrightarrow> x \<noteq> y \<Longrightarrow> block x \<inter> block y = {}"
  using page_block [of x y] by (fastforce simp: block_def)

text \<open>Large regions are apart from the pages.\<close>

lemma large_apart:
  assumes "pool_inv owns pool m R H" "b \<in> H" "covered R a"
  shows "a \<notin> block b"
proof
  assume a: "a \<in> block b"
  obtain dl cl where segs: "segs_ok (seg_list (state pool))" and Hp: "H \<subseteq> pool_pages (state pool)"
    and dis: "\<forall>r \<in> R. \<forall>q \<in> seg_regions (state pool). disjoint_regions r q"
    using assms(1) by (rule pool_invD)
  have "covered (seg_regions (state pool)) a"
    using pool_page_covered [OF segs, of b a] assms(2) Hp a by (auto simp: block_def)
  then show False using assms(3) dis by (fastforce simp: covered_def in_region_def disjoint_regions_def)
qed

lemma pool_inv_touch:
  assumes I: "pool_inv owns pool m R H" and t: "touches {b} m m'" and b: "b \<in> H"
  shows "pool_inv owns pool m' R H"
proof -
  obtain dl cl where P: "pool_ok m (state pool) dl cl H" and segs: "segs_ok (seg_list (state pool))"
    and Hp: "H \<subseteq> pool_pages (state pool)" and own: "owns (page_alloc pool) (R \<union> seg_regions (state pool))"
    and dis: "\<forall>r \<in> R. \<forall>q \<in> seg_regions (state pool). disjoint_regions r q"
    using I by (rule pool_invD)
  note D = pool_okD [OF P]
  have ok: "page_ok b" "\<forall>x \<in> set (dl @ cl). page_ok x" using pool_page_ok [OF segs] Hp b D(8,9) by auto
  have "b \<notin> set (dl @ cl)" using pool_ok_parts(1) [OF P] b by blast
  then have k: "keeps (set (dl @ cl)) m m'" using ok by (intro touches_keeps [OF t]) auto
  have "pool_ok m' (state pool) dl cl H"
    using P keeps_list [OF D(4) k] keeps_list [OF D(5) k] by (simp add: pool_ok_def)
  then show ?thesis using own dis by (auto simp: pool_inv_def)
qed

subsection \<open>Changing one slab\<close>

definition slab_change :: "addr \<Rightarrow> store \<Rightarrow> store \<Rightarrow> bool" where
  "slab_change b s s' \<longleftrightarrow> heads s' = heads s \<and> (\<forall>x. x \<noteq> b \<longrightarrow> hdr s' x = hdr s x) \<and>
     next_link (hdr s' b) = next_link (hdr s b) \<and> prev_link (hdr s' b) = prev_link (hdr s b) \<and>
     touches {b} (bytes s) (bytes s')"

lemma schain_cong:
  "(\<And>x. x \<in> set xs \<Longrightarrow> next_link (hdr s' x) = next_link (hdr s x)) \<Longrightarrow> schain s' p xs = schain s p xs"
  by (induction xs arbitrary: p) auto

lemma slab_change_links: "slab_change b s s' \<Longrightarrow> next_link (hdr s' x) = next_link (hdr s x) \<and> prev_link (hdr s' x) = prev_link (hdr s x)"
  by (cases "x = b") (auto simp: slab_change_def)

lemma slab_change_dll: "slab_change b s s' \<Longrightarrow> dll s' h xs = dll s h xs"
  by (rule dll_cong) (auto simp: slab_change_def dest: slab_change_links)

lemma slab_change_schain: "slab_change b s s' \<Longrightarrow> schain s' p xs = schain s p xs"
  using slab_change_links by (intro schain_cong) blast

lemma touches_block:
  assumes "touches {b} m m'" "page_ok b" "page_ok y" "y \<noteq> b" "y \<le> a" "a < y + SLAB_SIZE"
  shows "m' a = m a"
  using assms page_block [of b y a] by (auto simp: touches_def)

text \<open>Another slab does not notice.\<close>

lemma slab_at_other:
  assumes ch: "slab_change b s s'" and x: "page_ok b" "page_ok x" "x \<noteq> b" and L: "L' - block b = L - block b" "\<forall>y. y \<notin> block b \<longrightarrow> K' y = K y \<and> M' y = M y"
  shows "slab_at s' x L' K' M' = slab_at s x L K M" "place_ok (G\<lparr>live := L', lcls := K', img := M'\<rparr>) s' x pl = place_ok G s x pl"
proof -
  have h: "hdr s' x = hdr s x" using ch x(3) by (simp add: slab_change_def)
  have m: "bytes s' a = bytes s a" if "x \<le> a" "a < x + 65536" for a
    using touches_block [of b "bytes s" "bytes s'" x a] ch x that by (simp add: slab_change_def geom_simps)
  have dis: "block x \<inter> block b = {}" using blocks_disjoint x by blast
  then have LL: "L' \<inter> block x = L \<inter> block x" using L(1) by blast
  have KK: "K' p = K p" if "p \<in> L \<inter> block x" for p using dis L(2) that by blast
  have MM: "holds (bytes s') M' p n = holds (bytes s) M p n" if "x \<le> p" "p + n \<le> x + 65536" for p n
  proof -
    have "bytes s' a = bytes s a \<and> M' a = M a" if a: "p \<le> a" "a < p + n" for a
    proof -
      have "a \<in> block x" using a \<open>x \<le> p\<close> \<open>p + n \<le> x + 65536\<close> by (simp add: block_def geom_simps)
      then show ?thesis using L(2) dis m [of a] by (auto simp: block_def geom_simps)
    qed
    then show ?thesis by (simp add: holds_def cong: imp_cong)
  qed
  have sl: "slab_ok s' x c loc rem out = slab_ok s x c loc rem out" for c loc rem out
    using slab_ok_frame [of s x c loc rem out s'] slab_ok_frame [of s' x c loc rem out s] h m by auto
  have c: "cls s' x = cls s x" by (simp add: cls_def h)
  have "slab_at s' x L' K' M' = slab_at s x L K M" if o: "slab_ok s x (cls s x) loc rem (L \<inter> block x)" for loc rem
  proof -
    have "K' p = K p \<and> holds (bytes s') M' p (class_size (cls s x)) = holds (bytes s) M p (class_size (cls s x))"
        if p: "p \<in> L \<inter> block x" for p
      using slab_slot_props [OF o, of p] p by (intro conjI KK MM) auto
    then show ?thesis by (simp add: slab_at_def c LL sl)
  qed
  then show "slab_at s' x L' K' M' = slab_at s x L K M" by (auto simp: slab_at_def c LL sl)
  show "place_ok (G\<lparr>live := L', lcls := K', img := M'\<rparr>) s' x pl = place_ok G s x pl"
    by (simp add: place_ok_def cls_def h free_count_def split: place.splits)
qed

lemma sys_slab_change:
  assumes ok: "sys_ok owns G hs pool s w" and b: "place_of G b = Some pl" "is_slab pl"
    and ch: "slab_change b s s'" and L: "L' - block b = live G - block b" "\<forall>y. y \<notin> block b \<longrightarrow> K' y = lcls G y \<and> M' y = img G y"
    and new: "slab_at s' b L' K' M'" "place_ok G s' b pl"
  shows "sys_ok owns (G\<lparr>live := L', lcls := K', img := M'\<rparr>) hs pool s' w"
proof -
  note D = sys_okD [OF ok]
  have t: "touches {b} (bytes s) (bytes s')" using ch by (simp add: slab_change_def)
  have pb: "page_ok b" using place_page_ok [OF ok b(1)] .
  have pool: "pool_inv owns pool (bytes s') (large G) (dom (place_of G))"
    using pool_inv_touch [OF D(1) t] b by auto
  have slabs: "slab_at s' x L' K' M' \<and> place_ok (G\<lparr>live := L', lcls := K', img := M'\<rparr>) s' x q" if "place_of G x = Some q" "is_slab q" for x q
  proof (cases "x = b")
    case True
    then show ?thesis using new b that by (simp add: place_ok_def split: place.splits)
  next
    case False
    have "slab_at s x (live G) (lcls G) (img G) \<and> place_ok G s x q" using D(7) that by (simp add: slabs_ok_def)
    then show ?thesis using slab_at_other [OF ch pb place_page_ok [OF ok that(1)] False L] by simp
  qed
  have cache: "chain (read_next (bytes s')) (slab_cache pool) (cached G)"
  proof -
    have "read_next (bytes s') x = read_next (bytes s) x" if "x \<in> set (cached G)" for x
    proof (rule read_next_cong)
      fix a assume a: "x \<le> a" "a < x + 8"
      have px: "place_of G x = Some Cache" using D(6) that by (auto simp: cache_list_ok_def)
      then have "x \<noteq> b" using b by (auto simp: is_slab_def)
      then show "bytes s' a = bytes s a"
        using touches_block [OF t pb place_page_ok [OF ok px]] a by (simp add: geom_simps)
    qed
    then show ?thesis using D(6) chain_cong [of "cached G" "read_next (bytes s')" "read_next (bytes s)"]
      by (simp add: cache_list_ok_def)
  qed
  have live: "live_ok (G\<lparr>live := L', lcls := K', img := M'\<rparr>)"
    unfolding live_ok_def
  proof
    fix p assume "p \<in> live (G\<lparr>live := L', lcls := K', img := M'\<rparr>)"
    then consider "p \<in> block b" | "p \<in> live G" using L(1) by auto
    then show "\<exists>c pl. place_of (G\<lparr>live := L', lcls := K', img := M'\<rparr>) c = Some pl \<and> is_slab pl \<and> p \<in> block c"
      using b D(8) by cases (auto simp: live_ok_def)
  qed
  have im: "keeps_regions (large G) M' (bytes s')"
    unfolding keeps_regions_def
  proof (intro allI impI)
    fix a assume "covered (large G) a"
    then have "a \<notin> block b" "bytes s a = img G a" using large_apart [OF D(1), of b a] D(9) b(1) by (auto simp: keeps_regions_def)
    then show "bytes s' a = M' a" using L(2) t by (auto simp: touches_def block_def)
  qed
  show ?thesis using pool D slabs cache live im slab_change_dll [OF ch] slab_change_schain [OF ch]
    by (simp add: sys_ok_def bins_ok_def queues_ok_def aband_ok_def walk_ok_def cache_list_ok_def slabs_ok_def)
qed

subsection \<open>Slab operations\<close>

text \<open>A slab whose free count may change: not in a queue, or marked busy.\<close>

definition quiet :: "ghost \<Rightarrow> addr \<Rightarrow> place \<Rightarrow> bool" where
  "quiet G b pl \<longleftrightarrow> is_slab pl \<and> (\<forall>i k c. pl = Queue i k c \<longrightarrow> b = busy G)"

lemma place_ok_keep:
  assumes "place_ok G s b pl" "quiet G b pl" "heap_id (hdr s' b) = heap_id (hdr s b)" "cls s' b = cls s b"
  shows "place_ok G s' b pl"
  using assms by (auto simp: place_ok_def quiet_def split: place.splits)

lemma slab_at_class: "slab_at s b L K M \<Longrightarrow> cls s b < NUM_CLASSES"
  using slab_okD(3) by (auto simp: slab_at_def)

lemma slot_in_block: "c < NUM_CLASSES \<Longrightarrow> i < n_slots c \<Longrightarrow> slot_addr b c i \<in> block b"
  using slot_addr_range [of c i b] class_size_bounds [of c] by (auto simp: block_def geom_simps)

lemma cls_eq: "slab_ok s' b c loc rem out \<Longrightarrow> cls s' b = c"
proof -
  assume "slab_ok s' b c loc rem out"
  note d = slab_okD [OF this]
  then show ?thesis by (simp add: cls_def header_ok_def unat_of_nat geom_simps)
qed

lemma place_slab:
  assumes "sys_ok owns G hs pool s w" "place_of G b = Some pl" "is_slab pl"
  obtains loc rem where "slab_ok s b (cls s b) loc rem (live G \<inter> block b)" "place_ok G s b pl" "cls s b < NUM_CLASSES" "page_ok b"
    "\<forall>p \<in> live G \<inter> block b. lcls G p = cls s b \<and> holds (bytes s) (img G) p (class_size (cls s b))"
proof -
  have at: "slab_at s b (live G) (lcls G) (img G)" and pl: "place_ok G s b pl"
    using sys_okD(7) [OF assms(1)] assms(2,3) by (simp_all add: slabs_ok_def)
  obtain loc rem where "slab_ok s b (cls s b) loc rem (live G \<inter> block b)" using at by (auto simp: slab_at_def)
  moreover have "\<forall>p \<in> live G \<inter> block b. lcls G p = cls s b \<and> holds (bytes s) (img G) p (class_size (cls s b))" using at by (simp add: slab_at_def)
  ultimately show thesis using that pl slab_at_class [OF at] place_page_ok [OF assms(1,2)] by blast
qed

lemma sys_slab_alloc:
  assumes ok: "sys_ok owns G hs pool s w" and b: "place_of G b = Some pl" "quiet G b pl"
    and al: "slab_alloc b s = (Some p, s')"
  shows "p \<notin> live G" "\<exists>i < n_slots (cls s b). p = slot_addr b (cls s b) i" "cls s' b = cls s b"
    "heap_id (hdr s' b) = heap_id (hdr s b)" "sys_ok owns (G\<lparr>live := insert p (live G), lcls := (lcls G)(p := cls s b), img := fill (img G) p (class_size (cls s b)) (bytes s)\<rparr>) hs pool s' w"
    "schain s' q xs = schain s q xs"
proof -
  have sl: "is_slab pl" using b(2) by (simp add: quiet_def)
  obtain loc rem where o: "slab_ok s b (cls s b) loc rem (live G \<inter> block b)" "place_ok G s b pl" "cls s b < NUM_CLASSES"
      "\<forall>p \<in> live G \<inter> block b. lcls G p = cls s b \<and> holds (bytes s) (img G) p (class_size (cls s b))"
    using place_slab [OF ok b(1) sl] by metis
  note A = slab_alloc_ok [OF o(1), unfolded al prod.case option.case]
  then obtain i where i: "i < n_slots (cls s b)" "p = slot_addr b (cls s b) i" by auto
  have pb: "p \<in> block b" using slot_in_block [OF o(3) i(1)] i(2) by simp
  then show "p \<notin> live G" using A by blast
  show "\<exists>i < n_slots (cls s b). p = slot_addr b (cls s b) i" using i by blast
  have c: "cls s' b = cls s b" using A cls_eq by blast
  then show "cls s' b = cls s b" .
  note f = slab_alloc_frame [OF al]
  then show hi: "heap_id (hdr s' b) = heap_id (hdr s b)" by blast
  have ch: "slab_change b s s'" using f by (auto simp: slab_change_def)
  then show "schain s' q xs = schain s q xs" by (rule slab_change_schain)
  have "insert p (live G) \<inter> block b = insert p (live G \<inter> block b)" using pb by blast
  then have "\<exists>loc' rem'. slab_ok s' b (cls s b) loc' rem' (insert p (live G) \<inter> block b)" using A by metis
  then obtain loc' rem' where n: "slab_ok s' b (cls s b) loc' rem' (insert p (live G) \<inter> block b)" by blast
  have pr: "q + class_size (cls s b) \<le> b + 65536" "b \<le> q" if "q \<in> insert p (live G) \<inter> block b" for q
    using slab_slot_props [OF n, of q] that by auto
  have "slab_at s' b (insert p (live G)) ((lcls G)(p := cls s b)) (fill (img G) p (class_size (cls s b)) (bytes s))"
    unfolding slab_at_def c
  proof (intro conjI ballI)
    fix q assume q: "q \<in> insert p (live G) \<inter> block b"
    show "((lcls G)(p := cls s b)) q = cls s b" using q o(4) by auto
    show "holds (bytes s') (fill (img G) p (class_size (cls s b)) (bytes s)) q (class_size (cls s b))"
    proof (cases "q = p")
      case True
      then show ?thesis using f(1) by (simp add: holds_def fill_def)
    next
      case False
      then have "q + class_size (cls s b) \<le> p \<or> p + class_size (cls s b) \<le> q"
        using slab_slots_disjoint [OF n, of q p] q pb by auto
      moreover have "holds (bytes s) (img G) q (class_size (cls s b))" using o(4) q False by auto
      ultimately show ?thesis using f(1) by (auto simp: holds_def fill_def)
    qed
  qed (use n in blast)
  moreover have "insert p (live G) - block b = live G - block b" using pb by blast
  moreover have "\<forall>y. y \<notin> block b \<longrightarrow> ((lcls G)(p := cls s b)) y = lcls G y \<and>
      fill (img G) p (class_size (cls s b)) (bytes s) y = img G y"
  proof (intro allI impI conjI)
    fix y assume y: "y \<notin> block b"
    then show "((lcls G)(p := cls s b)) y = lcls G y" using pb by auto
    have "p + class_size (cls s b) \<le> b + 65536" "b \<le> p" using pr pb by simp_all
    then have "\<not> (p \<le> y \<and> y < p + class_size (cls s b))" using y unfolding block_def SLAB_SIZE_def atLeastLessThan_iff by auto
    then show "fill (img G) p (class_size (cls s b)) (bytes s) y = img G y" by (simp only: fill_def if_False)
  qed
  ultimately show "sys_ok owns (G\<lparr>live := insert p (live G), lcls := (lcls G)(p := cls s b), img := fill (img G) p (class_size (cls s b)) (bytes s)\<rparr>) hs pool s' w"
    using sys_slab_change [OF ok b(1) sl ch] place_ok_keep [OF o(2) b(2) hi c] by blast
qed

lemma sys_slab_alloc_None:
  assumes ok: "sys_ok owns G hs pool s w" and b: "place_of G b = Some pl" "is_slab pl"
    and al: "slab_alloc b s = (None, s')"
  shows "s' = s" "free_count b s = 0"
proof -
  obtain loc rem where o: "slab_ok s b (cls s b) loc rem (live G \<inter> block b)" using place_slab [OF ok b] by metis
  note A = slab_alloc_ok [OF o, unfolded al prod.case option.case]
  then show "s' = s" by simp
  have "fl_len (local (hdr s b)) = 0" using o A by (simp add: slab_ok_def unat_eq_0)
  then show "free_count b s = 0" using A by (simp add: free_count_def)
qed

lemma slab_alloc_free:
  assumes ok: "sys_ok owns G hs pool s w" and b: "place_of G b = Some pl" "is_slab pl" and f: "free_count b s \<noteq> 0"
  shows "\<exists>p s'. slab_alloc b s = (Some p, s')"
  using sys_slab_alloc_None(2) [OF ok b] f by (metis not_None_eq surj_pair)

lemma sys_drain:
  assumes ok: "sys_ok owns G hs pool s w" and b: "place_of G b = Some pl" "quiet G b pl"
  shows "\<exists>n s'. drain_remote b s = Some (n, s') \<and> sys_ok owns G hs pool s' w \<and> slab_change b s s' \<and>
    heap_id (hdr s' b) = heap_id (hdr s b) \<and> cls s' b = cls s b \<and> (is_fully_free b s' \<longrightarrow> live G \<inter> block b = {})"
proof -
  have sl: "is_slab pl" using b(2) by (simp add: quiet_def)
  obtain loc rem where o: "slab_ok s b (cls s b) loc rem (live G \<inter> block b)" "place_ok G s b pl"
      "\<forall>p \<in> live G \<inter> block b. lcls G p = cls s b \<and> holds (bytes s) (img G) p (class_size (cls s b))"
    using place_slab [OF ok b(1) sl] by metis
  obtain s' where d: "drain_remote b s = Some (of_nat (length rem), s')"
      "slab_ok s' b (cls s b) (rev rem @ loc) [] (live G \<inter> block b)" "heads s' = heads s"
      "\<forall>x. x \<noteq> b \<longrightarrow> hdr s' x = hdr s x" "\<forall>a. a < b \<or> b + 65536 \<le> a \<longrightarrow> bytes s' a = bytes s a"
      "\<exists>fl r. hdr s' b = hdr s b\<lparr>local := fl, remote := r\<rparr>"
      "\<forall>a. (\<forall>x \<in> set rem. a < x \<or> x + 8 \<le> a) \<longrightarrow> bytes s' a = bytes s a"
    using drain_remote_ok [OF o(1)] by blast
  have ch: "slab_change b s s'" using d(3-6) by (auto simp: slab_change_def touches_def geom_simps)
  have h: "heap_id (hdr s' b) = heap_id (hdr s b)" "cls s' b = cls s b" using d(6) by (auto simp: cls_def)
  have "holds (bytes s') (img G) p (class_size (cls s b))" if p: "p \<in> live G \<inter> block b" for p
    unfolding holds_def
  proof (intro allI impI)
    fix a assume a: "p \<le> a \<and> a < p + class_size (cls s b)"
    have "a < x \<or> x + 8 \<le> a" if "x \<in> set rem" for x
    proof -
      have "x \<noteq> p" using slab_okD(7) [OF o(1)] p that by blast
      then show ?thesis using slab_slots_disjoint [OF o(1), of x p] class_size_bounds [OF slab_okD(3) [OF o(1)]] p that a by auto
    qed
    then show "bytes s' a = img G a" using d(7) o(3) p a by (simp add: holds_def)
  qed
  then have "slab_at s' b (live G) (lcls G) (img G)" using d(2) h o(3) by (auto simp: slab_at_def)
  then have "sys_ok owns (G\<lparr>live := live G, lcls := lcls G, img := img G\<rparr>) hs pool s' w"
    using sys_slab_change [OF ok b(1) sl ch] place_ok_keep [OF o(2) b(2) h] by blast
  moreover have "live G \<inter> block b = {}" if "is_fully_free b s'"
    using slab_fully_free_iff [OF d(2)] that by simp
  ultimately show ?thesis using d(1) ch h by auto
qed

lemma sys_free_slot:
  assumes ok: "sys_ok owns G hs pool s w" and b: "place_of G b = Some pl" "quiet G b pl" and p: "p \<in> live G" "p \<in> block b"
    and s': "s' = dealloc_local b p s \<or> s' = dealloc_remote b p s"
  shows "sys_ok owns (G\<lparr>live := live G - {p}\<rparr>) hs pool s' w" "heap_id (hdr s' b) = heap_id (hdr s b)" "cls s' b = cls s b"
proof -
  have sl: "is_slab pl" using b(2) by (simp add: quiet_def)
  obtain loc rem where o: "slab_ok s b (cls s b) loc rem (live G \<inter> block b)" "place_ok G s b pl" "page_ok b"
      "\<forall>p \<in> live G \<inter> block b. lcls G p = cls s b \<and> holds (bytes s) (img G) p (class_size (cls s b))"
    using place_slab [OF ok b(1) sl] by metis
  have pl: "p \<in> live G \<inter> block b" using p by blast
  have L: "(live G - {p}) \<inter> block b = live G \<inter> block b - {p}" by blast
  have n: "\<exists>loc' rem'. slab_ok s' b (cls s b) loc' rem' ((live G - {p}) \<inter> block b)"
    unfolding L using s' dealloc_local_ok [OF o(1) pl] dealloc_remote_ok [OF o(1) pl] by blast
  then show c: "cls s' b = cls s b" using cls_eq by blast
  note f = dealloc_frame [OF s']
  show hi: "heap_id (hdr s' b) = heap_id (hdr s b)" using f by blast
  have "p + 8 \<le> b + SLAB_SIZE"
    using slab_slot_props(5) [OF o(1), of p] pl by (auto simp: geom_simps)
  then have ch: "slab_change b s s'" using f p(2) by (auto simp: slab_change_def touches_def block_def)
  have "holds (bytes s') (img G) q (class_size (cls s b))" if q: "q \<in> live G \<inter> block b" "q \<noteq> p" for q
    unfolding holds_def
  proof (intro allI impI)
    fix a assume a: "q \<le> a \<and> a < q + class_size (cls s b)"
    have "a < p \<or> p + 8 \<le> a"
      using slab_slots_disjoint [OF o(1), of q p] class_size_bounds [OF slab_okD(3) [OF o(1)]] pl q a by auto
    then show "bytes s' a = img G a" using f(6) o(4) q a by (simp add: holds_def)
  qed
  then have "slab_at s' b (live G - {p}) (lcls G) (img G)" using n c o(4) by (simp add: slab_at_def)
  moreover have "live G - {p} - block b = live G - block b" using p(2) by blast
  ultimately show "sys_ok owns (G\<lparr>live := live G - {p}\<rparr>) hs pool s' w"
    using sys_slab_change [OF ok b(1) sl ch, of "live G - {p}" "lcls G" "img G"] place_ok_keep [OF o(2) b(2) hi c] by simp
qed

end
