(* ===== verification/Heap_Moves.thy ===== *)
theory Heap_Moves
  imports Heap_Invariant
begin

text \<open>
  How slabs and pages move between places: between a queue and the hands of an operation
  (\<open>sys_push\<close>, \<open>sys_remove\<close>, \<open>sys_pop\<close>), between a bin and the operation (\<open>sys_bin_put\<close>,
  \<open>sys_bin_take\<close>), and between the pool and the heaps: the page cache, the pool's free pages, the
  abandoned lists. Each move keeps \<open>sys_ok\<close>.
\<close>

lemma place_ok_upd [simp]:
  "place_ok (G\<lparr>place_of := f\<rparr>) s b pl = place_ok G s b pl" "place_ok (G\<lparr>queue := q\<rparr>) s b pl = place_ok G s b pl"
  "place_ok (G\<lparr>abq := a\<rparr>) s b pl = place_ok G s b pl" "place_ok (G\<lparr>walk := v\<rparr>) s b pl = place_ok G s b pl"
  "place_ok (G\<lparr>cached := ca\<rparr>) s b pl = place_ok G s b pl" "place_ok (G\<lparr>live := L\<rparr>) s b pl = place_ok G s b pl"
  "place_ok (G\<lparr>lcls := K\<rparr>) s b pl = place_ok G s b pl" "place_ok (G\<lparr>img := M\<rparr>) s b pl = place_ok G s b pl"
  "place_ok (G\<lparr>large := R\<rparr>) s b pl = place_ok G s b pl"
  by (simp_all add: place_ok_def split: place.splits)

lemma place_ok_cong:
  assumes "heap_id (hdr s' b) = heap_id (hdr s b)" "slab_core (hdr s' b) = slab_core (hdr s b)"
  shows "place_ok G s' b pl = place_ok G s b pl"
proof -
  have "cls s' b = cls s b" "free_count b s' = free_count b s"
    using assms(2) by (simp_all add: cls_def free_count_def slab_core_def)
  then show ?thesis using assms(1) by (simp add: place_ok_def split: place.splits)
qed

lemma links_only_slab_at: "links_only s s' \<Longrightarrow> slab_at s' b L K M = slab_at s b L K M"
proof -
  assume l: "links_only s s'"
  then have "cls s' b = cls s b" by (simp add: links_only_def cls_def slab_core_def)
  then show ?thesis using links_only_slab_ok [OF l] l by (simp add: slab_at_def links_only_def)
qed

lemma links_only_place_ok: "links_only s s' \<Longrightarrow> place_ok G s' b pl = place_ok G s b pl"
  by (rule place_ok_cong) (simp_all add: links_only_def)

lemma live_ok_mono:
  assumes "live_ok G" "live G' = live G"
    and "\<And>x pl. place_of G x = Some pl \<Longrightarrow> is_slab pl \<Longrightarrow> live G \<inter> block x \<noteq> {} \<Longrightarrow> \<exists>pl'. place_of G' x = Some pl' \<and> is_slab pl'"
  shows "live_ok G'"
  unfolding live_ok_def assms(2)
proof
  fix p assume p: "p \<in> live G"
  then obtain x pl where x: "place_of G x = Some pl" "is_slab pl" "p \<in> block x" using assms(1) by (auto simp: live_ok_def)
  then have "live G \<inter> block x \<noteq> {}" using p by blast
  then show "\<exists>x pl. place_of G' x = Some pl \<and> is_slab pl \<and> p \<in> block x" using assms(3) [OF x(1,2)] x(3) by blast
qed

lemma is_slab_simps [simp]:
  "is_slab (Bin i c)" "is_slab (Queue i k c)" "is_slab (Aband c)" "is_slab Walk" "is_slab Loose" "\<not> is_slab Cache" "\<not> is_slab Page"
  by (simp_all add: is_slab_def)

text \<open>The three lists of slabs and pages outside the heaps, when their own nodes are unchanged.\<close>

lemma aband_ok_frame:
  assumes "aband_ok G pool s" "abandoned pool' = abandoned pool" "abq G' = abq G"
    and "\<And>x c. place_of G' x = Some (Aband c) \<longleftrightarrow> place_of G x = Some (Aband c)"
    and "\<And>x c. place_of G x = Some (Aband c) \<Longrightarrow> next_link (hdr s' x) = next_link (hdr s x)"
  shows "aband_ok G' pool' s'"
  unfolding aband_ok_def assms(2,3)
proof (intro allI impI)
  fix c :: nat assume "c < NUM_CLASSES"
  then have a: "schain s (nonnull (abandoned pool c)) (abq G c)" "distinct (abq G c)" "set (abq G c) = {b. place_of G b = Some (Aband c)}"
    using assms(1) by (simp_all add: aband_ok_def)
  have "schain s' (nonnull (abandoned pool c)) (abq G c)"
    using a(1,3) assms(5) by (subst schain_cong [of _ _ s]) auto
  then show "schain s' (nonnull (abandoned pool c)) (abq G c) \<and> distinct (abq G c) \<and> set (abq G c) = {b. place_of G' b = Some (Aband c)}"
    using a assms(4) by simp
qed

lemma walk_ok_frame:
  assumes "walk_ok G s w" "walk G' = walk G"
    and "\<And>x. place_of G' x = Some Walk \<longleftrightarrow> place_of G x = Some Walk"
    and "\<And>x. place_of G x = Some Walk \<Longrightarrow> next_link (hdr s' x) = next_link (hdr s x)"
  shows "walk_ok G' s' w"
  using assms schain_cong [of "walk G" s' s w] by (simp add: walk_ok_def)

lemma cache_list_frame:
  assumes "cache_list_ok G pool m" "slab_cache pool' = slab_cache pool" "slab_cache_len pool' = slab_cache_len pool"
    and "cached G' = cached G" "\<And>x. place_of G' x = Some Cache \<longleftrightarrow> place_of G x = Some Cache"
    and "keeps {x. place_of G x = Some Cache} m m'"
  shows "cache_list_ok G' pool' m'"
proof -
  have "read_next m' x = read_next m x" if "x \<in> set (cached G)" for x
    using assms(1,6) that by (intro read_next_cong) (auto simp: cache_list_ok_def keeps_def geom_simps)
  then show ?thesis using assms chain_cong [of "cached G" "read_next m'" "read_next m"] by (simp add: cache_list_ok_def)
qed

subsection \<open>Queues\<close>

lemma sys_relink:
  assumes ok: "sys_ok owns G hs pool s w" and i: "i \<in> ids G"
    and b: "place_of G b = Some q" "q = Loose \<or> q = Queue i k c" "q' = Loose \<or> q' = Queue i k c"
    and lo: "links_only s s'" and wi: "links_within (i, k, c) (insert b (set (queue G (i, k, c)))) s s'"
    and dl: "dll s' (i, k, c) xs" "set xs = {x. ((place_of G)(b \<mapsto> q')) x = Some (Queue i k c)}"
    and pl: "place_ok G s b q'"
  shows "sys_ok owns (G\<lparr>place_of := (place_of G)(b \<mapsto> q'), queue := (queue G)((i, k, c) := xs)\<rparr>) hs pool s' w"
    (is "sys_ok owns ?G hs pool s' w")
proof -
  note D = sys_okD [OF ok]
  have bt: "bytes s' = bytes s" using lo by (simp add: links_only_def)
  have others: "place_of ?G x = Some p \<longleftrightarrow> place_of G x = Some p" if "p \<noteq> Loose" "p \<noteq> Queue i k c" for x p
    using b that by auto
  have Q: "set (queue G (i, k, c)) = {x. place_of G x = Some (Queue i k c)}" using D(3) i by (simp add: queues_ok_def)
  have nl: "next_link (hdr s' x) = next_link (hdr s x)" if "place_of G x = Some p" "p \<noteq> Loose" "p \<noteq> Queue i k c" for x p
  proof -
    have "x \<notin> insert b (set (queue G (i, k, c)))" using that b Q by auto
    then show ?thesis using wi by (simp add: links_within_def)
  qed
  have dom: "dom (place_of ?G) = dom (place_of G)" using b(1) by auto
  have 1: "pool_inv owns pool (bytes s') (large ?G) (dom (place_of ?G))" using D(1) bt dom by simp
  have 2: "bins_ok ?G hs" using D(2) others by (simp add: bins_ok_def)
  have 3: "queues_ok ?G s'"
    unfolding queues_ok_def
  proof (intro ballI allI)
    fix j k' c' assume "j \<in> ids ?G"
    then have j: "dll s (j, k', c') (queue G (j, k', c'))" "set (queue G (j, k', c')) = {b. place_of G b = Some (Queue j k' c')}"
      using D(3) by (simp_all add: queues_ok_def)
    show "dll s' (j, k', c') (queue ?G (j, k', c')) \<and> set (queue ?G (j, k', c')) = {b. place_of ?G b = Some (Queue j k' c')}"
    proof (cases "(j, k', c') = (i, k, c)")
      case True
      then show ?thesis using dl by simp
    next
      case False
      have "insert b (set (queue G (i, k, c))) \<inter> set (queue G (j, k', c')) = {}" using j(2) Q b False by auto
      from links_within_dll [OF wi False this] have "dll s' (j, k', c') (queue G (j, k', c'))" using j(1) by simp
      moreover have "queue ?G (j, k', c') = queue G (j, k', c')" using False by auto
      moreover have "Queue j k' c' \<noteq> Queue i k c" using False by simp
      ultimately show ?thesis using j(2) others [of "Queue j k' c'"] by simp
    qed
  qed
  have 4: "aband_ok ?G pool s'" by (rule aband_ok_frame [OF D(4)]) (use others nl in auto)
  have 5: "walk_ok ?G s' w" by (rule walk_ok_frame [OF D(5)]) (use others nl in auto)
  have 6: "cache_list_ok ?G pool (bytes s')" by (rule cache_list_frame [OF D(6)]) (use others bt in auto)
  have 7: "slabs_ok ?G s'"
    unfolding slabs_ok_def
  proof (intro allI impI)
    fix x p assume x: "place_of ?G x = Some p" "is_slab p"
    show "slab_at s' x (live ?G) (lcls ?G) (img ?G) \<and> place_ok ?G s' x p"
    proof (cases "x = b")
      case True
      have "is_slab q" using b(2) by auto
      then show ?thesis using True x b(1) D(7) pl by (simp add: slabs_ok_def links_only_slab_at [OF lo] links_only_place_ok [OF lo])
    next
      case False
      then show ?thesis using x D(7) by (simp add: slabs_ok_def links_only_slab_at [OF lo] links_only_place_ok [OF lo])
    qed
  qed
  have 8: "live_ok ?G" by (rule live_ok_mono [OF D(8)]) (use b in auto)
  have 9: "keeps_regions (large ?G) (img ?G) (bytes s')" using D(9) bt by simp
  show ?thesis using 1 2 3 4 5 6 7 8 9 by (simp only: sys_ok_def simp_thms)
qed

lemma queueD:
  assumes "sys_ok owns G hs pool s w" "i \<in> ids G"
  shows "dll s (i, k, c) (queue G (i, k, c))" "set (queue G (i, k, c)) = {b. place_of G b = Some (Queue i k c)}"
    "distinct (queue G (i, k, c))"
  using sys_okD(3) [OF assms(1)] assms(2) by (auto simp: queues_ok_def dll_def)

definition queued :: "addr \<Rightarrow> head_id \<Rightarrow> ghost \<Rightarrow> ghost" where
  "queued b h G = (case h of (i, k, c) \<Rightarrow> G\<lparr>place_of := (place_of G)(b \<mapsto> Queue i k c), queue := (queue G)(h := b # queue G h)\<rparr>)"

definition unqueued :: "addr \<Rightarrow> head_id \<Rightarrow> ghost \<Rightarrow> ghost" where
  "unqueued b h G = G\<lparr>place_of := (place_of G)(b \<mapsto> Loose), queue := (queue G)(h := remove1 b (queue G h))\<rparr>"

lemma queued_simps [simp]:
  "ids (queued b h G) = ids G" "used (queued b h G) = used G" "dying (queued b h G) = dying G" "busy (queued b h G) = busy G" "live (queued b h G) = live G" "lcls (queued b h G) = lcls G" "img (queued b h G) = img G"
  "large (queued b h G) = large G" "walk (queued b h G) = walk G" "cached (queued b h G) = cached G" "abq (queued b h G) = abq G"
  "place_of (queued b h G) = (place_of G)(b \<mapsto> Queue (fst h) (fst (snd h)) (snd (snd h)))"
  by (simp_all add: queued_def split: prod.splits)

lemma unqueued_simps [simp]:
  "ids (unqueued b h G) = ids G" "used (unqueued b h G) = used G" "dying (unqueued b h G) = dying G" "busy (unqueued b h G) = busy G" "live (unqueued b h G) = live G" "lcls (unqueued b h G) = lcls G" "img (unqueued b h G) = img G"
  "large (unqueued b h G) = large G" "walk (unqueued b h G) = walk G" "cached (unqueued b h G) = cached G" "abq (unqueued b h G) = abq G"
  "place_of (unqueued b h G) = (place_of G)(b \<mapsto> Loose)" "queue (unqueued b h G) h = remove1 b (queue G h)"
  by (simp_all add: unqueued_def)

lemma sys_push:
  assumes ok: "sys_ok owns G hs pool s w" and i: "i \<in> ids G" "c < NUM_CLASSES" and b: "place_of G b = Some Loose"
    and h: "heap_id (hdr s b) = i" "cls s b = c" "k = Full \<longleftrightarrow> free_count b s = 0"
  shows "sys_ok owns (queued b (i, k, c) G) hs pool (slab_list_push (i, k, c) b s) w"
proof -
  note q = queueD [OF ok i(1), of k c]
  have nb: "b \<notin> set (queue G (i, k, c))" using q(2) b by auto
  have "place_ok G s b (Queue i k c)" using i h by (simp add: place_ok_def)
  moreover have "set (b # queue G (i, k, c)) = {x. ((place_of G)(b \<mapsto> Queue i k c)) x = Some (Queue i k c)}"
    using q(2) by auto
  ultimately show ?thesis
    using sys_relink [OF ok i(1) b _ _ links_only_push slab_list_push_within [OF q(1)] slab_list_push_dll [OF q(1) nb]]
    by (simp add: queued_def)
qed

lemma sys_remove:
  assumes ok: "sys_ok owns G hs pool s w" and i: "i \<in> ids G" and b: "place_of G b = Some (Queue i k c)"
  shows "\<exists>s'. slab_list_remove b s = Some s' \<and> sys_ok owns (unqueued b (i, k, c) G) hs pool s' w \<and> links_only s s' \<and>
    next_link (hdr s' b) = None"
proof -
  note q = queueD [OF ok i, of k c]
  have "b \<in> set (queue G (i, k, c))" using q(2) b by simp
  then obtain xs ys where xy: "queue G (i, k, c) = xs @ b # ys" "b \<notin> set xs" by (metis split_list_first)
  obtain s' where s': "slab_list_remove b s = Some s'" "dll s' (i, k, c) (xs @ ys)" "next_link (hdr s' b) = None"
    using slab_list_remove_dll [of s "(i, k, c)" xs b ys] q(1) xy(1) by auto
  have r: "remove1 b (queue G (i, k, c)) = xs @ ys" using xy by (simp add: remove1_append)
  have wi: "links_within (i, k, c) (insert b (set (queue G (i, k, c)))) s s'"
    using slab_list_remove_within [of s "(i, k, c)" xs b ys] q(1) xy(1) s'(1) by (simp add: insert_absorb)
  have "set (xs @ ys) = {x. ((place_of G)(b \<mapsto> Loose)) x = Some (Queue i k c)}"
    using q(2,3) xy by auto
  moreover have "place_ok G s b Loose" by (simp add: place_ok_def)
  ultimately have "sys_ok owns (unqueued b (i, k, c) G) hs pool s' w"
    using sys_relink [OF ok i b _ _ links_only_remove [OF s'(1)] wi s'(2)] r by (simp add: unqueued_def)
  then show ?thesis using s' links_only_remove by blast
qed

lemma sys_pop:
  assumes ok: "sys_ok owns G hs pool s w" and i: "i \<in> ids G" and q: "queue G (i, k, c) = b # xs"
  shows "\<exists>s'. slab_list_pop (i, k, c) s = (Some b, s') \<and> sys_ok owns (unqueued b (i, k, c) G) hs pool s' w \<and> links_only s s'"
proof -
  note d = queueD [OF ok i, of k c, unfolded q]
  have b: "place_of G b = Some (Queue i k c)" using d(2) by auto
  obtain s' where s': "slab_list_pop (i, k, c) s = (Some b, s')" "dll s' (i, k, c) xs"
    using slab_list_pop_dll [OF d(1)] by blast
  have wi: "links_within (i, k, c) (insert b (set (queue G (i, k, c)))) s s'"
    using slab_list_pop_within [OF d(1) s'(1)] q by (simp add: insert_absorb)
  have "set xs = {x. ((place_of G)(b \<mapsto> Loose)) x = Some (Queue i k c)}" using d(2,3) by auto
  moreover have "place_ok G s b Loose" by (simp add: place_ok_def)
  ultimately have "sys_ok owns (unqueued b (i, k, c) G) hs pool s' w"
    using sys_relink [OF ok i b _ _ links_only_pop [OF s'(1)] wi s'(2)] q by (simp add: unqueued_def)
  then show ?thesis using s' links_only_pop by blast
qed

lemma sys_pop_empty:
  assumes "sys_ok owns G hs pool s w" "i \<in> ids G" "queue G (i, k, c) = []"
  shows "slab_list_pop (i, k, c) s = (None, s)"
  using queueD(1) [OF assms(1,2), of k c] assms(3) by (simp add: dll_Nil slab_list_pop_def)

subsection \<open>Moves that leave the queues alone\<close>

definition unlisted :: "place option \<Rightarrow> bool" where
  "unlisted q \<longleftrightarrow> (\<forall>i k c. q \<noteq> Some (Queue i k c))"

lemma slab_at_same:
  assumes "hdr s' x = hdr s x" "keeps {x} (bytes s) (bytes s')"
  shows "slab_at s' x L K M = slab_at s x L K M"
proof -
  have m: "bytes s' a = bytes s a" if "x \<le> a" "a < x + 65536" for a
    using assms(2) that by (simp add: keeps_def geom_simps)
  have "slab_ok s' x c loc rem out = slab_ok s x c loc rem out" for c loc rem out
    using slab_ok_frame [of s x c loc rem out s'] slab_ok_frame [of s' x c loc rem out s] assms(1) m by auto
  moreover have "holds (bytes s') M p n = holds (bytes s) M p n" if "x \<le> p" "p + n \<le> x + 65536" for p n
    using that m by (auto simp: holds_def)
  moreover have "x \<le> p \<and> p + class_size (cls s x) \<le> x + 65536" if "slab_ok s x (cls s x) loc rem (L \<inter> block x)" "p \<in> L \<inter> block x" for loc rem p
    using slab_slot_props [OF that(1), of p] that(2) by auto
  moreover have "cls s' x = cls s x" by (simp add: cls_def assms(1))
  ultimately show ?thesis unfolding slab_at_def by metis
qed

lemma keeps_sub: "keeps X m m' \<Longrightarrow> Y \<subseteq> X \<Longrightarrow> keeps Y m m'"
  unfolding keeps_def by blast

lemma sys_change:
  assumes ok: "sys_ok owns G hs pool s w"
    and G': "G' = G\<lparr>place_of := (place_of G)(b := q), abq := a, walk := v, cached := ca\<rparr>"
    and out: "unlisted (place_of G b)" "unlisted q"
    and st: "\<And>x. x \<noteq> b \<Longrightarrow> hdr s' x = hdr s x" "heads s' = heads s" "keeps (dom (place_of G) - {b}) (bytes s) (bytes s')"
      "keeps_regions (large G) (bytes s) (bytes s')"
    and parts: "pool_inv owns pool' (bytes s') (large G) (dom (place_of G'))" "bins_ok G' hs'" "aband_ok G' pool' s'"
      "walk_ok G' s' w'" "cache_list_ok G' pool' (bytes s')"
    and new: "\<And>pl. q = Some pl \<Longrightarrow> is_slab pl \<Longrightarrow> slab_at s' b (live G) (lcls G) (img G) \<and> place_ok G s' b pl"
    and dead: "\<And>pl. place_of G b = Some pl \<Longrightarrow> is_slab pl \<Longrightarrow> (\<forall>pl. q = Some pl \<longrightarrow> \<not> is_slab pl) \<Longrightarrow> live G \<inter> block b = {}"
  shows "sys_ok owns G' hs' pool' s' w'"
proof -
  note D = sys_okD [OF ok]
  have pl: "place_of G' x = (if x = b then q else place_of G x)" for x by (simp add: G')
  have 3: "queues_ok G' s'"
    unfolding queues_ok_def
  proof (intro ballI allI)
    fix i k c assume "i \<in> ids G'"
    then have i: "i \<in> ids G" by (simp add: G')
    note qd = queueD [OF ok i, of k c]
    have "dll s' (i, k, c) (queue G (i, k, c)) = dll s (i, k, c) (queue G (i, k, c))"
    proof (rule dll_cong)
      fix x assume "x \<in> set (queue G (i, k, c))"
      then have "x \<noteq> b" using qd(2) out(1) by (auto simp: unlisted_def)
      then show "prev_link (hdr s' x) = prev_link (hdr s x) \<and> next_link (hdr s' x) = next_link (hdr s x)" by (simp add: st(1))
    qed (simp add: st(2))
    moreover have "place_of G' x = Some (Queue i k c) \<longleftrightarrow> place_of G x = Some (Queue i k c)" for x
      using out by (simp add: pl unlisted_def)
    ultimately show "dll s' (i, k, c) (queue G' (i, k, c)) \<and> set (queue G' (i, k, c)) = {b. place_of G' b = Some (Queue i k c)}"
      using qd by (simp add: G')
  qed
  have 7: "slabs_ok G' s'"
    unfolding slabs_ok_def
  proof (intro allI impI)
    fix x p assume x: "place_of G' x = Some p" "is_slab p"
    show "slab_at s' x (live G') (lcls G') (img G') \<and> place_ok G' s' x p"
    proof (cases "x = b")
      case True
      then show ?thesis using new x by (simp add: G')
    next
      case False
      then have g: "place_of G x = Some p" using x by (simp add: G')
      then have "keeps {x} (bytes s) (bytes s')" using keeps_sub [OF st(3), of "{x}"] False by auto
      then have "slab_at s' x (live G) (lcls G) (img G) = slab_at s x (live G) (lcls G) (img G)" "place_ok G s' x p = place_ok G s x p"
        using slab_at_same [OF st(1) [OF False]] place_ok_cong [of s' x s G p] st(1) [OF False] by simp_all
      then show ?thesis using D(7) g x(2) by (simp add: G' slabs_ok_def)
    qed
  qed
  have 8: "live_ok G'"
  proof (rule live_ok_mono [OF D(8)])
    fix x p assume x: "place_of G x = Some p" "is_slab p" "live G \<inter> block x \<noteq> {}"
    show "\<exists>pl'. place_of G' x = Some pl' \<and> is_slab pl'"
      using x dead by (cases "x = b") (auto simp: pl)
  qed (simp add: G')
  have 9: "keeps_regions (large G') (img G') (bytes s')" using keeps_regions_trans [OF D(9) st(4)] by (simp add: G')
  have "large G' = large G" by (simp add: G')
  then show ?thesis using parts 3 7 8 9 by (simp only: sys_ok_def simp_thms)
qed

lemma bins_ok_frame:
  assumes "bins_ok G hs" "ids G' = ids G" "used G' = used G" "\<And>x i c. place_of G' x = Some (Bin i c) \<longleftrightarrow> place_of G x = Some (Bin i c)"
  shows "bins_ok G' hs"
  using assms by (simp add: bins_ok_def)

lemma live_apart:
  assumes ok: "sys_ok owns G hs pool s w" and b: "page_ok b" "\<And>pl. place_of G b = Some pl \<Longrightarrow> \<not> is_slab pl"
  shows "live G \<inter> block b = {}"
proof (rule ccontr)
  assume "live G \<inter> block b \<noteq> {}"
  then obtain p where p: "p \<in> live G" "p \<in> block b" by blast
  then obtain x pl where x: "place_of G x = Some pl" "is_slab pl" "p \<in> block x"
    using sys_okD(8) [OF ok] by (auto simp: live_ok_def)
  then have "x \<noteq> b" using b(2) by blast
  then show False using blocks_disjoint [OF place_page_ok [OF ok x(1)] b(1)] x(3) p(2) by blast
qed

text \<open>Bins.\<close>

definition moved :: "addr \<Rightarrow> place \<Rightarrow> ghost \<Rightarrow> ghost" where
  "moved b pl G = G\<lparr>place_of := (place_of G)(b \<mapsto> pl)\<rparr>"

lemma moved_simps [simp]:
  "ids (moved b pl G) = ids G" "used (moved b pl G) = used G" "dying (moved b pl G) = dying G" "busy (moved b pl G) = busy G" "live (moved b pl G) = live G" "lcls (moved b pl G) = lcls G" "img (moved b pl G) = img G"
  "large (moved b pl G) = large G" "walk (moved b pl G) = walk G" "cached (moved b pl G) = cached G" "abq (moved b pl G) = abq G"
  "queue (moved b pl G) = queue G" "place_of (moved b pl G) = (place_of G)(b \<mapsto> pl)"
  by (simp_all add: moved_def)

lemma sys_bin_move:
  assumes ok: "sys_ok owns G hs pool s w" and b: "place_of G b = Some q" "q = Loose \<or> q = Bin i c" "q' = Loose \<or> q' = Bin i c"
    and bin: "bins_ok (moved b q' G) hs'" and pl: "place_ok G s b q'"
  shows "sys_ok owns (moved b q' G) hs' pool s w"
proof -
  note D = sys_okD [OF ok]
  have others: "place_of (moved b q' G) x = Some p \<longleftrightarrow> place_of G x = Some p" if "p \<noteq> Loose" "p \<noteq> Bin i c" for x p
    using b that by auto
  have "dom (place_of (moved b q' G)) = dom (place_of G)" using b(1) by auto
  then have 1: "pool_inv owns pool (bytes s) (large G) (dom (place_of (moved b q' G)))" using D(1) by simp
  have 4: "aband_ok (moved b q' G) pool s" by (rule aband_ok_frame [OF D(4)]) (use others in auto)
  have 5: "walk_ok (moved b q' G) s w" by (rule walk_ok_frame [OF D(5)]) (use others in auto)
  have 6: "cache_list_ok (moved b q' G) pool (bytes s)" by (rule cache_list_frame [OF D(6)]) (use others in auto)
  have "is_slab q" using b(2) by auto
  then have "slab_at s b (live G) (lcls G) (img G)" using D(7) b(1) by (simp add: slabs_ok_def)
  then show ?thesis
    by (intro sys_change [OF ok, where b = b and q = "Some q'" and a = "abq G" and v = "walk G" and ca = "cached G"] 1 4 5 6 bin)
      (use b pl in \<open>auto simp: moved_def unlisted_def\<close>)
qed

lemma sys_bin_put:
  assumes ok: "sys_ok owns G (hs(i := h)) pool s w" and i: "i \<in> ids G" "c < NUM_CLASSES" and b: "place_of G b = Some Loose"
    and h: "bins h c = None" "heap_id (hdr s b) = i" "cls s b = c"
  shows "sys_ok owns (moved b (Bin i c) G) (hs(i := set_bin c (Some b) h)) pool s w"
proof (rule sys_bin_move [OF ok b])
  show "place_ok G s b (Bin i c)" using i h by (simp add: place_ok_def)
  have old: "hid (if j = i then h else hs j) = j \<and> (\<forall>d x. bins (if j = i then h else hs j) d = Some x \<longleftrightarrow> place_of G x = Some (Bin j d))"
    if "j \<in> ids G" for j using sys_okD(2) [OF ok] that by (simp add: bins_ok_def)
  show "bins_ok (moved b (Bin i c) G) (hs(i := set_bin c (Some b) h))"
    unfolding bins_ok_def
  proof (intro conjI ballI allI)
    show "ids (moved b (Bin i c) G) \<subseteq> used (moved b (Bin i c) G)" using sys_okD(2) [OF ok] by (simp add: bins_ok_def)
    fix j assume "j \<in> ids (moved b (Bin i c) G)"
    then have j: "j \<in> ids G" by simp
    show "hid ((hs(i := set_bin c (Some b) h)) j) = j" using old [OF j] by (auto simp: set_bin_def)
    have bi: "bins h d = Some x \<longleftrightarrow> place_of G x = Some (Bin i d)" for d x using old [OF i(1)] by simp
    show "bins ((hs(i := set_bin c (Some b) h)) j) d = Some x \<longleftrightarrow> place_of (moved b (Bin i c) G) x = Some (Bin j d)" for d x
      using old [OF j] bi [of d x] bi [of c x] h(1) b by (cases "j = i") (auto simp: set_bin_def)
  qed
qed simp_all

lemma sys_bin_take:
  assumes ok: "sys_ok owns G (hs(i := h)) pool s w" and i: "i \<in> ids G" and b: "bins h c = Some b"
  shows "place_of G b = Some (Bin i c)" "sys_ok owns (moved b Loose G) (hs(i := set_bin c None h)) pool s w"
proof -
  have old: "hid (if j = i then h else hs j) = j \<and> (\<forall>d x. bins (if j = i then h else hs j) d = Some x \<longleftrightarrow> place_of G x = Some (Bin j d))"
    if "j \<in> ids G" for j using sys_okD(2) [OF ok] that by (simp add: bins_ok_def)
  have bi: "bins h d = Some x \<longleftrightarrow> place_of G x = Some (Bin i d)" for d x using old [OF i] by simp
  show p: "place_of G b = Some (Bin i c)" using bi b by simp
  show "sys_ok owns (moved b Loose G) (hs(i := set_bin c None h)) pool s w"
  proof (rule sys_bin_move [OF ok p])
    show "bins_ok (moved b Loose G) (hs(i := set_bin c None h))"
      unfolding bins_ok_def
    proof (intro conjI ballI allI)
      show "ids (moved b Loose G) \<subseteq> used (moved b Loose G)" using sys_okD(2) [OF ok] by (simp add: bins_ok_def)
      fix j assume "j \<in> ids (moved b Loose G)"
      then have j: "j \<in> ids G" by simp
      show "hid ((hs(i := set_bin c None h)) j) = j" using old [OF j] by (auto simp: set_bin_def)
      show "bins ((hs(i := set_bin c None h)) j) d = Some x \<longleftrightarrow> place_of (moved b Loose G) x = Some (Bin j d)" for d x
        using old [OF j] bi [of d x] bi [of c x] b p by (cases "j = i") (auto simp: set_bin_def)
    qed
  qed (simp_all add: place_ok_def)
qed

subsection \<open>The page cache and the pool\<close>

lemma other_places:
  assumes "\<And>x. x \<noteq> b \<Longrightarrow> place_of G' x = place_of G x" "place_of G b \<noteq> Some p" "place_of G' b \<noteq> Some p"
  shows "place_of G' x = Some p \<longleftrightarrow> place_of G x = Some p"
  using assms by (cases "x = b") auto

definition page_like :: "place option \<Rightarrow> bool" where
  "page_like q \<longleftrightarrow> q = None \<or> q = Some Loose \<or> q = Some Page \<or> q = Some Cache"

text \<open>A page or slab moves between the pool, the cache and the running operation.\<close>

lemma sys_page_move:
  assumes ok: "sys_ok owns G hs pool s w"
    and G': "G' = G\<lparr>place_of := (place_of G)(b := q), cached := ca\<rparr>"
    and b: "page_like (place_of G b)" "page_like q"
    and st: "\<And>x. x \<noteq> b \<Longrightarrow> hdr s' x = hdr s x" "heads s' = heads s" "keeps (dom (place_of G) - {b}) (bytes s) (bytes s')"
      "abandoned pool' = abandoned pool" "keeps_regions (large G) (bytes s) (bytes s')"
    and parts: "pool_inv owns pool' (bytes s') (large G) (dom ((place_of G)(b := q)))" "cache_list_ok G' pool' (bytes s')"
    and new: "q = Some Loose \<Longrightarrow> slab_at s' b (live G) (lcls G) (img G)"
    and dead: "place_of G b = Some Loose \<Longrightarrow> q \<noteq> Some Loose \<Longrightarrow> live G \<inter> block b = {}"
  shows "sys_ok owns G' hs pool' s' w"
proof (rule sys_change [OF ok])
  note D = sys_okD [OF ok]
  have o: "place_of G' x = Some p \<longleftrightarrow> place_of G x = Some p" if "\<not> page_like (Some p)" for x p
    using b that by (intro other_places [of b]) (auto simp: G')
  show "G' = G\<lparr>place_of := (place_of G)(b := q), abq := abq G, walk := walk G, cached := ca\<rparr>" by (simp add: G')
  show "bins_ok G' hs" by (rule bins_ok_frame [OF D(2)]) (simp add: G', simp add: G', rule o, simp add: page_like_def)
  have nb: "x \<noteq> b" if "place_of G x = Some p" "\<not> page_like (Some p)" for x p using that b(1) by auto
  show "aband_ok G' pool' s'"
    by (rule aband_ok_frame [OF D(4) st(4)])
      (simp add: G', rule o, simp add: page_like_def, simp add: st(1) nb page_like_def)
  show "walk_ok G' s' w"
    by (rule walk_ok_frame [OF D(5)])
      (simp add: G', rule o, simp add: page_like_def, simp add: st(1) nb page_like_def)
  show "unlisted (place_of G b)" "unlisted q" using b by (auto simp: page_like_def unlisted_def)
  show "pool_inv owns pool' (bytes s') (large G) (dom (place_of G'))" using parts(1) by (simp add: G')
  show "slab_at s' b (live G) (lcls G) (img G) \<and> place_ok G s' b pl" if "q = Some pl" "is_slab pl" for pl
    using that b(2) new by (auto simp: page_like_def place_ok_def)
  show "live G \<inter> block b = {}" if "place_of G b = Some pl" "is_slab pl" "\<forall>pl. q = Some pl \<longrightarrow> \<not> is_slab pl" for pl
    using that b(1) dead by (auto simp: page_like_def)
qed (use st parts in auto)

lemma place_null: "sys_ok owns G hs pool s w \<Longrightarrow> place_of G 0 = None"
  using place_page_ok [of owns G hs pool s w 0] by (cases "place_of G 0") (auto simp: page_ok_def)

lemma sys_pool_frame:
  assumes ok: "sys_ok owns G hs pool s w" and l: "same_links pool s pool' s'" "keeps (dom (place_of G)) (bytes s) (bytes s')"
      "keeps_regions (large G) (bytes s) (bytes s')"
    and p: "pool_inv owns pool' (bytes s') (large G) (dom (place_of G))"
  shows "sys_ok owns G hs pool' s' w"
proof -
  have n: "(place_of G)(0 := None) = place_of G" using place_null [OF ok] by auto
  have c: "cache_list_ok G pool' (bytes s')"
    using l by (intro cache_list_frame [OF sys_okD(6) [OF ok]] keeps_sub [OF l(2)]) (auto simp: same_links_def)
  show ?thesis
    by (rule sys_page_move [OF ok, where b = 0 and q = None and ca = "cached G"])
      (use l p c n place_null [OF ok] in \<open>auto simp: same_links_def page_like_def keeps_def\<close>)
qed

lemma sys_pool_metrics:
  assumes "sys_ok owns G hs pool s w"
  shows "sys_ok owns G hs (pool\<lparr>state := state pool\<lparr>metrics := pm\<rparr>\<rparr>) s w"
proof (rule sys_pool_frame [OF assms])
  have "seg_regions (state pool\<lparr>metrics := pm\<rparr>) = seg_regions (state pool)" by (simp add: seg_regions_def)
  then show "pool_inv owns (pool\<lparr>state := state pool\<lparr>metrics := pm\<rparr>\<rparr>) (bytes s) (large G) (dom (place_of G))"
    using sys_okD(1) [OF assms] by (simp add: pool_inv_def)
qed (simp_all add: same_links_def keeps_def)

lemma cache_head:
  assumes "sys_ok owns G hs pool s w"
  shows "slab_cache pool = 0 \<longleftrightarrow> cached G = []" "slab_cache pool \<noteq> 0 \<Longrightarrow> \<exists>xs. cached G = slab_cache pool # xs"
    "slab_cache pool < 2 ^ 64"
proof -
  have c: "chain (read_next (bytes s)) (slab_cache pool) (cached G)" "set (cached G) = {b. place_of G b = Some Cache}"
    using sys_okD(6) [OF assms] by (simp_all add: cache_list_ok_def)
  then show 1: "slab_cache pool = 0 \<longleftrightarrow> cached G = []" by (cases "cached G") auto
  then show "\<exists>xs. cached G = slab_cache pool # xs" if "slab_cache pool \<noteq> 0" using c(1) that by (cases "cached G") auto
  have "page_ok (slab_cache pool)" if "slab_cache pool \<noteq> 0"
    using chain_head_mem [OF c(1)] that c(2) place_page_ok [OF assms] by auto
  then show "slab_cache pool < 2 ^ 64" by (cases "slab_cache pool = 0") (auto simp: page_ok_def)
qed

definition uncached :: "addr \<Rightarrow> ghost \<Rightarrow> ghost" where
  "uncached b G = G\<lparr>place_of := (place_of G)(b \<mapsto> Page), cached := tl (cached G)\<rparr>"

lemma uncached_simps [simp]:
  "ids (uncached b G) = ids G" "used (uncached b G) = used G" "dying (uncached b G) = dying G" "busy (uncached b G) = busy G" "live (uncached b G) = live G" "lcls (uncached b G) = lcls G" "img (uncached b G) = img G"
  "large (uncached b G) = large G" "walk (uncached b G) = walk G" "queue (uncached b G) = queue G" "abq (uncached b G) = abq G"
  "place_of (uncached b G) = (place_of G)(b \<mapsto> Page)"
  by (simp_all add: uncached_def)

lemma sys_uncache:
  assumes ok: "sys_ok owns G hs pool s w" and u: "uncache_slab pool s = (r, pool')"
  shows "case r of None \<Rightarrow> pool' = pool
    | Some b \<Rightarrow> place_of G b = Some Cache \<and> sys_ok owns (uncached b G) hs pool' s w"
proof (cases "slab_cache pool = 0")
  case True
  then show ?thesis using u by (auto simp: uncache_slab_def)
next
  case False
  note D = sys_okD [OF ok]
  obtain xs where xs: "cached G = slab_cache pool # xs" using cache_head(2) [OF ok False] by blast
  define b where "b = slab_cache pool"
  have r: "r = Some b" "pool' = pool\<lparr>slab_cache := read_next (bytes s) b, slab_cache_len := slab_cache_len pool - 1\<rparr>"
    using u False by (auto simp: uncache_slab_def b_def Let_def)
  have c: "chain (read_next (bytes s)) b (b # xs)" "slab_cache_len pool = length (b # xs)" "set (b # xs) = {x. place_of G x = Some Cache}"
    using D(6) xs by (simp_all add: cache_list_ok_def b_def)
  have pb: "place_of G b = Some Cache" using c(3) by auto
  have d: "b \<notin> set xs" using chain_distinct [OF c(1)] by simp
  have "set xs = {x. ((place_of G)(b \<mapsto> Page)) x = Some Cache}" using c(3) d by auto
  then have cl: "cache_list_ok (uncached b G) pool' (bytes s)"
    using c r xs by (simp add: cache_list_ok_def uncached_def b_def)
  have "dom ((place_of G)(b \<mapsto> Page)) = dom (place_of G)" using pb by auto
  then have "pool_inv owns pool' (bytes s) (large G) (dom ((place_of G)(b \<mapsto> Page)))"
    using D(1) r(2) by (simp add: pool_inv_def)
  then have "sys_ok owns (uncached b G) hs pool' s w"
    by (intro sys_page_move [OF ok, where b = b and q = "Some Page" and ca = "tl (cached G)"] cl)
      (use pb r in \<open>auto simp: uncached_def page_like_def keeps_def\<close>)
  then show ?thesis using r pb by simp
qed

lemma sys_init:
  assumes ok: "sys_ok owns G hs pool s w" and b: "place_of G b = Some Page" and c: "c < NUM_CLASSES"
  shows "sys_ok owns (moved b Loose G) hs pool (slab_init b (of_nat c) i s) w"
    "cls (slab_init b (of_nat c) i s) b = c" "heap_id (hdr (slab_init b (of_nat c) i s) b) = i"
proof -
  note D = sys_okD [OF ok]
  let ?s = "slab_init b (of_nat c) i s"
  have u: "unat (of_nat c :: u8) = c" using c by (simp add: unat_of_nat geom_simps)
  have pk: "page_ok b" using place_page_ok [OF ok b] .
  have sl: "slab_ok ?s b c [] [] {}" using slab_init_ok [OF page_base_ok [OF pk], of "of_nat c"] u c by simp
  then show k: "cls ?s b = c" by (rule cls_eq)
  show "heap_id (hdr ?s b) = i" by (simp add: slab_init_def Let_def)
  have "live G \<inter> block b = {}" using live_apart [OF ok pk] b by auto
  then have at: "slab_at ?s b (live G) (lcls G) (img G)" using sl k by (auto simp: slab_at_def)
  have s: "\<And>x. x \<noteq> b \<Longrightarrow> hdr ?s x = hdr s x" "heads ?s = heads s" "bytes ?s = bytes s"
    by (simp_all add: slab_init_def Let_def)
  have "dom ((place_of G)(b \<mapsto> Loose)) = dom (place_of G)" using b by auto
  then have p: "pool_inv owns pool (bytes ?s) (large G) (dom ((place_of G)(b \<mapsto> Loose)))" using D(1) s(3) by simp
  have cl: "cache_list_ok (moved b Loose G) pool (bytes ?s)"
    by (rule cache_list_frame [OF D(6)]) (use b s in \<open>auto simp: keeps_def\<close>)
  show "sys_ok owns (moved b Loose G) hs pool ?s w"
    by (rule sys_page_move [OF ok, where b = b and q = "Some Loose" and ca = "cached G"])
      (use b s p cl at in \<open>auto simp: moved_def page_like_def keeps_def\<close>)
qed

subsection \<open>Abandoned slabs\<close>

text \<open>A slab with allocated slots moves between the abandoned lists, the adopted chain and the operation.\<close>

definition adrift :: "place option \<Rightarrow> bool" where
  "adrift q \<longleftrightarrow> q = Some Loose \<or> q = Some Walk \<or> (\<exists>c. q = Some (Aband c))"

lemma sys_slab_move:
  assumes ok: "sys_ok owns G hs pool s w"
    and G': "G' = G\<lparr>place_of := (place_of G)(b := q), abq := a, walk := v\<rparr>"
    and b: "adrift (place_of G b)" "adrift q"
    and st: "\<And>x. x \<noteq> b \<Longrightarrow> hdr s' x = hdr s x" "heads s' = heads s" "bytes s' = bytes s"
      "slab_core (hdr s' b) = slab_core (hdr s b)"
    and po: "page_alloc pool' = page_alloc pool" "\<exists>pm. state pool' = state pool\<lparr>metrics := pm\<rparr>"
      "slab_cache pool' = slab_cache pool" "slab_cache_len pool' = slab_cache_len pool"
    and parts: "aband_ok G' pool' s'" "walk_ok G' s' w'"
    and new: "\<And>pl. q = Some pl \<Longrightarrow> place_ok G s' b pl"
  shows "sys_ok owns G' hs pool' s' w'"
proof (rule sys_change [OF ok])
  note D = sys_okD [OF ok]
  obtain pm where pm: "state pool' = state pool\<lparr>metrics := pm\<rparr>" using po(2) by blast
  have o: "place_of G' x = Some p \<longleftrightarrow> place_of G x = Some p" if "\<not> adrift (Some p)" for x p
    using b that by (intro other_places [of b]) (auto simp: G')
  show "G' = G\<lparr>place_of := (place_of G)(b := q), abq := a, walk := v, cached := cached G\<rparr>" by (simp add: G')
  show "bins_ok G' hs" by (rule bins_ok_frame [OF D(2)]) (simp add: G', simp add: G', rule o, simp add: adrift_def)
  show "cache_list_ok G' pool' (bytes s')"
    by (rule cache_list_frame [OF D(6) po(3,4)])
      (simp add: G', rule o, simp add: adrift_def, simp add: st keeps_def)
  show "unlisted (place_of G b)" "unlisted q" using b by (auto simp: adrift_def unlisted_def)
  have "dom (place_of G') = dom (place_of G)" using b by (auto simp: G' adrift_def)
  moreover have "seg_regions (state pool') = seg_regions (state pool)" using pm by (simp add: seg_regions_def)
  ultimately show "pool_inv owns pool' (bytes s') (large G) (dom (place_of G'))"
    using D(1) po(1) pm st(3) by (simp add: pool_inv_def)
  obtain p where p: "place_of G b = Some p" "is_slab p" using b(1) by (auto simp: adrift_def)
  have "slab_at s b (live G) (lcls G) (img G)" using D(7) p by (simp add: slabs_ok_def)
  moreover have "slab_ok s' b c loc rem out = slab_ok s b c loc rem out" for c loc rem out
    using slab_ok_frame [of s b c loc rem out s'] slab_ok_frame [of s' b c loc rem out s] st by auto
  moreover have "cls s' b = cls s b" using st(4) by (simp add: cls_def slab_core_def)
  ultimately show "slab_at s' b (live G) (lcls G) (img G) \<and> place_ok G s' b pl" if "q = Some pl" "is_slab pl" for pl
    using new [OF that(1)] st(3) by (simp add: slab_at_def)
  show "live G \<inter> block b = {}" if "place_of G b = Some pl" "is_slab pl" "\<forall>pl. q = Some pl \<longrightarrow> \<not> is_slab pl" for pl
    using that b(2) by (auto simp: adrift_def)
qed (use st parts in \<open>auto simp: keeps_def\<close>)

definition given_up :: "addr \<Rightarrow> nat \<Rightarrow> ghost \<Rightarrow> ghost" where
  "given_up b c G = G\<lparr>place_of := (place_of G)(b \<mapsto> Aband c), abq := (abq G)(c := b # abq G c)\<rparr>"

lemma sys_abandon:
  assumes ok: "sys_ok owns G hs pool s w" and b: "place_of G b = Some Loose" "heap_id (hdr s b) \<in> used G - (ids G - dying G)"
  shows "\<exists>pool' s'. abandon_slab b pool s = Some (pool', s') \<and> sys_ok owns (given_up b (cls s b) G) hs pool' s' w \<and>
    heads s' = heads s \<and> (\<forall>x. x \<noteq> b \<longrightarrow> hdr s' x = hdr s x)"
proof -
  note D = sys_okD [OF ok]
  define c where "c = cls s b"
  obtain "c < NUM_CLASSES" and pk: "page_ok b" using place_slab [OF ok b(1)] unfolding c_def by auto
  note c = this(1)
  have ci: "unat (size_class_index (hdr s b)) = c" by (simp add: c_def cls_def)
  define s' where "s' = set_next_link b (nonnull (abandoned pool c)) s"
  define pool' where "pool' = pool\<lparr>abandoned := (abandoned pool)(c := b), state := state pool\<lparr>metrics := metrics (state pool)\<lparr>abandon_count :=
     (abandon_count (metrics (state pool)))(c := abandon_count (metrics (state pool)) c + 1)\<rparr>\<rparr>\<rparr>"
  have ab: "abandon_slab b pool s = Some (pool', s')" using c ci by (simp add: abandon_slab_def s'_def pool'_def Let_def)
  have hd: "hdr s' x = hdr s x" if "x \<noteq> b" for x using that by (simp add: s'_def)
  have au: "aband_ok (given_up b c G) pool' s'"
    unfolding aband_ok_def
  proof (intro allI impI)
    fix d assume d: "d < NUM_CLASSES"
    then have a: "schain s (nonnull (abandoned pool d)) (abq G d)" "distinct (abq G d)" "set (abq G d) = {x. place_of G x = Some (Aband d)}"
      using D(4) by (simp_all add: aband_ok_def)
    have nb: "b \<notin> set (abq G d)" using a(3) b(1) by simp
    then have k: "schain s' p (abq G d) = schain s p (abq G d)" for p using hd by (intro schain_cong) metis
    show "schain s' (nonnull (abandoned pool' d)) (abq (given_up b c G) d) \<and> distinct (abq (given_up b c G) d) \<and>
        set (abq (given_up b c G) d) = {x. place_of (given_up b c G) x = Some (Aband d)}"
    proof (cases "d = c")
      case True
      have "b \<noteq> 0" using pk by (simp add: page_ok_def)
      moreover have "next_link (hdr s' b) = nonnull (abandoned pool c)" by (simp add: s'_def)
      ultimately show ?thesis using True a nb k b(1) by (auto simp: given_up_def pool'_def nonnull_def)
    next
      case False
      then show ?thesis using a k b(1) by (auto simp: given_up_def pool'_def)
    qed
  qed
  have wa: "walk_ok (given_up b c G) s' w"
    by (rule walk_ok_frame [OF D(5)]) (use b(1) hd in \<open>auto simp: given_up_def s'_def\<close>)
  have "place_ok G s' b (Aband c)" using c b(2) by (simp add: place_ok_def s'_def c_def cls_def)
  then have "sys_ok owns (given_up b c G) hs pool' s' w"
    by (intro sys_slab_move [OF ok, where b = b and q = "Some (Aband c)" and a = "(abq G)(c := b # abq G c)" and v = "walk G"] au wa)
      (use b(1) in \<open>auto simp: given_up_def adrift_def s'_def pool'_def\<close>)
  then show ?thesis using ab hd by (simp add: c_def s'_def)
qed

definition adopted :: "nat \<Rightarrow> ghost \<Rightarrow> ghost" where
  "adopted c G = G\<lparr>place_of := (\<lambda>x. if place_of G x = Some (Aband c) then Some Walk else place_of G x),
     abq := (abq G)(c := []), walk := abq G c, wcls := c\<rparr>"

lemma sys_adopt_all:
  assumes ok: "sys_ok owns G hs pool s None" and c: "c < NUM_CLASSES" and ad: "adopt_all c pool = (r, pool')"
  shows "sys_ok owns (adopted c G) hs pool' s r"
proof -
  note D = sys_okD [OF ok]
  have nw: "place_of G x \<noteq> Some Walk" for x using D(5) by (cases "walk G") (auto simp: walk_ok_def)
  have r: "r = nonnull (abandoned pool c)" "pool' = pool\<lparr>abandoned := (abandoned pool)(c := 0)\<rparr>"
    using ad fun_upd_idem [of "abandoned pool" c 0]
    by (cases "abandoned pool c = 0"; simp add: adopt_all_def nonnull_def Let_def)+
  have ac: "schain s r (abq G c)" "distinct (abq G c)" "set (abq G c) = {x. place_of G x = Some (Aband c)}"
    using D(4) c r(1) by (simp_all add: aband_ok_def)
  have o: "place_of (adopted c G) x = Some p \<longleftrightarrow> place_of G x = Some p" if "p \<noteq> Walk" "p \<noteq> Aband c" for x p
    using that by (auto simp: adopted_def)
  have dom: "dom (place_of (adopted c G)) = dom (place_of G)" by (auto simp: adopted_def dom_def)
  have 1: "pool_inv owns pool' (bytes s) (large (adopted c G)) (dom (place_of (adopted c G)))"
    using D(1) r(2) unfolding dom by (simp add: pool_inv_def adopted_def)
  have 2: "bins_ok (adopted c G) hs" by (rule bins_ok_frame [OF D(2)]) (simp add: adopted_def, simp add: adopted_def, rule o, simp_all)
  have 3: "queues_ok (adopted c G) s" using D(3) o by (simp add: queues_ok_def adopted_def)
  have 4: "aband_ok (adopted c G) pool' s"
    unfolding aband_ok_def
  proof (intro allI impI)
    fix d assume d: "d < NUM_CLASSES"
    have e: "{x. place_of (adopted c G) x = Some (Aband d)} = (if d = c then {} else {x. place_of G x = Some (Aband d)})"
      by (auto simp: adopted_def)
    show "schain s (nonnull (abandoned pool' d)) (abq (adopted c G) d) \<and> distinct (abq (adopted c G) d) \<and>
        set (abq (adopted c G) d) = {x. place_of (adopted c G) x = Some (Aband d)}"
      unfolding e using D(4) d r(2) by (cases "d = c") (auto simp: aband_ok_def adopted_def nonnull_def)
  qed
  have 5: "walk_ok (adopted c G) s r" using ac nw by (simp add: walk_ok_def adopted_def)
  have 6: "cache_list_ok (adopted c G) pool' (bytes s)"
    by (rule cache_list_frame [OF D(6)]) (use r(2) o in \<open>auto simp: adopted_def keeps_def\<close>)
  have 7: "slabs_ok (adopted c G) s"
    unfolding slabs_ok_def
  proof (intro allI impI)
    fix x p assume x: "place_of (adopted c G) x = Some p" "is_slab p"
    show "slab_at s x (live (adopted c G)) (lcls (adopted c G)) (img (adopted c G)) \<and> place_ok (adopted c G) s x p"
    proof (cases "place_of G x = Some (Aband c)")
      case True
      then have "slab_at s x (live G) (lcls G) (img G) \<and> place_ok G s x (Aband c)" using D(7) by (simp add: slabs_ok_def)
      moreover have "p = Walk" using x True by (simp add: adopted_def)
      ultimately show ?thesis by (simp add: adopted_def place_ok_def)
    next
      case False
      then have p: "place_of G x = Some p" using x by (simp add: adopted_def)
      then have "slab_at s x (live G) (lcls G) (img G) \<and> place_ok G s x p" using D(7) x(2) by (simp add: slabs_ok_def)
      moreover have "p \<noteq> Walk" using p nw by auto
      ultimately show ?thesis by (simp add: adopted_def place_ok_def split: place.splits)
    qed
  qed
  have 8: "live_ok (adopted c G)" by (rule live_ok_mono [OF D(8)]) (auto simp: adopted_def)
  have 9: "keeps_regions (large (adopted c G)) (img (adopted c G)) (bytes s)" using D(9) by (simp add: adopted_def)
  show ?thesis using 1 2 3 4 5 6 7 8 9 by (simp only: sys_ok_def simp_thms)
qed

definition walked :: "addr \<Rightarrow> ghost \<Rightarrow> ghost" where
  "walked b G = G\<lparr>place_of := (place_of G)(b \<mapsto> Loose), walk := tl (walk G)\<rparr>"

lemma sys_walk_step:
  assumes ok: "sys_ok owns G hs pool s (Some b)"
  shows "walk G = b # tl (walk G)" "place_of G b = Some Walk" "cls s b = wcls G"
    "sys_ok owns (walked b G) hs pool (set_heap_id b i (set_prev_link b NullLoc (set_next_link b None s))) (next_link (hdr s b))"
      (is "sys_ok _ _ _ _ ?s _")
proof -
  note D = sys_okD [OF ok]
  have w: "schain s (Some b) (walk G)" "distinct (walk G)" "set (walk G) = {x. place_of G x = Some Walk}"
    using D(5) by (simp_all add: walk_ok_def)
  then obtain xs where xs: "walk G = b # xs" "schain s (next_link (hdr s b)) xs" by (cases "walk G") auto
  then show "walk G = b # tl (walk G)" by simp
  show b: "place_of G b = Some Walk" using w(3) xs(1) by auto
  then have "place_ok G s b Walk" using D(7) by (simp add: slabs_ok_def)
  then show "cls s b = wcls G" by (simp add: place_ok_def)
  have hd: "hdr ?s x = hdr s x" if "x \<noteq> b" for x using that by (simp add: set_heap_id_def)
  have au: "aband_ok (walked b G) pool ?s"
    by (rule aband_ok_frame [OF D(4)]) (use b in \<open>auto simp: walked_def set_heap_id_def\<close>)
  have nb: "b \<notin> set xs" using w(2) xs(1) by simp
  then have "schain ?s (next_link (hdr s b)) xs" using xs(2) hd by (subst schain_cong [of _ _ s]) metis+
  moreover have "set xs = {x. place_of (walked b G) x = Some Walk}" using w(3) xs(1) nb by (auto simp: walked_def)
  ultimately have wa: "walk_ok (walked b G) ?s (next_link (hdr s b))" using w(2) xs(1) by (simp add: walk_ok_def walked_def)
  show "sys_ok owns (walked b G) hs pool ?s (next_link (hdr s b))"
    by (intro sys_slab_move [OF ok, where b = b and q = "Some Loose" and a = "abq G" and v = "tl (walk G)"] au wa)
      (use b in \<open>auto simp: walked_def adrift_def place_ok_def set_heap_id_def intro: exI [of _ "metrics (state pool)"]\<close>)
qed

subsection \<open>Pages of the pool\<close>

context page_allocator
begin

lemma sys_page_alloc:
  assumes ok: "sys_ok owns G hs pool s w"
  shows "\<exists>r pool' s'. alloc_slab A pool s = Some (r, pool', s') \<and> (case r of None \<Rightarrow> sys_ok owns G hs pool' s' w
     | Some b \<Rightarrow> place_of G b = None \<and> sys_ok owns (moved b Page G) hs pool' s' w)"
proof -
  note D = sys_okD [OF ok]
  obtain r pool' s' where a: "alloc_slab A pool s = Some (r, pool', s')" "same_links pool s pool' s'"
      "keeps (dom (place_of G)) (bytes s) (bytes s')" "keeps_regions (large G) (bytes s) (bytes s')"
      "case r of None \<Rightarrow> pool_inv owns pool' (bytes s') (large G) (dom (place_of G))
       | Some x \<Rightarrow> x \<notin> dom (place_of G) \<and> base_ok x \<and> pool_inv owns pool' (bytes s') (large G) (insert x (dom (place_of G)))"
    using alloc_slab_ok [OF D(1)] by blast
  show ?thesis
  proof (cases r)
    case None
    then show ?thesis using a sys_pool_frame [OF ok a(2-4)] by simp
  next
    case (Some b)
    have b: "place_of G b = None" "pool_inv owns pool' (bytes s') (large G) (dom ((place_of G)(b \<mapsto> Page)))"
      using a(5) Some by auto
    have cl: "cache_list_ok (moved b Page G) pool' (bytes s')"
      by (rule cache_list_frame [OF D(6)]) (use a(2) b(1) in \<open>auto simp: same_links_def intro: keeps_sub [OF a(3)]\<close>)
    have "sys_ok owns (moved b Page G) hs pool' s' w"
      by (rule sys_page_move [OF ok, where b = b and q = "Some Page" and ca = "cached G"])
        (use a(2-4) b cl in \<open>auto simp: moved_def page_like_def same_links_def intro: keeps_sub\<close>)
    then show ?thesis using a(1) b Some by simp
  qed
qed

text \<open>A free slab goes to the cache, or back to the pool when the cache is full.\<close>

lemma sys_cache_slab:
  assumes ok: "sys_ok owns G hs pool s w" and b: "place_of G b = Some Loose" "live G \<inter> block b = {}"
  shows "\<exists>pool' s' q ca. cache_slab A b pool s = Some (pool', s') \<and> (q = None \<or> q = Some Cache) \<and>
    sys_ok owns (G\<lparr>place_of := (place_of G)(b := q), cached := ca\<rparr>) hs pool' s' w \<and> hdr s' = hdr s \<and> heads s' = heads s"
proof (cases "slab_cache_len pool \<ge> SLAB_CACHE_MAX")
  case True
  note D = sys_okD [OF ok]
  have "b \<in> dom (place_of G)" using b(1) by auto
  then obtain pool' s' where d: "dealloc_slab A b pool s = Some (pool', s')" "same_links pool s pool' s'"
      "keeps (dom (place_of G) - {b}) (bytes s) (bytes s')" "keeps_regions (large G) (bytes s) (bytes s')" "pool_inv owns pool' (bytes s') (large G) (dom (place_of G) - {b})"
    using dealloc_slab_ok [OF D(1)] by blast
  let ?G = "G\<lparr>place_of := (place_of G)(b := None), cached := cached G\<rparr>"
  have p: "pool_inv owns pool' (bytes s') (large G) (dom ((place_of G)(b := None)))" using d(5) by simp
  have cl: "cache_list_ok ?G pool' (bytes s')"
    by (rule cache_list_frame [OF D(6)]) (use d(2) b(1) in \<open>auto simp: same_links_def intro: keeps_sub [OF d(3)]\<close>)
  have "sys_ok owns ?G hs pool' s' w"
    by (rule sys_page_move [OF ok, where b = b and q = None and ca = "cached G"])
      (use d(2-4) b p cl in \<open>auto simp: page_like_def same_links_def\<close>)
  moreover have "cache_slab A b pool s = Some (pool', s')" "hdr s' = hdr s" "heads s' = heads s"
    using True d(1,2) by (simp_all add: cache_slab_def same_links_def)
  ultimately show ?thesis by blast
next
  case False
  note D = sys_okD [OF ok]
  let ?G = "G\<lparr>place_of := (place_of G)(b := Some Cache), cached := b # cached G\<rparr>"
  define m where "m = write_next (bytes s) b (slab_cache pool)"
  define pool' where "pool' = pool\<lparr>slab_cache := b, slab_cache_len := slab_cache_len pool + 1\<rparr>"
  have cs: "cache_slab A b pool s = Some (pool', s\<lparr>bytes := m\<rparr>)"
    using False by (simp add: cache_slab_def m_def pool'_def)
  have pk: "page_ok b" using place_page_ok [OF ok b(1)] .
  have t: "touches {b} (bytes s) m" by (auto simp: touches_def m_def geom_simps intro!: write_next_outside)
  have k: "keeps (dom (place_of G) - {b}) (bytes s) m"
    using pk place_page_ok [OF ok] by (intro touches_keeps [OF t]) auto
  have kl: "keeps_regions (large G) (bytes s) m"
    unfolding keeps_regions_def
  proof (intro allI impI)
    fix a assume "covered (large G) a"
    then have "a \<notin> block b" using large_apart [OF D(1)] b(1) by blast
    then show "m a = bytes s a" using t by (auto simp: touches_def block_def)
  qed
  have c: "chain (read_next (bytes s)) (slab_cache pool) (cached G)" "slab_cache_len pool = length (cached G)"
      "set (cached G) = {x. place_of G x = Some Cache}"
    using D(6) by (simp_all add: cache_list_ok_def)
  have "apart b y" if "y \<in> set (cached G)" for y
    using that c(3) b(1) place_page_ok [OF ok] by (intro page_apart [OF pk]) auto
  then have "chain (read_next m) b (b # cached G)"
    unfolding m_def using c(1) cache_head(3) [OF ok] pk c(3) b(1) by (intro chain_push) (auto simp: page_ok_def)
  moreover have "set (b # cached G) = {x. ((place_of G)(b := Some Cache)) x = Some Cache}" using c(3) by auto
  ultimately have cl: "cache_list_ok ?G pool' m" using c(2) by (simp add: cache_list_ok_def pool'_def)
  have "dom ((place_of G)(b := Some Cache)) = dom (place_of G)" using b(1) by auto
  then have "pool_inv owns pool' m (large G) (dom ((place_of G)(b := Some Cache)))"
    using pool_inv_touch [OF D(1) t] b(1) by (auto simp: pool'_def pool_inv_def)
  then have "sys_ok owns ?G hs pool' (s\<lparr>bytes := m\<rparr>) w"
    by (intro sys_page_move [OF ok, where b = b and q = "Some Cache" and ca = "b # cached G"])
      (use b k kl cl in \<open>auto simp: page_like_def pool'_def\<close>)
  then show ?thesis using cs by fastforce
qed

end

end
