(* ===== verification/Heap_Correct.thy ===== *)
theory Heap_Correct
  imports Heap_Moves
begin

text \<open>
  The heap operations keep the invariant of the whole system and do what they promise: \<open>alloc\<close>
  returns, and the slot it hands out was free; \<open>dealloc\<close> returns the slot; dropping a heap leaves
  none of its slabs behind. \<open>grown c G r G'\<close>: the running operation has gained the slot \<open>r\<close> of class
  \<open>c\<close>, if any, and no other.
\<close>

definition fresh_slot :: "nat \<Rightarrow> addr \<Rightarrow> bool" where
  "fresh_slot c p \<longleftrightarrow> c < NUM_CLASSES \<and> (\<exists>b k. page_ok b \<and> k < n_slots c \<and> p = slot_addr b c k)"

definition grown :: "nat \<Rightarrow> ghost \<Rightarrow> addr option \<Rightarrow> ghost \<Rightarrow> bool" where
  "grown c G r G' \<longleftrightarrow> ids G' = ids G \<and> used G' = used G \<and> dying G' = dying G \<and> large G' = large G \<and>
     (case r of None \<Rightarrow> live G' = live G \<and> lcls G' = lcls G \<and> img G' = img G
      | Some p \<Rightarrow> p \<notin> live G \<and> fresh_slot c p \<and> live G' = insert p (live G) \<and> lcls G' = (lcls G)(p := c) \<and>
          (\<exists>m. img G' = fill (img G) p (class_size c) m))"

abbreviation steady :: "ghost \<Rightarrow> ghost \<Rightarrow> bool" where
  "steady G G' \<equiv> grown 0 G None G'"

lemma grown_None: "grown c G None G' \<longleftrightarrow> steady G G'"
  by (simp add: grown_def)

lemma grown_trans: "steady G G1 \<Longrightarrow> grown c G1 r G' \<Longrightarrow> grown c G r G'"
  by (cases r) (simp_all add: grown_def)

lemma grown_steady: "grown c G r G1 \<Longrightarrow> steady G1 G' \<Longrightarrow> grown c G r G'"
  by (cases r) (simp_all add: grown_def)

lemma steady_refl [simp]: "steady G G"
  by (simp add: grown_def)

lemma steady_moves [simp]:
  "steady G (queued b h G)" "steady G (unqueued b h G)" "steady G (moved b pl G)" "steady G (uncached b G)"
  "steady G (given_up b c G)" "steady G (adopted c G)" "steady G (walked b G)" "steady G (G\<lparr>busy := b\<rparr>)"
  "steady G (G\<lparr>place_of := f, cached := ca\<rparr>)"
  by (simp_all add: grown_def given_up_def adopted_def walked_def)

text \<open>The operation has given back the slot \<open>p\<close>.\<close>

definition shrunk :: "ghost \<Rightarrow> addr \<Rightarrow> ghost \<Rightarrow> bool" where
  "shrunk G p G' \<longleftrightarrow> ids G' = ids G \<and> used G' = used G \<and> dying G' = dying G \<and> large G' = large G \<and>
     live G' = live G - {p} \<and> lcls G' = lcls G \<and> img G' = img G"

lemma shrunk_steady: "shrunk G p G1 \<Longrightarrow> steady G1 G' \<Longrightarrow> shrunk G p G'"
  by (simp add: shrunk_def grown_def)

lemma sys_hid: "sys_ok owns G (hs(i := h)) pool s w \<Longrightarrow> i \<in> ids G \<Longrightarrow> hid h = i"
  using sys_okD(2) [of owns G "hs(i := h)" pool s w] by (auto simp: bins_ok_def split: if_splits)

lemma sys_used: "sys_ok owns G hs pool s w \<Longrightarrow> ids G \<subseteq> used G"
  by (simp add: sys_ok_def bins_ok_def)

lemma sys_place: "sys_ok owns G hs pool s w \<Longrightarrow> place_of G b = Some pl \<Longrightarrow> is_slab pl \<Longrightarrow> place_ok G s b pl"
  by (simp add: sys_ok_def slabs_ok_def)

lemma sys_heap_metrics:
  assumes "sys_ok owns G (hs(i := h)) pool s w" "hid h' = hid h" "bins h' = bins h"
  shows "sys_ok owns G (hs(i := h')) pool s w"
proof -
  have "bins_ok G (hs(i := h')) = bins_ok G (hs(i := h))" using assms(2,3) by (simp add: bins_ok_def)
  then show ?thesis using assms(1) by (simp add: sys_ok_def)
qed

subsection \<open>Slabs whose free count changes\<close>

lemma sys_ok_busy_irrelevant:
  assumes "sys_ok owns G hs pool s w" "slabs_ok (G\<lparr>busy := b\<rparr>) s"
  shows "sys_ok owns (G\<lparr>busy := b\<rparr>) hs pool s w"
  using assms by (simp add: sys_ok_def bins_ok_def queues_ok_def aband_ok_def walk_ok_def cache_list_ok_def live_ok_def)

lemma sys_set_busy:
  assumes ok: "sys_ok owns G hs pool s w" and "busy G = 0"
  shows "sys_ok owns (G\<lparr>busy := b\<rparr>) hs pool s w"
proof (rule sys_ok_busy_irrelevant [OF ok])
  have "place_ok (G\<lparr>busy := b\<rparr>) s x pl" if "place_ok G s x pl" "page_ok x" for x pl
    using that assms(2) by (auto simp: place_ok_def page_ok_def split: place.splits)
  then show "slabs_ok (G\<lparr>busy := b\<rparr>) s"
    using sys_okD(7) [OF ok] place_page_ok [OF ok] by (simp add: slabs_ok_def)
qed

lemma sys_unset_busy:
  assumes ok: "sys_ok owns G hs pool s w"
    and q: "\<And>i k c. place_of G (busy G) = Some (Queue i k c) \<Longrightarrow> k = Full \<longleftrightarrow> free_count (busy G) s = 0"
  shows "sys_ok owns (G\<lparr>busy := 0\<rparr>) hs pool s w"
proof (rule sys_ok_busy_irrelevant [OF ok])
  have "place_ok (G\<lparr>busy := 0\<rparr>) s x pl" if "place_ok G s x pl" "place_of G x = Some pl" for x pl
    using that q by (cases pl) (auto simp: place_ok_def)
  then show "slabs_ok (G\<lparr>busy := 0\<rparr>) s" using sys_okD(7) [OF ok] by (simp add: slabs_ok_def)
qed

lemma quiet_busy: "busy G = b \<Longrightarrow> is_slab pl \<Longrightarrow> quiet G b pl"
  by (simp add: quiet_def)

lemma quiet_simps [simp]: "quiet G b Loose" "quiet G b (Bin i c)"
  by (simp_all add: quiet_def)

lemma settledD: "settled G \<Longrightarrow> busy G = 0 \<and> place_of G b \<noteq> Some Loose \<and> place_of G b \<noteq> Some Page"
  by (simp add: settled_def)

text \<open>The active slab of a class, when there is one, has a free slot.\<close>

definition ready :: "heap \<Rightarrow> store \<Rightarrow> nat \<Rightarrow> bool" where
  "ready h s c \<longleftrightarrow> (\<forall>x. bins h c = Some x \<longrightarrow> free_count x s \<noteq> 0)"

lemma links_only_free_count: "links_only s s' \<Longrightarrow> free_count x s' = free_count x s"
  by (simp add: links_only_def free_count_def slab_core_def)

lemma links_only_cls: "links_only s s' \<Longrightarrow> cls s' x = cls s x \<and> heap_id (hdr s' x) = heap_id (hdr s x)"
  by (simp add: links_only_def cls_def slab_core_def)

subsection \<open>Placing a slab that has free slots\<close>

text \<open>A slab the operation holds becomes the active slab when there is none, or joins the partial queue.\<close>

lemma install_or_queue:
  assumes ok: "sys_ok owns G (hs(i := h)) pool s w" and i: "i \<in> ids G" "c < NUM_CLASSES" and b: "place_of G b = Some Loose"
    and h: "heap_id (hdr s b) = i" "cls s b = c" "free_count b s \<noteq> 0"
    and r: "if bins h c = None then h' = set_bin c (Some b) h \<and> s' = s else h' = h \<and> s' = slab_list_push (i, Partial, c) b s"
  shows "\<exists>G'. sys_ok owns G' (hs(i := h')) pool s' w \<and> steady G G' \<and> busy G' = busy G \<and> walk G' = walk G \<and> wcls G' = wcls G \<and>
    queue G' (i, Full, c) = queue G (i, Full, c) \<and> (\<exists>q. (q = Bin i c \<or> q = Queue i Partial c) \<and> place_of G' = (place_of G)(b \<mapsto> q)) \<and> links_only s s' \<and>
    (ready h s c \<longrightarrow> ready h' s' c)"
proof (cases "bins h c = None")
  case True
  have "sys_ok owns (moved b (Bin i c) G) (hs(i := set_bin c (Some b) h)) pool s w"
    by (rule sys_bin_put [OF ok i b True h(1,2)])
  then show ?thesis using True r h(3)
    by (intro exI [of _ "moved b (Bin i c) G"]) (auto simp: moved_def ready_def set_bin_def grown_def)
next
  case False
  have "sys_ok owns (queued b (i, Partial, c) G) (hs(i := h)) pool (slab_list_push (i, Partial, c) b s) w"
    by (rule sys_push [OF ok i b h(1,2)]) (use h(3) in simp)
  then show ?thesis using False r links_only_free_count [OF links_only_push]
    by (intro exI [of _ "queued b (i, Partial, c) G"]) (auto simp: queued_def ready_def links_only_push grown_def)
qed

lemma sys_fully_free:
  assumes "sys_ok owns G hs pool s w" "place_of G b = Some pl" "is_slab pl" "is_fully_free b s"
  shows "live G \<inter> block b = {}"
  using place_slab [OF assms(1-3)] slab_fully_free_iff assms(4) by metis

lemma live_slab:
  assumes ok: "sys_ok owns G hs pool s w" and p: "p \<in> live G"
  shows "\<exists>pl. place_of G (slab_from_ptr p) = Some pl \<and> is_slab pl \<and> p \<in> block (slab_from_ptr p) \<and> cls s (slab_from_ptr p) = lcls G p"
proof -
  obtain b pl where b: "place_of G b = Some pl" "is_slab pl" "p \<in> block b" using sys_okD(8) [OF ok] p by (auto simp: live_ok_def)
  have "slab_from_ptr p = b"
    using slab_from_ptr_inside [OF page_base_ok [OF place_page_ok [OF ok b(1)]]] b(3) by (simp add: block_def)
  moreover have "cls s b = lcls G p" using place_slab [OF ok b(1,2)] b(3) p by (metis IntI)
  ultimately show ?thesis using b by blast
qed

lemma slab_change_refl [simp]: "slab_change b s s"
  by (simp add: slab_change_def touches_def)

lemma sys_bin_place: "sys_ok owns G (hs(i := h)) pool s w \<Longrightarrow> i \<in> ids G \<Longrightarrow> bins h c = Some x \<longleftrightarrow> place_of G x = Some (Bin i c)"
  using sys_okD(2) [of owns G "hs(i := h)" pool s w] by (auto simp: bins_ok_def split: if_splits)

lemma slab_change_free_count: "slab_change b s s' \<Longrightarrow> x \<noteq> b \<Longrightarrow> free_count x s' = free_count x s"
  by (simp add: slab_change_def free_count_def)

lemma settled_upd:
  assumes "settled G" "place_of G' = (place_of G)(b := q)" "q \<noteq> Some Loose" "q \<noteq> Some Page"
  shows "settled (G'\<lparr>busy := 0\<rparr>)"
  using assms by (auto simp: settled_def)

context page_allocator
begin

subsection \<open>Scanning the full queue\<close>

text \<open>A free slab in a queue is unlinked and cached.\<close>

lemma reclaim_ok:
  assumes ok: "sys_ok owns G hs pool s w" and i: "i \<in> ids G" and b: "place_of G b = Some (Queue i k c)" "busy G = b"
    and free: "live G \<inter> block b = {}"
  shows "\<exists>s1 pool' s' G'. slab_list_remove b s = Some s1 \<and> cache_slab A b pool s1 = Some (pool', s') \<and>
    sys_ok owns (G'\<lparr>busy := 0\<rparr>) hs pool' s' w \<and> steady G G' \<and> walk G' = walk G \<and>
    queue G' (i, k, c) = remove1 b (queue G (i, k, c)) \<and>
    (\<exists>q. (q = None \<or> q = Some Cache) \<and> place_of G' = (place_of G)(b := q)) \<and> (\<forall>x. free_count x s' = free_count x s)"
proof -
  obtain s1 where s1: "slab_list_remove b s = Some s1" "sys_ok owns (unqueued b (i, k, c) G) hs pool s1 w" "links_only s s1"
    using sys_remove [OF ok i b(1)] by blast
  have u: "place_of (unqueued b (i, k, c) G) b = Some Loose" "live (unqueued b (i, k, c) G) \<inter> block b = {}"
    using free by simp_all
  obtain pool' s' q ca where c: "cache_slab A b pool s1 = Some (pool', s')" "q = None \<or> q = Some Cache"
      "sys_ok owns ((unqueued b (i, k, c) G)\<lparr>place_of := (place_of (unqueued b (i, k, c) G))(b := q), cached := ca\<rparr>) hs pool' s' w"
      "hdr s' = hdr s1"
    using sys_cache_slab [OF s1(2) u] by blast
  define G' where "G' = (unqueued b (i, k, c) G)\<lparr>place_of := (place_of (unqueued b (i, k, c) G))(b := q), cached := ca\<rparr>"
  have "sys_ok owns (G'\<lparr>busy := 0\<rparr>) hs pool' s' w"
    using c(2,3) b(2) by (intro sys_unset_busy) (auto simp: G'_def)
  moreover have "place_of G' = (place_of G)(b := q)" "steady G G'" "walk G' = walk G"
      "queue G' (i, k, c) = remove1 b (queue G (i, k, c))"
    by (simp_all add: G'_def grown_def)
  moreover have "free_count x s' = free_count x s" for x
    using links_only_free_count [OF s1(3), of x] c(4) by (simp add: free_count_def)
  ultimately show ?thesis using s1(1) c(1,2) by blast
qed

text \<open>A slab of a queue that has free slots becomes active or partial.\<close>

lemma requeue_ok:
  assumes ok: "sys_ok owns G (hs(i := h)) pool s w" and i: "i \<in> ids G" "c < NUM_CLASSES"
    and b: "place_of G b = Some (Queue i k c)" "busy G = b" "free_count b s \<noteq> 0"
  shows "\<exists>s1 h' s' G'. slab_list_remove b s = Some s1 \<and>
    (if bins h c = None then h' = set_bin c (Some b) h \<and> s' = s1 else h' = h \<and> s' = slab_list_push (i, Partial, c) b s1) \<and>
    sys_ok owns (G'\<lparr>busy := 0\<rparr>) (hs(i := h')) pool s' w \<and> steady G G' \<and> walk G' = walk G \<and>
    (k = Full \<longrightarrow> queue G' (i, Full, c) = remove1 b (queue G (i, Full, c))) \<and>
    (\<exists>q. (q = Bin i c \<or> q = Queue i Partial c) \<and> place_of G' = (place_of G)(b \<mapsto> q)) \<and> (ready h s c \<longrightarrow> ready h' s' c)"
proof -
  obtain s1 where s1: "slab_list_remove b s = Some s1" "sys_ok owns (unqueued b (i, k, c) G) (hs(i := h)) pool s1 w" "links_only s s1"
    using sys_remove [OF ok i(1) b(1)] by blast
  let ?G1 = "unqueued b (i, k, c) G"
  define h' where "h' = (if bins h c = None then set_bin c (Some b) h else h)"
  define s' where "s' = (if bins h c = None then s1 else slab_list_push (i, Partial, c) b s1)"
  have "heap_id (hdr s b) = i" "cls s b = c" using sys_place [OF ok b(1)] by (simp_all add: place_ok_def)
  then have p1: "i \<in> ids ?G1" "place_of ?G1 b = Some Loose" "heap_id (hdr s1 b) = i" "cls s1 b = c" "free_count b s1 \<noteq> 0"
    using i links_only_cls [OF s1(3), of b] links_only_free_count [OF s1(3), of b] b(3) by simp_all
  have r: "if bins h c = None then h' = set_bin c (Some b) h \<and> s' = s1 else h' = h \<and> s' = slab_list_push (i, Partial, c) b s1"
    by (simp add: h'_def s'_def)
  from install_or_queue [OF s1(2) p1(1) i(2) p1(2-5) this] obtain G' q
    where g: "sys_ok owns G' (hs(i := h')) pool s' w" "steady ?G1 G'" "busy G' = b" "walk G' = walk G"
      "queue G' (i, Full, c) = queue ?G1 (i, Full, c)" "q = Bin i c \<or> q = Queue i Partial c"
      "place_of G' = (place_of ?G1)(b \<mapsto> q)" "links_only s1 s'" "ready h s1 c \<longrightarrow> ready h' s' c"
    using b(2) by auto
  have "free_count b s' \<noteq> 0" using p1(5) links_only_free_count [OF g(8)] by simp
  then have "sys_ok owns (G'\<lparr>busy := 0\<rparr>) (hs(i := h')) pool s' w" using g(3,6,7) by (intro sys_unset_busy [OF g(1)]) auto
  moreover have "place_of G' = (place_of G)(b \<mapsto> q)" using g(7) by simp
  moreover have "ready h s c \<longrightarrow> ready h' s' c" using g(9) links_only_free_count [OF s1(3)] by (simp add: ready_def)
  moreover have "k = Full \<longrightarrow> queue G' (i, Full, c) = remove1 b (queue G (i, Full, c))" using g(5) by auto
  ultimately show ?thesis using s1(1) r grown_trans [OF steady_moves(2) g(2)] g(4,6) by blast
qed

lemma drained:
  assumes ok: "sys_ok owns G hs pool s w" and b: "place_of G b = Some pl" "quiet G b pl"
  shows "\<exists>s1. (if has_pending_remote b s then map_option snd (drain_remote b s) else Some s) = Some s1 \<and>
    sys_ok owns G hs pool s1 w \<and> slab_change b s s1 \<and> heap_id (hdr s1 b) = heap_id (hdr s b) \<and> cls s1 b = cls s b"
proof (cases "has_pending_remote b s")
  case True
  then show ?thesis using sys_drain [OF ok b] by auto
next
  case False
  then show ?thesis using ok by simp
qed

lemma scan_slab_ok:
  assumes ok: "sys_ok owns G (hs(i := h)) pool s w" and i: "i \<in> ids G" "c < NUM_CLASSES"
    and b: "place_of G b = Some (Queue i Full c)" and se: "settled G"
  shows "\<exists>h' pool' s' G'. scan_slab A c b (h, pool, s) = Some (h', pool', s') \<and> sys_ok owns G' (hs(i := h')) pool' s' w \<and>
    steady G G' \<and> settled G' \<and> walk G' = walk G \<and> (ready h s c \<longrightarrow> ready h' s' c) \<and>
    (queue G' (i, Full, c) = queue G (i, Full, c) \<or> queue G' (i, Full, c) = remove1 b (queue G (i, Full, c)))"
proof -
  have bz: "busy G = 0" using se by (simp add: settled_def)
  have hi: "hid h = i" using sys_hid [OF ok i(1)] .
  define G1 where "G1 = G\<lparr>busy := b\<rparr>"
  have G1: "place_of G1 = place_of G" "live G1 = live G" "busy G1 = b" "ids G1 = ids G" "queue G1 = queue G" "walk G1 = walk G"
      "steady G G1" by (simp_all add: G1_def)
  have ok1: "sys_ok owns G1 (hs(i := h)) pool s w" unfolding G1_def by (rule sys_set_busy [OF ok bz])
  have b1: "place_of G1 b = Some (Queue i Full c)" "quiet G1 b (Queue i Full c)" using b G1 by (simp_all add: quiet_def)
  have pb: "heap_id (hdr s b) = i" "cls s b = c" using sys_place [OF ok b] by (simp_all add: place_ok_def)
  obtain s1 where s1: "(if has_pending_remote b s then map_option snd (drain_remote b s) else Some s) = Some s1"
      "sys_ok owns G1 (hs(i := h)) pool s1 w" "slab_change b s s1" "heap_id (hdr s1 b) = i" "cls s1 b = c"
    using drained [OF ok1 b1] pb by auto
  have rd: "ready h s c \<Longrightarrow> ready h s1 c"
    using sys_bin_place [OF ok i(1)] b slab_change_free_count [OF s1(3)] unfolding ready_def by (metis option.inject place.distinct(1))
  have i1: "i \<in> ids G1" using i G1 by simp
  consider (free) "is_fully_free b s1" | (some) "\<not> is_fully_free b s1" "free_count b s1 \<noteq> 0" | (none) "\<not> is_fully_free b s1" "free_count b s1 = 0"
    by blast
  then show ?thesis
  proof cases
    case free
    have "live G1 \<inter> block b = {}" by (rule sys_fully_free [OF s1(2) b1(1) _ free]) simp
    from reclaim_ok [OF s1(2) i1 b1(1) G1(3) this] obtain s2 pool' s' G' q
      where r: "slab_list_remove b s1 = Some s2" "cache_slab A b pool s2 = Some (pool', s')"
        "sys_ok owns (G'\<lparr>busy := 0\<rparr>) (hs(i := h)) pool' s' w" "steady G1 G'" "walk G' = walk G1"
        "queue G' (i, Full, c) = remove1 b (queue G1 (i, Full, c))" "q = None \<or> q = Some Cache"
        "place_of G' = (place_of G1)(b := q)" "\<forall>x. free_count x s' = free_count x s1" by blast
    have "scan_slab A c b (h, pool, s) = Some (h, pool', s')" using s1(1) free r(1,2) by (simp add: scan_slab_def)
    moreover have "steady G (G'\<lparr>busy := 0\<rparr>)" using grown_trans [OF grown_trans [OF G1(7) r(4)] steady_moves(8)] .
    moreover have "settled (G'\<lparr>busy := 0\<rparr>)" using settled_upd [OF se, of G' b q] r(7,8) G1(1) by auto
    moreover have "ready h s c \<longrightarrow> ready h s' c" using rd r(9) by (simp add: ready_def)
    ultimately show ?thesis using r(3,5,6) G1 by (intro exI [of _ h] exI [of _ pool'] exI [of _ s'] exI [of _ "G'\<lparr>busy := 0\<rparr>"]) simp
  next
    case some
    from requeue_ok [OF s1(2) i1 i(2) b1(1) G1(3) some(2)] obtain s2 h' s' G' q
      where g: "slab_list_remove b s1 = Some s2" "if bins h c = None then h' = set_bin c (Some b) h \<and> s' = s2
          else h' = h \<and> s' = slab_list_push (i, Partial, c) b s2" "sys_ok owns (G'\<lparr>busy := 0\<rparr>) (hs(i := h')) pool s' w" "steady G1 G'"
        "walk G' = walk G1" "queue G' (i, Full, c) = remove1 b (queue G1 (i, Full, c))" "q = Bin i c \<or> q = Queue i Partial c"
        "place_of G' = (place_of G1)(b \<mapsto> q)" "ready h s1 c \<longrightarrow> ready h' s' c" by blast
    have "scan_slab A c b (h, pool, s) = Some (h', pool, s')"
      using s1(1) some g(1,2) hi by (auto simp: scan_slab_def word_gt_0 split: if_splits)
    moreover have "steady G (G'\<lparr>busy := 0\<rparr>)" using grown_trans [OF G1(7) grown_trans [OF g(4) steady_moves(8)]] .
    moreover have "settled (G'\<lparr>busy := 0\<rparr>)" using settled_upd [OF se, of G' b "Some q"] g(7,8) G1(1) by auto
    ultimately show ?thesis using g(3,5,6,9) rd G1 by (intro exI [of _ h'] exI [of _ pool] exI [of _ s'] exI [of _ "G'\<lparr>busy := 0\<rparr>"]) simp
  next
    case none
    have "sys_ok owns (G1\<lparr>busy := 0\<rparr>) (hs(i := h)) pool s1 w" using none b1 G1(3) by (intro sys_unset_busy [OF s1(2)]) auto
    moreover have "G1\<lparr>busy := 0\<rparr> = G" using bz by (simp add: G1_def)
    moreover have "scan_slab A c b (h, pool, s) = Some (h, pool, s1)" using s1(1) none by (simp add: scan_slab_def)
    ultimately show ?thesis using se rd by (intro exI [of _ h] exI [of _ pool] exI [of _ s1] exI [of _ G]) simp
  qed
qed

lemma scan_loop_ok:
  assumes "sys_ok owns G (hs(i := h)) pool s w" "i \<in> ids G" "c < NUM_CLASSES" "settled G"
    and "queue G (i, Full, c) = us @ rest" "current = first_of rest None"
  shows "\<exists>h' pool' s' G'. scan_loop A c current (h, pool, s) = Some (h', pool', s') \<and> sys_ok owns G' (hs(i := h')) pool' s' w \<and>
    steady G G' \<and> settled G' \<and> walk G' = walk G \<and> (ready h s c \<longrightarrow> ready h' s' c)"
  using assms
proof (induction rest arbitrary: G h pool s us current)
  case Nil
  then have "scan_loop A c current (h, pool, s) = Some (h, pool, s)" by (subst scan_loop.simps) simp
  then show ?case using Nil.prems(1,4) steady_refl by blast
next
  case (Cons b rest)
  note qd = queueD [OF Cons.prems(1,2), of Full c]
  have b: "place_of G b = Some (Queue i Full c)" using qd(2) Cons.prems(5) by auto
  have nx: "next_link (hdr s b) = first_of rest None" using qd(1) Cons.prems(5) by (auto simp: dll_def seg_append)
  obtain h1 pool1 s1 G1 where s1: "scan_slab A c b (h, pool, s) = Some (h1, pool1, s1)" "sys_ok owns G1 (hs(i := h1)) pool1 s1 w"
      "steady G G1" "settled G1" "walk G1 = walk G" "ready h s c \<longrightarrow> ready h1 s1 c"
      "queue G1 (i, Full, c) = queue G (i, Full, c) \<or> queue G1 (i, Full, c) = remove1 b (queue G (i, Full, c))"
    using scan_slab_ok [OF Cons.prems(1-3) b Cons.prems(4)] by blast
  have "distinct (us @ b # rest)" using qd(3) Cons.prems(5) by simp
  then have "\<exists>us'. queue G1 (i, Full, c) = us' @ rest"
    using s1(7) Cons.prems(5) by (auto simp: remove1_append intro: exI [of _ "us @ [b]"])
  then obtain us' where us': "queue G1 (i, Full, c) = us' @ rest" by blast
  have "i \<in> ids G1" using s1(3) Cons.prems(2) by (simp add: grown_def)
  from Cons.IH [OF s1(2) this Cons.prems(3) s1(4) us' refl] obtain h' pool' s' G'
    where l: "scan_loop A c (first_of rest None) (h1, pool1, s1) = Some (h', pool', s')" "sys_ok owns G' (hs(i := h')) pool' s' w"
      "steady G1 G'" "settled G'" "walk G' = walk G1" "ready h1 s1 c \<longrightarrow> ready h' s' c" by blast
  have "scan_loop A c current (h, pool, s) = Some (h', pool', s')"
    using s1(1) l(1) nx Cons.prems(6) by (subst scan_loop.simps) simp
  moreover have "steady G G'" "walk G' = walk G" "ready h s c \<longrightarrow> ready h' s' c"
    using grown_trans [OF s1(3) l(3)] l(5,6) s1(5,6) by simp_all
  ultimately show ?case using l(2,4) by blast
qed

lemma scan_full_list_ok:
  assumes "sys_ok owns G (hs(i := h)) pool s w" "i \<in> ids G" "c < NUM_CLASSES" "settled G"
  shows "\<exists>h' pool' s' G'. scan_full_list A c (h, pool, s) = Some (h', pool', s') \<and> sys_ok owns G' (hs(i := h')) pool' s' w \<and>
    steady G G' \<and> settled G' \<and> walk G' = walk G \<and> (ready h s c \<longrightarrow> ready h' s' c)"
proof -
  have "heads s (i, Full, c) = first_of (queue G (i, Full, c)) None"
    using queueD(1) [OF assms(1,2)] by (simp add: dll_def)
  then show ?thesis
    using scan_loop_ok [OF assms, of "[]" "queue G (i, Full, c)"] sys_hid [OF assms(1,2)] by (simp add: scan_full_list_def)
qed

lemma try_partial_ok:
  assumes ok: "sys_ok owns G (hs(i := h)) pool s w" and i: "i \<in> ids G" "c < NUM_CLASSES" and se: "settled G" and n: "bins h c = None"
  shows "\<exists>f h' pool' s' G'. try_partial c (h, pool, s) = (f, h', pool', s') \<and> sys_ok owns G' (hs(i := h')) pool' s' w \<and>
    steady G G' \<and> settled G' \<and> walk G' = walk G \<and> ready h' s' c \<and> (f \<longleftrightarrow> bins h' c \<noteq> None)"
proof -
  have hi: "hid h = i" using sys_hid [OF ok i(1)] .
  show ?thesis
  proof (cases "queue G (i, Partial, c)")
    case Nil
    then show ?thesis using sys_pop_empty [OF ok i(1) Nil] ok se n hi
      by (intro exI [of _ False] exI [of _ h] exI [of _ pool] exI [of _ s] exI [of _ G]) (simp add: try_partial_def ready_def)
  next
    case (Cons b xs)
    have b: "place_of G b = Some (Queue i Partial c)" using queueD(2) [OF ok i(1), of Partial c] Cons by auto
    have bz: "busy G = 0" using se by (simp add: settled_def)
    have pb: "heap_id (hdr s b) = i" "cls s b = c" "free_count b s \<noteq> 0"
      using sys_place [OF ok b] bz place_page_ok [OF ok b] by (auto simp: place_ok_def page_ok_def)
    obtain s' where s': "slab_list_pop (i, Partial, c) s = (Some b, s')" "sys_ok owns (unqueued b (i, Partial, c) G) (hs(i := h)) pool s' w" "links_only s s'"
      using sys_pop [OF ok i(1) Cons] by blast
    let ?G = "moved b (Bin i c) (unqueued b (i, Partial, c) G)"
    have "sys_ok owns ?G (hs(i := set_bin c (Some b) h)) pool s' w"
      by (rule sys_bin_put [OF s'(2)]) (use i n pb links_only_cls [OF s'(3), of b] in simp_all)
    moreover have "free_count b s' \<noteq> 0" using pb links_only_free_count [OF s'(3)] by simp
    moreover have "settled ?G" using se by (simp add: settled_def)
    moreover have "try_partial c (h, pool, s) = (True, set_bin c (Some b) h, pool, s')"
      using s'(1) hi by (simp add: try_partial_def)
    ultimately show ?thesis
      by (intro exI [of _ True] exI [of _ "set_bin c (Some b) h"] exI [of _ pool] exI [of _ s'] exI [of _ ?G])
        (auto simp: ready_def set_bin_def grown_def)
  qed
qed

subsection \<open>Allocating from the active slab\<close>

lemma slab_alloc_grown:
  assumes ok: "sys_ok owns G hs pool s w" and b: "place_of G b = Some pl" "quiet G b pl" "cls s b = c" and al: "slab_alloc b s = (Some p, s')"
  shows "\<exists>G'. sys_ok owns G' hs pool s' w \<and> grown c G (Some p) G' \<and> place_of G' = place_of G \<and> busy G' = busy G \<and> walk G' = walk G \<and> wcls G' = wcls G \<and>
    cls s' b = c \<and> heap_id (hdr s' b) = heap_id (hdr s b)"
proof -
  let ?G = "G\<lparr>live := insert p (live G), lcls := (lcls G)(p := cls s b), img := fill (img G) p (class_size (cls s b)) (bytes s)\<rparr>"
  note a = sys_slab_alloc [OF ok b(1,2) al]
  have "is_slab pl" using b(2) by (simp add: quiet_def)
  then have "c < NUM_CLASSES" "page_ok b" using place_slab [OF ok b(1)] b(3) by auto
  then have "fresh_slot c p" using a(2) b(3) unfolding fresh_slot_def by blast
  then have "grown c G (Some p) ?G" using a(1) b(3) by (auto simp: grown_def)
  then show ?thesis using a(3-5) b(3) by (intro exI [of _ ?G]) simp
qed

lemma settled_same: "settled G \<Longrightarrow> place_of G' = place_of G \<Longrightarrow> busy G' = busy G \<Longrightarrow> settled G'"
  by (simp add: settled_def)

lemma sys_count_alloc: "sys_ok owns G (hs(i := h)) pool s w \<Longrightarrow> sys_ok owns G (hs(i := count_alloc c n h)) pool s w"
  by (rule sys_heap_metrics) (simp_all add: count_alloc_def)

lemma alloc_active_ready:
  assumes ok: "sys_ok owns G (hs(i := h)) pool s w" and i: "i \<in> ids G" and b: "bins h c = Some b" "free_count b s \<noteq> 0" and se: "settled G"
  shows "\<exists>p s' G'. alloc_active c n (h, pool, s) = Some (Some p, count_alloc c n h, pool, s') \<and>
    sys_ok owns G' (hs(i := count_alloc c n h)) pool s' w \<and> grown c G (Some p) G' \<and> settled G' \<and> walk G' = walk G"
proof -
  have p: "place_of G b = Some (Bin i c)" using sys_bin_place [OF ok i] b(1) by simp
  then have c: "cls s b = c" using sys_place [OF ok p] by (simp add: place_ok_def)
  obtain p s' where al: "slab_alloc b s = (Some p, s')" using slab_alloc_free [OF ok p _ b(2)] by auto
  obtain G' where "sys_ok owns G' (hs(i := h)) pool s' w" "grown c G (Some p) G'" "place_of G' = place_of G" "busy G' = busy G" "walk G' = walk G"
    using slab_alloc_grown [OF ok p quiet_simps(2) c al] by blast
  moreover have "alloc_active c n (h, pool, s) = Some (Some p, count_alloc c n h, pool, s')" using al b(1) by (simp add: alloc_active_def)
  ultimately show ?thesis using settled_same [OF se] sys_count_alloc by blast
qed

lemma alloc_active_ok:
  assumes ok: "sys_ok owns G (hs(i := h)) pool s w" and i: "i \<in> ids G" "c < NUM_CLASSES" and se: "settled G"
  shows "\<exists>r h' pool' s' G'. alloc_active c n (h, pool, s) = Some (r, h', pool', s') \<and> sys_ok owns G' (hs(i := h')) pool' s' w \<and>
    grown c G r G' \<and> settled G' \<and> walk G' = walk G \<and> (r = None \<longrightarrow> bins h' c = None)"
proof (cases "bins h c")
  case None
  then show ?thesis using ok se by (auto simp: alloc_active_def grown_def intro!: exI [of _ G])
next
  case (Some b)
  have p: "place_of G b = Some (Bin i c)" using sys_bin_place [OF ok i(1)] Some by simp
  have pc: "cls s b = c" "heap_id (hdr s b) = i" using sys_place [OF ok p] by (simp_all add: place_ok_def)
  have hit: ?thesis if "alloc_active c n (h, pool, s) = Some (Some p, count_alloc c n h, pool, s')" "slab_alloc b t = (Some p, s')"
      "sys_ok owns G (hs(i := h)) pool t w" "cls t b = c" for p s' t
  proof -
    note al = slab_alloc_grown [OF that(3) p quiet_simps(2) that(4,2)]
    obtain G' where "sys_ok owns G' (hs(i := h)) pool s' w" "grown c G (Some p) G'" "place_of G' = place_of G" "busy G' = busy G" "walk G' = walk G"
      using al by blast
    then show ?thesis using settled_same [OF se] sys_count_alloc that(1) by blast
  qed
  obtain r1 s1 where a1: "slab_alloc b s = (r1, s1)" by fastforce
  show ?thesis
  proof (cases r1)
    case (Some p1)
    then have "alloc_active c n (h, pool, s) = Some (Some p1, count_alloc c n h, pool, s1)" using a1 \<open>bins h c = Some b\<close> by (simp add: alloc_active_def)
    from hit [OF this a1 [unfolded Some] ok pc(1)] show ?thesis .
  next
    case None
    then have a1: "slab_alloc b s = (None, s)" using sys_slab_alloc_None(1) [OF ok p _ a1 [unfolded None]] a1 by simp
    obtain m s2 where d: "drain_remote b s = Some (m, s2)" "sys_ok owns G (hs(i := h)) pool s2 w" "heap_id (hdr s2 b) = i" "cls s2 b = c"
      using sys_drain [OF ok p quiet_simps(2)] pc by auto
    obtain r3 s3 where a3: "slab_alloc b s2 = (r3, s3)" by fastforce
    show ?thesis
    proof (cases r3)
      case (Some p3)
      then have "alloc_active c n (h, pool, s) = Some (Some p3, count_alloc c n h, pool, s3)"
        using a1 a3 d(1) \<open>bins h c = Some b\<close> by (simp add: alloc_active_def)
      from hit [OF this a3 [unfolded Some] d(2,4)] show ?thesis .
    next
      case None
      then have f: "s3 = s2" "free_count b s2 = 0" using sys_slab_alloc_None [OF d(2) p _ a3 [unfolded None]] by simp_all
      let ?G = "queued b (i, Full, c) (moved b Loose G)" and ?h = "set_bin c None h" and ?s = "slab_list_push (i, Full, c) b s2"
      have t: "sys_ok owns (moved b Loose G) (hs(i := ?h)) pool s2 w" by (rule sys_bin_take(2) [OF d(2) i(1) \<open>bins h c = Some b\<close>])
      have "sys_ok owns ?G (hs(i := ?h)) pool ?s w" by (rule sys_push [OF t]) (use i d(3,4) f in simp_all)
      moreover have "alloc_active c n (h, pool, s) = Some (None, ?h, pool, ?s)"
        using a1 a3 d(1) \<open>bins h c = Some b\<close> None f(1) sys_hid [OF ok i(1)] by (simp add: alloc_active_def retire_active_def)
      moreover have "settled ?G" using se by (simp add: settled_def)
      ultimately show ?thesis
        by (intro exI [of _ None] exI [of _ ?h] exI [of _ pool] exI [of _ ?s] exI [of _ ?G]) (simp add: grown_def set_bin_def)
    qed
  qed
qed

subsection \<open>Adopting abandoned slabs\<close>

lemma walked_simps [simp]:
  "ids (walked b G) = ids G" "live (walked b G) = live G" "busy (walked b G) = busy G" "wcls (walked b G) = wcls G"
  "walk (walked b G) = tl (walk G)" "place_of (walked b G) = (place_of G)(b \<mapsto> Loose)"
  by (simp_all add: walked_def)

lemma queue_adopted:
  assumes ok: "sys_ok owns G (hs(i := h)) pool s w" and i: "i \<in> ids G" "c < NUM_CLASSES" and b: "place_of G b = Some Loose"
    and h: "heap_id (hdr s b) = i" "cls s b = c"
  shows "\<exists>k. slab_list_push (i, if free_count b s > 0 then Partial else Full, c) b s = slab_list_push (i, k, c) b s \<and>
    sys_ok owns (queued b (i, k, c) G) (hs(i := h)) pool (slab_list_push (i, k, c) b s) w"
proof -
  define k where "k = (if free_count b s > 0 then Partial else Full)"
  have "sys_ok owns (queued b (i, k, c) G) (hs(i := h)) pool (slab_list_push (i, k, c) b s) w"
    by (rule sys_push [OF ok i b h]) (simp add: k_def word_gt_0)
  then show ?thesis by (auto simp: k_def)
qed

lemma adopt_slab_ok:
  assumes ok: "sys_ok owns G (hs(i := h)) pool s (Some b)" and i: "i \<in> ids G" "c < NUM_CLASSES" and se: "settled G"
    and c: "wcls G = c" and n: "result = None \<longrightarrow> bins h c = None"
  shows "\<exists>result' h' pool' s' G'. adopt_slab A c b (result, h, pool, s) = Some (result', h', pool', s') \<and>
    sys_ok owns G' (hs(i := h')) pool' s' (next_link (hdr s b)) \<and> settled G' \<and> walk G' = tl (walk G) \<and> wcls G' = c \<and>
    (result' = None \<longrightarrow> bins h' c = None) \<and> (result' = result \<and> steady G G' \<or> result = None \<and> grown c G result' G')"
proof -
  let ?w = "next_link (hdr s b)" and ?hs = "hs(i := h)"
  define G1 where "G1 = walked b G"
  define s1 where "s1 = set_heap_id b (hid h) (set_prev_link b NullLoc (set_next_link b None s))"
  define pool1 where "pool1 = inc_adopt_count c pool"
  note st = sys_walk_step [OF ok]
  have hi: "hid h = i" using sys_hid [OF ok i(1)] .
  have G1: "place_of G1 b = Some Loose" "i \<in> ids G1" "live G1 = live G" "steady G G1" using i by (simp_all add: G1_def)
  have "sys_ok owns G1 ?hs pool s1 ?w" using st(4) [of "hid h"] by (simp add: G1_def s1_def)
  then have ok1: "sys_ok owns G1 ?hs pool1 s1 ?w" unfolding pool1_def inc_adopt_count_def Let_def by (rule sys_pool_metrics)
  have h1: "heap_id (hdr s1 b) = i" "cls s1 b = c" using hi st(3) c by (simp_all add: s1_def set_heap_id_def cls_def)
  obtain m s2 where d: "drain_remote b s1 = Some (m, s2)" "sys_ok owns G1 ?hs pool1 s2 ?w" "heap_id (hdr s2 b) = i" "cls s2 b = c"
    using sys_drain [OF ok1 G1(1) quiet_simps(1)] h1 by auto
  have set: "settled G'" if "place_of G' = (place_of G)(b := q)" "busy G' = busy G" "q \<noteq> Some Loose" "q \<noteq> Some Page" for G' q
    using se that by (auto simp: settled_def)
  show ?thesis
  proof (cases "is_fully_free b s2")
    case True
    have "live G1 \<inter> block b = {}" by (rule sys_fully_free [OF d(2) G1(1) _ True]) simp
    from sys_cache_slab [OF d(2) G1(1) this] obtain pool' s' q ca where r: "cache_slab A b pool1 s2 = Some (pool', s')" "q = None \<or> q = Some Cache"
        "sys_ok owns (G1\<lparr>place_of := (place_of G1)(b := q), cached := ca\<rparr>) ?hs pool' s' ?w" by blast
    let ?G = "G1\<lparr>place_of := (place_of G1)(b := q), cached := ca\<rparr>"
    have "adopt_slab A c b (result, h, pool, s) = Some (result, h, pool', s')"
      using d(1) True r(1) by (simp add: adopt_slab_def s1_def pool1_def)
    moreover have "settled ?G" by (rule set [of _ q]) (use r(2) in \<open>auto simp: G1_def\<close>)
    moreover have "steady G ?G" using grown_trans [OF G1(4) steady_moves(9)] .
    ultimately show ?thesis using r(3) n c
      by (intro exI [of _ result] exI [of _ h] exI [of _ pool'] exI [of _ s'] exI [of _ ?G]) (simp add: G1_def)
  next
    case False
    obtain r3 s3 where a3: "(if result = None then slab_alloc b s2 else (None, s2)) = (r3, s3)" by fastforce
    show ?thesis
    proof (cases r3)
      case (Some p)
      then have rn: "result = None" "slab_alloc b s2 = (Some p, s3)" using a3 by (simp_all split: if_splits)
      obtain G2 where G2: "sys_ok owns G2 ?hs pool1 s3 ?w" "grown c G1 (Some p) G2" "place_of G2 = place_of G1" "busy G2 = busy G1"
          "walk G2 = walk G1" "wcls G2 = wcls G1" "cls s3 b = c" "heap_id (hdr s3 b) = heap_id (hdr s2 b)"
        using slab_alloc_grown [OF d(2) G1(1) quiet_simps(1) d(4) rn(2)] by blast
      have "i \<in> ids G2" using G2(2) G1(2) by (simp add: grown_def)
      then have "sys_ok owns (moved b (Bin i c) G2) (hs(i := set_bin c (Some b) h)) pool1 s3 ?w"
        by (intro sys_bin_put [OF G2(1) _ i(2)]) (use G1(1) G2(3,7,8) n rn(1) d(3) in simp_all)
      moreover have "adopt_slab A c b (result, h, pool, s) = Some (Some p, set_bin c (Some b) h, pool1, s3)"
        using d(1) False a3 Some by (simp add: adopt_slab_def s1_def pool1_def)
      moreover have "settled (moved b (Bin i c) G2)" by (rule set [of _ "Some (Bin i c)"]) (use G2 in \<open>auto simp: G1_def\<close>)
      moreover have "grown c G (Some p) (moved b (Bin i c) G2)" using grown_steady [OF grown_trans [OF G1(4) G2(2)] steady_moves(3)] .
      ultimately show ?thesis using rn(1) G2(5,6) c
        by (intro exI [of _ "Some p"] exI [of _ "set_bin c (Some b) h"] exI [of _ pool1] exI [of _ s3] exI [of _ "moved b (Bin i c) G2"])
          (simp add: G1_def moved_def)
    next
      case None
      have "s3 = s2"
      proof (cases "result = None")
        case True
        then have "slab_alloc b s2 = (None, s3)" using a3 None by simp
        from sys_slab_alloc_None(1) [OF d(2) G1(1) _ this] show ?thesis by simp
      next
        case False
        then show ?thesis using a3 by (simp only: if_False prod.inject)
      qed
      obtain k where k: "slab_list_push (i, if free_count b s2 > 0 then Partial else Full, c) b s2 = slab_list_push (i, k, c) b s2"
          "sys_ok owns (queued b (i, k, c) G1) ?hs pool1 (slab_list_push (i, k, c) b s2) ?w"
        using queue_adopted [OF d(2) G1(2) i(2) G1(1) d(3,4)] by blast
      have "adopt_slab A c b (result, h, pool, s) = Some (result, h, pool1, slab_list_push (i, k, c) b s2)"
        using d(1) False a3 None \<open>s3 = s2\<close> k(1) hi
        by (cases "free_count b s2 > 0") (simp_all add: adopt_slab_def s1_def pool1_def Let_def)
      moreover have "settled (queued b (i, k, c) G1)" by (rule set [of _ "Some (Queue i k c)"]) (auto simp: G1_def)
      moreover have "steady G (queued b (i, k, c) G1)" using grown_trans [OF G1(4) steady_moves(1)] .
      ultimately show ?thesis using k(2) n c
        by (intro exI [of _ result] exI [of _ h] exI [of _ pool1] exI [of _ "slab_list_push (i, k, c) b s2"] exI [of _ "queued b (i, k, c) G1"])
          (simp add: G1_def queued_def)
    qed
  qed
qed

lemma adopt_loop_ok:
  assumes "sys_ok owns G (hs(i := h)) pool s w" "i \<in> ids G" "c < NUM_CLASSES" "settled G"
    "wcls G = c" "result = None \<longrightarrow> bins h c = None" "grown c G0 result G"
  shows "\<exists>result' h' pool' s' G'. adopt_loop A c w (result, h, pool, s) = Some (result', h', pool', s') \<and>
    sys_ok owns G' (hs(i := h')) pool' s' None \<and> settled G' \<and> walk G' = [] \<and>
    (result' = None \<longrightarrow> bins h' c = None) \<and> grown c G0 result' G'"
  using assms
proof (induction "walk G" arbitrary: G h pool s w result)
  case Nil
  then have "w = None" using sys_okD(5) [OF Nil.prems(1)] by (simp add: walk_ok_def)
  then have "adopt_loop A c w (result, h, pool, s) = Some (result, h, pool, s)" by (subst adopt_loop.simps) simp
  then show ?case using Nil \<open>w = None\<close> by metis
next
  case (Cons b xs)
  have "schain s w (b # xs)" using sys_okD(5) [OF Cons.prems(1)] unfolding walk_ok_def Cons.hyps(2) by blast
  then have w: "w = Some b" by simp
  obtain result1 h1 pool1 s1 G1 where a: "adopt_slab A c b (result, h, pool, s) = Some (result1, h1, pool1, s1)"
      "sys_ok owns G1 (hs(i := h1)) pool1 s1 (next_link (hdr s b))" "settled G1" "walk G1 = tl (walk G)" "wcls G1 = c"
      "result1 = None \<longrightarrow> bins h1 c = None" "result1 = result \<and> steady G G1 \<or> result = None \<and> grown c G result1 G1"
    using adopt_slab_ok [OF Cons.prems(1) [unfolded w] Cons.prems(2-6)] by blast
  have "xs = walk G1" unfolding a(4) Cons.hyps(2) [symmetric] by simp
  moreover have "i \<in> ids G1" using a(7) Cons.prems(2) by (auto simp: grown_def)
  moreover have "grown c G0 result1 G1"
    using a(7)
  proof (elim disjE conjE)
    show "grown c G0 result1 G1" if "result1 = result" "steady G G1" using grown_steady [OF Cons.prems(7) that(2)] that(1) by simp
    show "grown c G0 result1 G1" if "result = None" "grown c G result1 G1"
      by (rule grown_trans [OF _ that(2)]) (use Cons.prems(7) that(1) in \<open>simp add: grown_def\<close>)
  qed
  ultimately obtain result' h' pool' s' G' where l: "adopt_loop A c (next_link (hdr s b)) (result1, h1, pool1, s1) = Some (result', h', pool', s')"
      "sys_ok owns G' (hs(i := h')) pool' s' None" "settled G'" "walk G' = []" "result' = None \<longrightarrow> bins h' c = None" "grown c G0 result' G'"
    using Cons.hyps(1) [OF _ a(2) _ Cons.prems(3) a(3,5,6)] by blast
  have "adopt_loop A c w (result, h, pool, s) = Some (result', h', pool', s')"
    using a(1) l(1) w by (subst adopt_loop.simps) simp
  then show ?case using l(2-6) by blast
qed

lemma try_adopt_ok:
  assumes ok: "sys_ok owns G (hs(i := h)) pool s None" and i: "i \<in> ids G" "c < NUM_CLASSES" and se: "settled G" and n: "bins h c = None"
  shows "\<exists>r h' pool' s' G'. try_adopt A c (h, pool, s) = Some (r, h', pool', s') \<and> sys_ok owns G' (hs(i := h')) pool' s' None \<and>
    settled G' \<and> walk G' = [] \<and> (r = None \<longrightarrow> bins h' c = None) \<and> grown c G r G'"
proof -
  obtain w pool1 where a: "adopt_all c pool = (w, pool1)" by fastforce
  have "sys_ok owns (adopted c G) (hs(i := h)) pool1 s w" by (rule sys_adopt_all [OF ok i(2) a])
  moreover have "settled (adopted c G)" using se by (auto simp: settled_def adopted_def)
  moreover have "grown c G None (adopted c G)" by (simp add: grown_def adopted_def)
  moreover have "i \<in> ids (adopted c G)" "wcls (adopted c G) = c" using i by (simp_all add: adopted_def)
  moreover have "try_adopt A c (h, pool, s) = adopt_loop A c w (None, h, pool1, s)" using a by (simp add: try_adopt_def)
  ultimately show ?thesis using adopt_loop_ok [of "adopted c G" hs i h pool1 s w c None G] i(2) n by metis
qed

subsection \<open>New slabs\<close>

text \<open>A page becomes the active slab, and its first slot is handed out.\<close>

lemma page_slab_ok:
  assumes ok: "sys_ok owns G (hs(i := h)) pool s w" and i: "i \<in> ids G" "c < NUM_CLASSES"
    and b: "place_of G b = Some Page" "\<forall>x. x \<noteq> b \<longrightarrow> place_of G x \<noteq> Some Loose \<and> place_of G x \<noteq> Some Page" "busy G = 0"
    and n: "bins h c = None"
  shows "\<exists>p s' G'. slab_alloc b (slab_init b (of_nat c) i s) = (Some p, s') \<and>
    sys_ok owns G' (hs(i := set_bin c (Some b) h)) pool s' w \<and> grown c G (Some p) G' \<and> settled G' \<and> walk G' = walk G"
proof -
  let ?s = "slab_init b (of_nat c) i s" and ?G = "moved b Loose G"
  note t = sys_init [OF ok b(1) i(2), of i]
  have pl: "place_of ?G b = Some Loose" by simp
  have "free_count b ?s = of_nat (n_slots c)"
    using i(2) by (simp add: free_count_def slab_init_def Let_def unat_of_nat geom_simps SlotFreeList_EMPTY_def n_slots_def slots_off_def)
  then have "unat (free_count b ?s) = n_slots c" using n_slots_bounds(2) [OF i(2)] by (simp add: unat_of_nat)
  then have "free_count b ?s \<noteq> 0" using n_slots_bounds(1) [OF i(2)] by (metis less_numeral_extra(3) not_one_le_zero unat_0)
  then obtain p s' where al: "slab_alloc b ?s = (Some p, s')" using slab_alloc_free [OF t(1) pl] by auto
  obtain G' where g: "sys_ok owns G' (hs(i := h)) pool s' w" "grown c ?G (Some p) G'" "place_of G' = place_of ?G" "busy G' = busy ?G"
      "walk G' = walk ?G" "cls s' b = c" "heap_id (hdr s' b) = i"
    using slab_alloc_grown [OF t(1) pl quiet_simps(1) t(2) al] t(3) by auto
  have "i \<in> ids G'" using g(2) i(1) by (simp add: grown_def)
  then have "sys_ok owns (moved b (Bin i c) G') (hs(i := set_bin c (Some b) h)) pool s' w"
    by (rule sys_bin_put [OF g(1) _ i(2)]) (use g(3,6,7) n in simp_all)
  moreover have "settled (moved b (Bin i c) G')" using g(3,4) b(2,3) by (auto simp: settled_def)
  moreover have "grown c G (Some p) (moved b (Bin i c) G')"
    using grown_steady [OF grown_trans [OF steady_moves(3) g(2)] steady_moves(3)] .
  ultimately show ?thesis using al g(5) by (intro exI [of _ p] exI [of _ s'] exI [of _ "moved b (Bin i c) G'"]) simp
qed

text \<open>The raw page: from the cache, or from the pool.\<close>

lemma raw_page_ok:
  assumes ok: "sys_ok owns G hs pool s w" and se: "settled G"
  shows "\<exists>raw pool1 s1 G1. (case uncache_slab pool s of (Some base, pool1) \<Rightarrow> Some (Some base, pool1, s)
      | (None, pool1) \<Rightarrow> alloc_slab A pool1 s) = Some (raw, pool1, s1) \<and> sys_ok owns G1 hs pool1 s1 w \<and> steady G G1 \<and>
    busy G1 = 0 \<and> walk G1 = walk G \<and>
    (case raw of None \<Rightarrow> settled G1
     | Some b \<Rightarrow> place_of G1 b = Some Page \<and> (\<forall>x. x \<noteq> b \<longrightarrow> place_of G1 x \<noteq> Some Loose \<and> place_of G1 x \<noteq> Some Page))"
proof -
  obtain r pool1 where u: "uncache_slab pool s = (r, pool1)" by fastforce
  note uc = sys_uncache [OF ok u]
  show ?thesis
  proof (cases r)
    case (Some b)
    then have "sys_ok owns (uncached b G) hs pool1 s w" using uc by simp
    then show ?thesis using Some u se
      by (intro exI [of _ "Some b"] exI [of _ pool1] exI [of _ s] exI [of _ "uncached b G"]) (auto simp: settled_def)
  next
    case None
    then have p: "pool1 = pool" using uc by simp
    obtain raw pool' s' where a: "alloc_slab A pool s = Some (raw, pool', s')" "case raw of None \<Rightarrow> sys_ok owns G hs pool' s' w
        | Some b \<Rightarrow> place_of G b = None \<and> sys_ok owns (moved b Page G) hs pool' s' w"
      using sys_page_alloc [OF ok] by blast
    show ?thesis
    proof (cases raw)
      case None
      then show ?thesis using \<open>r = None\<close> u p a se
        by (intro exI [of _ "None"] exI [of _ pool'] exI [of _ s'] exI [of _ G]) (simp add: settled_def)
    next
      case (Some b)
      then show ?thesis using \<open>r = None\<close> u p a se
        by (intro exI [of _ "Some b"] exI [of _ pool'] exI [of _ s'] exI [of _ "moved b Page G"]) (simp add: settled_def)
    qed
  qed
qed

lemma request_slab_ok:
  assumes ok: "sys_ok owns G (hs(i := h)) pool s None" and i: "i \<in> ids G" "c < NUM_CLASSES" and se: "settled G" and n: "bins h c = None"
  shows "\<exists>r h' pool' s' G'. request_slab A c m (h, pool, s) = Some (r, h', pool', s') \<and> sys_ok owns G' (hs(i := h')) pool' s' None \<and>
    settled G' \<and> walk G' = [] \<and> grown c G r G'"
proof -
  obtain r h1 pool1 s1 G1 where t: "try_adopt A c (h, pool, s) = Some (r, h1, pool1, s1)" "sys_ok owns G1 (hs(i := h1)) pool1 s1 None"
      "settled G1" "walk G1 = []" "r = None \<longrightarrow> bins h1 c = None" "grown c G r G1"
    using try_adopt_ok [OF ok i se n] by blast
  show ?thesis
  proof (cases r)
    case (Some p)
    then have "request_slab A c m (h, pool, s) = Some (Some p, count_alloc c m h1, pool1, s1)" using t(1) by (simp add: request_slab_def)
    then show ?thesis using sys_count_alloc [OF t(2)] t(3,4,6) Some by blast
  next
    case None
    have i1: "i \<in> ids G1" using t(6) i(1) by (simp add: grown_def)
    have hi: "hid h1 = i" using sys_hid [OF t(2) i1] .
    have st: "steady G G1" using t(6) None by (simp add: grown_def)
    obtain raw pool2 s2 G2 where rp: "(case uncache_slab pool1 s1 of (Some base, pool1) \<Rightarrow> Some (Some base, pool1, s1)
        | (None, pool1) \<Rightarrow> alloc_slab A pool1 s1) = Some (raw, pool2, s2)" "sys_ok owns G2 (hs(i := h1)) pool2 s2 None" "steady G1 G2"
        "busy G2 = 0" "walk G2 = walk G1"
        "case raw of None \<Rightarrow> settled G2
         | Some b \<Rightarrow> place_of G2 b = Some Page \<and> (\<forall>x. x \<noteq> b \<longrightarrow> place_of G2 x \<noteq> Some Loose \<and> place_of G2 x \<noteq> Some Page)"
      using raw_page_ok [OF t(2,3)] by blast
    show ?thesis
    proof (cases raw)
      case None
      then have "request_slab A c m (h, pool, s) = Some (None, h1, pool2, s2)" using t(1) rp(1) \<open>r = None\<close> by (simp add: request_slab_def)
      moreover have "grown c G None G2" using grown_trans [OF st rp(3)] by (simp add: grown_def)
      ultimately show ?thesis using rp(2,5,6) t(4) None by (intro exI [of _ None] exI [of _ h1] exI [of _ pool2] exI [of _ s2] exI [of _ G2]) simp
    next
      case (Some b)
      have i2: "i \<in> ids G2" using rp(3) i1 by (simp add: grown_def)
      have bp: "place_of G2 b = Some Page" "\<forall>x. x \<noteq> b \<longrightarrow> place_of G2 x \<noteq> Some Loose \<and> place_of G2 x \<noteq> Some Page" "bins h1 c = None"
        using rp(6) Some t(5) \<open>r = None\<close> by simp_all
      obtain p s3 G3 where q: "slab_alloc b (slab_init b (of_nat c) i s2) = (Some p, s3)"
          "sys_ok owns G3 (hs(i := set_bin c (Some b) h1)) pool2 s3 None" "grown c G2 (Some p) G3" "settled G3" "walk G3 = walk G2"
        using page_slab_ok [OF rp(2) i2 i(2) bp(1,2) rp(4) bp(3)] by blast
      have "request_slab A c m (h, pool, s) = Some (Some p, count_alloc c m (set_bin c (Some b) h1), pool2, s3)"
        using t(1) rp(1) \<open>r = None\<close> Some q(1) hi by (simp add: request_slab_def)
      moreover have "grown c G (Some p) G3" using grown_trans [OF grown_trans [OF st rp(3)] q(3)] .
      ultimately show ?thesis using sys_count_alloc [OF q(2)] q(4,5) rp(5) t(4)
        by (intro exI [of _ "Some p"] exI [of _ "count_alloc c m (set_bin c (Some b) h1)"] exI [of _ pool2] exI [of _ s3] exI [of _ G3]) simp
    qed
  qed
qed

subsection \<open>Allocation\<close>

lemma alloc_ready_ok:
  assumes "class_index l = Some c" and ok: "sys_ok owns G (hs(i := h)) pool s w" and i: "i \<in> ids G" and b: "bins h c \<noteq> None" "ready h s c" and se: "settled G"
  shows "\<exists>r h' pool' s' G'. heap_alloc A l (h, pool, s) = Some (r, h', pool', s') \<and> sys_ok owns G' (hs(i := h')) pool' s' w \<and>
    settled G' \<and> walk G' = walk G \<and> grown c G r G'"
proof -
  obtain b where b: "bins h c = Some b" "free_count b s \<noteq> 0" using assms(4,5) by (auto simp: ready_def)
  obtain p s' G' where a: "alloc_active c (class_size c) (h, pool, s) = Some (Some p, count_alloc c (class_size c) h, pool, s')"
      "sys_ok owns G' (hs(i := count_alloc c (class_size c) h)) pool s' w" "grown c G (Some p) G'" "settled G'" "walk G' = walk G"
    using alloc_active_ready [OF ok i b se] by blast
  have "heap_alloc A l (h, pool, s) = Some (Some p, count_alloc c (class_size c) h, pool, s')"
    using assms(1) a(1) by (subst heap_alloc.simps) simp
  then show ?thesis using a(2-5) by blast
qed

lemma heap_alloc_small:
  assumes cl: "class_index l = Some c" and ok: "sys_ok owns G (hs(i := h)) pool s None" and i: "i \<in> ids G" "c < NUM_CLASSES" and se: "settled G"
  shows "\<exists>r h' pool' s' G'. heap_alloc A l (h, pool, s) = Some (r, h', pool', s') \<and> sys_ok owns G' (hs(i := h')) pool' s' None \<and>
    settled G' \<and> walk G' = [] \<and> grown c G r G'"
proof -
  have fin: ?thesis if "heap_alloc A l (h, pool, s) = v" "v = Some (r, h', pool', s')" "sys_ok owns G' (hs(i := h')) pool' s' None" "settled G'"
      "steady G G1" "grown c G1 r G'" for v r h' pool' s' G1 G'
  proof -
    have "walk G' = []" using sys_okD(5) [OF that(3)] by (cases "walk G'") (auto simp: walk_ok_def)
    then show ?thesis using that(1-4) grown_trans [OF that(5,6)] by blast
  qed
  obtain r h1 pool1 s1 G1 where a: "alloc_active c (class_size c) (h, pool, s) = Some (r, h1, pool1, s1)"
      "sys_ok owns G1 (hs(i := h1)) pool1 s1 None" "grown c G r G1" "settled G1" "r = None \<longrightarrow> bins h1 c = None"
    using alloc_active_ok [OF ok i se] by blast
  show ?thesis
  proof (cases r)
    case (Some p)
    then have "heap_alloc A l (h, pool, s) = Some (Some p, h1, pool1, s1)" using cl a(1) by (subst heap_alloc.simps) simp
    from fin [OF this refl a(2,4) steady_refl a(3) [unfolded Some]] show ?thesis .
  next
    case None
    have st1: "steady G G1" "bins h1 c = None" using a(3,5) None by (simp_all add: grown_def)
    then have i1: "i \<in> ids G1" using i(1) by (simp add: grown_def)
    obtain f h2 pool2 s2 G2 where p: "try_partial c (h1, pool1, s1) = (f, h2, pool2, s2)" "sys_ok owns G2 (hs(i := h2)) pool2 s2 None"
        "steady G1 G2" "settled G2" "ready h2 s2 c" "f \<longleftrightarrow> bins h2 c \<noteq> None"
      using try_partial_ok [OF a(2) i1 i(2) a(4) st1(2)] by blast
    have st2: "steady G G2" using grown_trans [OF st1(1) p(3)] .
    then have i2: "i \<in> ids G2" using i(1) by (simp add: grown_def)
    show ?thesis
    proof (cases f)
      case True
      have "heap_alloc A l (h, pool, s) = heap_alloc A l (h2, pool2, s2)"
        using cl a(1) None p(1) True by (subst heap_alloc.simps) simp
      moreover obtain r' h' pool' s' G' where "heap_alloc A l (h2, pool2, s2) = Some (r', h', pool', s')" "sys_ok owns G' (hs(i := h')) pool' s' None"
          "settled G'" "grown c G2 r' G'"
        using alloc_ready_ok [OF cl p(2) i2 _ p(5,4)] p(6) True by auto
      ultimately show ?thesis using fin [OF _ _ _ _ st2] by metis
    next
      case False
      obtain h3 pool3 s3 G3 where q: "scan_full_list A c (h2, pool2, s2) = Some (h3, pool3, s3)" "sys_ok owns G3 (hs(i := h3)) pool3 s3 None"
          "steady G2 G3" "settled G3" "ready h2 s2 c \<longrightarrow> ready h3 s3 c"
        using scan_full_list_ok [OF p(2) i2 i(2) p(4)] by blast
      have st3: "steady G G3" using grown_trans [OF st2 q(3)] .
      then have i3: "i \<in> ids G3" using i(1) by (simp add: grown_def)
      show ?thesis
      proof (cases "bins h3 c = None")
        case False
        have "heap_alloc A l (h, pool, s) = heap_alloc A l (h3, pool3, s3)"
          using cl a(1) None p(1) \<open>\<not> f\<close> q(1) False by (subst heap_alloc.simps) simp
        moreover obtain r' h' pool' s' G' where "heap_alloc A l (h3, pool3, s3) = Some (r', h', pool', s')" "sys_ok owns G' (hs(i := h')) pool' s' None"
            "settled G'" "grown c G3 r' G'"
          using alloc_ready_ok [OF cl q(2) i3 False _ q(4)] p(5) q(5) by blast
        ultimately show ?thesis using fin [OF _ _ _ _ st3] by metis
      next
        case True
        obtain f2 h4 pool4 s4 G4 where u: "try_partial c (h3, pool3, s3) = (f2, h4, pool4, s4)" "sys_ok owns G4 (hs(i := h4)) pool4 s4 None"
            "steady G3 G4" "settled G4" "ready h4 s4 c" "f2 \<longleftrightarrow> bins h4 c \<noteq> None"
          using try_partial_ok [OF q(2) i3 i(2) q(4) True] by blast
        have st4: "steady G G4" using grown_trans [OF st3 u(3)] .
        then have i4: "i \<in> ids G4" using i(1) by (simp add: grown_def)
        have "heap_alloc A l (h, pool, s) = (if f2 then heap_alloc A l (h4, pool4, s4) else request_slab A c (class_size c) (h4, pool4, s4))"
          using cl a(1) None p(1) \<open>\<not> f\<close> q(1) True u(1) by (subst heap_alloc.simps) simp
        moreover have "\<exists>r' h' pool' s' G'. (if f2 then heap_alloc A l (h4, pool4, s4) else request_slab A c (class_size c) (h4, pool4, s4)) = Some (r', h', pool', s') \<and>
            sys_ok owns G' (hs(i := h')) pool' s' None \<and> settled G' \<and> grown c G4 r' G'"
        proof (cases f2)
          case True
          then show ?thesis using alloc_ready_ok [OF cl u(2) i4 _ u(5,4)] u(6) by (simp only: if_True) metis
        next
          case False
          then show ?thesis using request_slab_ok [OF u(2) i4 i(2) u(4)] u(6) by (simp only: if_False) metis
        qed
        ultimately show ?thesis using fin [OF _ _ _ _ st4] by metis
      qed
    qed
  qed
qed

subsection \<open>Deallocation\<close>

lemma dealloc_local_count:
  assumes ok: "sys_ok owns G hs pool s w" and b: "place_of G b = Some pl" "is_slab pl" and p: "p \<in> live G" "p \<in> block b"
  shows "unat (free_count b (dealloc_local b p s)) = unat (free_count b s) + 1"
proof -
  obtain loc rem where o: "slab_ok s b (cls s b) loc rem (live G \<inter> block b)" using place_slab [OF ok b] by metis
  have pl: "p \<in> live G \<inter> block b" using p by blast
  have "unat (free_count b (dealloc_local b p s)) + length rem + card (live G \<inter> block b - {p}) = n_slots (cls s b)"
    using slab_free_count(2) [OF dealloc_local_ok [OF o pl]] .
  moreover have "card (live G \<inter> block b) = Suc (card (live G \<inter> block b - {p}))"
    by (rule card.remove [OF slab_count(1) [OF o] pl])
  ultimately show ?thesis using slab_free_count(2) [OF o] by simp
qed

lemma dealloc_remote_count: "free_count b (dealloc_remote b p s) = free_count b s"
  by (simp add: dealloc_remote_def free_count_def Let_def split: prod.splits)

text \<open>A slot of one of the heap's own slabs that is not active.\<close>

lemma dealloc_own_ok:
  assumes ok: "sys_ok owns G (hs(i := h)) pool s w" and i: "i \<in> ids G" "c < NUM_CLASSES" and se: "settled G"
    and b: "place_of G b = Some (Queue i k c)" and p: "p \<in> live G" "p \<in> block b"
    and s1: "s1 = dealloc_local b p s"
  shows "\<exists>h' pool' s' G'. (if is_fully_free b s1 then reclaim_slab A b (h, pool, s1)
      else if free_count b s1 = 1 then do { s2 \<leftarrow> slab_list_remove b s1;
        if bins h c = None then Some (set_bin c (Some b) h, pool, s2) else Some (h, pool, slab_list_push (hid h, Partial, c) b s2) }
      else Some (h, pool, s1)) = Some (h', pool', s') \<and>
    sys_ok owns G' (hs(i := h')) pool' s' w \<and> settled G' \<and> walk G' = walk G \<and> shrunk G p G'"
proof -
  have bz: "busy G = 0" using se by (simp add: settled_def)
  have hi: "hid h = i" using sys_hid [OF ok i(1)] .
  define G1 where "G1 = G\<lparr>busy := b, live := live G - {p}\<rparr>"
  have G1: "place_of G1 = place_of G" "busy G1 = b" "ids G1 = ids G" "walk G1 = walk G" "shrunk G p G1"
    by (simp_all add: G1_def shrunk_def)
  have bz1: "sys_ok owns (G\<lparr>busy := b\<rparr>) (hs(i := h)) pool s w" by (rule sys_set_busy [OF ok bz])
  have ok1: "sys_ok owns G1 (hs(i := h)) pool s1 w"
    using sys_free_slot(1) [OF bz1, of b "Queue i k c" p s1] b p s1 by (simp add: G1_def quiet_def)
  have i1: "i \<in> ids G1" and b1: "place_of G1 b = Some (Queue i k c)" using i b G1 by simp_all
  have fc: "unat (free_count b s1) = unat (free_count b s) + 1" unfolding s1 by (rule dealloc_local_count [OF ok b _ p]) simp
  then have f1: "free_count b s1 \<noteq> 0" by (metis add_is_0 one_neq_zero unat_0)
  have fin: "settled (G'\<lparr>busy := 0\<rparr>) \<and> walk (G'\<lparr>busy := 0\<rparr>) = walk G \<and> shrunk G p (G'\<lparr>busy := 0\<rparr>)"
    if "steady G1 G'" "walk G' = walk G1" "place_of G' = (place_of G1)(b := q)" "q \<noteq> Some Loose" "q \<noteq> Some Page" for G' q
    using settled_upd [OF se, of G' b q] that G1 shrunk_steady [OF G1(5)] grown_trans [OF that(1) steady_moves(8)] by simp
  consider (free) "is_fully_free b s1" | (one) "\<not> is_fully_free b s1" "free_count b s1 = 1" | (more) "\<not> is_fully_free b s1" "free_count b s1 \<noteq> 1"
    by blast
  then show ?thesis
  proof cases
    case free
    have "live G1 \<inter> block b = {}" by (rule sys_fully_free [OF ok1 b1 _ free]) simp
    from reclaim_ok [OF ok1 i1 b1 G1(2) this] obtain s2 pool' s' G' q
      where r: "slab_list_remove b s1 = Some s2" "cache_slab A b pool s2 = Some (pool', s')"
        "sys_ok owns (G'\<lparr>busy := 0\<rparr>) (hs(i := h)) pool' s' w" "steady G1 G'" "walk G' = walk G1" "q = None \<or> q = Some Cache"
        "place_of G' = (place_of G1)(b := q)" by blast
    have "reclaim_slab A b (h, pool, s1) = Some (h, pool', s')" using r(1,2) by (simp add: reclaim_slab_def)
    then show ?thesis using free r(3) fin [OF r(4,5,7)] r(6)
      by (intro exI [of _ h] exI [of _ pool'] exI [of _ s'] exI [of _ "G'\<lparr>busy := 0\<rparr>"]) auto
  next
    case one
    from requeue_ok [OF ok1 i1 i(2) b1 G1(2) f1] obtain s2 h' s' G' q
      where g: "slab_list_remove b s1 = Some s2" "if bins h c = None then h' = set_bin c (Some b) h \<and> s' = s2
          else h' = h \<and> s' = slab_list_push (i, Partial, c) b s2" "sys_ok owns (G'\<lparr>busy := 0\<rparr>) (hs(i := h')) pool s' w" "steady G1 G'"
        "walk G' = walk G1" "q = Bin i c \<or> q = Queue i Partial c" "place_of G' = (place_of G1)(b \<mapsto> q)" by blast
    show ?thesis using one g(1,2,3) hi fin [OF g(4,5,7)] g(6)
      by (intro exI [of _ h'] exI [of _ pool] exI [of _ s'] exI [of _ "G'\<lparr>busy := 0\<rparr>"]) (auto split: if_splits)
  next
    case more
    have "free_count b s \<noteq> 0" using fc more(2) by (metis add_0 unat_0 unat_1 unsigned_word_eqI)
    then have "k \<noteq> Full" using sys_place [OF ok b] bz place_page_ok [OF ok b] by (auto simp: place_ok_def page_ok_def)
    then have "sys_ok owns (G1\<lparr>busy := 0\<rparr>) (hs(i := h)) pool s1 w" using b1 G1(2) f1 by (intro sys_unset_busy [OF ok1]) auto
    moreover have "settled (G1\<lparr>busy := 0\<rparr>)" "walk (G1\<lparr>busy := 0\<rparr>) = walk G" "shrunk G p (G1\<lparr>busy := 0\<rparr>)"
      using se by (simp_all add: G1_def shrunk_def settled_def)
    ultimately show ?thesis using more by (intro exI [of _ h] exI [of _ pool] exI [of _ s1] exI [of _ "G1\<lparr>busy := 0\<rparr>"]) simp
  qed
qed

text \<open>A slot of another heap's slab, or of an abandoned one, goes to the slab's remote list.\<close>

lemma dealloc_foreign_ok:
  assumes ok: "sys_ok owns G hs pool s w" and b: "place_of G b = Some pl" "is_slab pl" and bz: "busy G = 0"
    and p: "p \<in> live G" "p \<in> block b"
  shows "sys_ok owns (G\<lparr>live := live G - {p}\<rparr>) hs pool (dealloc_remote b p s) w"
proof -
  let ?s = "dealloc_remote b p s" and ?B = "G\<lparr>busy := b\<rparr>"
  have "sys_ok owns ?B hs pool s w" by (rule sys_set_busy [OF ok bz])
  then have f: "sys_ok owns (?B\<lparr>live := live G - {p}\<rparr>) hs pool ?s w"
    using sys_free_slot(1) [of owns ?B hs pool s w b pl p ?s] b p by (simp add: quiet_def)
  have "k = Full \<longleftrightarrow> free_count b ?s = 0" if "pl = Queue j k d" for j k d
    using sys_place [OF ok b] that bz place_page_ok [OF ok b(1)] by (auto simp: place_ok_def page_ok_def dealloc_remote_count)
  then have "sys_ok owns (?B\<lparr>live := live G - {p}, busy := 0\<rparr>) hs pool ?s w"
    using sys_unset_busy [OF f] b(1) by simp
  moreover have "?B\<lparr>live := live G - {p}, busy := 0\<rparr> = G\<lparr>live := live G - {p}\<rparr>" using bz by simp
  ultimately show ?thesis by simp
qed

lemma heap_dealloc_small:
  assumes cl: "class_index l = Some c" and ok: "sys_ok owns G (hs(i := h)) pool s None" and i: "i \<in> ids G" "c < NUM_CLASSES"
    and id: "idle G" and p: "p \<in> live G" "lcls G p = c"
  shows "\<exists>h' pool' s' G'. heap_dealloc A p l (h, pool, s) = Some (h', pool', s') \<and> sys_ok owns G' (hs(i := h')) pool' s' None \<and>
    settled G' \<and> walk G' = [] \<and> shrunk G p G'"
proof -
  have se: "settled G" "walk G = []" "dying G = {}" "busy G = 0" using id by (simp_all add: idle_def settled_def)
  define b where "b = slab_from_ptr p"
  define h1 where "h1 = h\<lparr>hmetrics := on_dealloc c (class_size c) (hmetrics h)\<rparr>"
  have ok1: "sys_ok owns G (hs(i := h1)) pool s None" by (rule sys_heap_metrics [OF ok]) (simp_all add: h1_def)
  have h1: "bins h1 = bins h" "hid h1 = i" using sys_hid [OF ok i(1)] by (simp_all add: h1_def)
  obtain pl where b: "place_of G b = Some pl" "is_slab pl" "p \<in> block b" "cls s b = c"
    using live_slab [OF ok p(1)] p(2) by (auto simp: b_def)
  show ?thesis
  proof (cases "bins h c = Some b")
    case True
    then have B: "place_of G b = Some (Bin i c)" using sys_bin_place [OF ok i(1)] by simp
    let ?G = "G\<lparr>live := live G - {p}\<rparr>"
    have "sys_ok owns ?G (hs(i := h1)) pool (dealloc_local b p s) None"
      by (rule sys_free_slot(1) [OF ok1 B quiet_simps(2) p(1) b(3)]) simp
    moreover have "heap_dealloc A p l (h, pool, s) = Some (h1, pool, dealloc_local b p s)"
      using cl True by (simp add: heap_dealloc_def Let_def header_eq_def b_def h1_def)
    ultimately show ?thesis using se
      by (intro exI [of _ h1] exI [of _ pool] exI [of _ "dealloc_local b p s"] exI [of _ ?G]) (simp add: settled_def shrunk_def)
  next
    case False
    then have nb: "\<not> (case bins h1 c of Some active_slab \<Rightarrow> header_eq active_slab b | None \<Rightarrow> False)"
      using h1 by (auto simp: header_eq_def split: option.splits)
    show ?thesis
    proof (cases "heap_id (hdr s b) = i")
      case True
      have "\<exists>k. pl = Queue i k c"
      proof (cases pl)
        case (Bin j d)
        then have "place_of G b = Some (Bin i c)" using sys_place [OF ok b(1,2)] b(1,4) True by (simp add: place_ok_def)
        then show ?thesis using False sys_bin_place [OF ok i(1)] by simp
      next
        case (Aband d)
        then show ?thesis using sys_place [OF ok b(1,2)] True i(1) se(3) by (simp add: place_ok_def)
      next
        case Walk
        then show ?thesis using sys_okD(5) [OF ok] se(2) b(1) by (auto simp: walk_ok_def)
      qed (use sys_place [OF ok b(1,2)] b True se(1) in \<open>auto simp: place_ok_def settled_def\<close>)
      then obtain k where "place_of G b = Some (Queue i k c)" using b(1) by blast
      from dealloc_own_ok [OF ok1 i se(1) this p(1) b(3) refl] obtain h' pool' s' G'
        where "(if is_fully_free b (dealloc_local b p s) then reclaim_slab A b (h1, pool, dealloc_local b p s)
            else if free_count b (dealloc_local b p s) = 1 then do { s2 \<leftarrow> slab_list_remove b (dealloc_local b p s);
              if bins h1 c = None then Some (set_bin c (Some b) h1, pool, s2) else Some (h1, pool, slab_list_push (hid h1, Partial, c) b s2) }
            else Some (h1, pool, dealloc_local b p s)) = Some (h', pool', s')"
          "sys_ok owns G' (hs(i := h')) pool' s' None" "settled G'" "walk G' = walk G" "shrunk G p G'" by blast
      moreover from this have "heap_dealloc A p l (h, pool, s) = Some (h', pool', s')"
        using cl nb True h1(2) by (simp only: heap_dealloc_def prod.case option.case Let_def if_False if_True refl flip: h1_def b_def)
      ultimately show ?thesis using se(2) by metis
    next
      case False
      let ?h = "h1\<lparr>hmetrics := on_remote_free 1 (hmetrics h1)\<rparr>" and ?s = "dealloc_remote b p s"
      let ?G = "G\<lparr>live := live G - {p}\<rparr>"
      have "sys_ok owns ?G (hs(i := h1)) pool ?s None" by (rule dealloc_foreign_ok [OF ok1 b(1,2) se(4) p(1) b(3)])
      then have "sys_ok owns ?G (hs(i := ?h)) pool ?s None" by (rule sys_heap_metrics) simp_all
      moreover have "heap_dealloc A p l (h, pool, s) = Some (?h, pool, ?s)"
        using cl nb False h1(2) by (simp only: heap_dealloc_def prod.case option.case Let_def if_False flip: h1_def b_def)
      ultimately show ?thesis using se
        by (intro exI [of _ ?h] exI [of _ pool] exI [of _ ?s] exI [of _ ?G]) (simp add: settled_def shrunk_def)
    qed
  qed
qed

subsection \<open>Large allocations\<close>

lemma sys_large_frame:
  assumes ok: "sys_ok owns G hs pool s w" and l: "same_links pool s pool' s'" "keeps (dom (place_of G)) (bytes s) (bytes s')"
    and p: "pool_inv owns pool' (bytes s') R (dom (place_of G))" and im: "keeps_regions R (img G) (bytes s')"
  shows "sys_ok owns (G\<lparr>large := R\<rparr>) hs pool' s' w"
proof -
  have 1: "sys_ok (\<lambda>_ _. True) (G\<lparr>large := {}\<rparr>) hs pool s w"
    using ok by (simp add: sys_ok_def pool_inv_def keeps_regions_def covered_def bins_ok_def queues_ok_def aband_ok_def
        walk_ok_def cache_list_ok_def live_ok_def slabs_ok_def)
  have 2: "pool_inv (\<lambda>_ _. True) pool' (bytes s') (large (G\<lparr>large := {}\<rparr>)) (dom (place_of (G\<lparr>large := {}\<rparr>)))"
    using p by (auto simp: pool_inv_def)
  have "sys_ok (\<lambda>_ _. True) (G\<lparr>large := {}\<rparr>) hs pool' s' w"
    by (rule sys_pool_frame [OF 1 l(1) _ _ 2]) (use l(2) in \<open>simp_all add: keeps_regions_def covered_def\<close>)
  note D = sys_okD(2-8) [OF this]
  then show ?thesis using p im
    by (simp add: sys_ok_def bins_ok_def queues_ok_def aband_ok_def walk_ok_def cache_list_ok_def live_ok_def slabs_ok_def)
qed

text \<open>A region apart from every page and large region can be filled.\<close>

lemma sys_img:
  assumes ok: "sys_ok owns G hs pool s w" and d: "\<forall>q \<in> large G \<union> seg_regions (state pool). disjoint_regions (a, n) q"
  shows "sys_ok owns (G\<lparr>img := fill (img G) a n m\<rparr>) hs pool s w"
proof -
  note D = sys_okD [OF ok]
  have out: "fill (img G) a n m x = img G x" if "covered (large G \<union> seg_regions (state pool)) x" for x
  proof -
    obtain q where q: "q \<in> large G \<union> seg_regions (state pool)" "in_region q x" using \<open>covered _ x\<close> unfolding covered_def by blast
    then have "disjoint_regions (a, n) q" using d by blast
    then have "\<not> (a \<le> x \<and> x < a + n)" using q(2) by (auto simp: in_region_def disjoint_regions_def)
    then show ?thesis by (simp only: fill_def if_False)
  qed
  have segs: "segs_ok (seg_list (state pool))" "dom (place_of G) \<subseteq> pool_pages (state pool)" using D(1) by (auto elim!: pool_invD)
  have "slab_at s b (live G) (lcls G) (fill (img G) a n m)" if at: "slab_at s b (live G) (lcls G) (img G)" and b: "b \<in> dom (place_of G)" for b
  proof -
    obtain loc rem where o: "slab_ok s b (cls s b) loc rem (live G \<inter> block b)" using at by (auto simp: slab_at_def)
    have "holds (bytes s) (fill (img G) a n m) p (class_size (cls s b))" if p: "p \<in> live G \<inter> block b" for p
    proof -
      have "covered (seg_regions (state pool)) x" if "p \<le> x" "x < p + class_size (cls s b)" for x
        using pool_page_covered [OF segs(1), of b x] segs(2) b slab_slot_props(3,4) [OF o, of p] p that by (auto simp: geom_simps)
      then show ?thesis using at p out by (auto simp: slab_at_def holds_def)
    qed
    then show ?thesis using at by (simp add: slab_at_def)
  qed
  then have "slabs_ok (G\<lparr>img := fill (img G) a n m\<rparr>) s" using D(7) by (auto simp: slabs_ok_def)
  moreover have "keeps_regions (large G) (fill (img G) a n m) (bytes s)" using D(9) out by (simp add: keeps_regions_def)
  ultimately show ?thesis using D
    by (simp add: sys_ok_def bins_ok_def queues_ok_def aband_ok_def walk_ok_def cache_list_ok_def live_ok_def)
qed

lemma seg_regions_large [simp]: "seg_regions (st\<lparr>large_mapped_bytes := n\<rparr>) = seg_regions st"
  by (simp add: seg_regions_def seg_list_def)

lemma pool_ok_large [simp]: "pool_ok m (st\<lparr>large_mapped_bytes := n\<rparr>) dl cl H = pool_ok m st dl cl H"
  by (rule pool_ok_cong) (simp_all add: seg_list_def)

lemma pool_inv_large_bytes:
  "pool_inv owns (pool\<lparr>page_alloc := pa, state := state pool\<lparr>large_mapped_bytes := n\<rparr>\<rparr>) m R H =
   pool_inv owns (pool\<lparr>page_alloc := pa\<rparr>) m R H"
  by (simp add: pool_inv_def)

lemma large_layout: "class_index l = None \<Longrightarrow> 0 < lsize l"
proof (rule ccontr)
  assume "class_index l = None" "\<not> 0 < lsize l"
  then show False by (simp add: class_index_None effective_size_def next_multiple_of_def geom_simps)
qed

lemma alloc_large_ok:
  assumes ok: "sys_ok owns G hs pool s w" and l: "layout_ok l" "0 < lsize l"
  shows "\<exists>r pool' s'. alloc_large A l pool s = (r, pool', s') \<and> (case r of None \<Rightarrow> sys_ok owns G hs pool' s' w
    | Some a \<Rightarrow> 0 < a \<and> lalign l dvd a \<and> a + lsize l \<le> 2 ^ 64 \<and> (\<forall>q \<in> large G. disjoint_regions (a, lsize l) q) \<and>
        (\<forall>q \<in> seg_regions (state pool). disjoint_regions (a, lsize l) q) \<and>
        (\<forall>x. in_region (a, lsize l) x \<longrightarrow> bytes s' x = 0) \<and>
        sys_ok owns (G\<lparr>img := fill (img G) a (lsize l) (bytes s'), large := insert (a, lsize l) (large G)\<rparr>) hs pool' s' w)"
proof -
  obtain dl cl where P: "pool_ok (bytes s) (state pool) dl cl (dom (place_of G))" and segs: "segs_ok (seg_list (state pool))"
    and Hp: "dom (place_of G) \<subseteq> pool_pages (state pool)" and own: "owns (page_alloc pool) (large G \<union> seg_regions (state pool))"
    and dis: "\<forall>r \<in> large G. \<forall>q \<in> seg_regions (state pool). disjoint_regions r q"
    using sys_okD(1) [OF ok] by (rule pool_invD)
  obtain r pa m where al: "pa_alloc A l (page_alloc pool, bytes s) = (r, pa, m)" by (metis surj_pair)
  have kr: "keeps_regions (large G \<union> seg_regions (state pool)) (bytes s) m"
    using alloc_keeps [OF own l al] unfolding keeps_regions_def by blast
  then have k: "keeps (dom (place_of G)) (bytes s) m" using keeps_regions_keeps [OF segs _ Hp] by simp
  have P1: "pool_ok m (state pool) dl cl (dom (place_of G))" using pool_ok_mem [OF P] kr by simp
  show ?thesis
  proof (cases r)
    case None
    have "pool_inv owns (pool\<lparr>page_alloc := pa\<rparr>) m (large G) (dom (place_of G))"
      using alloc_fail [OF own l] al None P1 dis by (auto simp: pool_inv_def)
    then have "sys_ok owns G hs (pool\<lparr>page_alloc := pa\<rparr>) (s\<lparr>bytes := m\<rparr>) w"
      using k kr by (intro sys_pool_frame [OF ok]) (simp_all add: same_links_def)
    then show ?thesis using al None by (simp add: alloc_large_def)
  next
    case (Some a)
    note N = alloc_ok [OF own l al [unfolded Some]]
    let ?R = "insert (a, lsize l) (large G)"
    let ?pool = "pool\<lparr>page_alloc := pa, state := state pool\<lparr>large_mapped_bytes := large_mapped_bytes (state pool) + of_nat (lsize l)\<rparr>\<rparr>"
    have "pool_inv owns (pool\<lparr>page_alloc := pa\<rparr>) m ?R (dom (place_of G))"
      using N P1 dis by (auto simp: pool_inv_def)
    moreover have "keeps_regions ?R (fill (img G) a (lsize l) m) m"
    proof -
      have "fill (img G) a (lsize l) m x = m x" if x: "covered (large G) x" for x
        using kr sys_okD(9) [OF ok] x by (simp add: keeps_regions_def fill_def)
      then show ?thesis by (auto simp: keeps_regions_def covered_def in_region_def fill_def)
    qed
    moreover have "sys_ok owns (G\<lparr>img := fill (img G) a (lsize l) m\<rparr>) hs pool s w" using N by (intro sys_img [OF ok]) blast
    ultimately have "sys_ok owns (G\<lparr>img := fill (img G) a (lsize l) m, large := ?R\<rparr>) hs ?pool (s\<lparr>bytes := m\<rparr>) w"
      using k by (intro sys_large_frame) (simp_all add: same_links_def pool_inv_large_bytes)
    then show ?thesis using al Some N by (simp add: alloc_large_def)
  qed
qed

lemma dealloc_large_ok:
  assumes ok: "sys_ok owns G hs pool s w" and a: "(a, lsize l) \<in> large G" "0 < lsize l"
  shows "\<exists>pool' s'. dealloc_large A a l pool s = (pool', s') \<and> sys_ok owns (G\<lparr>large := large G - {(a, lsize l)}\<rparr>) hs pool' s' w"
proof -
  obtain dl cl where P: "pool_ok (bytes s) (state pool) dl cl (dom (place_of G))" and segs: "segs_ok (seg_list (state pool))"
    and Hp: "dom (place_of G) \<subseteq> pool_pages (state pool)" and own: "owns (page_alloc pool) (large G \<union> seg_regions (state pool))"
    and dis: "\<forall>r \<in> large G. \<forall>q \<in> seg_regions (state pool). disjoint_regions r q"
    using sys_okD(1) [OF ok] by (rule pool_invD)
  obtain pa m where de: "pa_dealloc A a l (page_alloc pool, bytes s) = (pa, m)" by fastforce
  have "(a, lsize l) \<notin> seg_regions (state pool)"
  proof
    assume "(a, lsize l) \<in> seg_regions (state pool)"
    then have "disjoint_regions (a, lsize l) (a, lsize l)" using dis a(1) by blast
    then show False using a(2) by (simp add: disjoint_regions_def)
  qed
  then have e: "large G \<union> seg_regions (state pool) - {(a, lsize l)} = (large G - {(a, lsize l)}) \<union> seg_regions (state pool)" by blast
  have "(a, lsize l) \<in> large G \<union> seg_regions (state pool)" using a(1) by blast
  note M = dealloc_ok [OF own this de, unfolded e]
  then have kr: "keeps_regions (seg_regions (state pool)) (bytes s) m" "keeps_regions (large G - {(a, lsize l)}) (bytes s) m"
    unfolding keeps_regions_def by simp_all
  then have k: "keeps (dom (place_of G)) (bytes s) m" using keeps_regions_keeps [OF segs _ Hp] by simp
  let ?R = "large G - {(a, lsize l)}"
  let ?pool = "pool\<lparr>page_alloc := pa, state := state pool\<lparr>large_mapped_bytes := large_mapped_bytes (state pool) - of_nat (lsize l)\<rparr>\<rparr>"
  have "pool_inv owns (pool\<lparr>page_alloc := pa\<rparr>) m ?R (dom (place_of G))"
    using M pool_ok_mem [OF P kr(1)] dis by (auto simp: pool_inv_def)
  moreover have "keeps_regions ?R (img G) m"
    using keeps_regions_trans [OF _ kr(2)] sys_okD(9) [OF ok] by (auto simp: keeps_regions_def covered_def)
  ultimately have "sys_ok owns (G\<lparr>large := ?R\<rparr>) hs ?pool (s\<lparr>bytes := m\<rparr>) w"
    using k by (intro sys_large_frame [OF ok]) (simp_all add: same_links_def pool_inv_large_bytes)
  then show ?thesis using de by (simp add: dealloc_large_def)
qed

end

end
