(* ===== verification/Heap_Life.thy ===== *)
theory Heap_Life
  imports Heap_Correct
begin

text \<open>
  Creating and dropping heaps. A new heap starts with no slabs under an id never used before; a
  dropped heap caches its free slabs and leaves the others on the abandoned lists, and nothing in the
  system refers to its bins and queues any more.
\<close>

subsection \<open>Creating a heap\<close>

definition with_heap :: "u64 \<Rightarrow> ghost \<Rightarrow> ghost" where
  "with_heap i G = G\<lparr>ids := insert i (ids G), used := insert i (used G),
     queue := (\<lambda>(j, k, c). if j = i then [] else queue G (j, k, c))\<rparr>"

lemma unused_places:
  assumes ok: "sys_ok owns G hs pool s w" and i: "i \<notin> used G"
  shows "place_of G b \<noteq> Some (Bin i c)" "place_of G b \<noteq> Some (Queue i k c)"
proof -
  have "i \<notin> ids G" using i sys_used [OF ok] by blast
  then show "place_of G b \<noteq> Some (Bin i c)" "place_of G b \<noteq> Some (Queue i k c)"
    using sys_place [OF ok, of b "Bin i c"] sys_place [OF ok, of b "Queue i k c"] by (auto simp: place_ok_def)
qed

lemma Heap_new_ok:
  assumes ok: "sys_ok owns G hs pool s w" and i: "counter \<notin> used G" and new: "Heap_new counter s = (h, counter', s')"
  shows "hid h = counter" "counter' = counter + 1" "bytes s' = bytes s"
    "sys_ok owns (with_heap counter G) (hs(counter := h)) pool s' w"
proof -
  let ?G = "with_heap counter G"
  note D = sys_okD [OF ok]
  have h: "hid h = counter" "counter' = counter + 1" "bins h = (\<lambda>_. None)"
    and s': "s' = s\<lparr>heads := (\<lambda>(j, k, c). if j = counter then None else heads s (j, k, c))\<rparr>"
    using new by (auto simp: Heap_new_def next_heap_id_def)
  then show "hid h = counter" "counter' = counter + 1" "bytes s' = bytes s" by simp_all
  note un = unused_places [OF ok i]
  have G: "place_of ?G = place_of G" "live ?G = live G" "lcls ?G = lcls G" "img ?G = img G" "large ?G = large G" by (simp_all add: with_heap_def)
  have 2: "bins_ok ?G (hs(counter := h))" using D(2) h un by (auto simp: bins_ok_def with_heap_def)
  have 3: "queues_ok ?G s'"
    unfolding queues_ok_def
  proof (intro ballI allI)
    fix j k c assume j: "j \<in> ids ?G"
    show "dll s' (j, k, c) (queue ?G (j, k, c)) \<and> set (queue ?G (j, k, c)) = {b. place_of ?G b = Some (Queue j k c)}"
    proof (cases "j = counter")
      case True
      then show ?thesis using un by (simp add: with_heap_def dll_Nil s')
    next
      case False
      then have "dll s' (j, k, c) (queue G (j, k, c)) = dll s (j, k, c) (queue G (j, k, c))" by (intro dll_cong) (simp_all add: s')
      then show ?thesis using queueD [OF ok, of j k c] j False by (simp add: with_heap_def)
    qed
  qed
  have 4: "aband_ok ?G pool s'" by (rule aband_ok_frame [OF D(4)]) (simp_all add: with_heap_def s')
  have 5: "walk_ok ?G s' w" by (rule walk_ok_frame [OF D(5)]) (simp_all add: with_heap_def s')
  have 6: "cache_list_ok ?G pool (bytes s')" by (rule cache_list_frame [OF D(6)]) (simp_all add: with_heap_def s' keeps_def)
  have "slab_at s' b (live G) (lcls G) (img G) \<and> place_ok ?G s' b pl" if "slab_at s b (live G) (lcls G) (img G)" "place_ok G s b pl" for b pl
  proof
    show "slab_at s' b (live G) (lcls G) (img G)" using that(1) slab_at_same [of s' b s] by (simp add: s' keeps_def)
    show "place_ok ?G s' b pl" using that(2) i by (auto simp: place_ok_def with_heap_def s' cls_def free_count_def split: place.splits)
  qed
  then have 7: "slabs_ok ?G s'" using D(7) unfolding slabs_ok_def G by blast
  have 8: "live_ok ?G" using D(8) by (simp add: live_ok_def G)
  have 1: "pool_inv owns pool (bytes s') (large ?G) (dom (place_of ?G))" "keeps_regions (large ?G) (img ?G) (bytes s')"
    using D(1,9) by (simp_all add: G s')
  show "sys_ok owns ?G (hs(counter := h)) pool s' w" using 1 2 3 4 5 6 7 8 by (simp only: sys_ok_def simp_thms)
qed

subsection \<open>Dropping a heap\<close>

text \<open>Slabs only leave the heap: to the cache, the pool or an abandoned list.\<close>

definition fewer :: "ghost \<Rightarrow> ghost \<Rightarrow> bool" where
  "fewer G G' \<longleftrightarrow> steady G G' \<and> busy G' = busy G \<and> walk G' = walk G \<and>
     (\<forall>x. place_of G' x = place_of G x \<or> place_of G' x = None \<or> place_of G' x = Some Cache \<or> (\<exists>c. place_of G' x = Some (Aband c)))"

lemma fewer_refl [simp]: "fewer G G"
  by (simp add: fewer_def)

lemma fewer_trans: "fewer G G1 \<Longrightarrow> fewer G1 G' \<Longrightarrow> fewer G G'"
  unfolding fewer_def using grown_trans [of G G1 0 None G'] by metis

lemma fewer_ids: "fewer G G' \<Longrightarrow> ids G' = ids G \<and> used G' = used G \<and> dying G' = dying G"
  by (simp add: fewer_def grown_def)

lemma fewer_settled: "settled G \<Longrightarrow> fewer G G' \<Longrightarrow> settled G'"
  unfolding settled_def fewer_def by (metis option.distinct(1) option.inject place.distinct(33) place.distinct(35) place.simps)

context page_allocator
begin

lemma give_up_ok:
  assumes ok: "sys_ok owns G hs pool s w" and b: "place_of G b = Some Loose" "heap_id (hdr s b) \<in> used G - (ids G - dying G)"
  shows "\<exists>pool' s' G' q. give_up_slab A b pool s = Some (pool', s') \<and> sys_ok owns G' hs pool' s' w \<and> steady G G' \<and>
    busy G' = busy G \<and> walk G' = walk G \<and> queue G' = queue G \<and>
    (q = None \<or> q = Some Cache \<or> (\<exists>c. q = Some (Aband c))) \<and> place_of G' = (place_of G)(b := q)"
proof -
  obtain n s1 where d: "drain_remote b s = Some (n, s1)" "sys_ok owns G hs pool s1 w" "heap_id (hdr s1 b) = heap_id (hdr s b)"
    using sys_drain [OF ok b(1) quiet_simps(1)] by auto
  show ?thesis
  proof (cases "is_fully_free b s1")
    case True
    have "live G \<inter> block b = {}" by (rule sys_fully_free [OF d(2) b(1) _ True]) simp
    from sys_cache_slab [OF d(2) b(1) this] obtain pool' s' q ca where r: "cache_slab A b pool s1 = Some (pool', s')"
        "q = None \<or> q = Some Cache" "sys_ok owns (G\<lparr>place_of := (place_of G)(b := q), cached := ca\<rparr>) hs pool' s' w" by blast
    then show ?thesis using d(1) True
      by (intro exI [of _ pool'] exI [of _ s'] exI [of _ "G\<lparr>place_of := (place_of G)(b := q), cached := ca\<rparr>"] exI [of _ q])
        (auto simp: give_up_slab_def)
  next
    case False
    obtain pool' s' where r: "abandon_slab b pool s1 = Some (pool', s')" "sys_ok owns (given_up b (cls s1 b) G) hs pool' s' w"
      using sys_abandon [OF d(2) b(1)] b(2) d(3) by auto
    then show ?thesis using d(1) False
      by (intro exI [of _ pool'] exI [of _ s'] exI [of _ "given_up b (cls s1 b) G"] exI [of _ "Some (Aband (cls s1 b))"])
        (simp add: give_up_slab_def, simp add: given_up_def)
  qed
qed

lemma retire_slab_ok:
  assumes ok: "sys_ok owns G (hs(i := h)) pool s w" and i: "i \<in> ids G" "i \<in> dying G"
  shows "\<exists>pool' s' h' G'. retire_slab A c (h, pool, s) = Some (h', pool', s') \<and> sys_ok owns G' (hs(i := h')) pool' s' w \<and>
    fewer G G' \<and> (\<forall>x. place_of G' x \<noteq> Some (Bin i c))"
proof (cases "bins h c")
  case None
  have "place_of G x \<noteq> Some (Bin i c)" for x using sys_bin_place [OF ok i(1), of c x] None by simp
  then show ?thesis using None ok by (intro exI [of _ pool] exI [of _ s] exI [of _ h] exI [of _ G]) (simp add: retire_slab_def)
next
  case (Some b)
  note t = sys_bin_take [OF ok i(1) Some]
  have "heap_id (hdr s b) = i" using sys_place [OF ok t(1)] by (simp add: place_ok_def)
  then have u: "heap_id (hdr s b) \<in> used (moved b Loose G) - (ids (moved b Loose G) - dying (moved b Loose G))"
    using i sys_used [OF ok] by auto
  have pl: "place_of (moved b Loose G) b = Some Loose" by simp
  obtain pool' s' G' q where g: "give_up_slab A b pool s = Some (pool', s')" "sys_ok owns G' (hs(i := set_bin c None h)) pool' s' w"
      "steady (moved b Loose G) G'" "busy G' = busy (moved b Loose G)" "walk G' = walk (moved b Loose G)"
      "q = None \<or> q = Some Cache \<or> (\<exists>c. q = Some (Aband c))" "place_of G' = (place_of (moved b Loose G))(b := q)"
    using give_up_ok [OF t(2) pl u] by blast
  have "retire_slab A c (h, pool, s) = Some (set_bin c None h, pool', s')" using Some g(1) by (simp add: retire_slab_def)
  moreover have "fewer G G'" using g(4-7) grown_trans [OF steady_moves(3) g(3)] by (auto simp: fewer_def)
  moreover have "i \<in> ids G'" using i(1) g(3) by (simp add: grown_def)
  then have "place_of G' x \<noteq> Some (Bin i c)" for x
    using sys_bin_place [OF g(2), of c x] by (simp add: set_bin_def)
  ultimately show ?thesis using g(2) by blast
qed

lemma drop_queue_ok:
  assumes "sys_ok owns G hs pool s w" "i \<in> ids G" "i \<in> dying G"
  shows "\<exists>pool' s' G'. drop_queue A (i, k, c) (pool, s) = Some (pool', s') \<and> sys_ok owns G' hs pool' s' w \<and>
    fewer G G' \<and> (\<forall>x. place_of G' x \<noteq> Some (Queue i k c))"
  using assms
proof (induction "queue G (i, k, c)" arbitrary: G pool s)
  case Nil
  have e: "slab_list_pop (i, k, c) s = (None, s)" by (rule sys_pop_empty [OF Nil.prems(1,2) Nil.hyps [symmetric]])
  have "place_of G x \<noteq> Some (Queue i k c)" for x using queueD(2) [OF Nil.prems(1,2), of k c] Nil.hyps by auto
  moreover have "drop_queue A (i, k, c) (pool, s) = Some (pool, s)" using e by (subst drop_queue.simps) simp
  ultimately show ?case using Nil.prems(1) fewer_refl by blast
next
  case (Cons b xs)
  note q = Cons.hyps(2) [symmetric]
  have b: "place_of G b = Some (Queue i k c)" using queueD(2) [OF Cons.prems(1,2), of k c] q by auto
  obtain s1 where s1: "slab_list_pop (i, k, c) s = (Some b, s1)" "sys_ok owns (unqueued b (i, k, c) G) hs pool s1 w" "links_only s s1"
    using sys_pop [OF Cons.prems(1,2) q] by blast
  let ?G = "unqueued b (i, k, c) G"
  have "heap_id (hdr s1 b) = i" using sys_place [OF Cons.prems(1) b] links_only_cls [OF s1(3), of b] by (simp add: place_ok_def)
  then have u: "place_of ?G b = Some Loose" "heap_id (hdr s1 b) \<in> used ?G - (ids ?G - dying ?G)"
    using Cons.prems sys_used [OF Cons.prems(1)] by auto
  obtain pool1 s2 G1 qq where g: "give_up_slab A b pool s1 = Some (pool1, s2)" "sys_ok owns G1 hs pool1 s2 w" "steady ?G G1"
      "busy G1 = busy ?G" "walk G1 = walk ?G" "queue G1 = queue ?G" "qq = None \<or> qq = Some Cache \<or> (\<exists>c. qq = Some (Aband c))"
      "place_of G1 = (place_of ?G)(b := qq)"
    using give_up_ok [OF s1(2) u] by blast
  have f: "fewer G G1" using g(4,5,7,8) grown_trans [OF steady_moves(2) g(3)] by (auto simp: fewer_def)
  have "xs = queue G1 (i, k, c)" using g(6) q by simp
  moreover have "i \<in> ids G1" "i \<in> dying G1" using fewer_ids [OF f] Cons.prems by simp_all
  ultimately obtain pool' s' G' where l: "drop_queue A (i, k, c) (pool1, s2) = Some (pool', s')" "sys_ok owns G' hs pool' s' w"
      "fewer G1 G'" "\<forall>x. place_of G' x \<noteq> Some (Queue i k c)"
    using Cons.hyps(1) [OF _ g(2)] by blast
  have "drop_queue A (i, k, c) (pool, s) = Some (pool', s')" using s1(1) g(1) l(1) by (subst drop_queue.simps) simp
  then show ?case using l(2,4) fewer_trans [OF f l(3)] by blast
qed

lemma drop_class_ok:
  assumes ok: "sys_ok owns G (hs(i := h)) pool s w" and i: "i \<in> ids G" "i \<in> dying G"
  shows "\<exists>h' pool' s' G'. drop_class A c (h, pool, s) = Some (h', pool', s') \<and> sys_ok owns G' (hs(i := h')) pool' s' w \<and>
    fewer G G' \<and> (\<forall>x. place_of G' x \<noteq> Some (Bin i c) \<and> (\<forall>k. place_of G' x \<noteq> Some (Queue i k c)))"
proof -
  obtain pool1 s1 h1 G1 where a: "retire_slab A c (h, pool, s) = Some (h1, pool1, s1)" "sys_ok owns G1 (hs(i := h1)) pool1 s1 w"
      "fewer G G1" "\<forall>x. place_of G1 x \<noteq> Some (Bin i c)"
    using retire_slab_ok [OF ok i] by blast
  have i1: "i \<in> ids G1" "i \<in> dying G1" using fewer_ids [OF a(3)] i by simp_all
  obtain pool2 s2 G2 where b: "drop_queue A (i, Full, c) (pool1, s1) = Some (pool2, s2)" "sys_ok owns G2 (hs(i := h1)) pool2 s2 w"
      "fewer G1 G2" "\<forall>x. place_of G2 x \<noteq> Some (Queue i Full c)"
    using drop_queue_ok [OF a(2) i1] by blast
  have i2: "i \<in> ids G2" "i \<in> dying G2" using fewer_ids [OF b(3)] i1 by simp_all
  obtain pool3 s3 G3 where d: "drop_queue A (i, Partial, c) (pool2, s2) = Some (pool3, s3)" "sys_ok owns G3 (hs(i := h1)) pool3 s3 w"
      "fewer G2 G3" "\<forall>x. place_of G3 x \<noteq> Some (Queue i Partial c)"
    using drop_queue_ok [OF b(2) i2] by blast
  have "drop_class A c (h, pool, s) = Some (h1, pool3, s3)"
    using a(1) b(1) d(1) sys_hid [OF a(2) i1(1)] by (simp add: drop_class_def)
  moreover have f: "fewer G1 G3" using fewer_trans [OF b(3) d(3)] .
  have "place_of G3 x \<noteq> Some (Bin i c)" for x using f a(4) unfolding fewer_def by (metis option.distinct(1) option.inject place.distinct)
  moreover have "place_of G3 x \<noteq> Some (Queue i k c)" for x k
    using d(3,4) b(4) unfolding fewer_def by (cases k) (metis option.distinct(1) option.inject place.distinct)+
  ultimately show ?thesis using d(2) fewer_trans [OF a(3) f] by blast
qed

lemma drop_classes_ok:
  assumes "sys_ok owns G (hs(i := h)) pool s w" "i \<in> ids G" "i \<in> dying G"
  shows "\<exists>h' pool' s' G'. drop_classes A cs (h, pool, s) = Some (h', pool', s') \<and> sys_ok owns G' (hs(i := h')) pool' s' w \<and>
    fewer G G' \<and> (\<forall>c \<in> set cs. \<forall>x. place_of G' x \<noteq> Some (Bin i c) \<and> (\<forall>k. place_of G' x \<noteq> Some (Queue i k c)))"
  using assms
proof (induction cs arbitrary: G h pool s)
  case Nil
  then show ?case using fewer_refl by fastforce
next
  case (Cons c cs)
  obtain h1 pool1 s1 G1 where a: "drop_class A c (h, pool, s) = Some (h1, pool1, s1)" "sys_ok owns G1 (hs(i := h1)) pool1 s1 w"
      "fewer G G1" "\<forall>x. place_of G1 x \<noteq> Some (Bin i c) \<and> (\<forall>k. place_of G1 x \<noteq> Some (Queue i k c))"
    using drop_class_ok [OF Cons.prems] by blast
  have "i \<in> ids G1" "i \<in> dying G1" using fewer_ids [OF a(3)] Cons.prems by simp_all
  from Cons.IH [OF a(2) this] obtain h' pool' s' G' where l: "drop_classes A cs (h1, pool1, s1) = Some (h', pool', s')"
      "sys_ok owns G' (hs(i := h')) pool' s' w" "fewer G1 G'"
      "\<forall>c \<in> set cs. \<forall>x. place_of G' x \<noteq> Some (Bin i c) \<and> (\<forall>k. place_of G' x \<noteq> Some (Queue i k c))" by blast
  have "place_of G' x \<noteq> Some (Bin i c) \<and> (\<forall>k. place_of G' x \<noteq> Some (Queue i k c))" for x
    using l(3) a(4) unfolding fewer_def by (metis option.distinct(1) option.inject place.distinct)
  then have "\<forall>d \<in> set (c # cs). \<forall>x. place_of G' x \<noteq> Some (Bin i d) \<and> (\<forall>k. place_of G' x \<noteq> Some (Queue i k d))"
    using l(4) by simp
  moreover have "drop_classes A (c # cs) (h, pool, s) = Some (h', pool', s')" using a(1) l(1) by simp
  ultimately show ?case using l(2) fewer_trans [OF a(3) l(3)] by blast
qed

end

text \<open>The heap's id is given up once nothing carries it in a bin or queue.\<close>

definition without_heap :: "u64 \<Rightarrow> ghost \<Rightarrow> ghost" where
  "without_heap i G = G\<lparr>ids := ids G - {i}, dying := {}\<rparr>"

lemma sys_without_heap:
  assumes ok: "sys_ok owns G hs pool s w" and d: "dying G = {i}"
    and n: "\<And>x c k. place_of G x \<noteq> Some (Bin i c) \<and> place_of G x \<noteq> Some (Queue i k c)"
  shows "sys_ok owns (without_heap i G) hs pool s w"
proof -
  note D = sys_okD [OF ok]
  have "place_ok (without_heap i G) s b pl" if "place_of G b = Some pl" "place_ok G s b pl" for b pl
    using that n [of b] d by (cases pl) (auto simp: place_ok_def without_heap_def)
  then have "slabs_ok (without_heap i G) s" using D(7) by (simp add: slabs_ok_def without_heap_def)
  then show ?thesis using D
    by (auto simp: sys_ok_def bins_ok_def queues_ok_def aband_ok_def walk_ok_def cache_list_ok_def live_ok_def without_heap_def)
qed

lemma sys_set_dying:
  assumes ok: "sys_ok owns G hs pool s w" and d: "dying G = {}"
  shows "sys_ok owns (G\<lparr>dying := {i}\<rparr>) hs pool s w"
proof -
  note D = sys_okD [OF ok]
  have "place_ok (G\<lparr>dying := {i}\<rparr>) s b pl" if "place_ok G s b pl" for b pl
    using that d by (auto simp: place_ok_def split: place.splits)
  then have "slabs_ok (G\<lparr>dying := {i}\<rparr>) s" using D(7) by (simp add: slabs_ok_def)
  then show ?thesis using D
    by (simp add: sys_ok_def bins_ok_def queues_ok_def aband_ok_def walk_ok_def cache_list_ok_def live_ok_def)
qed

definition dropped :: "u64 \<Rightarrow> ghost \<Rightarrow> ghost \<Rightarrow> bool" where
  "dropped i G G' \<longleftrightarrow> ids G' = ids G - {i} \<and> used G' = used G \<and> large G' = large G \<and> live G' = live G \<and> lcls G' = lcls G \<and> img G' = img G"

context page_allocator
begin

lemma heap_drop_ok:
  assumes ok: "sys_ok owns G (hs(i := h)) pool s None" and i: "i \<in> ids G" and id: "idle G"
  shows "\<exists>h' pool' s' G'. heap_drop A (h, pool, s) = Some (h', pool', s') \<and> sys_ok owns G' (hs(i := h')) pool' s' None \<and>
    idle G' \<and> dropped i G G'"
proof -
  have d: "dying G = {}" "settled G" "walk G = []" using id by (simp_all add: idle_def)
  let ?G = "G\<lparr>dying := {i}\<rparr>"
  have "i \<in> ids ?G" "i \<in> dying ?G" using i by simp_all
  from drop_classes_ok [OF sys_set_dying [OF ok d(1)] this, of "[0..<NUM_CLASSES]"] obtain h' pool' s' G'
    where r: "heap_drop A (h, pool, s) = Some (h', pool', s')" "sys_ok owns G' (hs(i := h')) pool' s' None" "fewer ?G G'"
      "\<forall>c \<in> set [0..<NUM_CLASSES]. \<forall>x. place_of G' x \<noteq> Some (Bin i c) \<and> (\<forall>k. place_of G' x \<noteq> Some (Queue i k c))"
    unfolding heap_drop_def by blast
  have n: "place_of G' x \<noteq> Some (Bin i c) \<and> place_of G' x \<noteq> Some (Queue i k c)" for x c k
  proof (cases "c < NUM_CLASSES")
    case True
    then show ?thesis using r(4) by simp
  next
    case False
    then show ?thesis using sys_place [OF r(2), of x "Bin i c"] sys_place [OF r(2), of x "Queue i k c"] by (auto simp: place_ok_def)
  qed
  have g: "ids G' = ids G" "used G' = used G" "dying G' = {i}" "large G' = large G" "live G' = live G" "lcls G' = lcls G" "img G' = img G"
      "busy G' = 0" "walk G' = []"
    using r(3) d(2,3) by (simp_all add: fewer_def grown_def settled_def)
  have "sys_ok owns (without_heap i G') (hs(i := h')) pool' s' None" by (rule sys_without_heap [OF r(2) g(3) n])
  moreover have "settled G'" using fewer_settled [OF _ r(3)] d(2) by (simp add: settled_def)
  then have "idle (without_heap i G')" using g by (simp add: idle_def without_heap_def settled_def)
  moreover have "dropped i G (without_heap i G')" using g by (simp add: dropped_def without_heap_def)
  ultimately show ?thesis using r(1) by blast
qed

end

end
