(* ===== verification/Heap_System.thy ===== *)
theory Heap_System
  imports Heap_Life
begin

text \<open>
  The allocator as a whole: any number of heaps over one page pool, and a program that allocates,
  frees, and writes to what it has allocated, from any of the heaps. Each heap operation is one
  step; what interleaves inside the lock-free lists is the subject of the theory \<open>Treiber\<close>.

  The specification is an ideal allocator: a map from addresses to layouts, and the memory as the
  program sees it. Every run of the allocator is a run of the specification as long as the program
  keeps the contract of \<open>GlobalAlloc\<close>, and every operation returns.
\<close>

record 'p allocator =
  pool :: "'p PagePool"
  store :: store
  heaps :: "u64 \<rightharpoonup> heap"
  counter :: u64

datatype event = New u64 | Alloc u64 layout "addr option" | Free u64 addr layout | Drop u64 | Write addr u8

text \<open>
  Heaps are named by their ids; a step of a heap needs the heap to exist. The id counter of 64 bits
  does not wrap around.
\<close>

inductive step :: "'p PageAllocator \<Rightarrow> 'p allocator \<Rightarrow> event \<Rightarrow> 'p allocator \<Rightarrow> bool" for A where
  step_new: "counter \<sigma> + 1 \<noteq> 0 \<Longrightarrow> Heap_new (counter \<sigma>) (store \<sigma>) = (h, n, s) \<Longrightarrow>
    step A \<sigma> (New (hid h)) (\<sigma>\<lparr>store := s, heaps := (heaps \<sigma>)(hid h \<mapsto> h), counter := n\<rparr>)"
| step_alloc: "heaps \<sigma> i = Some h \<Longrightarrow> heap_alloc A l (h, pool \<sigma>, store \<sigma>) = Some (r, h', po, s) \<Longrightarrow>
    step A \<sigma> (Alloc i l r) (\<sigma>\<lparr>pool := po, store := s, heaps := (heaps \<sigma>)(i \<mapsto> h')\<rparr>)"
| step_free: "heaps \<sigma> i = Some h \<Longrightarrow> heap_dealloc A p l (h, pool \<sigma>, store \<sigma>) = Some (h', po, s) \<Longrightarrow>
    step A \<sigma> (Free i p l) (\<sigma>\<lparr>pool := po, store := s, heaps := (heaps \<sigma>)(i \<mapsto> h')\<rparr>)"
| step_drop: "heaps \<sigma> i = Some h \<Longrightarrow> heap_drop A (h, pool \<sigma>, store \<sigma>) = Some (h', po, s) \<Longrightarrow>
    step A \<sigma> (Drop i) (\<sigma>\<lparr>pool := po, store := s, heaps := (heaps \<sigma>)(i := None)\<rparr>)"
| step_write: "step A \<sigma> (Write a v) (\<sigma>\<lparr>store := (store \<sigma>)\<lparr>bytes := (bytes (store \<sigma>))(a := v)\<rparr>\<rparr>)"

definition initial :: "'p \<Rightarrow> store \<Rightarrow> 'p allocator" where
  "initial pa s = \<lparr>pool = PagePool_new pa, store = s, heaps = (\<lambda>_. None), counter = 1\<rparr>"

subsection \<open>The specification\<close>

text \<open>The bytes of the program's allocations, and memories that agree on one of them.\<close>

definition program_bytes :: "(addr \<rightharpoonup> layout) \<Rightarrow> addr set" where
  "program_bytes al = {a. \<exists>p l. al p = Some l \<and> p \<le> a \<and> a < p + lsize l}"

type_synonym ideal = "(addr \<rightharpoonup> layout) \<times> memory"

text \<open>An allocation is aligned, lies in the address space and overlaps no other.\<close>

definition fits_in :: "(addr \<rightharpoonup> layout) \<Rightarrow> addr \<Rightarrow> layout \<Rightarrow> bool" where
  "fits_in al p l \<longleftrightarrow> al p = None \<and> 0 < p \<and> lalign l dvd p \<and> p + lsize l \<le> 2 ^ 64 \<and>
     (\<forall>q k. al q = Some k \<longrightarrow> disjoint_regions (p, lsize l) (q, lsize k))"

inductive ideal_step :: "ideal \<Rightarrow> event \<Rightarrow> ideal \<Rightarrow> bool" where
  ideal_new: "ideal_step (al, M) (New i) (al, M)"
| ideal_alloc: "fits_in al p l \<Longrightarrow> (\<And>a. a \<in> program_bytes al \<Longrightarrow> M' a = M a) \<Longrightarrow>
    ideal_step (al, M) (Alloc i l (Some p)) (al(p \<mapsto> l), M')"
| ideal_fail: "ideal_step (al, M) (Alloc i l None) (al, M)"
| ideal_free: "ideal_step (al, M) (Free i p l) (al(p := None), M)"
| ideal_drop: "ideal_step (al, M) (Drop i) (al, M)"
| ideal_write: "ideal_step (al, M) (Write a v) (al, M(a := v))"

text \<open>What the program owes: valid layouts, frees of its allocations, writes inside them.\<close>

fun legal :: "ideal \<Rightarrow> event \<Rightarrow> bool" where
  "legal (al, M) (Alloc i l r) = (layout_ok l \<and> 0 < lsize l)"
| "legal (al, M) (Free i p l) = (al p = Some l)"
| "legal (al, M) (Write a v) = (a \<in> program_bytes al)"
| "legal _ _ = True"

subsection \<open>The invariant\<close>

definition small_slots :: "(addr \<rightharpoonup> layout) \<Rightarrow> addr set" where
  "small_slots al = {p. \<exists>l c. al p = Some l \<and> class_index l = Some c}"

definition large_regions :: "(addr \<rightharpoonup> layout) \<Rightarrow> region set" where
  "large_regions al = {r. \<exists>l. al (fst r) = Some l \<and> class_index l = None \<and> snd r = lsize l}"

lemma small_slots_upd:
  "class_index l = Some c \<Longrightarrow> small_slots (al(p \<mapsto> l)) = insert p (small_slots al)"
  "class_index l = None \<Longrightarrow> al p = None \<Longrightarrow> small_slots (al(p \<mapsto> l)) = small_slots al"
  "small_slots (al(p := None)) = small_slots al - {p}"
  by (auto simp: small_slots_def)

lemma large_regions_upd:
  "class_index l = Some c \<Longrightarrow> al p = None \<Longrightarrow> large_regions (al(p \<mapsto> l)) = large_regions al"
  "class_index l = None \<Longrightarrow> al p = None \<Longrightarrow> large_regions (al(p \<mapsto> l)) = insert (p, lsize l) (large_regions al)"
  "al p = Some l \<Longrightarrow> class_index l = Some c \<Longrightarrow> large_regions (al(p := None)) = large_regions al"
  "al p = Some l \<Longrightarrow> class_index l = None \<Longrightarrow> large_regions (al(p := None)) = large_regions al - {(p, lsize l)}"
  by (auto simp: large_regions_def split: if_splits)

definition allocs_ok :: "ghost \<Rightarrow> (addr \<rightharpoonup> layout) \<Rightarrow> bool" where
  "allocs_ok G al \<longleftrightarrow> live G = small_slots al \<and> large G = large_regions al \<and>
     (\<forall>r \<in> large G. \<forall>q \<in> large G. r \<noteq> q \<longrightarrow> disjoint_regions r q) \<and>
     (\<forall>p l. al p = Some l \<longrightarrow> layout_ok l \<and> 0 < lsize l \<and> 0 < p \<and> lalign l dvd p \<and> p + lsize l \<le> 2 ^ 64 \<and>
        (\<forall>c. class_index l = Some c \<longrightarrow> lcls G p = c))"

definition heap_of :: "(u64 \<rightharpoonup> heap) \<Rightarrow> u64 \<Rightarrow> heap" where
  "heap_of hs i = the (hs i)"

lemma heap_of_upd [simp]: "heap_of (hs(i \<mapsto> h)) = (heap_of hs)(i := h)"
  by (auto simp: heap_of_def)

lemma heap_of_self: "hs i = Some h \<Longrightarrow> (heap_of hs)(i := h) = heap_of hs"
  by (auto simp: heap_of_def)

definition system_ok :: "('p \<Rightarrow> region set \<Rightarrow> bool) \<Rightarrow> ghost \<Rightarrow> (addr \<rightharpoonup> layout) \<Rightarrow> 'p allocator \<Rightarrow> bool" where
  "system_ok owns G al \<sigma> \<longleftrightarrow> sys_ok owns G (heap_of (heaps \<sigma>)) (pool \<sigma>) (store \<sigma>) None \<and> idle G \<and>
     ids G = dom (heaps \<sigma>) \<and> (\<forall>i \<in> used G. i < counter \<sigma>) \<and> allocs_ok G al"

lemma system_okD:
  assumes "system_ok owns G al \<sigma>"
  shows "sys_ok owns G (heap_of (heaps \<sigma>)) (pool \<sigma>) (store \<sigma>) None" "idle G" "ids G = dom (heaps \<sigma>)"
    "\<forall>i \<in> used G. i < counter \<sigma>" "allocs_ok G al"
  using assms by (simp_all add: system_ok_def)

lemma system_heap:
  assumes "system_ok owns G al \<sigma>" "heaps \<sigma> i = Some h"
  shows "i \<in> ids G" "sys_ok owns G ((heap_of (heaps \<sigma>))(i := h)) (pool \<sigma>) (store \<sigma>) None" "settled G"
  using system_okD [OF assms(1)] heap_of_self [of "heaps \<sigma>" i h] assms(2) by (auto simp: idle_def)

lemma allocs_okD:
  assumes "allocs_ok G al" "al p = Some l"
  shows "layout_ok l" "0 < lsize l" "0 < p" "lalign l dvd p" "p + lsize l \<le> 2 ^ 64"
    "class_index l = Some c \<Longrightarrow> p \<in> live G \<and> lcls G p = c" "class_index l = None \<Longrightarrow> (p, lsize l) \<in> large G"
  using assms by (auto simp: allocs_ok_def small_slots_def large_regions_def)

text \<open>Slots of the slab classes: where they are and that they are large enough.\<close>

lemma class_index_fits:
  assumes "class_index l = Some c"
  shows "c < NUM_CLASSES" "lsize l \<le> class_size c"
proof -
  have f: "smallest_fit (effective_size l) c" using class_index_SomeD [OF assms] by blast
  then show "c < NUM_CLASSES" by (simp add: smallest_fit_def)
  have "lsize l \<le> effective_size l"
    using next_multiple_of_ge [of "lsize l" "lalign l"] by (auto simp: effective_size_def)
  then show "lsize l \<le> class_size c" using f by (simp add: smallest_fit_def)
qed

lemma align_dvd_slab:
  assumes "layout_ok l" "lalign l dvd class_size c" "c < NUM_CLASSES"
  shows "lalign l dvd SLAB_SIZE"
proof -
  obtain k where k: "lalign l = 2 ^ k" using assms(1) by (auto simp: layout_ok_def)
  have "0 < class_size c" "class_size c \<le> 32768" using class_size_bounds [OF assms(3)] by simp_all
  then have "(2::nat) ^ k \<le> 2 ^ 15" using dvd_imp_le [OF assms(2)] k by simp
  then have "k \<le> 15" by (rule power_le_imp_le_exp [rotated]) simp
  then show ?thesis unfolding k SLAB_SIZE_def by (intro le_imp_power_dvd) simp
qed

lemma fresh_slot_fits:
  assumes l: "layout_ok l" "0 < lsize l" "class_index l = Some c" and p: "fresh_slot c p"
  shows "0 < p" "lalign l dvd p" "p + lsize l \<le> 2 ^ 64"
proof -
  obtain b k where b: "page_ok b" "k < n_slots c" "p = slot_addr b c k" using p by (auto simp: fresh_slot_def)
  note c = class_index_fits [OF l(3)] and ok = page_base_ok [OF b(1)]
  note r = slot_addr_range [OF c(1) b(2), of b]
  show "0 < p" using r(1) b(3) by simp
  have a: "lalign l dvd class_size c" by (rule class_size_align_dvd [OF l])
  show "lalign l dvd p" unfolding b(3) by (rule slot_addr_align [OF c(1) ok a align_dvd_slab [OF l(1) a c(1)]])
  show "p + lsize l \<le> 2 ^ 64" using r(2) b(3) c(2) ok by (simp add: base_ok_def geom_simps)
qed

lemma live_not_covered:
  assumes ok: "sys_ok owns G hs po s w" and p: "p \<in> live G"
  shows "\<not> covered (large G) p"
proof -
  obtain b pl where "place_of G b = Some pl" "p \<in> block b" using sys_okD(8) [OF ok] p by (auto simp: live_ok_def)
  then show ?thesis using large_apart [OF sys_okD(1) [OF ok], of b p] by blast
qed

lemma large_covers: "(p, n) \<in> R \<Longrightarrow> p \<le> a \<Longrightarrow> a < p + n \<Longrightarrow> covered R a"
  unfolding covered_def in_region_def by (rule bexI [of _ "(p, n)"]) simp_all

lemma allocs_insert_small:
  assumes ao: "allocs_ok G al" and ok: "sys_ok owns G' hs po s w" and g: "grown c G (Some p) G'"
    and l: "layout_ok l" "0 < lsize l" "class_index l = Some c"
  shows "al p = None" "allocs_ok G' (al(p \<mapsto> l))"
proof -
  have g': "p \<notin> live G" "fresh_slot c p" "live G' = insert p (live G)" "lcls G' = (lcls G)(p := c)" "large G' = large G"
    using g by (simp_all add: grown_def)
  show n: "al p = None"
  proof (rule ccontr)
    assume "al p \<noteq> None"
    then obtain k where k: "al p = Some k" by blast
    note a = allocs_okD [OF ao k]
    show False
    proof (cases "class_index k")
      case None
      then have "covered (large G) p" using a(2) large_covers [OF a(7), of p] by simp
      then show False using live_not_covered [OF ok, of p] g' by simp
    next
      case (Some d)
      then show False using a(6) g'(1) by blast
    qed
  qed
  have "small_slots (al(p \<mapsto> l)) = insert p (live G)" "large_regions (al(p \<mapsto> l)) = large G"
    using ao small_slots_upd(1) [OF l(3)] large_regions_upd(1) [of l c al p, OF l(3) n] by (simp_all add: allocs_ok_def)
  moreover have "layout_ok k \<and> 0 < lsize k \<and> 0 < q \<and> lalign k dvd q \<and> q + lsize k \<le> 2 ^ 64 \<and>
        (\<forall>d. class_index k = Some d \<longrightarrow> lcls G' q = d)" if q: "(al(p \<mapsto> l)) q = Some k" for q k
  proof (cases "q = p")
    case True
    then show ?thesis using q l fresh_slot_fits [OF l g'(2)] g'(4) by auto
  next
    case False
    then show ?thesis using q ao g'(4) by (simp add: allocs_ok_def)
  qed
  ultimately show "allocs_ok G' (al(p \<mapsto> l))" using ao unfolding allocs_ok_def g'(3,5) by metis
qed

lemma allocs_insert_large:
  assumes ao: "allocs_ok G al" and ok: "sys_ok owns G hs po s w" and l: "layout_ok l" "0 < lsize l" "class_index l = None"
    and a: "0 < a" "lalign l dvd a" "a + lsize l \<le> 2 ^ 64" "\<forall>q \<in> large G. disjoint_regions (a, lsize l) q"
      "\<forall>q \<in> seg_regions (state po). disjoint_regions (a, lsize l) q"
  shows "al a = None" "allocs_ok (G\<lparr>img := M, large := insert (a, lsize l) (large G)\<rparr>) (al(a \<mapsto> l))"
proof -
  have nc: "\<not> covered (large G \<union> seg_regions (state po)) a"
  proof
    assume "covered (large G \<union> seg_regions (state po)) a"
    then obtain q where q: "q \<in> large G \<union> seg_regions (state po)" "in_region q a" unfolding covered_def by blast
    then have "disjoint_regions (a, lsize l) q" using a(4,5) by blast
    then show False using q(2) l(2) by (auto simp: disjoint_regions_def in_region_def)
  qed
  show n: "al a = None"
  proof (rule ccontr)
    assume "al a \<noteq> None"
    then obtain k where k: "al a = Some k" by blast
    note d = allocs_okD [OF ao k]
    show False
    proof (cases "class_index k")
      case None
      then show False using d(2) large_covers [OF d(7), of a] nc by simp
    next
      case (Some c)
      then obtain b pl where b: "place_of G b = Some pl" "a \<in> block b" using d(6) sys_okD(8) [OF ok] by (auto simp: live_ok_def)
      have "segs_ok (seg_list (state po))" "b \<in> pool_pages (state po)" using sys_okD(1) [OF ok] b(1) by (auto elim!: pool_invD)
      then have "covered (seg_regions (state po)) a" using pool_page_covered [of "state po" b a] b(2) by (simp add: block_def)
      then show False using nc by simp
    qed
  qed
  have "small_slots (al(a \<mapsto> l)) = live G" "large_regions (al(a \<mapsto> l)) = insert (a, lsize l) (large G)"
    using ao small_slots_upd(2) [of l al a, OF l(3) n] large_regions_upd(2) [of l al a, OF l(3) n] by (simp_all add: allocs_ok_def)
  moreover have "layout_ok k \<and> 0 < lsize k \<and> 0 < q \<and> lalign k dvd q \<and> q + lsize k \<le> 2 ^ 64 \<and>
        (\<forall>d. class_index k = Some d \<longrightarrow> lcls G q = d)" if q: "(al(a \<mapsto> l)) q = Some k" for q k
    using q ao l a(1-3) by (cases "q = a") (auto simp: allocs_ok_def)
  moreover have "\<forall>r \<in> insert (a, lsize l) (large G). \<forall>q \<in> insert (a, lsize l) (large G). r \<noteq> q \<longrightarrow> disjoint_regions r q"
    using a(4) ao by (auto simp: allocs_ok_def disjoint_regions_def)
  ultimately show "allocs_ok (G\<lparr>img := M, large := insert (a, lsize l) (large G)\<rparr>) (al(a \<mapsto> l))"
    by (simp add: allocs_ok_def)
qed

lemma allocs_remove:
  assumes ao: "allocs_ok G al" and p: "al p = Some l"
  shows "class_index l = Some c \<Longrightarrow> shrunk G p G' \<Longrightarrow> allocs_ok G' (al(p := None))"
    "class_index l = None \<Longrightarrow> allocs_ok (G\<lparr>large := large G - {(p, lsize l)}\<rparr>) (al(p := None))"
proof -
  have L: "live G = small_slots al" "large G = large_regions al" using ao by (simp_all add: allocs_ok_def)
  show "allocs_ok G' (al(p := None))" if "class_index l = Some c" "shrunk G p G'"
    using ao that(2) L small_slots_upd(3) [of al p] large_regions_upd(3) [of al, OF p that(1)] by (simp add: allocs_ok_def shrunk_def)
  show "allocs_ok (G\<lparr>large := large G - {(p, lsize l)}\<rparr>) (al(p := None))" if "class_index l = None"
  proof -
    have "p \<notin> small_slots al" using p that by (simp add: small_slots_def)
    then show ?thesis using ao L small_slots_upd(3) [of al p] large_regions_upd(4) [of al, OF p that] by (simp add: allocs_ok_def)
  qed
qed

subsection \<open>Allocations do not overlap\<close>

text \<open>An allocation occupies its whole slot, or the region of a large allocation.\<close>

definition extent :: "layout \<Rightarrow> nat" where
  "extent l = (case class_index l of Some c \<Rightarrow> class_size c | None \<Rightarrow> lsize l)"

lemma extent_ge: "lsize l \<le> extent l"
  using class_index_fits(2) [of l] by (auto simp: extent_def split: option.splits)

lemma overlap_point:
  "\<not> disjoint_regions (p, m) (q, n) \<Longrightarrow> 0 < m \<Longrightarrow> 0 < n \<Longrightarrow> \<exists>a. p \<le> a \<and> a < p + m \<and> q \<le> a \<and> a < q + n"
  by (intro exI [of _ "max p q"]) (auto simp: disjoint_regions_def)

lemma small_extent:
  assumes ok: "sys_ok owns G hs po s w" and ao: "allocs_ok G al" and p: "al p = Some l" "class_index l = Some c"
  shows "\<exists>b pl loc rem. place_of G b = Some pl \<and> slab_ok s b c loc rem (live G \<inter> block b) \<and> p \<in> live G \<inter> block b \<and>
    {p..<p + class_size c} \<subseteq> block b \<and> holds (bytes s) (img G) p (class_size c)"
proof -
  have l: "p \<in> live G" "lcls G p = c" using allocs_okD(6) [OF ao p(1,2)] by simp_all
  obtain pl where b: "place_of G (slab_from_ptr p) = Some pl" "is_slab pl" "p \<in> block (slab_from_ptr p)" "cls s (slab_from_ptr p) = c"
    using live_slab [OF ok l(1)] l(2) by blast
  obtain loc rem where o: "slab_ok s (slab_from_ptr p) c loc rem (live G \<inter> block (slab_from_ptr p))"
      "holds (bytes s) (img G) p (class_size c)"
    using place_slab [OF ok b(1,2)] b(3,4) l(1) by (metis IntI)
  have "p + class_size c \<le> slab_from_ptr p + 65536" using slab_slot_props(4) [OF o(1), of p] l(1) b(3) by blast
  then have "{p..<p + class_size c} \<subseteq> block (slab_from_ptr p)" using b(3) by (auto simp: block_def geom_simps)
  then show ?thesis using b(1,3) o l(1) by blast
qed

lemma extents_disjoint:
  assumes ok: "sys_ok owns G hs po s w" and ao: "allocs_ok G al" and pq: "al p = Some l" "al q = Some k" "p \<noteq> q"
  shows "disjoint_regions (p, extent l) (q, extent k)"
proof (rule ccontr)
  assume "\<not> ?thesis"
  moreover have "0 < extent l" "0 < extent k" using allocs_okD(2) [OF ao] pq extent_ge less_le_trans by blast+
  ultimately obtain a where a: "p \<le> a" "a < p + extent l" "q \<le> a" "a < q + extent k" using overlap_point by blast
  note large = allocs_okD(7) [OF ao]
  have mixed: False if x: "al x = Some u" "class_index u = Some c" "x \<le> a" "a < x + extent u"
      and y: "al y = Some v" "class_index v = None" "y \<le> a" "a < y + extent v" for x u c y v
  proof -
    have "a \<in> {x..<x + class_size c}" using x by (simp add: extent_def)
    then obtain b pl where b: "place_of G b = Some pl" "a \<in> block b" using small_extent [OF ok ao x(1,2)] by blast
    have "covered (large G) a" using y large_covers [OF large [OF y(1,2)], of a] by (simp add: extent_def)
    then show False using large_apart [OF sys_okD(1) [OF ok], of b a] b by blast
  qed
  show False
  proof (cases "class_index l"; cases "class_index k")
    fix c d assume cd: "class_index l = Some c" "class_index k = Some d"
    have in': "a \<in> {p..<p + class_size c}" "a \<in> {q..<q + class_size d}" using a cd by (simp_all add: extent_def)
    obtain b pl loc rem where b: "place_of G b = Some pl" "slab_ok s b c loc rem (live G \<inter> block b)" "p \<in> live G \<inter> block b" "a \<in> block b"
      using small_extent [OF ok ao pq(1) cd(1)] in'(1) by blast
    obtain b' pl' loc' rem' where b': "place_of G b' = Some pl'" "slab_ok s b' d loc' rem' (live G \<inter> block b')" "q \<in> live G \<inter> block b'" "a \<in> block b'"
      using small_extent [OF ok ao pq(2) cd(2)] in'(2) by blast
    have e: "b' = b" using blocks_disjoint [OF place_page_ok [OF ok b(1)] place_page_ok [OF ok b'(1)]] b(4) b'(4) by blast
    then have "d = c" using cls_eq [OF b(2)] cls_eq [OF b'(2)] by simp
    then have "p + class_size c \<le> q \<or> q + class_size c \<le> p" using slab_slots_disjoint [OF b(2), of p q] b(3) b'(3) e pq(3) by blast
    then show False using a cd \<open>d = c\<close> by (auto simp: extent_def)
  next
    fix c assume "class_index l = Some c" "class_index k = None"
    then show False using mixed [OF pq(1) _ a(1,2) pq(2) _ a(3,4)] by blast
  next
    fix c assume "class_index l = None" "class_index k = Some c"
    then show False using mixed [OF pq(2) _ a(3,4) pq(1) _ a(1,2)] by blast
  next
    assume n: "class_index l = None" "class_index k = None"
    then have "(p, lsize l) \<in> large G" "(q, lsize k) \<in> large G" using large pq by blast+
    moreover have "(p, lsize l) \<noteq> (q, lsize k)" using pq(3) by simp
    ultimately have "disjoint_regions (p, lsize l) (q, lsize k)" using ao unfolding allocs_ok_def by blast
    then show False using a n by (auto simp: extent_def disjoint_regions_def)
  qed
qed

text \<open>What the program reads is what it stored.\<close>

lemma contents:
  assumes ok: "sys_ok owns G hs po s w" and ao: "allocs_ok G al" and p: "al p = Some l"
  shows "holds (bytes s) (img G) p (lsize l)"
proof (cases "class_index l")
  case None
  then show ?thesis using large_covers [OF allocs_okD(7) [OF ao p None]] sys_okD(9) [OF ok] by (simp add: holds_def keeps_regions_def)
next
  case (Some c)
  then have "holds (bytes s) (img G) p (class_size c)" using small_extent [OF ok ao p] by blast
  then show ?thesis using extent_ge [of l] Some by (auto simp: holds_def extent_def)
qed

subsection \<open>The program writes\<close>

text \<open>A byte of the program in a page of the pool lies in an allocated slot of a slab.\<close>

lemma program_byte:
  assumes ok: "sys_ok owns G hs po s w" and ao: "allocs_ok G al" and a: "a \<in> program_bytes al" "a \<in> block x" "x \<in> pool_pages (state po)"
  shows "\<exists>p l c pl loc rem. al p = Some l \<and> class_index l = Some c \<and> place_of G x = Some pl \<and> is_slab pl \<and>
    slab_ok s x c loc rem (live G \<inter> block x) \<and> p \<in> live G \<inter> block x \<and> p \<le> a \<and> a < p + class_size c"
proof -
  obtain p l where p: "al p = Some l" "p \<le> a" "a < p + lsize l" using a(1) by (auto simp: program_bytes_def)
  have segs: "segs_ok (seg_list (state po))" "\<forall>r \<in> large G. \<forall>q \<in> seg_regions (state po). disjoint_regions r q"
    using sys_okD(1) [OF ok] by (auto elim!: pool_invD)
  have cov: "covered (seg_regions (state po)) a" using pool_page_covered [OF segs(1) a(3)] a(2) by (simp add: block_def)
  show ?thesis
  proof (cases "class_index l")
    case None
    have "covered (large G) a" using large_covers [OF allocs_okD(7) [OF ao p(1) None]] p by blast
    then show ?thesis using cov segs(2) by (fastforce simp: covered_def in_region_def disjoint_regions_def)
  next
    case (Some c)
    have ac: "a < p + class_size c" using p(3) class_index_fits(2) [OF Some] by simp
    then have "a \<in> {p..<p + class_size c}" using p(2) by simp
    then obtain b pl loc rem where b: "place_of G b = Some pl" "slab_ok s b c loc rem (live G \<inter> block b)" "p \<in> live G \<inter> block b" "a \<in> block b"
      using small_extent [OF ok ao p(1) Some] by blast
    have "b = x" using blocks_disjoint [OF place_page_ok [OF ok b(1)] pool_page_ok [OF segs(1) a(3)]] b(4) a(2) by blast
    moreover have "is_slab pl"
    proof (rule ccontr)
      assume "\<not> is_slab pl"
      then have "live G \<inter> block b = {}" using live_apart [OF ok place_page_ok [OF ok b(1)]] b(1) by simp
      then show False using b(3) by blast
    qed
    ultimately show ?thesis using b p ac Some by blast
  qed
qed

lemma write_slab:
  assumes ok: "sys_ok owns G hs po s w" and ao: "allocs_ok G al" and m: "\<And>a. a \<notin> program_bytes al \<Longrightarrow> m a = bytes s a"
    and b: "place_of G b = Some pl" "is_slab pl"
  shows "slab_at (s\<lparr>bytes := m\<rparr>) b (live G) (lcls G) (\<lambda>a. if a \<in> program_bytes al then m a else img G a)"
proof -
  let ?M = "\<lambda>a. if a \<in> program_bytes al then m a else img G a"
  have at: "slab_at s b (live G) (lcls G) (img G)" using sys_okD(7) [OF ok] b by (simp add: slabs_ok_def)
  then obtain loc rem where o: "slab_ok s b (cls s b) loc rem (live G \<inter> block b)" by (auto simp: slab_at_def)
  have bp: "b \<in> pool_pages (state po)" using sys_okD(1) [OF ok] b(1) by (auto elim!: pool_invD)
  have "slab_ok (s\<lparr>bytes := m\<rparr>) b (cls s b) loc rem (live G \<inter> block b)"
  proof (rule slab_ok_frame_free [OF o])
    fix x a assume x: "x \<in> set loc \<union> set rem" "x \<le> a" "a < x + 8"
    have "a \<in> block b" using slab_slot_props(3,5) [OF o, of x] x by (auto simp: block_def geom_simps)
    have "a \<notin> program_bytes al"
    proof
      assume "a \<in> program_bytes al"
      then obtain p c loc' rem' where p: "slab_ok s b c loc' rem' (live G \<inter> block b)" "p \<in> live G \<inter> block b" "p \<le> a" "a < p + class_size c"
        using program_byte [OF ok ao _ \<open>a \<in> block b\<close> bp] by blast
      have c: "c = cls s b" using cls_eq [OF p(1)] by simp
      have "x \<noteq> p" using slab_okD(6,7) [OF o] x(1) p(2) by blast
      then have "x + class_size c \<le> p \<or> p + class_size c \<le> x" using slab_slots_disjoint [OF o, of x p] x(1) p(2) c by blast
      then show False using x(2,3) p(3,4) class_size_bounds [OF slab_okD(3) [OF p(1)]] by linarith
    qed
    then show "bytes (s\<lparr>bytes := m\<rparr>) a = bytes s a" using m by simp
  qed simp
  moreover have "holds m ?M p n" if "holds (bytes s) (img G) p n" for p n
    using that m by (auto simp: holds_def)
  moreover have "cls (s\<lparr>bytes := m\<rparr>) b = cls s b" by (simp add: cls_def)
  ultimately show ?thesis using at unfolding slab_at_def by auto
qed

lemma sys_write:
  assumes ok: "sys_ok owns G hs po s w" and ao: "allocs_ok G al" and m: "\<And>a. a \<notin> program_bytes al \<Longrightarrow> m a = bytes s a"
  shows "sys_ok owns (G\<lparr>img := \<lambda>a. if a \<in> program_bytes al then m a else img G a\<rparr>) hs po (s\<lparr>bytes := m\<rparr>) w" (is "sys_ok owns ?G hs po ?s w")
proof -
  note D = sys_okD [OF ok]
  obtain dl cl where P: "pool_ok (bytes s) (state po) dl cl (dom (place_of G))" and own: "owns (page_alloc po) (large G \<union> seg_regions (state po))"
    and dis: "\<forall>r \<in> large G. \<forall>q \<in> seg_regions (state po). disjoint_regions r q"
    using D(1) by (rule pool_invD)
  note PD = pool_okD [OF P]
  have keep: "keeps X (bytes s) m" if X: "X \<subseteq> pool_pages (state po)" "\<And>x pl. x \<in> X \<Longrightarrow> place_of G x = Some pl \<Longrightarrow> \<not> is_slab pl" for X
    unfolding keeps_def
  proof (intro ballI allI impI)
    fix x a assume x: "x \<in> X" and a: "x \<le> a \<and> a < x + SLAB_SIZE"
    have "a \<notin> program_bytes al"
      using program_byte [OF ok ao, of a x] X(1) X(2) [OF x] x a by (auto simp: block_def)
    then show "m a = bytes s a" by (rule m)
  qed
  have kl: "keeps (set (dl @ cl)) (bytes s) m"
  proof (rule keep)
    show "set (dl @ cl) \<subseteq> pool_pages (state po)" using PD(8,9) by auto
    show "\<not> is_slab pl" if "x \<in> set (dl @ cl)" "place_of G x = Some pl" for x pl using pool_ok_parts(1) [OF P] that by blast
  qed
  have "pool_ok m (state po) dl cl (dom (place_of G))"
    using P keeps_list [OF PD(4) kl] keeps_list [OF PD(5) kl] by (simp add: pool_ok_def)
  then have 1: "pool_inv owns po m (large G) (dom (place_of G))" using own dis by (auto simp: pool_inv_def)
  have kc: "keeps {x. place_of G x = Some Cache} (bytes s) m" by (rule keep) (use PD(7) in auto)
  have 6: "cache_list_ok ?G po m" by (rule cache_list_frame [OF D(6) _ _ _ _ kc]) simp_all
  have "slab_at ?s b (live G) (lcls G) (img ?G) \<and> place_ok ?G ?s b pl" if "place_of G b = Some pl" "is_slab pl" for b pl
    using write_slab [OF ok ao m that] sys_place [OF ok that] place_ok_cong [of ?s b s G pl] by simp
  then have 7: "slabs_ok ?G ?s" by (simp add: slabs_ok_def)
  have 9: "keeps_regions (large G) (img ?G) m" using D(9) m by (auto simp: keeps_regions_def)
  have dl: "dll ?s h xs = dll s h xs" "schain ?s p xs = schain s p xs" for h xs p
    by (rule dll_cong; simp) (rule schain_cong; simp)
  show ?thesis using 1 6 7 9 D(2-5,8) dl
    by (simp add: sys_ok_def bins_ok_def queues_ok_def aband_ok_def walk_ok_def live_ok_def)
qed

subsection \<open>Steps keep the invariant\<close>

text \<open>The program's data is untouched.\<close>

definition untouched :: "(addr \<rightharpoonup> layout) \<Rightarrow> memory \<Rightarrow> memory \<Rightarrow> bool" where
  "untouched al M M' \<longleftrightarrow> (\<forall>p l. al p = Some l \<longrightarrow> holds M' M p (lsize l))"

lemma untouched_refl [simp]: "untouched al M M"
  by (simp add: untouched_def holds_def)

lemma fill_apart: "disjoint_regions (p, n) (q, k) \<Longrightarrow> holds (fill M p n m) M q k"
  by (auto simp: holds_def fill_def disjoint_regions_def)

lemma untouched_fill:
  assumes ok: "sys_ok owns G' hs po s w" and ao: "allocs_ok G' (al(p \<mapsto> l))" and n: "al p = None"
  shows "untouched al M (fill M p (extent l) m)"
  unfolding untouched_def
proof (intro allI impI)
  fix q k assume q: "al q = Some k"
  then have "p \<noteq> q" using n by auto
  then have "disjoint_regions (p, extent l) (q, extent k)" using extents_disjoint [OF ok ao, of p l q k] q by simp
  then have "disjoint_regions (p, extent l) (q, lsize k)" using extent_ge [of k] by (auto simp: disjoint_regions_def)
  then show "holds (fill M p (extent l) m) M q (lsize k)" by (rule fill_apart)
qed

text \<open>The images agree with memory, so that untouched images mean untouched contents.\<close>

lemma contents_untouched:
  assumes ok: "system_ok owns G al \<sigma>" "system_ok owns G' al' \<sigma>'" and u: "untouched al (img G) (img G')"
    and p: "al p = Some l" "al' p = Some l"
  shows "holds (bytes (store \<sigma>')) (bytes (store \<sigma>)) p (lsize l)"
proof -
  have "holds (bytes (store \<sigma>)) (img G) p (lsize l)" "holds (bytes (store \<sigma>')) (img G') p (lsize l)" "holds (img G') (img G) p (lsize l)"
    using contents [OF system_okD(1,5) [OF ok(1)] p(1)] contents [OF system_okD(1,5) [OF ok(2)] p(2)] u p(1) by (simp_all add: untouched_def)
  then show ?thesis by (simp add: holds_def)
qed

lemma system_okI:
  assumes "sys_ok owns G (heap_of (heaps \<sigma>)) (pool \<sigma>) (store \<sigma>) None" "settled G" "dying G = {}" "walk G = []"
    "ids G = dom (heaps \<sigma>)" "\<forall>i \<in> used G. i < counter \<sigma>" "allocs_ok G al"
  shows "system_ok owns G al \<sigma>"
  using assms by (simp add: system_ok_def idle_def)

lemma allocs_ok_same: "allocs_ok G al \<Longrightarrow> live G' = live G \<Longrightarrow> lcls G' = lcls G \<Longrightarrow> large G' = large G \<Longrightarrow> allocs_ok G' al"
  by (simp add: allocs_ok_def)

lemma dom_heap: "hs i = Some h \<Longrightarrow> dom (hs(i \<mapsto> h')) = dom hs"
  by auto

lemma idle_parts: "idle G \<Longrightarrow> dying G = {} \<and> walk G = [] \<and> settled G"
  by (simp add: idle_def)

context page_allocator
begin

lemma system_alloc_small:
  assumes so: "system_ok owns G al \<sigma>" and h: "heaps \<sigma> i = Some h" and l: "layout_ok l" "0 < lsize l" "class_index l = Some c"
  shows "\<exists>r h' po s G'. heap_alloc A l (h, pool \<sigma>, store \<sigma>) = Some (r, h', po, s) \<and>
    system_ok owns G' (case r of None \<Rightarrow> al | Some p \<Rightarrow> al(p \<mapsto> l)) (\<sigma>\<lparr>pool := po, store := s, heaps := (heaps \<sigma>)(i \<mapsto> h')\<rparr>) \<and>
    (\<forall>p. r = Some p \<longrightarrow> al p = None) \<and> untouched al (img G) (img G')"
proof -
  note S = system_okD [OF so] and H = system_heap [OF so h]
  have c: "c < NUM_CLASSES" using class_index_fits(1) [OF l(3)] .
  obtain r h' po s G' where a: "heap_alloc A l (h, pool \<sigma>, store \<sigma>) = Some (r, h', po, s)"
      "sys_ok owns G' ((heap_of (heaps \<sigma>))(i := h')) po s None" "settled G'" "walk G' = []" "grown c G r G'"
    using heap_alloc_small [OF l(3) H(2,1) c H(3)] by blast
  have g: "ids G' = ids G" "used G' = used G" "dying G' = {}" using a(5) idle_parts [OF S(2)] by (simp_all add: grown_def)
  show ?thesis
  proof (cases r)
    case None
    then have gn: "live G' = live G" "lcls G' = lcls G" "large G' = large G" "img G' = img G" using a(5) by (simp_all add: grown_def)
    have "system_ok owns G' al (\<sigma>\<lparr>pool := po, store := s, heaps := (heaps \<sigma>)(i \<mapsto> h')\<rparr>)"
      by (rule system_okI) (use a(2-4) g S(3,4) dom_heap [of "heaps \<sigma>", OF h] allocs_ok_same [OF S(5) gn(1-3)] in simp_all)
    then show ?thesis using a(1) None gn(4) by (intro exI [of _ None] exI [of _ h'] exI [of _ po] exI [of _ s] exI [of _ G']) simp
  next
    case (Some p)
    obtain m where im: "img G' = fill (img G) p (class_size c) m" using a(5) Some by (auto simp: grown_def)
    note ao = allocs_insert_small [OF S(5) a(2) a(5) [unfolded Some] l]
    have "system_ok owns G' (al(p \<mapsto> l)) (\<sigma>\<lparr>pool := po, store := s, heaps := (heaps \<sigma>)(i \<mapsto> h')\<rparr>)"
      by (rule system_okI) (use a(2-4) g S(3,4) dom_heap [of "heaps \<sigma>", OF h] ao in simp_all)
    moreover have "untouched al (img G) (img G')"
      using untouched_fill [OF a(2) ao(2,1), of "img G" m] im l(3) by (simp add: extent_def)
    ultimately show ?thesis using a(1) Some ao(1)
      by (intro exI [of _ "Some p"] exI [of _ h'] exI [of _ po] exI [of _ s] exI [of _ G']) simp
  qed
qed

lemma system_alloc_large:
  assumes so: "system_ok owns G al \<sigma>" and h: "heaps \<sigma> i = Some h" and l: "layout_ok l" "0 < lsize l" "class_index l = None"
  shows "\<exists>r h' po s G'. heap_alloc A l (h, pool \<sigma>, store \<sigma>) = Some (r, h', po, s) \<and>
    system_ok owns G' (case r of None \<Rightarrow> al | Some p \<Rightarrow> al(p \<mapsto> l)) (\<sigma>\<lparr>pool := po, store := s, heaps := (heaps \<sigma>)(i \<mapsto> h')\<rparr>) \<and>
    (\<forall>p. r = Some p \<longrightarrow> al p = None) \<and> untouched al (img G) (img G')"
proof -
  note S = system_okD [OF so] and H = system_heap [OF so h]
  obtain r po s where a: "alloc_large A l (pool \<sigma>) (store \<sigma>) = (r, po, s)"
    "case r of None \<Rightarrow> sys_ok owns G ((heap_of (heaps \<sigma>))(i := h)) po s None
     | Some a \<Rightarrow> 0 < a \<and> lalign l dvd a \<and> a + lsize l \<le> 2 ^ 64 \<and> (\<forall>q \<in> large G. disjoint_regions (a, lsize l) q) \<and>
        (\<forall>q \<in> seg_regions (state (pool \<sigma>)). disjoint_regions (a, lsize l) q) \<and> (\<forall>x. in_region (a, lsize l) x \<longrightarrow> bytes s x = 0) \<and>
        sys_ok owns (G\<lparr>img := fill (img G) a (lsize l) (bytes s), large := insert (a, lsize l) (large G)\<rparr>)
          ((heap_of (heaps \<sigma>))(i := h)) po s None"
    using alloc_large_ok [OF H(2) l(1,2)] by blast
  note ip = idle_parts [OF S(2)]
  show ?thesis
  proof (cases r)
    case None
    have "system_ok owns G al (\<sigma>\<lparr>pool := po, store := s, heaps := (heaps \<sigma>)(i \<mapsto> h)\<rparr>)"
      by (rule system_okI) (use a(2) None ip S(3-5) dom_heap [of "heaps \<sigma>", OF h] in simp_all)
    moreover have "heap_alloc A l (h, pool \<sigma>, store \<sigma>) = Some (None, h, po, s)"
      using a(1) None l(3) by (subst heap_alloc.simps) (simp add: heap_alloc_large_def)
    ultimately show ?thesis using None by (intro exI [of _ None] exI [of _ h] exI [of _ po] exI [of _ s] exI [of _ G]) simp
  next
    case (Some p)
    let ?h = "h\<lparr>hmetrics := on_large_alloc (lsize l) (hmetrics h)\<rparr>"
    let ?G = "G\<lparr>img := fill (img G) p (lsize l) (bytes s), large := insert (p, lsize l) (large G)\<rparr>"
    have b: "0 < p" "lalign l dvd p" "p + lsize l \<le> 2 ^ 64" "\<forall>q \<in> large G. disjoint_regions (p, lsize l) q"
        "\<forall>q \<in> seg_regions (state (pool \<sigma>)). disjoint_regions (p, lsize l) q" "sys_ok owns ?G ((heap_of (heaps \<sigma>))(i := h)) po s None"
      using a(2) Some by simp_all
    note ao = allocs_insert_large [OF S(5) H(2) l b(1-5)]
    have ok: "sys_ok owns ?G ((heap_of (heaps \<sigma>))(i := ?h)) po s None" by (rule sys_heap_metrics [OF b(6)]) simp_all
    then have "system_ok owns ?G (al(p \<mapsto> l)) (\<sigma>\<lparr>pool := po, store := s, heaps := (heaps \<sigma>)(i \<mapsto> ?h)\<rparr>)"
      by (intro system_okI) (use ip S(3,4) dom_heap [of "heaps \<sigma>", OF h] ao(2) in \<open>simp_all add: settled_def\<close>)
    moreover have "untouched al (img G) (img ?G)"
      using untouched_fill [OF ok ao(2,1), of "img G"] l(3) by (simp add: extent_def)
    moreover have "heap_alloc A l (h, pool \<sigma>, store \<sigma>) = Some (Some p, ?h, po, s)"
      using a(1) Some l(3) by (subst heap_alloc.simps) (simp add: heap_alloc_large_def)
    ultimately show ?thesis using Some ao(1)
      by (intro exI [of _ "Some p"] exI [of _ ?h] exI [of _ po] exI [of _ s] exI [of _ ?G]) simp
  qed
qed

lemma system_dealloc:
  assumes so: "system_ok owns G al \<sigma>" and h: "heaps \<sigma> i = Some h" and p: "al p = Some l"
  shows "\<exists>h' po s G'. heap_dealloc A p l (h, pool \<sigma>, store \<sigma>) = Some (h', po, s) \<and>
    system_ok owns G' (al(p := None)) (\<sigma>\<lparr>pool := po, store := s, heaps := (heaps \<sigma>)(i \<mapsto> h')\<rparr>) \<and> img G' = img G"
proof (cases "class_index l")
  case (Some c)
  note S = system_okD [OF so] and H = system_heap [OF so h] and P = allocs_okD [OF system_okD(5) [OF so] p]
  obtain h' po s G' where d: "heap_dealloc A p l (h, pool \<sigma>, store \<sigma>) = Some (h', po, s)"
      "sys_ok owns G' ((heap_of (heaps \<sigma>))(i := h')) po s None" "settled G'" "walk G' = []" "shrunk G p G'"
    using heap_dealloc_small [OF Some H(2,1) class_index_fits(1) [OF Some] S(2)] P(6) [OF Some] by blast
  have g: "ids G' = ids G" "used G' = used G" "dying G' = {}" "img G' = img G" using d(5) idle_parts [OF S(2)] by (simp_all add: shrunk_def)
  have "system_ok owns G' (al(p := None)) (\<sigma>\<lparr>pool := po, store := s, heaps := (heaps \<sigma>)(i \<mapsto> h')\<rparr>)"
    by (rule system_okI) (use d(2-4) g S(3,4) dom_heap [of "heaps \<sigma>", OF h] allocs_remove(1) [OF S(5) p Some d(5)] in simp_all)
  then show ?thesis using d(1) g(4) by blast
next
  case None
  note S = system_okD [OF so] and H = system_heap [OF so h] and P = allocs_okD [OF system_okD(5) [OF so] p]
  let ?h = "h\<lparr>hmetrics := on_large_dealloc (lsize l) (hmetrics h)\<rparr>" and ?G = "G\<lparr>large := large G - {(p, lsize l)}\<rparr>"
  obtain po s where d: "dealloc_large A p l (pool \<sigma>) (store \<sigma>) = (po, s)" "sys_ok owns ?G ((heap_of (heaps \<sigma>))(i := h)) po s None"
    using dealloc_large_ok [OF H(2) P(7) [OF None] P(2)] by blast
  have "sys_ok owns ?G ((heap_of (heaps \<sigma>))(i := ?h)) po s None" by (rule sys_heap_metrics [OF d(2)]) simp_all
  then have "system_ok owns ?G (al(p := None)) (\<sigma>\<lparr>pool := po, store := s, heaps := (heaps \<sigma>)(i \<mapsto> ?h)\<rparr>)"
    by (intro system_okI) (use idle_parts [OF S(2)] S(3,4) dom_heap [of "heaps \<sigma>", OF h] allocs_remove(2) [OF S(5) p None] in \<open>simp_all add: settled_def\<close>)
  moreover have "heap_dealloc A p l (h, pool \<sigma>, store \<sigma>) = Some (?h, po, s)" using d(1) None by (simp add: heap_dealloc_def)
  ultimately show ?thesis by (intro exI [of _ ?h] exI [of _ po] exI [of _ s] exI [of _ ?G]) simp
qed

lemma system_drop:
  assumes so: "system_ok owns G al \<sigma>" and h: "heaps \<sigma> i = Some h"
  shows "\<exists>h' po s G'. heap_drop A (h, pool \<sigma>, store \<sigma>) = Some (h', po, s) \<and>
    system_ok owns G' al (\<sigma>\<lparr>pool := po, store := s, heaps := (heaps \<sigma>)(i := None)\<rparr>) \<and> img G' = img G"
proof -
  note S = system_okD [OF so] and H = system_heap [OF so h]
  obtain h' po s G' where d: "heap_drop A (h, pool \<sigma>, store \<sigma>) = Some (h', po, s)" "sys_ok owns G' ((heap_of (heaps \<sigma>))(i := h')) po s None"
      "idle G'" "dropped i G G'"
    using heap_drop_ok [OF H(2,1) S(2)] by blast
  have g: "ids G' = ids G - {i}" "used G' = used G" "live G' = live G" "lcls G' = lcls G" "large G' = large G" "img G' = img G"
    using d(4) by (simp_all add: dropped_def)
  have "bins_ok G' (heap_of ((heaps \<sigma>)(i := None)))"
    using sys_okD(2) [OF d(2)] g(1) by (auto simp: bins_ok_def heap_of_def)
  then have "sys_ok owns G' (heap_of ((heaps \<sigma>)(i := None))) po s None" using d(2) by (simp add: sys_ok_def)
  then have "system_ok owns G' al (\<sigma>\<lparr>pool := po, store := s, heaps := (heaps \<sigma>)(i := None)\<rparr>)"
    by (intro system_okI) (use idle_parts [OF d(3)] g S(3,4) allocs_ok_same [OF S(5) g(3-5)] in auto)
  then show ?thesis using d(1) g(6) by blast
qed

end

lemma system_new:
  assumes so: "system_ok owns G al \<sigma>" and c: "counter \<sigma> + 1 \<noteq> 0" and new: "Heap_new (counter \<sigma>) (store \<sigma>) = (h, n, s)"
  shows "\<exists>G'. system_ok owns G' al (\<sigma>\<lparr>store := s, heaps := (heaps \<sigma>)(hid h \<mapsto> h), counter := n\<rparr>) \<and> img G' = img G"
proof -
  note S = system_okD [OF so]
  have nu: "counter \<sigma> \<notin> used G" using S(4) by blast
  note N = Heap_new_ok [OF S(1) nu new]
  have lt: "counter \<sigma> < counter \<sigma> + 1" using c by (metis add.commute lessI unatSuc word_less_nat_alt)
  then have "\<forall>i \<in> used (with_heap (counter \<sigma>) G). i < n" using S(4) N(2) by (auto simp: with_heap_def intro: less_trans)
  then have "system_ok owns (with_heap (counter \<sigma>) G) al (\<sigma>\<lparr>store := s, heaps := (heaps \<sigma>)(hid h \<mapsto> h), counter := n\<rparr>)"
    by (intro system_okI) (use N idle_parts [OF S(2)] S(3) allocs_ok_same [OF S(5)] in \<open>simp_all add: with_heap_def settled_def\<close>)
  moreover have "img (with_heap (counter \<sigma>) G) = img G" by (simp add: with_heap_def)
  ultimately show ?thesis by blast
qed

definition empty_ghost :: ghost where
  "empty_ghost = \<lparr>ids = {}, used = {}, dying = {}, busy = 0, place_of = (\<lambda>_. None), queue = (\<lambda>_. []), abq = (\<lambda>_. []),
     walk = [], wcls = 0, cached = [], live = {}, lcls = (\<lambda>_. 0), img = (\<lambda>_. 0), large = {}\<rparr>"

lemma initial_ok: "owns pa {} \<Longrightarrow> system_ok owns empty_ghost (\<lambda>_. None) (initial pa s)"
  using PagePool_new_inv [of owns pa "bytes s"]
  by (auto simp: system_ok_def sys_ok_def initial_def empty_ghost_def bins_ok_def queues_ok_def aband_ok_def walk_ok_def
      cache_list_ok_def slabs_ok_def live_ok_def keeps_regions_def covered_def idle_def settled_def allocs_ok_def
      small_slots_def large_regions_def PagePool_new_def nonnull_def)

text \<open>The simulation relation.\<close>

definition refines :: "('p \<Rightarrow> region set \<Rightarrow> bool) \<Rightarrow> 'p allocator \<Rightarrow> ideal \<Rightarrow> bool" where
  "refines owns \<sigma> = (\<lambda>(al, M). (\<exists>G. system_ok owns G al \<sigma>) \<and> (\<forall>a \<in> program_bytes al. bytes (store \<sigma>) a = M a))"

lemma untouched_bytes:
  assumes ok: "system_ok owns G al \<sigma>" "system_ok owns G' al' \<sigma>'" and u: "untouched al (img G) (img G')"
    and sub: "\<And>p l. al p = Some l \<Longrightarrow> al' p = Some l" and a: "a \<in> program_bytes al"
  shows "bytes (store \<sigma>') a = bytes (store \<sigma>) a"
proof -
  obtain p l where p: "al p = Some l" "p \<le> a" "a < p + lsize l" using a by (auto simp: program_bytes_def)
  then show ?thesis using contents_untouched [OF ok u p(1) sub [OF p(1)]] by (simp add: holds_def)
qed

lemma program_bytes_sub: "a \<in> program_bytes (al(p := None)) \<Longrightarrow> a \<in> program_bytes al"
  by (auto simp: program_bytes_def split: if_splits)

lemma untouched_sub: "untouched al M M' \<Longrightarrow> untouched (al(p := None)) M M'"
  by (auto simp: untouched_def)

lemma system_fits:
  assumes so: "system_ok owns G (al(p \<mapsto> l)) \<sigma>" and n: "al p = None"
  shows "fits_in al p l"
  unfolding fits_in_def
proof (intro conjI allI impI)
  note S = system_okD [OF so]
  have p: "(al(p \<mapsto> l)) p = Some l" by simp
  note P = allocs_okD [OF S(5) p]
  show "0 < p" "lalign l dvd p" "p + lsize l \<le> 2 ^ 64" by (rule P)+
  fix q k assume q: "al q = Some k"
  then have "p \<noteq> q" "(al(p \<mapsto> l)) q = Some k" using n by auto
  then have "disjoint_regions (p, extent l) (q, extent k)" using extents_disjoint [OF S(1,5) p] by blast
  then show "disjoint_regions (p, lsize l) (q, lsize k)" using extent_ge [of l] extent_ge [of k] by (auto simp: disjoint_regions_def)
qed (rule n)

lemma system_write:
  assumes so: "system_ok owns G al \<sigma>" and a: "a \<in> program_bytes al"
  shows "\<exists>G'. system_ok owns G' al (\<sigma>\<lparr>store := (store \<sigma>)\<lparr>bytes := (bytes (store \<sigma>))(a := v)\<rparr>\<rparr>)"
proof -
  note S = system_okD [OF so]
  let ?m = "(bytes (store \<sigma>))(a := v)"
  have "?m b = bytes (store \<sigma>) b" if "b \<notin> program_bytes al" for b using that a by auto
  note W = sys_write [OF S(1,5) this]
  define G' where "G' = G\<lparr>img := \<lambda>b. if b \<in> program_bytes al then ?m b else img G b\<rparr>"
  have "live G' = live G" "lcls G' = lcls G" "large G' = large G" by (simp_all add: G'_def)
  then have ao: "allocs_ok G' al" by (rule allocs_ok_same [OF S(5)])
  have ok: "sys_ok owns G' (heap_of (heaps \<sigma>)) (pool \<sigma>) ((store \<sigma>)\<lparr>bytes := ?m\<rparr>) None" unfolding G'_def using W by blast
  have g: "settled G'" "dying G' = {}" "walk G' = []" "ids G' = dom (heaps \<sigma>)" "\<forall>i \<in> used G'. i < counter \<sigma>"
    using idle_parts [OF S(2)] S(3,4) by (simp_all add: G'_def settled_def)
  have "system_ok owns G' al (\<sigma>\<lparr>store := (store \<sigma>)\<lparr>bytes := ?m\<rparr>\<rparr>)" by (rule system_okI) (use ok g ao in simp_all)
  then show ?thesis by blast
qed

context page_allocator
begin

lemma system_alloc:
  assumes so: "system_ok owns G al \<sigma>" and h: "heaps \<sigma> i = Some h" and l: "layout_ok l" "0 < lsize l"
  shows "\<exists>r h' po s G'. heap_alloc A l (h, pool \<sigma>, store \<sigma>) = Some (r, h', po, s) \<and>
    system_ok owns G' (case r of None \<Rightarrow> al | Some p \<Rightarrow> al(p \<mapsto> l)) (\<sigma>\<lparr>pool := po, store := s, heaps := (heaps \<sigma>)(i \<mapsto> h')\<rparr>) \<and>
    (\<forall>p. r = Some p \<longrightarrow> al p = None) \<and> untouched al (img G) (img G')"
  using system_alloc_small [OF so h l] system_alloc_large [OF so h l] by (cases "class_index l") auto

lemma alloc_simulates:
  assumes so: "system_ok owns G al \<sigma>" and M: "\<forall>a \<in> program_bytes al. bytes (store \<sigma>) a = M a" and h: "heaps \<sigma> i = Some h"
    and l: "layout_ok l" "0 < lsize l" and al: "heap_alloc A l (h, pool \<sigma>, store \<sigma>) = Some (r, h', po, s)"
  shows "\<exists>a'. ideal_step (al, M) (Alloc i l r) a' \<and> refines owns (\<sigma>\<lparr>pool := po, store := s, heaps := (heaps \<sigma>)(i \<mapsto> h')\<rparr>) a'"
proof -
  let ?\<sigma> = "\<sigma>\<lparr>pool := po, store := s, heaps := (heaps \<sigma>)(i \<mapsto> h')\<rparr>"
  obtain G' where g: "system_ok owns G' (case r of None \<Rightarrow> al | Some p \<Rightarrow> al(p \<mapsto> l)) ?\<sigma>" "\<forall>p. r = Some p \<longrightarrow> al p = None"
      "untouched al (img G) (img G')"
    using system_alloc [OF so h l] al by auto
  show ?thesis
  proof (cases r)
    case None
    then have "system_ok owns G' al ?\<sigma>" using g(1) by simp
    moreover from this have "bytes s a = M a" if "a \<in> program_bytes al" for a
      using untouched_bytes [OF so _ g(3) _ that] M that by fastforce
    ultimately have "refines owns ?\<sigma> (al, M)" by (auto simp: refines_def)
    then show ?thesis using None ideal_fail by blast
  next
    case (Some p)
    then have ok: "system_ok owns G' (al(p \<mapsto> l)) ?\<sigma>" and n: "al p = None" using g(1,2) by simp_all
    have "bytes s a = M a" if "a \<in> program_bytes al" for a
      using untouched_bytes [OF so ok g(3) _ that] n M that by fastforce
    then have "ideal_step (al, M) (Alloc i l (Some p)) (al(p \<mapsto> l), bytes s)" by (intro ideal_alloc system_fits [OF ok n]) simp
    moreover have "refines owns ?\<sigma> (al(p \<mapsto> l), bytes s)" using ok by (auto simp: refines_def)
    ultimately show ?thesis using Some by blast
  qed
qed

lemma step_simulates:
  assumes R: "refines owns \<sigma> a" and st: "step A \<sigma> e \<sigma>'" and lg: "legal a e"
  shows "\<exists>a'. ideal_step a e a' \<and> refines owns \<sigma>' a'"
proof -
  obtain al M G where a: "a = (al, M)" and so: "system_ok owns G al \<sigma>" and M: "\<forall>x \<in> program_bytes al. bytes (store \<sigma>) x = M x"
    using R by (cases a) (auto simp: refines_def)
  have same: "refines owns \<sigma>' (al', M)" if "system_ok owns G' al' \<sigma>'" "img G' = img G" "al' = al \<or> (\<exists>p. al' = al(p := None))" for G' al'
  proof -
    have so': "system_ok owns G' al' \<sigma>'" by (rule that)
    have "bytes (store \<sigma>') x = M x" if x: "x \<in> program_bytes al'" for x
    proof -
      obtain p l where p: "al' p = Some l" "p \<le> x" "x < p + lsize l" using x by (auto simp: program_bytes_def)
      have "al p = Some l" using p(1) \<open>al' = al \<or> _\<close> by (auto split: if_splits)
      moreover from this have "x \<in> program_bytes al" using p(2,3) unfolding program_bytes_def by blast
      moreover have "untouched al (img G) (img G')" using \<open>img G' = img G\<close> by simp
      ultimately have "holds (bytes (store \<sigma>')) (bytes (store \<sigma>)) p (lsize l)" using contents_untouched [OF so so' _ _ p(1)] by blast
      then show ?thesis using p(2,3) M \<open>x \<in> program_bytes al\<close> by (simp add: holds_def)
    qed
    then show ?thesis using so' by (auto simp: refines_def)
  qed
  from st show ?thesis
  proof cases
    case (step_new h n s)
    then show ?thesis using system_new [OF so step_new(3,4)] same ideal_new a by blast
  next
    case (step_alloc i h l r h' po s)
    then show ?thesis using alloc_simulates [OF so M step_alloc(3) _ _ step_alloc(4)] lg a by simp
  next
    case (step_free i h p l h' po s)
    then have p: "al p = Some l" using lg a by simp
    obtain G' where "system_ok owns G' (al(p := None)) \<sigma>'" "img G' = img G"
      using system_dealloc [OF so step_free(3) p] step_free(2,4) by auto
    then show ?thesis using same ideal_free a step_free(1) by blast
  next
    case (step_drop i h h' po s)
    then obtain G' where "system_ok owns G' al \<sigma>'" "img G' = img G" using system_drop [OF so step_drop(3)] by auto
    then show ?thesis using same ideal_drop a step_drop(1) by blast
  next
    case (step_write x v)
    then have x: "x \<in> program_bytes al" using lg a by simp
    have "refines owns \<sigma>' (al, M(x := v))" using system_write [OF so x, of v] step_write(2) M by (auto simp: refines_def)
    then show ?thesis using ideal_write a step_write(1) by blast
  qed
qed

end

sublocale page_allocator \<subseteq> system: forward_simulation "step A" ideal_step legal "refines owns"
  by unfold_locales (rule step_simulates)

context page_allocator
begin

lemma run_refines:
  assumes "owns pa {}" "trace (step A) (initial pa s) es \<sigma>" "\<not> client_breaks ideal_step legal (\<lambda>_. None, bytes s) es"
  shows "\<exists>al M G. trace ideal_step (\<lambda>_. None, bytes s) es (al, M) \<and> refines owns \<sigma> (al, M) \<and> system_ok owns G al \<sigma>"
proof -
  have "refines owns (initial pa s) (\<lambda>_. None, bytes s)"
    using initial_ok [of owns pa s] assms(1) by (auto simp: refines_def program_bytes_def)
  from system.simulate_trace [OF assms(2) this] assms(3) show ?thesis by (auto simp: refines_def)
qed

end

lemma always_legal: "(\<And>e a. e \<in> set es \<Longrightarrow> legal a e) \<Longrightarrow> \<not> client_breaks ideal_step legal a es"
  by (auto simp: client_breaks_def)

subsection \<open>Properties\<close>

text \<open>
  C3. The allocator refines an ideal allocator. For every run from the initial state, by any number
  of heaps over any page allocator that meets its contract: either the program breaks the contract
  of \<open>GlobalAlloc\<close> at some point (an invalid layout, a free of something not allocated with that
  layout, a write outside its allocations), or the run is a run of the ideal allocator, in which
  allocations are aligned, never overlap, and keep the bytes the program stored, and memory holds
  these bytes at the end.
\<close>

theorem allocator_refines_ideal:
  assumes "page_allocator A owns" and "owns pa {}" and "trace (step A) (initial pa s) es \<sigma>"
  shows "client_breaks ideal_step legal (\<lambda>_. None, bytes s) es \<or>
    (\<exists>al M. trace ideal_step (\<lambda>_. None, bytes s) es (al, M) \<and> (\<forall>a \<in> program_bytes al. bytes (store \<sigma>) a = M a))"
proof (cases "client_breaks ideal_step legal (\<lambda>_. None, bytes s) es")
  case False
  then show ?thesis using page_allocator.run_refines [OF assms] by (auto simp: refines_def)
qed simp

text \<open>Runs of a bump allocator in place of the operating system.\<close>

definition small_layout :: layout where
  "small_layout = \<lparr>lsize = 100, lalign = 4\<rparr>"

lemma small_layout_ok: "layout_ok small_layout" "0 < lsize small_layout"
proof -
  have "(2 :: nat) < 64" "(4 :: nat) = 2 ^ 2" by simp_all
  then show "layout_ok small_layout" by (auto simp: layout_ok_def small_layout_def next_multiple_of_def intro!: exI [of _ 2])
qed (simp add: small_layout_def)

text \<open>A layout with no class, which is mapped on its own.\<close>

definition big_layout :: layout where
  "big_layout = \<lparr>lsize = 131072, lalign = 4096\<rparr>"

lemma big_layout_ok: "layout_ok big_layout" "0 < lsize big_layout" "class_index big_layout = None"
proof -
  have n: "next_multiple_of 131072 4096 = 131072" by (simp add: next_multiple_of_def)
  then show "layout_ok big_layout" by (auto simp: layout_ok_def big_layout_def intro: exI [of _ 12])
  show "class_index big_layout = None" using n by (simp add: class_index_def big_layout_def geom_simps)
qed (simp add: big_layout_def)

lemma bump_big_alloc:
  assumes "page_alloc po = ({}, 16)"
  shows "\<exists>h' po' s'. heap_alloc bump_pages big_layout (h, po, s) = Some (Some 65536, h', po', s')"
proof -
  have "class_index \<lparr>lsize = 131072, lalign = 4096\<rparr> = None" using big_layout_ok(3) by (simp add: big_layout_def)
  moreover have "align_up 65536 4096 = 65536" using align_up_eq [of 65536 12] by simp
  ultimately show ?thesis using assms
    by (simp add: heap_alloc.simps heap_alloc_large_def alloc_large_def big_layout_def MmapAllocator_def MmapAllocator_alloc_def
        bump_vm_def bump_mmap_def bump_munmap_def Let_def geom_simps)
qed

lemma bump_empty: "owns_pages fst ({} :: nat set, 16 :: nat) {}"
  by (simp add: owns_pages_def)

lemma bump_run:
  "\<exists>r \<sigma> h. trace (step bump_pages) (initial ({}, 16) zero_store) [New 1, Alloc 1 small_layout r] \<sigma> \<and> heaps \<sigma> 1 = Some h"
proof -
  obtain h n s where new: "Heap_new (1 :: u64) zero_store = (h, n, s)" by (metis surj_pair)
  let ?i = "initial ({} :: nat set, 16 :: nat) zero_store"
  have c: "counter ?i + 1 \<noteq> 0" "Heap_new (counter ?i) (store ?i) = (h, n, s)" using new by (simp_all add: initial_def)
  have h: "hid h = 1" using new by (auto simp: Heap_new_def next_heap_id_def)
  let ?t = "?i\<lparr>store := s, heaps := (heaps ?i)(hid h \<mapsto> h), counter := n\<rparr>"
  have s1: "step bump_pages ?i (New 1) ?t" using step_new [of ?i h n s bump_pages] c h by simp
  obtain G where G: "system_ok (owns_pages fst) G (\<lambda>_. None) ?t"
    using system_new [OF initial_ok [of "owns_pages fst", OF bump_empty, of zero_store] c] by blast
  have h1: "heaps ?t 1 = Some h" using h by simp
  obtain r h' po s' where a: "heap_alloc bump_pages small_layout (h, pool ?t, store ?t) = Some (r, h', po, s')"
    using page_allocator.system_alloc [OF bump_contract G h1 small_layout_ok] by blast
  have s2: "step bump_pages ?t (Alloc 1 small_layout r) (?t\<lparr>pool := po, store := s', heaps := (heaps ?t)(1 \<mapsto> h')\<rparr>)"
    by (rule step_alloc [OF h1 a])
  have "trace (step bump_pages) ?i [New 1, Alloc 1 small_layout r] (?t\<lparr>pool := po, store := s', heaps := (heaps ?t)(1 \<mapsto> h')\<rparr>)"
    using trace_cons [where step = "step bump_pages", OF s1] trace_cons [where step = "step bump_pages", OF s2]
      trace_nil [of "step bump_pages"] by blast
  then show ?thesis by fastforce
qed

lemma bump_run_legal: "\<not> client_breaks ideal_step legal a [New 1, Alloc 1 small_layout r]"
  by (rule always_legal) (use small_layout_ok in \<open>auto split: prod.splits\<close>)

theorem allocator_refines_ideal_witness:
  "\<exists>r \<sigma>. trace (step bump_pages) (initial ({}, 16) zero_store) [New 1, Alloc 1 small_layout r] \<sigma> \<and>
     (\<exists>al M. trace ideal_step (\<lambda>_. None, bytes zero_store) [New 1, Alloc 1 small_layout r] (al, M) \<and>
        (\<forall>a \<in> program_bytes al. bytes (store \<sigma>) a = M a))"
proof -
  obtain r \<sigma> where t: "trace (step bump_pages) (initial ({}, 16) zero_store) [New 1, Alloc 1 small_layout r] \<sigma>" using bump_run by blast
  then show ?thesis using allocator_refines_ideal [OF bump_contract bump_empty t] bump_run_legal by blast
qed

text \<open>
  C4. No operation panics, writes through a null link or fails to end. In every state a run reaches
  while the program keeps its contract, and for every heap in it: an allocation with a valid layout
  returns (a pointer, or null when the system is out of memory), a free of an allocated pointer
  returns, also from a heap other than the one that allocated it, and dropping the heap returns.
\<close>

theorem operations_return:
  assumes "page_allocator A owns" and "owns pa {}" and "trace (step A) (initial pa s) es \<sigma>"
    and "\<not> client_breaks ideal_step legal (\<lambda>_. None, bytes s) es" and "heaps \<sigma> i = Some h"
  shows "\<exists>al M. trace ideal_step (\<lambda>_. None, bytes s) es (al, M) \<and>
    (\<forall>l. layout_ok l \<longrightarrow> 0 < lsize l \<longrightarrow> (\<exists>r w. heap_alloc A l (h, pool \<sigma>, store \<sigma>) = Some (r, w))) \<and>
    (\<forall>p l. al p = Some l \<longrightarrow> (\<exists>w. heap_dealloc A p l (h, pool \<sigma>, store \<sigma>) = Some w)) \<and>
    (\<exists>w. heap_drop A (h, pool \<sigma>, store \<sigma>) = Some w)"
proof -
  obtain al M G where r: "trace ideal_step (\<lambda>_. None, bytes s) es (al, M)" "system_ok owns G al \<sigma>"
    using page_allocator.run_refines [OF assms(1-4)] by blast
  have "\<exists>r w. heap_alloc A l (h, pool \<sigma>, store \<sigma>) = Some (r, w)" if "layout_ok l" "0 < lsize l" for l
    using page_allocator.system_alloc [OF assms(1) r(2) assms(5) that] by blast
  moreover have "\<exists>w. heap_dealloc A p l (h, pool \<sigma>, store \<sigma>) = Some w" if "al p = Some l" for p l
    using page_allocator.system_dealloc [OF assms(1) r(2) assms(5) that] by blast
  moreover have "\<exists>w. heap_drop A (h, pool \<sigma>, store \<sigma>) = Some w"
    using page_allocator.system_drop [OF assms(1) r(2) assms(5)] by blast
  ultimately show ?thesis using r(1) by blast
qed

theorem operations_return_witness:
  "\<exists>r \<sigma> h. trace (step bump_pages) (initial ({}, 16) zero_store) [New 1, Alloc 1 small_layout r] \<sigma> \<and> heaps \<sigma> 1 = Some h \<and>
     (\<exists>r w. heap_alloc bump_pages small_layout (h, pool \<sigma>, store \<sigma>) = Some (r, w)) \<and>
     (\<exists>w. heap_drop bump_pages (h, pool \<sigma>, store \<sigma>) = Some w)"
proof -
  obtain r \<sigma> h where t: "trace (step bump_pages) (initial ({}, 16) zero_store) [New 1, Alloc 1 small_layout r] \<sigma>" "heaps \<sigma> 1 = Some h"
    using bump_run by blast
  from operations_return [OF bump_contract bump_empty t(1) bump_run_legal t(2)] show ?thesis using t small_layout_ok by blast
qed

end
