(* ===== verification/Global.thy ===== *)
theory Global
  imports Heap_System
begin

text \<open>
  The global allocator (\<open>src/src/global.rs\<close>): a heap per thread, created at the first allocation,
  kept in memory of the C library, found through a thread-local pointer and dropped by the
  destructor of a pthread key.

  The thread-local \<open>HEAP\<close> holds null (no heap yet), \<open>DESTROYED\<close> or the address of the heap object.
  Heap objects are a map from addresses (\<open>heap_at\<close>); the pointer to a heap's metrics, a field at a
  fixed offset, is named by the heap's address. The C library is an argument: what \<open>malloc\<close>,
  \<open>free\<close> and the two pthread calls do to its state, and the size of a heap object.

  The theorems carry the results on heaps over to threads: whatever the threads do, in whatever
  order they start and exit, the process refines the ideal allocator of the theory \<open>Heap_System\<close>.
\<close>

subsection \<open>Model\<close>

record 'm libc =
  size_of_heap :: nat
  malloc :: "nat \<Rightarrow> 'm \<Rightarrow> addr \<times> 'm"
  libc_free :: "addr \<Rightarrow> 'm \<Rightarrow> 'm"
  pthread_key_create :: "'m \<Rightarrow> bool \<times> 'm"
  pthread_setspecific :: "'m \<Rightarrow> bool \<times> 'm"

type_synonym thread = nat

record ('p, 'm) process =
  gpool :: "'p PagePool"
  gstore :: store
  gcounter :: u64
  heap_at :: "addr \<rightharpoonup> heap"
  HEAP :: "thread \<Rightarrow> addr"
  key_value :: "thread \<Rightarrow> addr"
  PTHREAD_KEY :: bool
  libc_state :: 'm

text \<open>A dangling pointer is the alignment of its type; a heap holds 8-byte fields.\<close>

definition DESTROYED :: addr where
  "DESTROYED = 8"

definition ClMalloc_new :: "'p \<Rightarrow> store \<Rightarrow> 'm \<Rightarrow> ('p, 'm) process" where
  "ClMalloc_new pa s m = \<lparr>gpool = PagePool_new pa, gstore = s, gcounter = 1, heap_at = (\<lambda>_. None),
     HEAP = (\<lambda>_. null), key_value = (\<lambda>_. null), PTHREAD_KEY = False, libc_state = m\<rparr>"

text \<open>Registering writes the metrics of heap objects through pointers.\<close>

definition metrics_at :: "(addr \<rightharpoonup> heap) \<Rightarrow> metrics_store" where
  "metrics_at H p = (case H p of Some h \<Rightarrow> hmetrics h | None \<Rightarrow> HeapMetrics_ZERO)"

definition put_metrics :: "metrics_store \<Rightarrow> (addr \<rightharpoonup> heap) \<Rightarrow> (addr \<rightharpoonup> heap)" where
  "put_metrics hm H p = map_option (\<lambda>h. h\<lparr>hmetrics := hm p\<rparr>) (H p)"

text \<open>\<open>spin::Once\<close>: the key is created once; the assertion on its creation is the \<open>None\<close> branch.\<close>

definition ensure_key :: "'m libc \<Rightarrow> ('p, 'm) process \<Rightarrow> ('p, 'm) process option" where
  "ensure_key L w =
    (if PTHREAD_KEY w then Some w
     else case pthread_key_create L (libc_state w) of
            (ok, m) \<Rightarrow> if ok then Some (w\<lparr>PTHREAD_KEY := True, libc_state := m\<rparr>) else None)"

text \<open>The result of \<open>pthread_setspecific\<close> is ignored; when it fails the value is not stored.\<close>

definition set_key_value :: "'m libc \<Rightarrow> thread \<Rightarrow> addr \<Rightarrow> ('p, 'm) process \<Rightarrow> ('p, 'm) process" where
  "set_key_value L t p w =
    (case pthread_setspecific L (libc_state w) of
       (ok, m) \<Rightarrow> w\<lparr>libc_state := m, key_value := (if ok then (key_value w)(t := p) else key_value w)\<rparr>)"

definition init_heap :: "'m libc \<Rightarrow> thread \<Rightarrow> ('p, 'm) process \<Rightarrow> (addr \<times> ('p, 'm) process) option" where
  "init_heap L t w =
    (let (ptr, m) = malloc L (size_of_heap L) (libc_state w); w0 = w\<lparr>libc_state := m\<rparr> in
     if ptr = null then Some (ptr, w0)
     else
       let (h, n, s) = Heap_new (gcounter w0) (gstore w0);
           H = (heap_at w0)(ptr \<mapsto> h)
       in do {
         (po, hm) \<leftarrow> pool_register_heap ptr (gpool w0) (metrics_at H);
         let w1 = w0\<lparr>gpool := po, gstore := s, gcounter := n, heap_at := put_metrics hm H, HEAP := (HEAP w0)(t := ptr)\<rparr>;
         w2 \<leftarrow> ensure_key L w1;
         Some (ptr, set_key_value L t ptr w2)
       })"

text \<open>
  When the first allocation of a thread panics: the C library had memory for the heap, but the
  registry of heaps is full, or the pthread key does not exist yet and cannot be made.
\<close>

definition init_panics :: "'m libc \<Rightarrow> ('p, 'm) process \<Rightarrow> bool" where
  "init_panics L w \<longleftrightarrow>
     (case malloc L (size_of_heap L) (libc_state w) of (ptr, m) \<Rightarrow>
        ptr \<noteq> null \<and> (MAX_HEAPS \<le> heap_count (metrics (state (gpool w))) \<or>
          \<not> PTHREAD_KEY w \<and> \<not> fst (pthread_key_create L m)))"

text \<open>A call of the thread's heap; a thread-local pointer to no heap object is not defined.\<close>

definition heap_call_alloc :: "'p PageAllocator \<Rightarrow> layout \<Rightarrow> addr \<Rightarrow> ('p, 'm) process \<Rightarrow> (addr \<times> ('p, 'm) process) option" where
  "heap_call_alloc A l ptr w =
    do {
      h \<leftarrow> heap_at w ptr;
      (r, h', po, s) \<leftarrow> heap_alloc A l (h, gpool w, gstore w);
      Some (case r of Some p \<Rightarrow> p | None \<Rightarrow> null, w\<lparr>gpool := po, gstore := s, heap_at := (heap_at w)(ptr \<mapsto> h')\<rparr>)
    }"

definition global_alloc :: "'p PageAllocator \<Rightarrow> 'm libc \<Rightarrow> thread \<Rightarrow> layout \<Rightarrow> ('p, 'm) process \<Rightarrow> (addr \<times> ('p, 'm) process) option" where
  "global_alloc A L t l w =
    (if lsize l = 0 then Some (lalign l, w)
     else if HEAP w t = DESTROYED then Some (null, w)
     else if HEAP w t = null
     then do {
       (ptr, w1) \<leftarrow> init_heap L t w;
       if ptr = null then Some (null, w1) else heap_call_alloc A l ptr w1
     }
     else heap_call_alloc A l (HEAP w t) w)"

definition global_dealloc :: "'p PageAllocator \<Rightarrow> thread \<Rightarrow> addr \<Rightarrow> layout \<Rightarrow> ('p, 'm) process \<Rightarrow> ('p, 'm) process option" where
  "global_dealloc A t p l w =
    (if lsize l = 0 then Some w
     else if HEAP w t \<noteq> null \<and> HEAP w t \<noteq> DESTROYED
     then do {
       h \<leftarrow> heap_at w (HEAP w t);
       (h', po, s) \<leftarrow> heap_dealloc A p l (h, gpool w, gstore w);
       Some (w\<lparr>gpool := po, gstore := s, heap_at := (heap_at w)(HEAP w t \<mapsto> h')\<rparr>)
     }
     else case class_index l of
       Some idx \<Rightarrow> Some (w\<lparr>gstore := dealloc_remote (slab_from_ptr p) p (gstore w)\<rparr>)
     | None \<Rightarrow> (case dealloc_large A p l (gpool w) (gstore w) of (po, s) \<Rightarrow> Some (w\<lparr>gpool := po, gstore := s\<rparr>)))"

definition heap_destructor :: "'p PageAllocator \<Rightarrow> 'm libc \<Rightarrow> thread \<Rightarrow> addr \<Rightarrow> ('p, 'm) process \<Rightarrow> ('p, 'm) process option" where
  "heap_destructor A L t ptr w =
    (if ptr = null \<or> ptr = DESTROYED then Some w
     else do {
       (po, hm) \<leftarrow> pool_deregister_heap ptr (gpool w) (metrics_at (heap_at w));
       let H = put_metrics hm (heap_at w);
       h \<leftarrow> H ptr;
       (h', po', s) \<leftarrow> heap_drop A (h, po, gstore w);
       Some (w\<lparr>gpool := po', gstore := s, heap_at := H(ptr := None), libc_state := libc_free L ptr (libc_state w),
               HEAP := (HEAP w)(t := DESTROYED)\<rparr>)
     })"

text \<open>
  The pthread runtime at thread exit, as documented: the value of the key is set to null and the
  destructor is called with the old value.
\<close>

definition thread_exit :: "'p PageAllocator \<Rightarrow> 'm libc \<Rightarrow> thread \<Rightarrow> ('p, 'm) process \<Rightarrow> ('p, 'm) process option" where
  "thread_exit A L t w = heap_destructor A L t (key_value w t) (w\<lparr>key_value := (key_value w)(t := null)\<rparr>)"

definition snapshot :: "('p, 'm) process \<Rightarrow> MetricsSnapshot" where
  "snapshot w = pool_snapshot (gpool w) (metrics_at (heap_at w))"

subsection \<open>Runs of a process\<close>

datatype gevent = GAlloc thread layout addr | GFree thread addr layout | GExit thread | GWrite addr u8

text \<open>Ids of heaps, of 64 bits, do not wrap around.\<close>

inductive gstep :: "'p PageAllocator \<Rightarrow> 'm libc \<Rightarrow> ('p, 'm) process \<Rightarrow> gevent \<Rightarrow> ('p, 'm) process \<Rightarrow> bool" for A L where
  gstep_alloc: "gcounter w + 1 \<noteq> 0 \<Longrightarrow> global_alloc A L t l w = Some (p, w') \<Longrightarrow> gstep A L w (GAlloc t l p) w'"
| gstep_free: "global_dealloc A t p l w = Some w' \<Longrightarrow> gstep A L w (GFree t p l) w'"
| gstep_exit: "thread_exit A L t w = Some w' \<Longrightarrow> gstep A L w (GExit t) w'"
| gstep_write: "gstep A L w (GWrite a v) (w\<lparr>gstore := (gstore w)\<lparr>bytes := (bytes (gstore w))(a := v)\<rparr>\<rparr>)"

text \<open>
  The specification: allocations of size zero are their alignment and change nothing; others are
  those of the ideal allocator, null when there is no memory.
\<close>

inductive gideal_step :: "ideal \<Rightarrow> gevent \<Rightarrow> ideal \<Rightarrow> bool" where
  gideal_empty: "lsize l = 0 \<Longrightarrow> gideal_step a (GAlloc t l (lalign l)) a"
| gideal_alloc: "0 < lsize l \<Longrightarrow> 0 < p \<Longrightarrow> ideal_step a (Alloc 0 l (Some p)) a' \<Longrightarrow> gideal_step a (GAlloc t l p) a'"
| gideal_fail: "0 < lsize l \<Longrightarrow> gideal_step a (GAlloc t l null) a"
| gideal_free_empty: "lsize l = 0 \<Longrightarrow> gideal_step a (GFree t p l) a"
| gideal_free: "0 < lsize l \<Longrightarrow> ideal_step a (Free 0 p l) a' \<Longrightarrow> gideal_step a (GFree t p l) a'"
| gideal_exit: "gideal_step a (GExit t) a"
| gideal_write: "ideal_step a (Write x v) a' \<Longrightarrow> gideal_step a (GWrite x v) a'"

fun glegal :: "ideal \<Rightarrow> gevent \<Rightarrow> bool" where
  "glegal (al, M) (GAlloc t l p) = layout_ok l"
| "glegal (al, M) (GFree t p l) = (lsize l = 0 \<or> al p = Some l)"
| "glegal (al, M) (GWrite a v) = (a \<in> program_bytes al)"
| "glegal _ (GExit t) = True"

text \<open>What the C library promises: blocks it gives out are new, and aligned to 16 bytes.\<close>

definition libc_ok :: "'m libc \<Rightarrow> ('m \<Rightarrow> addr set) \<Rightarrow> bool" where
  "libc_ok L blocks \<longleftrightarrow>
     (\<forall>n m p m'. malloc L n m = (p, m') \<longrightarrow>
        (p = 0 \<and> blocks m' = blocks m \<or> 0 < p \<and> 16 dvd p \<and> p \<notin> blocks m \<and> blocks m' = insert p (blocks m))) \<and>
     (\<forall>p m. p \<in> blocks m \<longrightarrow> blocks (libc_free L p m) = blocks m - {p}) \<and>
     (\<forall>m. blocks (snd (pthread_key_create L m)) = blocks m) \<and> (\<forall>m. blocks (snd (pthread_setspecific L m)) = blocks m)"

subsection \<open>Heaps by address and by id\<close>

definition ids_inj :: "(addr \<rightharpoonup> heap) \<Rightarrow> bool" where
  "ids_inj H \<longleftrightarrow> (\<forall>p q h k. H p = Some h \<longrightarrow> H q = Some k \<longrightarrow> hid h = hid k \<longrightarrow> p = q)"

definition by_id :: "(addr \<rightharpoonup> heap) \<Rightarrow> u64 \<rightharpoonup> heap" where
  "by_id H i = (if \<exists>p h. H p = Some h \<and> hid h = i then Some (SOME h. \<exists>p. H p = Some h \<and> hid h = i) else None)"

lemma ids_injD: "ids_inj H \<Longrightarrow> H p = Some h \<Longrightarrow> H q = Some k \<Longrightarrow> hid h = hid k \<Longrightarrow> p = q \<and> h = k"
  unfolding ids_inj_def by (metis option.inject)

lemma by_id_iff:
  assumes "ids_inj H"
  shows "by_id H i = Some h \<longleftrightarrow> (\<exists>p. H p = Some h \<and> hid h = i)"
proof
  assume b: "by_id H i = Some h"
  then have "\<exists>h p. H p = Some h \<and> hid h = i" by (auto simp: by_id_def split: if_splits)
  from someI_ex [OF this] show "\<exists>p. H p = Some h \<and> hid h = i" using b by (auto simp: by_id_def split: if_splits)
next
  assume "\<exists>p. H p = Some h \<and> hid h = i"
  then obtain p where p: "H p = Some h" "hid h = i" by blast
  have "k = h" if "\<exists>q. H q = Some k \<and> hid k = i" for k
    using that p ids_injD [OF assms] by metis
  then have "(SOME h. \<exists>p. H p = Some h \<and> hid h = i) = h" using p by (intro some_equality) blast+
  then show "by_id H i = Some h" using p by (auto simp: by_id_def)
qed

text \<open>A change of one address is a change at one id.\<close>

lemma by_id_change:
  assumes inj: "ids_inj H" and own: "\<And>q k. H q = Some k \<Longrightarrow> hid k = i \<longleftrightarrow> q = p"
    and new: "\<And>h. v = Some h \<Longrightarrow> hid h = i"
  shows "ids_inj (H(p := v))" "by_id (H(p := v)) = (by_id H)(i := v)"
proof -
  have at: "r = p \<longleftrightarrow> hid k = i" if k: "(H(p := v)) r = Some k" for r k
  proof (cases "r = p")
    case True
    then have "v = Some k" using k by simp
    then show ?thesis using True new by blast
  next
    case False
    then have "H r = Some k" using k by simp
    then show ?thesis using False own by blast
  qed
  show inj': "ids_inj (H(p := v))"
    unfolding ids_inj_def
  proof (intro allI impI)
    fix q r h k assume h: "(H(p := v)) q = Some h" "(H(p := v)) r = Some k" "hid h = hid k"
    show "q = r"
    proof (cases "q = p")
      case True
      then show ?thesis using at [OF h(1)] at [OF h(2)] h(3) by metis
    next
      case False
      then have "r \<noteq> p" using at [OF h(1)] at [OF h(2)] h(3) by metis
      then have "H q = Some h" "H r = Some k" using False h(1,2) by simp_all
      then show ?thesis using ids_injD [OF inj] h(3) by blast
    qed
  qed
  show "by_id (H(p := v)) = (by_id H)(i := v)"
  proof
    fix j
    have "by_id (H(p := v)) j = Some h \<longleftrightarrow> ((by_id H)(i := v)) j = Some h" for h
    proof (cases "j = i")
      case True
      have "(H(p := v)) q = Some h \<and> hid h = i \<longleftrightarrow> q = p \<and> v = Some h" for q
        using at [of q h] by (metis fun_upd_same)
      then show ?thesis using True by (simp add: by_id_iff [OF inj'])
    next
      case False
      have "(H(p := v)) q = Some h \<and> hid h = j \<longleftrightarrow> H q = Some h \<and> hid h = j" for q
        using at [of q h] own [of q h] False by (metis fun_upd_other)
      then show ?thesis using False by (simp add: by_id_iff [OF inj'] by_id_iff [OF inj])
    qed
    then show "by_id (H(p := v)) j = ((by_id H)(i := v)) j" by (metis not_Some_eq)
  qed
qed

lemma by_id_owner: "ids_inj H \<Longrightarrow> H p = Some h \<Longrightarrow> H q = Some k \<Longrightarrow> hid k = hid h \<longleftrightarrow> q = p"
  using ids_injD by (metis option.inject)

lemma put_metrics_Some:
  "put_metrics hm H p = Some h' \<longleftrightarrow> (\<exists>h. H p = Some h \<and> h' = h\<lparr>hmetrics := hm p\<rparr>)"
  by (auto simp: put_metrics_def)

lemma dom_put_metrics [simp]: "dom (put_metrics hm H) = dom H"
  by (auto simp: put_metrics_def)

lemma put_metrics_inj: "ids_inj H \<Longrightarrow> ids_inj (put_metrics hm H)"
proof -
  assume inj: "ids_inj H"
  show ?thesis
    unfolding ids_inj_def
  proof (intro allI impI)
    fix p q h k assume "put_metrics hm H p = Some h" "put_metrics hm H q = Some k" "hid h = hid k"
    then obtain h0 k0 where "H p = Some h0" "H q = Some k0" "hid h0 = hid k0" unfolding put_metrics_Some by auto
    then show "p = q" using ids_injD [OF inj] by blast
  qed
qed

text \<open>Only ids and bins of heaps matter for the invariant, and nothing of the pool's metrics.\<close>

definition alike :: "(u64 \<rightharpoonup> heap) \<Rightarrow> (u64 \<rightharpoonup> heap) \<Rightarrow> bool" where
  "alike hs hs' \<longleftrightarrow> dom hs' = dom hs \<and>
     (\<forall>i h h'. hs i = Some h \<longrightarrow> hs' i = Some h' \<longrightarrow> hid h' = hid h \<and> bins h' = bins h)"

lemma alikeD:
  assumes "alike hs hs'"
  shows "dom hs' = dom hs" "hs i = Some h \<Longrightarrow> hs' i = Some h' \<Longrightarrow> hid h' = hid h \<and> bins h' = bins h"
  using assms unfolding alike_def by blast+

lemma alike_put_metrics:
  assumes inj: "ids_inj H"
  shows "alike (by_id H) (by_id (put_metrics hm H))"
proof -
  note iff = by_id_iff [OF inj] and iff' = by_id_iff [OF put_metrics_inj [OF inj]]
  have ex: "by_id (put_metrics hm H) i = Some h' \<longleftrightarrow> (\<exists>p h. H p = Some h \<and> hid h = i \<and> h' = h\<lparr>hmetrics := hm p\<rparr>)" for i h'
  proof
    assume "by_id (put_metrics hm H) i = Some h'"
    then obtain p h where "H p = Some h" "h' = h\<lparr>hmetrics := hm p\<rparr>" "hid h' = i" unfolding iff' put_metrics_Some by blast
    then show "\<exists>p h. H p = Some h \<and> hid h = i \<and> h' = h\<lparr>hmetrics := hm p\<rparr>" by (intro exI [of _ p] exI [of _ h]) simp
  next
    assume "\<exists>p h. H p = Some h \<and> hid h = i \<and> h' = h\<lparr>hmetrics := hm p\<rparr>"
    then obtain p h where "H p = Some h" "hid h = i" "h' = h\<lparr>hmetrics := hm p\<rparr>" by blast
    then show "by_id (put_metrics hm H) i = Some h'" unfolding iff' put_metrics_Some by (intro exI [of _ p]) simp
  qed
  have "i \<in> dom (by_id (put_metrics hm H)) \<longleftrightarrow> i \<in> dom (by_id H)" for i
    unfolding domIff not_None_eq ex iff by blast
  then have "dom (by_id (put_metrics hm H)) = dom (by_id H)" by blast
  moreover have "hid h' = hid h \<and> bins h' = bins h" if h: "by_id H i = Some h" "by_id (put_metrics hm H) i = Some h'" for i h h'
  proof -
    obtain p q k where "H p = Some h" "hid h = i" "H q = Some k" "hid k = i" "h' = k\<lparr>hmetrics := hm q\<rparr>"
      using h unfolding ex iff by blast
    moreover from this have "k = h" using ids_injD [OF inj] by metis
    ultimately show ?thesis by simp
  qed
  ultimately show ?thesis unfolding alike_def by blast
qed

lemma system_alike:
  assumes so: "system_ok owns G al \<sigma>" and hs: "alike (heaps \<sigma>) hs'"
  shows "system_ok owns G al (\<sigma>\<lparr>pool := (pool \<sigma>)\<lparr>state := state (pool \<sigma>)\<lparr>metrics := pm\<rparr>\<rparr>, heaps := hs'\<rparr>)"
proof -
  note S = system_okD [OF so]
  have "bins_ok G (heap_of hs')"
    unfolding bins_ok_def
  proof (intro conjI ballI)
    show "ids G \<subseteq> used G" using sys_okD(2) [OF S(1)] by (simp add: bins_ok_def)
    fix i assume i: "i \<in> ids G"
    then obtain h h' where h: "heaps \<sigma> i = Some h" "hs' i = Some h'" using S(3) alikeD(1) [OF hs] by blast
    then have "hid h' = hid h" "bins h' = bins h" using alikeD(2) [OF hs] by blast+
    then show "hid (heap_of hs' i) = i" "\<forall>c b. bins (heap_of hs' i) c = Some b \<longleftrightarrow> place_of G b = Some (Bin i c)"
      using sys_okD(2) [OF S(1)] i h by (auto simp: bins_ok_def heap_of_def)
  qed
  then have "sys_ok owns G (heap_of hs') (pool \<sigma>) (store \<sigma>) None" using S(1) by (simp add: sys_ok_def)
  from sys_pool_metrics [OF this, of pm] show ?thesis
    by (intro system_okI) (use idle_parts [OF S(2)] S(3-5) alikeD(1) [OF hs] in simp_all)
qed

subsection \<open>The invariant of the threads\<close>

definition view :: "('p, 'm) process \<Rightarrow> 'p allocator" where
  "view w = \<lparr>pool = gpool w, store = gstore w, heaps = by_id (heap_at w), counter = gcounter w\<rparr>"

text \<open>
  Every heap object is a block of the C library, and belongs to at most one thread. A thread's
  pointer is null, \<open>DESTROYED\<close> or its heap object, and so is the value of the key.
\<close>

definition tls_ok :: "addr set \<Rightarrow> (thread \<Rightarrow> addr) \<Rightarrow> (thread \<Rightarrow> addr) \<Rightarrow> bool" where
  "tls_ok D tls kv \<longleftrightarrow> 0 \<notin> D \<and> DESTROYED \<notin> D \<and> (\<forall>t. tls t = 0 \<or> tls t = DESTROYED \<or> tls t \<in> D) \<and>
     (\<forall>t u. tls t = tls u \<longrightarrow> tls t \<in> D \<longrightarrow> t = u) \<and> (\<forall>t. kv t \<noteq> 0 \<longrightarrow> kv t = tls t \<and> tls t \<in> D)"

definition threads_ok :: "('m \<Rightarrow> addr set) \<Rightarrow> ('p, 'm) process \<Rightarrow> bool" where
  "threads_ok blocks w \<longleftrightarrow> ids_inj (heap_at w) \<and> dom (heap_at w) \<subseteq> blocks (libc_state w) \<and>
     tls_ok (dom (heap_at w)) (HEAP w) (key_value w)"

lemma threads_okD:
  assumes "threads_ok blocks w"
  shows "ids_inj (heap_at w)" "dom (heap_at w) \<subseteq> blocks (libc_state w)" "tls_ok (dom (heap_at w)) (HEAP w) (key_value w)"
  using assms by (simp_all add: threads_ok_def)

lemma tls_okD:
  assumes "tls_ok D tls kv"
  shows "0 \<notin> D" "DESTROYED \<notin> D" "tls t = 0 \<or> tls t = DESTROYED \<or> tls t \<in> D"
    "tls t = tls u \<Longrightarrow> tls t \<in> D \<Longrightarrow> t = u" "kv t \<noteq> 0 \<Longrightarrow> kv t = tls t \<and> tls t \<in> D"
  using assms unfolding tls_ok_def by blast+

lemma libc_okD:
  assumes "libc_ok L blocks"
  shows "malloc L n m = (p, m') \<Longrightarrow> p \<noteq> 0 \<Longrightarrow> 16 dvd p \<and> p \<notin> blocks m \<and> blocks m' = insert p (blocks m)"
    "malloc L n m = (0, m') \<Longrightarrow> blocks m' = blocks m"
    "p \<in> blocks m \<Longrightarrow> blocks (libc_free L p m) = blocks m - {p}"
    "blocks (snd (pthread_key_create L m)) = blocks m" "blocks (snd (pthread_setspecific L m)) = blocks m"
  using assms unfolding libc_ok_def by (metis less_numeral_extra(3))+

lemma view_sel [simp]:
  "pool (view w) = gpool w" "store (view w) = gstore w" "heaps (view w) = by_id (heap_at w)" "counter (view w) = gcounter w"
  by (simp_all add: view_def)

lemma by_id_at: "threads_ok blocks w \<Longrightarrow> heap_at w p = Some h \<Longrightarrow> by_id (heap_at w) (hid h) = Some h"
  using by_id_iff threads_okD(1) by metis

lemma refines_hid:
  assumes "refines owns \<sigma> a" "heaps \<sigma> i = Some h"
  shows "hid h = i" "i < counter \<sigma>"
proof -
  obtain G al where so: "system_ok owns G al \<sigma>" using assms(1) by (cases a) (auto simp: refines_def)
  note S = system_okD [OF so]
  have i: "i \<in> ids G" using S(3) assms(2) by auto
  then have "hid (heap_of (heaps \<sigma>) i) = i" "i \<in> used G" using sys_okD(2) [OF S(1)] by (auto simp: bins_ok_def)
  then show "hid h = i" "i < counter \<sigma>" using assms(2) S(4) by (auto simp: heap_of_def)
qed

lemma refines_alike:
  assumes "refines owns \<sigma> a" "alike (heaps \<sigma>) hs'"
  shows "refines owns (\<sigma>\<lparr>pool := (pool \<sigma>)\<lparr>state := state (pool \<sigma>)\<lparr>metrics := pm\<rparr>\<rparr>, heaps := hs'\<rparr>) a"
proof -
  obtain al M G where a: "a = (al, M)" "system_ok owns G al \<sigma>" "\<forall>x \<in> program_bytes al. bytes (store \<sigma>) x = M x"
    using assms(1) by (cases a) (auto simp: refines_def)
  from system_alike [OF a(2) assms(2), of pm] show ?thesis using a(1,3) by (auto simp: refines_def)
qed

text \<open>An operation of one heap.\<close>

lemma heap_op:
  assumes th: "threads_ok blocks w" and h: "heap_at w p = Some h" and h': "hid h' = hid h"
  shows "threads_ok blocks (w\<lparr>gpool := po, gstore := s, heap_at := (heap_at w)(p \<mapsto> h')\<rparr>)"
    "view (w\<lparr>gpool := po, gstore := s, heap_at := (heap_at w)(p \<mapsto> h')\<rparr>) =
      (view w)\<lparr>pool := po, store := s, heaps := (heaps (view w))(hid h \<mapsto> h')\<rparr>"
proof -
  have own: "hid k = hid h \<longleftrightarrow> q = p" if "heap_at w q = Some k" for q k
    by (rule by_id_owner [OF threads_okD(1) [OF th] h that])
  note c = by_id_change [OF threads_okD(1) [OF th], of "hid h" p "Some h'", OF own]
  have d: "dom ((heap_at w)(p \<mapsto> h')) = dom (heap_at w)" using h by auto
  show "threads_ok blocks (w\<lparr>gpool := po, gstore := s, heap_at := (heap_at w)(p \<mapsto> h')\<rparr>)"
    using th c(1) h' d by (simp add: threads_ok_def)
  show "view (w\<lparr>gpool := po, gstore := s, heap_at := (heap_at w)(p \<mapsto> h')\<rparr>) =
      (view w)\<lparr>pool := po, store := s, heaps := (heaps (view w))(hid h \<mapsto> h')\<rparr>"
    using c(2) h' by (simp add: view_def)
qed

lemma tls_new:
  assumes ok: "tls_ok D tls kv" and t: "tls t = 0" and p: "p \<notin> D" "p \<noteq> 0" "p \<noteq> DESTROYED"
  shows "tls_ok (insert p D) (tls(t := p)) kv" "tls_ok (insert p D) (tls(t := p)) (kv(t := p))"
proof -
  note d = tls_okD [OF ok]
  have k: "kv t = 0" using d(1) d(5) [of t] t by auto
  have np: "tls u \<noteq> p" for u using d(3) [of u] p by auto
  have a: "(tls(t := p)) u = 0 \<or> (tls(t := p)) u = DESTROYED \<or> (tls(t := p)) u \<in> insert p D" for u
    using d(3) [of u] by auto
  have b: "u = v" if "(tls(t := p)) u = (tls(t := p)) v" "(tls(t := p)) u \<in> insert p D" for u v
  proof (cases "u = t \<or> v = t")
    case True
    then show ?thesis using that(1) np [of u] np [of v] by (metis fun_upd_apply)
  next
    case False
    then show ?thesis using that d(4) [of u v] np [of u] by (metis fun_upd_apply insertE)
  qed
  have c: "kv u = (tls(t := p)) u \<and> (tls(t := p)) u \<in> insert p D" if "kv u \<noteq> 0" "u \<noteq> t" for u
    using d(5) [OF that(1)] that(2) by simp
  have e: "kv u = (tls(t := p)) u \<and> (tls(t := p)) u \<in> insert p D" if "kv u \<noteq> 0" for u
    using c [OF that] k that by blast
  have f: "(kv(t := p)) u = (tls(t := p)) u \<and> (tls(t := p)) u \<in> insert p D" if "(kv(t := p)) u \<noteq> 0" for u
    using c [of u] that by (cases "u = t") simp_all
  have n: "0 \<notin> insert p D" "DESTROYED \<notin> insert p D" using d(1,2) p by simp_all
  show "tls_ok (insert p D) (tls(t := p)) kv" unfolding tls_ok_def using n a b e by blast
  show "tls_ok (insert p D) (tls(t := p)) (kv(t := p))" unfolding tls_ok_def using n a b f by blast
qed

lemma tls_exit:
  assumes ok: "tls_ok D tls kv" and p: "kv t = p" "p \<noteq> 0"
  shows "tls_ok (D - {p}) (tls(t := DESTROYED)) (kv(t := 0))"
proof -
  note d = tls_okD [OF ok]
  have t: "tls t = p" "p \<in> D" using d(5) [of t] p by auto
  have np: "tls u \<noteq> p" if "u \<noteq> t" for u using d(4) [of t u] t that by auto
  have a: "(tls(t := DESTROYED)) u = 0 \<or> (tls(t := DESTROYED)) u = DESTROYED \<or> (tls(t := DESTROYED)) u \<in> D - {p}" for u
    using d(3) [of u] np [of u] by auto
  have b: "u = v" if "(tls(t := DESTROYED)) u = (tls(t := DESTROYED)) v" "(tls(t := DESTROYED)) u \<in> D - {p}" for u v
  proof (cases "u = t \<or> v = t")
    case True
    then show ?thesis using that d(2) by (metis Diff_iff fun_upd_apply)
  next
    case False
    then show ?thesis using that d(4) [of u v] by simp
  qed
  have c: "(kv(t := 0)) u = (tls(t := DESTROYED)) u \<and> (tls(t := DESTROYED)) u \<in> D - {p}" if "(kv(t := 0)) u \<noteq> 0" for u
    using d(5) [of u] np [of u] that by (cases "u = t") simp_all
  show ?thesis unfolding tls_ok_def using d(1,2) a b c by blast
qed

subsection \<open>Steps of a process\<close>

lemma ideal_alloc_any: "ideal_step a (Alloc i l r) a' \<Longrightarrow> ideal_step a (Alloc j l r) a'"
  by (cases rule: ideal_step.cases) (auto intro: ideal_step.intros)

lemma ideal_free_any: "ideal_step a (Free i p l) a' \<Longrightarrow> ideal_step a (Free j p l) a'"
  by (cases rule: ideal_step.cases) (auto intro: ideal_step.intros)

inductive_cases ideal_failE: "ideal_step a (Alloc i l None) a'"
inductive_cases ideal_someE: "ideal_step a (Alloc i l (Some p)) a'"
inductive_cases ideal_newE: "ideal_step a (New i) a'"
inductive_cases ideal_dropE: "ideal_step a (Drop i) a'"

context page_allocator
begin

lemma call_alloc:
  assumes th: "threads_ok blocks w" and R: "refines owns (view w) a" and l: "layout_ok l" "0 < lsize l"
    and c: "heap_call_alloc A l ptr w = Some (p, w')"
  shows "\<exists>a'. gideal_step a (GAlloc t l p) a' \<and> threads_ok blocks w' \<and> refines owns (view w') a'"
proof -
  obtain h r h' po s where h: "heap_at w ptr = Some h" "heap_alloc A l (h, gpool w, gstore w) = Some (r, h', po, s)"
    "p = (case r of Some p \<Rightarrow> p | None \<Rightarrow> null)" "w' = w\<lparr>gpool := po, gstore := s, heap_at := (heap_at w)(ptr \<mapsto> h')\<rparr>"
    using c by (auto simp: heap_call_alloc_def bind_eq_Some_conv)
  let ?\<sigma> = "(view w)\<lparr>pool := po, store := s, heaps := (heaps (view w))(hid h \<mapsto> h')\<rparr>"
  have "step A (view w) (Alloc (hid h) l r) ?\<sigma>" using h(2) by (intro step_alloc) (simp_all add: by_id_at [OF th h(1)])
  moreover have "legal a (Alloc (hid h) l r)" using l by (cases a) simp
  ultimately obtain a' where a': "ideal_step a (Alloc (hid h) l r) a'" "refines owns ?\<sigma> a'" using step_simulates [OF R] by blast
  have "hid h' = hid h" by (rule refines_hid(1) [OF a'(2)]) simp
  note op = heap_op [OF th h(1) this, where po = po and s = s]
  have "gideal_step a (GAlloc t l p) a'"
  proof (cases r)
    case None
    then have "a' = a" using a'(1) by (auto elim: ideal_failE)
    then show ?thesis using None h(3) l(2) by (simp add: gideal_fail)
  next
    case (Some q)
    then have "0 < q" using a'(1) by (auto elim: ideal_someE simp: fits_in_def)
    then show ?thesis using Some h(3) l(2) ideal_alloc_any [OF a'(1)] by (simp add: gideal_alloc)
  qed
  then show ?thesis using op a'(2) h(4) by (intro exI [of _ a']) simp
qed

lemma call_dealloc:
  assumes th: "threads_ok blocks w" and R: "refines owns (view w) a" and l: "0 < lsize l" "glegal a (GFree t p l)"
    and h: "heap_at w ptr = Some h" "heap_dealloc A p l (h, gpool w, gstore w) = Some (h', po, s)"
  shows "\<exists>a'. gideal_step a (GFree t p l) a' \<and> threads_ok blocks (w\<lparr>gpool := po, gstore := s, heap_at := (heap_at w)(ptr \<mapsto> h')\<rparr>) \<and>
    refines owns (view (w\<lparr>gpool := po, gstore := s, heap_at := (heap_at w)(ptr \<mapsto> h')\<rparr>)) a'"
proof -
  let ?\<sigma> = "(view w)\<lparr>pool := po, store := s, heaps := (heaps (view w))(hid h \<mapsto> h')\<rparr>"
  have "step A (view w) (Free (hid h) p l) ?\<sigma>" using h(2) by (intro step_free) (simp_all add: by_id_at [OF th h(1)])
  moreover have "legal a (Free (hid h) p l)" using l by (cases a) simp
  ultimately obtain a' where a': "ideal_step a (Free (hid h) p l) a'" "refines owns ?\<sigma> a'" using step_simulates [OF R] by blast
  have "hid h' = hid h" by (rule refines_hid(1) [OF a'(2)]) simp
  note op = heap_op [OF th h(1) this, where po = po and s = s]
  have "gideal_step a (GFree t p l) a'" by (rule gideal_free [OF l(1) ideal_free_any [OF a'(1)]])
  then show ?thesis using op a'(2) by (intro exI [of _ a']) simp
qed

text \<open>A thread without a heap frees into the remote list of the slab, or unmaps.\<close>

lemma heapless_dealloc:
  assumes so: "system_ok owns G al \<sigma>" and p: "al p = Some l"
  shows "class_index l = Some c \<Longrightarrow>
      \<exists>G'. system_ok owns G' (al(p := None)) (\<sigma>\<lparr>store := dealloc_remote (slab_from_ptr p) p (store \<sigma>)\<rparr>) \<and> img G' = img G"
    "class_index l = None \<Longrightarrow> \<exists>po s G'. dealloc_large A p l (pool \<sigma>) (store \<sigma>) = (po, s) \<and>
      system_ok owns G' (al(p := None)) (\<sigma>\<lparr>pool := po, store := s\<rparr>) \<and> img G' = img G"
proof -
  note S = system_okD [OF so] and P = allocs_okD [OF system_okD(5) [OF so] p]
  note ip = idle_parts [OF S(2)]
  show "\<exists>G'. system_ok owns G' (al(p := None)) (\<sigma>\<lparr>store := dealloc_remote (slab_from_ptr p) p (store \<sigma>)\<rparr>) \<and> img G' = img G"
    if c: "class_index l = Some c"
  proof -
    let ?G = "G\<lparr>live := live G - {p}\<rparr>"
    have lv: "p \<in> live G" using P(6) [OF c] by simp
    obtain pl where b: "place_of G (slab_from_ptr p) = Some pl" "is_slab pl" "p \<in> block (slab_from_ptr p)"
      using live_slab [OF S(1) lv] by blast
    have "busy G = 0" using ip by (simp add: settled_def)
    from dealloc_foreign_ok [OF S(1) b(1,2) this lv b(3)]
    have "system_ok owns ?G (al(p := None)) (\<sigma>\<lparr>store := dealloc_remote (slab_from_ptr p) p (store \<sigma>)\<rparr>)"
      by (intro system_okI) (use ip S(3,4) allocs_remove(1) [OF S(5) p c, of ?G] in \<open>simp_all add: settled_def shrunk_def\<close>)
    then show ?thesis by (intro exI [of _ ?G]) simp
  qed
  show "\<exists>po s G'. dealloc_large A p l (pool \<sigma>) (store \<sigma>) = (po, s) \<and>
      system_ok owns G' (al(p := None)) (\<sigma>\<lparr>pool := po, store := s\<rparr>) \<and> img G' = img G"
    if c: "class_index l = None"
  proof -
    let ?G = "G\<lparr>large := large G - {(p, lsize l)}\<rparr>"
    obtain po s where d: "dealloc_large A p l (pool \<sigma>) (store \<sigma>) = (po, s)" "sys_ok owns ?G (heap_of (heaps \<sigma>)) po s None"
      using dealloc_large_ok [OF S(1) P(7) [OF c] P(2)] by blast
    have "system_ok owns ?G (al(p := None)) (\<sigma>\<lparr>pool := po, store := s\<rparr>)"
      by (intro system_okI) (use d(2) ip S(3,4) allocs_remove(2) [OF S(5) p c] in \<open>simp_all add: settled_def\<close>)
    then show ?thesis using d(1) by (intro exI [of _ po] exI [of _ s] exI [of _ ?G]) simp
  qed
qed

end

lemma refines_shrink:
  assumes so: "system_ok owns G al \<sigma>" "\<forall>x \<in> program_bytes al. bytes (store \<sigma>) x = M x"
    and so': "system_ok owns G' (al(p := None)) \<sigma>'" "img G' = img G"
  shows "refines owns \<sigma>' (al(p := None), M)"
proof -
  have "bytes (store \<sigma>') x = M x" if x: "x \<in> program_bytes (al(p := None))" for x
  proof -
    obtain q l where q: "(al(p := None)) q = Some l" "q \<le> x" "x < q + lsize l" using x by (auto simp: program_bytes_def)
    then have aq: "al q = Some l" by (auto split: if_splits)
    then have "x \<in> program_bytes al" using q(2,3) unfolding program_bytes_def by blast
    moreover have "holds (bytes (store \<sigma>')) (bytes (store \<sigma>)) q (lsize l)"
      using contents_untouched [OF so(1) so'(1) _ aq q(1)] so'(2) by simp
    ultimately show ?thesis using q(2,3) so(2) by (simp add: holds_def)
  qed
  then show ?thesis using so'(1) by (auto simp: refines_def)
qed

text \<open>The pthread calls change nothing the allocator sees.\<close>

lemma key_calls:
  assumes lb: "libc_ok L blocks" and e: "ensure_key L w = Some w1"
  shows "view (set_key_value L t p w1) = view w" "heap_at (set_key_value L t p w1) = heap_at w" "HEAP (set_key_value L t p w1) = HEAP w"
    "blocks (libc_state (set_key_value L t p w1)) = blocks (libc_state w)"
    "key_value (set_key_value L t p w1) = key_value w \<or> key_value (set_key_value L t p w1) = (key_value w)(t := p)"
proof -
  obtain ok m where s: "pthread_setspecific L (libc_state w1) = (ok, m)" by (metis surj_pair)
  have m: "blocks m = blocks (libc_state w1)" using libc_okD(5) [OF lb, of "libc_state w1"] s by simp
  obtain c k where w1: "w1 = w\<lparr>PTHREAD_KEY := c, libc_state := k\<rparr>" and b: "blocks k = blocks (libc_state w)"
  proof (cases "PTHREAD_KEY w")
    case True
    then have "w1 = w\<lparr>PTHREAD_KEY := PTHREAD_KEY w, libc_state := libc_state w\<rparr>" using e by (simp add: ensure_key_def)
    then show thesis using that by blast
  next
    case False
    obtain c k where k: "pthread_key_create L (libc_state w) = (c, k)" by (metis surj_pair)
    then have "w1 = w\<lparr>PTHREAD_KEY := True, libc_state := k\<rparr>" using e False by (simp add: ensure_key_def split: if_splits)
    moreover have "blocks k = blocks (libc_state w)" using libc_okD(4) [OF lb, of "libc_state w"] k by simp
    ultimately show thesis using that by blast
  qed
  have 1: "view w1 = view w" "heap_at w1 = heap_at w" "HEAP w1 = HEAP w" "key_value w1 = key_value w"
      "blocks (libc_state w1) = blocks (libc_state w)"
    unfolding w1 using b by (simp_all add: view_def)
  have eq: "set_key_value L t p w1 = w1\<lparr>libc_state := m, key_value := (if ok then (key_value w1)(t := p) else key_value w1)\<rparr>"
    using s by (simp add: set_key_value_def)
  show "view (set_key_value L t p w1) = view w" using 1(1) unfolding eq by (simp add: view_def)
  show "heap_at (set_key_value L t p w1) = heap_at w" "HEAP (set_key_value L t p w1) = HEAP w"
    "blocks (libc_state (set_key_value L t p w1)) = blocks (libc_state w)"
    unfolding eq using 1 m by simp_all
  show "key_value (set_key_value L t p w1) = key_value w \<or> key_value (set_key_value L t p w1) = (key_value w)(t := p)"
    unfolding eq using 1(4) by (cases ok) simp_all
qed

lemma not_destroyed: "16 dvd (p :: nat) \<Longrightarrow> p \<noteq> DESTROYED"
  by (auto simp: DESTROYED_def dvd_def)

context page_allocator
begin

lemma new_heap:
  assumes th: "threads_ok blocks w" and R: "refines owns (view w) a" and cnt: "gcounter w + 1 \<noteq> 0"
    and new: "Heap_new (gcounter w) (gstore w) = (h, n, s)" and p: "heap_at w p = None"
    and reg: "pool_register_heap p (gpool w) hm0 = Some (po, hm)"
    and w': "view w' = \<lparr>pool = po, store = s, heaps = by_id (put_metrics hm ((heap_at w)(p \<mapsto> h))), counter = n\<rparr>"
  shows "refines owns (view w') a" "ids_inj (put_metrics hm ((heap_at w)(p \<mapsto> h)))"
proof -
  let ?H = "(heap_at w)(p \<mapsto> h)" and ?\<sigma> = "(view w)\<lparr>store := s, heaps := (heaps (view w))(hid h \<mapsto> h), counter := n\<rparr>"
  have hid: "hid h = gcounter w" using new by (auto simp: Heap_new_def next_heap_id_def)
  have fresh: "hid k = hid h \<longleftrightarrow> q = p" if q: "heap_at w q = Some k" for q k
    using refines_hid(2) [OF R, of "hid k" k] by_id_at [OF th q] hid q p by auto
  note c = by_id_change [OF threads_okD(1) [OF th], of "hid h" p "Some h", OF fresh]
  have inj: "ids_inj ?H" "by_id ?H = (by_id (heap_at w))(hid h \<mapsto> h)" using c by auto
  then show "ids_inj (put_metrics hm ?H)" by (simp add: put_metrics_inj)
  have "step A (view w) (New (hid h)) ?\<sigma>" using cnt new by (intro step_new) simp_all
  moreover have "legal a (New (hid h))" by (cases a) simp
  ultimately obtain a' where a': "ideal_step a (New (hid h)) a'" "refines owns ?\<sigma> a'" using step_simulates [OF R] by blast
  then have R1: "refines owns ?\<sigma> a" by (auto elim: ideal_newE)
  obtain pm where po: "po = (gpool w)\<lparr>state := state (gpool w)\<lparr>metrics := pm\<rparr>\<rparr>"
    using reg by (auto simp: pool_register_heap_def bind_eq_Some_conv)
  have "alike (heaps ?\<sigma>) (by_id (put_metrics hm ?H))" using alike_put_metrics [OF inj(1)] inj(2) by simp
  from refines_alike [OF R1 this, of pm] show "refines owns (view w') a" using w' po by (simp add: view_def)
qed

lemma init_ok:
  assumes th: "threads_ok blocks w" and R: "refines owns (view w) a" and lb: "libc_ok L blocks" and cnt: "gcounter w + 1 \<noteq> 0"
    and t: "HEAP w t = 0" and i: "init_heap L t w = Some (ptr, w')"
  shows "threads_ok blocks w'" "refines owns (view w') a"
proof -
  obtain q m where m: "malloc L (size_of_heap L) (libc_state w) = (q, m)" by (metis surj_pair)
  note d = threads_okD [OF th]
  have "threads_ok blocks w' \<and> refines owns (view w') a"
  proof (cases "q = 0")
    case True
    then have w': "w' = w\<lparr>libc_state := m\<rparr>" using i m by (simp add: init_heap_def)
    have "blocks m = blocks (libc_state w)" using libc_okD(2) [OF lb] m True by blast
    then show ?thesis using d R w' by (simp add: threads_ok_def view_def)
  next
    case False
    note b = libc_okD(1) [OF lb m False]
    obtain h n s where new: "Heap_new (gcounter w) (gstore w) = (h, n, s)" by (metis surj_pair)
    let ?H = "(heap_at w)(q \<mapsto> h)"
    obtain po hm w2 where r: "pool_register_heap q (gpool w) (metrics_at ?H) = Some (po, hm)"
      "ensure_key L (w\<lparr>libc_state := m, gpool := po, gstore := s, gcounter := n, heap_at := put_metrics hm ?H, HEAP := (HEAP w)(t := q)\<rparr>) = Some w2"
      "w' = set_key_value L t q w2"
      using i m False new by (auto simp: init_heap_def Let_def bind_eq_Some_conv)
    note k = key_calls [OF lb r(2), where t = t and p = q]
    have q: "q \<notin> dom (heap_at w)" using d(2) b by blast
    have v: "view w' = \<lparr>pool = po, store = s, heaps = by_id (put_metrics hm ?H), counter = n\<rparr>"
      using k(1) r(3) by (simp add: view_def)
    have "heap_at w q = None" using q by blast
    note nh = new_heap [OF th R cnt new this r(1) v]
    have kv: "key_value w' = key_value w \<or> key_value w' = (key_value w)(t := q)" using k(5) r(3) by simp
    have "tls_ok (insert q (dom (heap_at w))) ((HEAP w)(t := q)) (key_value w')"
      using kv tls_new [OF d(3) t q False not_destroyed] b by auto
    moreover have "dom (heap_at w') = insert q (dom (heap_at w))" "HEAP w' = (HEAP w)(t := q)" "blocks (libc_state w') = blocks m"
      "heap_at w' = put_metrics hm ?H"
      using k r(3) by simp_all
    ultimately show ?thesis using nh d(2) b by (auto simp: threads_ok_def)
  qed
  then show "threads_ok blocks w'" "refines owns (view w') a" by simp_all
qed

lemma exit_ok:
  assumes th: "threads_ok blocks w" and R: "refines owns (view w) a" and lb: "libc_ok L blocks"
    and x: "thread_exit A L t w = Some w'"
  shows "threads_ok blocks w'" "refines owns (view w') a"
proof -
  note d = threads_okD [OF th]
  let ?p = "key_value w t"
  have "threads_ok blocks w' \<and> refines owns (view w') a"
  proof (cases "?p = 0")
    case True
    then have w': "w' = w\<lparr>key_value := (key_value w)(t := 0)\<rparr>" using x by (simp add: thread_exit_def heap_destructor_def)
    have "(key_value w)(t := 0) = key_value w" using True by auto
    then show ?thesis using d R w' by (simp add: threads_ok_def view_def)
  next
    case False
    then have p: "?p \<in> dom (heap_at w)" using tls_okD(5) [OF d(3), of t] by simp
    then have nd: "?p \<noteq> DESTROYED" using tls_okD(2) [OF d(3)] by metis
    obtain po hm h h' po' s where r: "pool_deregister_heap ?p (gpool w) (metrics_at (heap_at w)) = Some (po, hm)"
      "put_metrics hm (heap_at w) ?p = Some h" "heap_drop A (h, po, gstore w) = Some (h', po', s)"
      "w' = w\<lparr>key_value := (key_value w)(t := 0), gpool := po', gstore := s, heap_at := (put_metrics hm (heap_at w))(?p := None),
         libc_state := libc_free L ?p (libc_state w), HEAP := (HEAP w)(t := DESTROYED)\<rparr>"
      using x False nd by (auto simp: thread_exit_def heap_destructor_def Let_def bind_eq_Some_conv)
    let ?H = "put_metrics hm (heap_at w)"
    have inj: "ids_inj ?H" by (rule put_metrics_inj [OF d(1)])
    obtain pm where po: "po = (gpool w)\<lparr>state := state (gpool w)\<lparr>metrics := pm\<rparr>\<rparr>"
      using r(1) by (auto simp: pool_deregister_heap_def bind_eq_Some_conv)
    have "alike (heaps (view w)) (by_id ?H)" using alike_put_metrics [OF d(1)] by simp
    note R1 = refines_alike [OF R this, of pm]
    let ?\<sigma> = "(view w)\<lparr>pool := po, heaps := by_id ?H\<rparr>"
    have R2: "refines owns ?\<sigma> a" using R1 po by simp
    have "by_id ?H (hid h) = Some h" using by_id_iff [OF inj] r(2) by blast
    then have "step A ?\<sigma> (Drop (hid h)) (?\<sigma>\<lparr>pool := po', store := s, heaps := (heaps ?\<sigma>)(hid h := None)\<rparr>)"
      using r(3) by (intro step_drop) simp_all
    moreover have "legal a (Drop (hid h))" by (cases a) simp
    ultimately obtain a' where a': "ideal_step a (Drop (hid h)) a'"
        "refines owns (?\<sigma>\<lparr>pool := po', store := s, heaps := (heaps ?\<sigma>)(hid h := None)\<rparr>) a'"
      using step_simulates [OF R2] by blast
    have own: "hid k = hid h \<longleftrightarrow> q = ?p" if "?H q = Some k" for q k by (rule by_id_owner [OF inj r(2) that])
    note c = by_id_change [OF inj, of "hid h" ?p None, OF own]
    have "view w' = ?\<sigma>\<lparr>pool := po', store := s, heaps := (heaps ?\<sigma>)(hid h := None)\<rparr>" using r(4) c(2) by (simp add: view_def)
    moreover have "a' = a" using a'(1) by (auto elim: ideal_dropE)
    moreover have "dom (heap_at w) - {?p} \<subseteq> blocks (libc_free L ?p (libc_state w))"
      using libc_okD(3) [OF lb, of ?p "libc_state w"] d(2) p by auto
    moreover have "dom (heap_at w') = dom (heap_at w) - {?p}" "ids_inj (heap_at w')" using r(4) c(1) by (auto simp: dom_def put_metrics_def)
    ultimately show ?thesis using a'(2) tls_exit [OF d(3) refl False] r(4) by (simp add: threads_ok_def)
  qed
  then show "threads_ok blocks w'" "refines owns (view w') a" by simp_all
qed

end

context page_allocator
begin

lemma global_alloc_simulates:
  assumes th: "threads_ok blocks w" and R: "refines owns (view w) a" and lb: "libc_ok L blocks" and cnt: "gcounter w + 1 \<noteq> 0"
    and l: "layout_ok l" and g: "global_alloc A L t l w = Some (p, w')"
  shows "\<exists>a'. gideal_step a (GAlloc t l p) a' \<and> threads_ok blocks w' \<and> refines owns (view w') a'"
proof (cases "lsize l = 0")
  case True
  then have "p = lalign l" "w' = w" using g by (simp_all add: global_alloc_def)
  then show ?thesis using th R gideal_empty [OF True] by blast
next
  case False
  then have l0: "0 < lsize l" by simp
  consider "HEAP w t = DESTROYED" | "HEAP w t = 0" "HEAP w t \<noteq> DESTROYED" | "HEAP w t \<noteq> 0" "HEAP w t \<noteq> DESTROYED" by blast
  then show ?thesis
  proof cases
    case 1
    then have "p = 0" "w' = w" using g False by (simp_all add: global_alloc_def)
    then show ?thesis using th R gideal_fail [OF l0] by blast
  next
    case 2
    obtain ptr w1 where i: "init_heap L t w = Some (ptr, w1)"
        "(if ptr = 0 then Some (0, w1) else heap_call_alloc A l ptr w1) = Some (p, w')"
      using g False 2 by (auto simp: global_alloc_def bind_eq_Some_conv)
    note ok = init_ok [OF th R lb cnt 2(1) i(1)]
    show ?thesis
    proof (cases "ptr = 0")
      case True
      then have "p = 0" "w' = w1" using i(2) by simp_all
      then show ?thesis using ok gideal_fail [OF l0] by blast
    next
      case False
      then show ?thesis using call_alloc [OF ok l l0] i(2) by simp
    qed
  next
    case 3
    then show ?thesis using call_alloc [OF th R l l0] g False by (simp add: global_alloc_def)
  qed
qed

lemma global_dealloc_simulates:
  assumes th: "threads_ok blocks w" and R: "refines owns (view w) a" and lg: "glegal a (GFree t p l)"
  shows "\<exists>w' a'. global_dealloc A t p l w = Some w' \<and> gideal_step a (GFree t p l) a' \<and> threads_ok blocks w' \<and> refines owns (view w') a'"
proof (cases "lsize l = 0")
  case True
  then have "global_dealloc A t p l w = Some w" by (simp add: global_dealloc_def)
  then show ?thesis using th R gideal_free_empty [OF True] by blast
next
  case False
  then have l0: "0 < lsize l" by simp
  obtain al M G where a: "a = (al, M)" "system_ok owns G al (view w)" "\<forall>x \<in> program_bytes al. bytes (store (view w)) x = M x"
    using R by (cases a) (auto simp: refines_def)
  have p: "al p = Some l" using lg False a(1) by simp
  show ?thesis
  proof (cases "HEAP w t \<noteq> 0 \<and> HEAP w t \<noteq> DESTROYED")
    case True
    then obtain h where h: "heap_at w (HEAP w t) = Some h" using tls_okD(3) [OF threads_okD(3) [OF th], of t] by auto
    have hi: "heaps (view w) (hid h) = Some h" using by_id_at [OF th h] by simp
    obtain h' po s where d: "heap_dealloc A p l (h, gpool w, gstore w) = Some (h', po, s)"
      using system_dealloc [OF a(2) hi p] by auto
    then have "global_dealloc A t p l w = Some (w\<lparr>gpool := po, gstore := s, heap_at := (heap_at w)(HEAP w t \<mapsto> h')\<rparr>)"
      using True False h by (simp add: global_dealloc_def)
    then show ?thesis using call_dealloc [OF th R l0 lg h d] by blast
  next
    case nh: False
    have st: "gideal_step a (GFree t p l) (al(p := None), M)" unfolding a(1) by (rule gideal_free [OF l0 ideal_free])
    show ?thesis
    proof (cases "class_index l")
      case (Some c)
      let ?w = "w\<lparr>gstore := dealloc_remote (slab_from_ptr p) p (gstore w)\<rparr>"
      have v: "view ?w = (view w)\<lparr>store := dealloc_remote (slab_from_ptr p) p (store (view w))\<rparr>" by (simp add: view_def)
      obtain G' where "system_ok owns G' (al(p := None)) (view ?w)" "img G' = img G"
        using heapless_dealloc(1) [OF a(2) p Some] v by auto
      then have "refines owns (view ?w) (al(p := None), M)" by (rule refines_shrink [OF a(2,3)])
      moreover have "global_dealloc A t p l w = Some ?w" using nh False Some by (auto simp: global_dealloc_def)
      moreover have "threads_ok blocks ?w" using th by (simp add: threads_ok_def)
      ultimately show ?thesis using st by blast
    next
      case None
      obtain po s G' where d: "dealloc_large A p l (gpool w) (gstore w) = (po, s)"
        "system_ok owns G' (al(p := None)) ((view w)\<lparr>pool := po, store := s\<rparr>)" "img G' = img G"
        using heapless_dealloc(2) [OF a(2) p None] by auto
      let ?w = "w\<lparr>gpool := po, gstore := s\<rparr>"
      have v: "view ?w = (view w)\<lparr>pool := po, store := s\<rparr>" by (simp add: view_def)
      have "refines owns (view ?w) (al(p := None), M)" unfolding v by (rule refines_shrink [OF a(2,3) d(2,3)])
      moreover have "global_dealloc A t p l w = Some ?w" using nh False None d(1) by (auto simp: global_dealloc_def)
      moreover have "threads_ok blocks ?w" using th by (simp add: threads_ok_def)
      ultimately show ?thesis using st by blast
    qed
  qed
qed

lemma gstep_simulates:
  assumes lb: "libc_ok L blocks" and ok: "threads_ok blocks w" "refines owns (view w) a" and st: "gstep A L w e w'" and lg: "glegal a e"
  shows "\<exists>a'. gideal_step a e a' \<and> threads_ok blocks w' \<and> refines owns (view w') a'"
  using st
proof cases
  case (gstep_alloc t l p)
  then show ?thesis using global_alloc_simulates [OF ok lb gstep_alloc(2) _ gstep_alloc(3)] lg by (cases a) simp
next
  case (gstep_free t p l)
  then show ?thesis using global_dealloc_simulates [OF ok, of t p l] lg by auto
next
  case (gstep_exit t)
  then show ?thesis using exit_ok [OF ok lb gstep_exit(2)] gideal_exit by blast
next
  case (gstep_write x v)
  let ?\<sigma> = "(view w)\<lparr>store := (store (view w))\<lparr>bytes := (bytes (store (view w)))(x := v)\<rparr>\<rparr>"
  have "step A (view w) (Write x v) ?\<sigma>" by (rule step_write)
  moreover have "legal a (Write x v)" using lg gstep_write(1) by (cases a) simp
  ultimately obtain a' where "ideal_step a (Write x v) a'" "refines owns ?\<sigma> a'" using step_simulates [OF ok(2)] by blast
  moreover have "view w' = ?\<sigma>" "threads_ok blocks w'" using gstep_write(2) ok(1) by (simp_all add: view_def threads_ok_def)
  ultimately show ?thesis using gstep_write(1) gideal_write by metis
qed

lemma global_run:
  assumes lb: "libc_ok L blocks" and pa: "owns pa {}" and tr: "trace (gstep A L) (ClMalloc_new pa s m) es w"
    and nb: "\<not> client_breaks gideal_step glegal (\<lambda>_. None, bytes s) es"
  shows "\<exists>al M. trace gideal_step (\<lambda>_. None, bytes s) es (al, M) \<and> threads_ok blocks w \<and> refines owns (view w) (al, M)"
proof -
  have sim: "forward_simulation (gstep A L) gideal_step glegal (\<lambda>w a. threads_ok blocks w \<and> refines owns (view w) a)"
    by unfold_locales (use gstep_simulates [OF lb] in blast)
  have "by_id (\<lambda>_. None) = (\<lambda>_. None)" by (rule ext) (simp add: by_id_def)
  then have "view (ClMalloc_new pa s m) = initial pa s" by (simp add: view_def ClMalloc_new_def initial_def)
  then have "refines owns (view (ClMalloc_new pa s m)) (\<lambda>_. None, bytes s)"
    using initial_ok [of owns pa s] pa by (auto simp: refines_def program_bytes_def initial_def)
  moreover have "threads_ok blocks (ClMalloc_new pa s m)"
    by (simp add: threads_ok_def ClMalloc_new_def tls_ok_def ids_inj_def)
  ultimately show ?thesis
    using forward_simulation.simulate_trace [OF sim tr, of "(\<lambda>_. None, bytes s)"] nb by auto
qed

lemma call_alloc_returns:
  assumes th: "threads_ok blocks w" and R: "refines owns (view w) a" and l: "layout_ok l" "0 < lsize l" and h: "heap_at w ptr = Some h"
  shows "\<exists>p w'. heap_call_alloc A l ptr w = Some (p, w')"
proof -
  obtain G al where so: "system_ok owns G al (view w)" using R by (cases a) (auto simp: refines_def)
  have hi: "heaps (view w) (hid h) = Some h" using by_id_at [OF th h] by simp
  obtain r h' po s where "heap_alloc A l (h, gpool w, gstore w) = Some (r, h', po, s)"
    using system_alloc [OF so hi l] by auto
  then show ?thesis using h by (simp add: heap_call_alloc_def)
qed

lemma init_returns:
  "init_heap L t w = None \<longleftrightarrow> init_panics L w"
  "init_heap L t w = Some (ptr, w') \<Longrightarrow> ptr \<noteq> 0 \<Longrightarrow> \<exists>h. heap_at w' ptr = Some h"
proof -
  obtain q m where m: "malloc L (size_of_heap L) (libc_state w) = (q, m)" by (metis surj_pair)
  obtain h n s where new: "Heap_new (gcounter w) (gstore w) = (h, n, s)" by (metis surj_pair)
  let ?H = "(heap_at w)(q \<mapsto> h)"
  have reg: "pool_register_heap q (gpool w) hm = None \<longleftrightarrow> MAX_HEAPS \<le> heap_count (metrics (state (gpool w)))" for hm
    by (simp add: pool_register_heap_def register_heap_def Let_def)
  have "(init_heap L t w = None \<longleftrightarrow> init_panics L w) \<and>
    (\<forall>ptr w'. init_heap L t w = Some (ptr, w') \<longrightarrow> ptr \<noteq> 0 \<longrightarrow> (\<exists>h. heap_at w' ptr = Some h))"
  proof (cases "q = 0 \<or> MAX_HEAPS \<le> heap_count (metrics (state (gpool w)))")
    case True
    then show ?thesis using m new reg by (auto simp: init_heap_def init_panics_def Let_def)
  next
    case False
    then obtain po hm where r: "pool_register_heap q (gpool w) (metrics_at ?H) = Some (po, hm)"
      using reg [of "metrics_at ?H"] by auto
    let ?w = "w\<lparr>libc_state := m, gpool := po, gstore := s, gcounter := n, heap_at := put_metrics hm ?H, HEAP := (HEAP w)(t := q)\<rparr>"
    have i: "init_heap L t w = Option.bind (ensure_key L ?w) (\<lambda>w2. Some (q, set_key_value L t q w2))"
      using m new False r by (simp add: init_heap_def Let_def)
    have e: "ensure_key L ?w = None \<longleftrightarrow> \<not> PTHREAD_KEY w \<and> \<not> fst (pthread_key_create L m)"
      by (simp add: ensure_key_def split_def)
    have "heap_at (set_key_value L t q w2) q = Some (h\<lparr>hmetrics := hm q\<rparr>)" if "ensure_key L ?w = Some w2" for w2
      using that by (auto simp: ensure_key_def set_key_value_def split_def put_metrics_def split: if_splits)
    then show ?thesis using i e m False by (cases "ensure_key L ?w") (auto simp: init_panics_def)
  qed
  then show "init_heap L t w = None \<longleftrightarrow> init_panics L w"
    "init_heap L t w = Some (ptr, w') \<Longrightarrow> ptr \<noteq> 0 \<Longrightarrow> \<exists>h. heap_at w' ptr = Some h" by blast+
qed

lemma alloc_returns:
  assumes th: "threads_ok blocks w" and R: "refines owns (view w) a" and lb: "libc_ok L blocks" and cnt: "gcounter w + 1 \<noteq> 0"
    and l: "layout_ok l"
  shows "global_alloc A L t l w = None \<longleftrightarrow> 0 < lsize l \<and> HEAP w t = null \<and> init_panics L w"
proof (cases "lsize l = 0 \<or> HEAP w t = DESTROYED")
  case True
  then show ?thesis by (auto simp: global_alloc_def DESTROYED_def)
next
  case False
  then have l0: "0 < lsize l" by simp
  show ?thesis
  proof (cases "HEAP w t = 0")
    case True
    show ?thesis
    proof (cases "init_heap L t w")
      case None
      then show ?thesis using True False l0 init_returns(1) [of L t w] by (simp add: global_alloc_def)
    next
      case (Some r)
      obtain ptr w1 where i: "init_heap L t w = Some (ptr, w1)" using Some by (cases r) simp
      note ok = init_ok [OF th R lb cnt True i]
      have "\<exists>p w'. (if ptr = 0 then Some (0, w1) else heap_call_alloc A l ptr w1) = Some (p, w')"
        using call_alloc_returns [OF ok l l0] init_returns(2) [OF i] by (cases "ptr = 0") auto
      moreover have "\<not> init_panics L w" using init_returns(1) [of L t w] i by simp
      ultimately show ?thesis using i True False by (auto simp: global_alloc_def)
    qed
  next
    case nz: False
    then obtain h where "heap_at w (HEAP w t) = Some h" using tls_okD(3) [OF threads_okD(3) [OF th], of t] False by auto
    then obtain p w' where "heap_call_alloc A l (HEAP w t) w = Some (p, w')" using call_alloc_returns [OF th R l l0] by blast
    then show ?thesis using nz False by (simp add: global_alloc_def)
  qed
qed

end

subsection \<open>Properties\<close>

text \<open>
  C1. The global allocator refines the ideal allocator, for every interleaving of the calls of any
  number of threads, which may start, exit (dropping their heap) and go on freeing afterwards. Either
  the program breaks the contract of \<open>GlobalAlloc\<close>, or every allocation of size zero is its alignment,
  every other one is null or an aligned address whose bytes overlap no other allocation, and memory
  holds what the program stored in its allocations, whichever thread frees them.
\<close>

theorem global_refines_ideal:
  assumes "page_allocator A owns" and "libc_ok L blocks" and "owns pa {}" and "trace (gstep A L) (ClMalloc_new pa s m) es w"
  shows "client_breaks gideal_step glegal (\<lambda>_. None, bytes s) es \<or>
    (\<exists>al M. trace gideal_step (\<lambda>_. None, bytes s) es (al, M) \<and> (\<forall>a \<in> program_bytes al. bytes (gstore w) a = M a))"
proof (cases "client_breaks gideal_step glegal (\<lambda>_. None, bytes s) es")
  case False
  then show ?thesis using page_allocator.global_run [OF assms] by (auto simp: refines_def)
qed simp

text \<open>A C library with memory for one heap.\<close>

definition one_block :: "addr set libc" where
  "one_block = \<lparr>size_of_heap = 4096, malloc = (\<lambda>n m. if 16 \<in> m then (0, m) else (16, insert 16 m)),
     libc_free = (\<lambda>p m. m - {p}), pthread_key_create = (\<lambda>m. (True, m)), pthread_setspecific = (\<lambda>m. (True, m))\<rparr>"

lemma one_block_ok: "libc_ok one_block (\<lambda>m. m)"
  by (auto simp: libc_ok_def one_block_def)

abbreviation one_start :: "(nat set \<times> nat, addr set) process" where
  "one_start \<equiv> ClMalloc_new ({}, 16) zero_store {}"

lemma one_alloc: "\<exists>p w. trace (gstep bump_pages one_block) one_start [GAlloc 0 small_layout p] w"
proof -
  note run = page_allocator.global_run [OF bump_contract one_block_ok bump_empty trace_nil, where s = zero_store and m = "{}"]
  have "threads_ok (\<lambda>m. m) one_start \<and> (\<exists>a. refines (owns_pages fst) (view one_start) a)"
    using run by (auto simp: client_breaks_def)
  then obtain a where a: "threads_ok (\<lambda>m. m) one_start" "refines (owns_pages fst) (view one_start) a" by blast
  have c: "gcounter one_start + 1 \<noteq> 0" by (simp add: ClMalloc_new_def)
  have r: "\<not> init_panics one_block one_start"
    by (simp add: ClMalloc_new_def PagePool_new_def PoolMetrics_new_def MAX_HEAPS_def one_block_def init_panics_def)
  obtain p w where "global_alloc bump_pages one_block 0 small_layout one_start = Some (p, w)"
    using page_allocator.alloc_returns [OF bump_contract a one_block_ok c small_layout_ok(1), of 0] r by fastforce
  from gstep_alloc [OF c this] show ?thesis using trace_cons trace_nil by meson
qed

lemma one_legal: "\<not> client_breaks gideal_step glegal (\<lambda>_. None, bytes zero_store) [GAlloc 0 small_layout p]"
  using small_layout_ok by (auto simp: client_breaks_def Cons_eq_append_conv)

theorem global_refines_ideal_witness:
  "\<exists>p w. trace (gstep bump_pages one_block) one_start [GAlloc 0 small_layout p] w \<and>
     (\<exists>al M. trace gideal_step (\<lambda>_. None, bytes zero_store) [GAlloc 0 small_layout p] (al, M) \<and>
        (\<forall>a \<in> program_bytes al. bytes (gstore w) a = M a))"
proof -
  obtain p w where t: "trace (gstep bump_pages one_block) one_start [GAlloc 0 small_layout p] w" using one_alloc by blast
  then show ?thesis using global_refines_ideal [OF bump_contract one_block_ok bump_empty t] one_legal by blast
qed

text \<open>
  C2. Calls of the global allocator return, but for one documented way to panic. In every state that
  a run reaches while the program keeps its contract, a free of an allocation returns from every
  thread: one with a heap, one that never allocated, and one whose heap is already destroyed. An
  allocation with a valid layout does not return in exactly one case: it is the first one of a thread
  (with a nonzero size), the C library has memory for its heap, and either the registry already
  holds \<open>MAX_HEAPS\<close> heaps or the pthread key was never made and making it fails. A thread whose heap
  is destroyed gets null and changes nothing.
\<close>

theorem global_calls_return:
  assumes "page_allocator A owns" and "libc_ok L blocks" and "owns pa {}" and "trace (gstep A L) (ClMalloc_new pa s m) es w"
    and "\<not> client_breaks gideal_step glegal (\<lambda>_. None, bytes s) es" and "gcounter w + 1 \<noteq> 0"
  shows "\<exists>al M. trace gideal_step (\<lambda>_. None, bytes s) es (al, M) \<and>
    (\<forall>t p l. lsize l = 0 \<or> al p = Some l \<longrightarrow> (\<exists>w'. global_dealloc A t p l w = Some w')) \<and>
    (\<forall>t l. layout_ok l \<longrightarrow> (global_alloc A L t l w = None \<longleftrightarrow> 0 < lsize l \<and> HEAP w t = null \<and> init_panics L w)) \<and>
    (\<forall>t l. HEAP w t = DESTROYED \<and> 0 < lsize l \<longrightarrow> global_alloc A L t l w = Some (null, w))"
proof -
  obtain al M where r: "trace gideal_step (\<lambda>_. None, bytes s) es (al, M)" "threads_ok blocks w" "refines owns (view w) (al, M)"
    using page_allocator.global_run [OF assms(1-5)] by blast
  have "\<exists>w'. global_dealloc A t p l w = Some w'" if "lsize l = 0 \<or> al p = Some l" for t p l
    using page_allocator.global_dealloc_simulates [OF assms(1) r(2,3), of t p l] that by auto
  moreover have "global_alloc A L t l w = None \<longleftrightarrow> 0 < lsize l \<and> HEAP w t = null \<and> init_panics L w"
    if "layout_ok l" for t l
    by (rule page_allocator.alloc_returns [OF assms(1) r(2,3) assms(2,6) that])
  moreover have "global_alloc A L t l w = Some (null, w)" if "HEAP w t = DESTROYED \<and> 0 < lsize l" for t l
    using that by (simp add: global_alloc_def)
  ultimately show ?thesis using r(1) by blast
qed

text \<open>
  The instance: one thread allocates a large region; it and a thread without a heap can free it, and
  the first thread can allocate again. With a C library that cannot make the key the first allocation
  panics.
\<close>

lemma one_big_alloc:
  "\<exists>w. global_alloc bump_pages one_block 0 big_layout one_start = Some (65536, w) \<and> gcounter w = 2 \<and> HEAP w 0 = 16"
proof -
  have "class_index \<lparr>lsize = 131072, lalign = 4096\<rparr> = None" using big_layout_ok(3) by (simp add: big_layout_def)
  moreover have "align_up 65536 4096 = 65536" using align_up_eq [of 65536 12] by simp
  ultimately show ?thesis
    by (simp add: global_alloc_def init_heap_def ensure_key_def set_key_value_def heap_call_alloc_def one_block_def big_layout_def
        ClMalloc_new_def PagePool_new_def PoolMetrics_new_def MAX_HEAPS_def DESTROYED_def Heap_new_def next_heap_id_def
        pool_register_heap_def register_heap_def put_metrics_def heap_alloc.simps heap_alloc_large_def alloc_large_def
        MmapAllocator_def MmapAllocator_alloc_def bump_vm_def bump_mmap_def bump_munmap_def Let_def geom_simps)
qed

abbreviation no_key :: "addr set libc" where
  "no_key \<equiv> one_block\<lparr>pthread_key_create := (\<lambda>m. (False, m))\<rparr>"

lemma no_key_ok: "libc_ok no_key (\<lambda>m. m)"
  by (auto simp: libc_ok_def one_block_def)

theorem global_calls_return_witness:
  "(\<exists>w. trace (gstep bump_pages one_block) one_start [GAlloc 0 big_layout 65536] w \<and>
     (\<exists>w'. global_dealloc bump_pages 0 65536 big_layout w = Some w') \<and>
     (\<exists>w'. global_dealloc bump_pages 1 65536 big_layout w = Some w') \<and>
     (\<exists>p w'. global_alloc bump_pages one_block 0 small_layout w = Some (p, w'))) \<and>
   global_alloc bump_pages no_key 0 small_layout one_start = None"
proof
  obtain w where g: "global_alloc bump_pages one_block 0 big_layout one_start = Some (65536, w)" "gcounter w = 2" "HEAP w 0 = 16"
    using one_big_alloc by blast
  have "gcounter one_start + 1 \<noteq> 0" by (simp add: ClMalloc_new_def)
  from gstep_alloc [OF this g(1)] have tr: "trace (gstep bump_pages one_block) one_start [GAlloc 0 big_layout 65536] w"
    using trace_cons trace_nil by meson
  have nb: "\<not> client_breaks gideal_step glegal (\<lambda>_. None, bytes zero_store) [GAlloc 0 big_layout 65536]"
    using big_layout_ok by (auto simp: client_breaks_def Cons_eq_append_conv)
  have "gcounter w + 1 \<noteq> 0" using g(2) by simp
  from global_calls_return [OF bump_contract one_block_ok bump_empty tr nb this] obtain al M where
    r: "trace gideal_step (\<lambda>_. None, bytes zero_store) [GAlloc 0 big_layout 65536] (al, M)"
      "\<forall>t p l. lsize l = 0 \<or> al p = Some l \<longrightarrow> (\<exists>w'. global_dealloc bump_pages t p l w = Some w')"
      "\<forall>t l. layout_ok l \<longrightarrow> (global_alloc bump_pages one_block t l w = None \<longleftrightarrow>
         0 < lsize l \<and> HEAP w t = null \<and> init_panics one_block w)"
    by blast
  have "gideal_step (\<lambda>_. None, bytes zero_store) (GAlloc 0 big_layout 65536) (al, M)"
    using r(1) by (auto elim!: trace_consE)
  then have al: "al 65536 = Some big_layout"
    using big_layout_ok(2) by (auto elim!: gideal_step.cases ideal_step.cases)
  have "\<exists>p w'. global_alloc bump_pages one_block 0 small_layout w = Some (p, w')"
    using r(3) small_layout_ok(1) g(3) by (cases "global_alloc bump_pages one_block 0 small_layout w") auto
  then show "\<exists>w. trace (gstep bump_pages one_block) one_start [GAlloc 0 big_layout 65536] w \<and>
     (\<exists>w'. global_dealloc bump_pages 0 65536 big_layout w = Some w') \<and>
     (\<exists>w'. global_dealloc bump_pages 1 65536 big_layout w = Some w') \<and>
     (\<exists>p w'. global_alloc bump_pages one_block 0 small_layout w = Some (p, w'))"
    using tr r(2) al by blast
next
  have nb: "\<not> client_breaks gideal_step glegal (\<lambda>_. None, bytes zero_store) []" by (simp add: client_breaks_def)
  have c: "gcounter one_start + 1 \<noteq> 0" by (simp add: ClMalloc_new_def)
  have "init_panics no_key one_start" "HEAP one_start 0 = null"
    by (simp_all add: init_panics_def one_block_def ClMalloc_new_def)
  then show "global_alloc bump_pages no_key 0 small_layout one_start = None"
    using global_calls_return [OF bump_contract no_key_ok bump_empty trace_nil nb c] small_layout_ok by blast
qed

end
