(* ===== verification/Heap_Counts.thy ===== *)
theory Heap_Counts
  imports Heap Pool_Invariant
begin

text \<open>
  What the operations count (\<open>metrics.rs\<close> as used by \<open>pool.rs\<close> and \<open>heap.rs\<close>). No operation of the pool
  touches the registry of heaps or the totals of dead heaps. An operation of a heap changes the heap's
  counters exactly once: a successful allocation is counted with its class, also when the slot comes
  from an adopted or a new slab, a failed one is not; a free is counted with its class.
\<close>

subsection \<open>Operations of the pool leave the registry alone\<close>

definition registry :: "PoolState \<Rightarrow> nat \<times> (nat \<Rightarrow> addr) \<times> HeapMetrics" where
  "registry st = (heap_count (metrics st), heap_ptrs (metrics st), dead (metrics st))"

lemma registry_upd [simp]:
  "registry (count_lock st) = registry st" "registry (seg_add i d st) = registry st" "registry (slabs_add e st) = registry st"
  "registry (st\<lparr>dirty_list := fl\<rparr>) = registry st" "registry (st\<lparr>clean_list := fl\<rparr>) = registry st"
  "registry (st\<lparr>segment_cursor := c\<rparr>) = registry st" "registry (st\<lparr>large_mapped_bytes := b\<rparr>) = registry st"
  "registry (swap_remove_segment i st) = registry st"
  by (simp_all add: registry_def pool_upd swap_remove_segment_def Let_def)

lemma registry_counters [simp]:
  "registry (st\<lparr>metrics := (metrics st)\<lparr>segment_mmap_count := n\<rparr>\<rparr>) = registry st"
  "registry (st\<lparr>metrics := (metrics st)\<lparr>segment_munmap_count := n\<rparr>\<rparr>) = registry st"
  "registry (st\<lparr>metrics := (metrics st)\<lparr>slab_purge_count := n\<rparr>\<rparr>) = registry st"
  "registry (st\<lparr>metrics := (metrics st)\<lparr>abandon_count := f\<rparr>\<rparr>) = registry st"
  "registry (st\<lparr>metrics := (metrics st)\<lparr>adopt_count := f\<rparr>\<rparr>) = registry st"
  by (simp_all add: registry_def)

lemma alloc_slab_locked_registry: "alloc_slab_locked m st = Some (r, st') \<Longrightarrow> registry st' = registry st"
  by (auto simp: alloc_slab_locked_def hand_out_def Let_def split: prod.splits option.splits if_splits)

lemma install_segment_registry: "install_segment b m st = (r, m', st') \<Longrightarrow> registry st' = registry st"
  by (auto simp: install_segment_def Let_def registry_def pool_upd split: prod.splits if_splits)

lemma purge_take_registry: "purge_take_loop n m st = Some (buf, st') \<Longrightarrow> registry st' = registry st"
proof (induction n arbitrary: st buf)
  case (Suc n)
  then show ?case by (fastforce split: if_splits prod.splits option.splits simp: bind_eq_Some_conv)
qed simp

lemma purge_put_registry: "purge_put_loop buf m st = Some (m', st') \<Longrightarrow> registry st' = registry st"
  by (induction buf arbitrary: m st) (fastforce simp: split_def bind_eq_Some_conv Let_def)+

lemma dealloc_slab_locked_registry: "dealloc_slab_locked x m st = Some (act, m', st') \<Longrightarrow> registry st' = registry st"
  by (auto simp: dealloc_slab_locked_def remove_segment_slabs_def Let_def bind_eq_Some_conv split: prod.splits if_splits)

lemma alloc_slab_registry: "alloc_slab A po s = Some (r, po', s') \<Longrightarrow> registry (state po') = registry (state po)"
  by (auto simp: alloc_slab_def alloc_slab_slow_def split: option.splits prod.splits bool.splits
      dest!: alloc_slab_locked_registry install_segment_registry)

lemma purge_excess_registry: "purge_excess A po s = Some (po', s') \<Longrightarrow> registry (state po') = registry (state po)"
  by (auto simp: purge_excess_def purge_take_def purge_put_def Let_def split_def bind_eq_Some_conv
      dest!: purge_take_registry purge_put_registry)

lemma dealloc_slab_registry:
  assumes "dealloc_slab A x po s = Some (po', s')"
  shows "registry (state po') = registry (state po)"
proof -
  obtain act m st where d: "dealloc_slab_locked x (bytes s) (state po) = Some (act, m, st)"
    using assms by (auto simp: dealloc_slab_def bind_eq_Some_conv)
  then show ?thesis using assms
    by (cases act) (auto simp: dealloc_slab_def Let_def split_def dest!: dealloc_slab_locked_registry purge_excess_registry)
qed

lemma cache_slab_registry: "cache_slab A x po s = Some (po', s') \<Longrightarrow> registry (state po') = registry (state po)"
  by (auto simp: cache_slab_def split: if_splits dest: dealloc_slab_registry)

lemma uncache_slab_registry: "uncache_slab po s = (r, po') \<Longrightarrow> registry (state po') = registry (state po)"
  by (auto simp: uncache_slab_def Let_def split: if_splits)

lemma abandon_slab_registry: "abandon_slab x po s = Some (po', s') \<Longrightarrow> registry (state po') = registry (state po)"
  by (auto simp: abandon_slab_def Let_def split: if_splits)

lemma adopt_all_registry: "adopt_all c po = (r, po') \<Longrightarrow> registry (state po') = registry (state po)"
  by (auto simp: adopt_all_def Let_def split: if_splits)

lemma inc_adopt_registry [simp]: "registry (state (inc_adopt_count c po)) = registry (state po)"
  by (simp add: inc_adopt_count_def Let_def)

lemma alloc_large_registry: "alloc_large A l po s = (r, po', s') \<Longrightarrow> registry (state po') = registry (state po)"
  by (auto simp: alloc_large_def split: prod.splits option.splits)

lemma dealloc_large_registry: "dealloc_large A p l po s = (po', s') \<Longrightarrow> registry (state po') = registry (state po)"
  by (auto simp: dealloc_large_def Let_def split: prod.splits)

subsection \<open>What operations of a heap count\<close>

text \<open>Neither the registry nor the counters of the heap change.\<close>

definition uncounted :: "'p heap_world \<Rightarrow> 'p heap_world \<Rightarrow> bool" where
  "uncounted w w' \<longleftrightarrow> hmetrics (fst w') = hmetrics (fst w) \<and> registry (state (fst (snd w'))) = registry (state (fst (snd w)))"

lemma uncounted_refl [simp]: "uncounted w w"
  by (simp add: uncounted_def)

lemma uncounted_trans [trans]: "uncounted w w1 \<Longrightarrow> uncounted w1 w2 \<Longrightarrow> uncounted w w2"
  by (simp add: uncounted_def)

lemma set_bin_metrics [simp]: "hmetrics (set_bin c b h) = hmetrics h"
  by (simp add: set_bin_def)

lemma try_partial_uncounted: "try_partial c w = (r, w') \<Longrightarrow> uncounted w w'"
  by (auto simp: try_partial_def uncounted_def split: prod.splits option.splits)

lemma scan_slab_uncounted: "scan_slab A c b w = Some w' \<Longrightarrow> uncounted w w'"
  by (cases w) (auto simp: scan_slab_def uncounted_def bind_eq_Some_conv split: prod.splits if_splits dest!: cache_slab_registry)

lemma scan_loop_uncounted:
  assumes "scan_loop A c b w = Some w'"
  shows "uncounted w w'"
proof (rule scan_loop.raw_induct [OF _ assms, of "\<lambda>A c b w w'. uncounted w w'"])
  fix loop A c b w and w' :: "'a heap_world"
  assume IH: "\<And>A c b w w'. loop A c b w = Some w' \<Longrightarrow> uncounted w w'"
    and body: "(case b of None \<Rightarrow> Some w | Some base \<Rightarrow>
      Option.bind (scan_slab A c base w) (loop A c (next_link (hdr (snd (snd w)) base)))) = Some w'"
  show "uncounted w w'"
  proof (cases b)
    case (Some x)
    then obtain w1 where "scan_slab A c x w = Some w1" "loop A c (next_link (hdr (snd (snd w)) x)) w1 = Some w'"
      using body by (auto simp: bind_eq_Some_conv)
    then show ?thesis using IH scan_slab_uncounted uncounted_trans by blast
  qed (use body in simp)
qed

lemma scan_full_list_uncounted: "scan_full_list A c w = Some w' \<Longrightarrow> uncounted w w'"
  by (auto simp: scan_full_list_def split: prod.splits dest: scan_loop_uncounted)

lemma reclaim_slab_uncounted: "reclaim_slab A b w = Some w' \<Longrightarrow> uncounted w w'"
  by (cases w) (auto simp: reclaim_slab_def uncounted_def bind_eq_Some_conv split: prod.splits dest!: cache_slab_registry)

lemma retire_active_uncounted: "uncounted w (retire_active c w)"
  by (auto simp: retire_active_def uncounted_def split: prod.splits option.splits)

lemma give_up_slab_registry: "give_up_slab A b po s = Some (po', s') \<Longrightarrow> registry (state po') = registry (state po)"
  by (auto simp: give_up_slab_def bind_eq_Some_conv split: prod.splits if_splits dest!: cache_slab_registry abandon_slab_registry)

lemma retire_slab_uncounted: "retire_slab A c w = Some w' \<Longrightarrow> uncounted w w'"
  by (cases w) (auto simp: retire_slab_def uncounted_def bind_eq_Some_conv split: prod.splits option.splits dest!: give_up_slab_registry)

lemma adopt_slab_uncounted:
  assumes a: "adopt_slab A c b (r, h, po, s) = Some (r', w')"
  shows "uncounted (h, po, s) w'"
proof -
  let ?s = "set_heap_id b (hid h) (set_prev_link b NullLoc (set_next_link b None s))"
  obtain n s2 where d: "drain_remote b ?s = Some (n, s2)" using a by (auto simp: adopt_slab_def Let_def bind_eq_Some_conv)
  show ?thesis
  proof (cases "is_fully_free b s2")
    case True
    then show ?thesis using a d
      by (auto simp: adopt_slab_def uncounted_def Let_def bind_eq_Some_conv dest!: cache_slab_registry)
  next
    case False
    obtain q s3 where "(if r = None then slab_alloc b s2 else (None, s2)) = (q, s3)" by fastforce
    then show ?thesis using a d False
      by (cases q) (auto simp: adopt_slab_def uncounted_def Let_def simp del: split_paired_All split: if_splits)
  qed
qed

lemma adopt_loop_uncounted:
  assumes "adopt_loop A c b rw = Some rw'"
  shows "uncounted (snd rw) (snd rw')"
proof (rule adopt_loop.raw_induct [OF _ assms, of "\<lambda>A c b rw rw'. uncounted (snd rw) (snd rw')"])
  fix loop A c b rw and rw' :: "addr option \<times> 'a heap_world"
  assume IH: "\<And>A c b rw rw'. loop A c b rw = Some rw' \<Longrightarrow> uncounted (snd rw) (snd rw')"
    and body: "(case b of None \<Rightarrow> Some rw | Some slab \<Rightarrow>
      Option.bind (adopt_slab A c slab rw) (loop A c (next_link (hdr (snd (snd (snd rw))) slab)))) = Some rw'"
  show "uncounted (snd rw) (snd rw')"
  proof (cases b)
    case (Some x)
    then obtain rw1 where "adopt_slab A c x rw = Some rw1" "loop A c (next_link (hdr (snd (snd (snd rw))) x)) rw1 = Some rw'"
      using body by (auto simp: bind_eq_Some_conv)
    then have "uncounted (snd rw) (snd rw1)" "uncounted (snd rw1) (snd rw')"
      using IH adopt_slab_uncounted [of A c x "fst rw" "fst (snd rw)" "fst (snd (snd rw))" "snd (snd (snd rw))" "fst rw1" "snd rw1"] by simp_all
    then show ?thesis by (rule uncounted_trans)
  qed (use body in simp)
qed

lemma try_adopt_uncounted: "try_adopt A c w = Some (r, w') \<Longrightarrow> uncounted w w'"
  by (cases w) (fastforce simp: try_adopt_def uncounted_def split: prod.splits dest: adopt_all_registry adopt_loop_uncounted)

lemma drop_queue_registry:
  assumes "drop_queue A q ps = Some ps'"
  shows "registry (state (fst ps')) = registry (state (fst ps))"
proof (rule drop_queue.raw_induct [OF _ assms, of "\<lambda>A q ps ps'. registry (state (fst ps')) = registry (state (fst ps))"])
  fix loop A q ps and ps' :: "'a PagePool \<times> store"
  assume IH: "\<And>A q ps ps'. loop A q ps = Some ps' \<Longrightarrow> registry (state (fst ps')) = registry (state (fst ps))"
    and body: "(case slab_list_pop q (snd ps) of (None, s1) \<Rightarrow> Some (fst ps, s1)
      | (Some slab, s1) \<Rightarrow> Option.bind (give_up_slab A slab (fst ps) s1) (loop A q)) = Some ps'"
  obtain r s1 where p: "slab_list_pop q (snd ps) = (r, s1)" by fastforce
  show "registry (state (fst ps')) = registry (state (fst ps))"
  proof (cases r)
    case (Some x)
    then obtain ps1 where "give_up_slab A x (fst ps) s1 = Some ps1" "loop A q ps1 = Some ps'"
      using body p by (auto simp: bind_eq_Some_conv)
    then show ?thesis using IH give_up_slab_registry [of A x "fst ps" s1 "fst ps1" "snd ps1"] by simp
  qed (use body p in auto)
qed

lemma drop_class_uncounted: "drop_class A c w = Some w' \<Longrightarrow> uncounted w w'"
  by (fastforce simp: drop_class_def uncounted_def bind_eq_Some_conv dest!: retire_slab_uncounted drop_queue_registry)

lemma heap_drop_uncounted: "heap_drop A w = Some w' \<Longrightarrow> uncounted w w'"
proof -
  have "drop_classes A cs w = Some w' \<Longrightarrow> uncounted w w'" for cs
    by (induction cs arbitrary: w) (auto simp: bind_eq_Some_conv dest!: drop_class_uncounted intro: uncounted_trans)
  then show "heap_drop A w = Some w' \<Longrightarrow> uncounted w w'" by (auto simp: heap_drop_def)
qed

text \<open>A successful allocation is counted once, a free once and, when foreign, as a remote free too.\<close>

definition counted_alloc :: "layout \<Rightarrow> addr option \<Rightarrow> HeapMetrics \<Rightarrow> HeapMetrics" where
  "counted_alloc l r m = (case r of None \<Rightarrow> m | Some _ \<Rightarrow>
     (case class_index l of None \<Rightarrow> on_large_alloc (lsize l) m | Some c \<Rightarrow> on_alloc c (class_size c) m))"

definition counted_free :: "layout \<Rightarrow> HeapMetrics \<Rightarrow> HeapMetrics" where
  "counted_free l m = (case class_index l of None \<Rightarrow> on_large_dealloc (lsize l) m | Some c \<Rightarrow> on_dealloc c (class_size c) m)"

definition alloc_effect :: "nat \<Rightarrow> addr option \<Rightarrow> 'p heap_world \<Rightarrow> 'p heap_world \<Rightarrow> bool" where
  "alloc_effect c r w w' \<longleftrightarrow> registry (state (fst (snd w'))) = registry (state (fst (snd w))) \<and>
     hmetrics (fst w') = (if r = None then hmetrics (fst w) else on_alloc c (class_size c) (hmetrics (fst w)))"

lemma uncounted_effect: "uncounted w w1 \<Longrightarrow> alloc_effect c r w1 w' \<Longrightarrow> alloc_effect c r w w'"
  by (simp add: alloc_effect_def uncounted_def)

lemma effect_None: "alloc_effect c None w w' \<longleftrightarrow> uncounted w w'"
  by (auto simp: alloc_effect_def uncounted_def)

lemma alloc_active_effect:
  assumes a: "alloc_active c (class_size c) (h, po, s) = Some (r, w')"
  shows "alloc_effect c r (h, po, s) w'"
proof (cases "bins h c")
  case None
  then show ?thesis using a by (auto simp: alloc_active_def effect_None)
next
  case (Some b)
  obtain q s1 where q: "slab_alloc b s = (q, s1)" by fastforce
  show ?thesis
  proof (cases q)
    case None
    then obtain n s2 where d: "drain_remote b s1 = Some (n, s2)" using a Some q by (auto simp: alloc_active_def bind_eq_Some_conv)
    obtain q2 s3 where "slab_alloc b s2 = (q2, s3)" by fastforce
    then show ?thesis using a Some q None d retire_active_uncounted [of "(h, po, s3)" c]
      by (cases q2) (auto simp: alloc_active_def alloc_effect_def count_alloc_def uncounted_def)
  qed (use a Some q in \<open>auto simp: alloc_active_def alloc_effect_def count_alloc_def\<close>)
qed

lemma request_slab_effect:
  assumes a: "request_slab A c (class_size c) w = Some (r, w')"
  shows "alloc_effect c r w w'"
proof -
  obtain r1 h po s where t: "try_adopt A c w = Some (r1, h, po, s)" using a by (auto simp: request_slab_def bind_eq_Some_conv)
  have "alloc_effect c r (h, po, s) w'"
  proof (cases r1)
    case None
    let ?get = "case uncache_slab po s of (Some base, po1) \<Rightarrow> Some (Some base, po1, s) | (None, po1) \<Rightarrow> alloc_slab A po1 s"
    obtain raw po1 s1 where g: "?get = Some (raw, po1, s1)" using a t None by (auto simp: request_slab_def bind_eq_Some_conv)
    then have reg: "registry (state po1) = registry (state po)"
      by (auto split: prod.splits option.splits dest!: uncache_slab_registry alloc_slab_registry)
    show ?thesis
    proof (cases raw)
      case (Some base)
      obtain p s3 where "slab_alloc base (slab_init base (of_nat c) (hid h) s1) = (p, s3)" by fastforce
      then show ?thesis using a t None g reg Some
        by (auto simp: request_slab_def alloc_effect_def count_alloc_def Let_def)
    qed (use a t None g reg in \<open>auto simp: request_slab_def alloc_effect_def\<close>)
  qed (use a t in \<open>auto simp: request_slab_def alloc_effect_def count_alloc_def\<close>)
  then show ?thesis using uncounted_effect [OF try_adopt_uncounted [OF t]] by blast
qed

lemma heap_alloc_effect:
  assumes "heap_alloc A l w = Some rw" "class_index l = Some c"
  shows "alloc_effect c (fst rw) w (snd rw)"
proof -
  have "class_index l = Some c \<longrightarrow> alloc_effect c (fst rw) w (snd rw)"
  proof (rule heap_alloc.raw_induct [OF _ assms(1), of "\<lambda>A l w rw. class_index l = Some c \<longrightarrow> alloc_effect c (fst rw) w (snd rw)"], intro impI)
    fix loop A l w and rw :: "addr option \<times> 'a heap_world"
    assume IH: "\<And>A l w rw. loop A l w = Some rw \<Longrightarrow> class_index l = Some c \<longrightarrow> alloc_effect c (fst rw) w (snd rw)"
      and c: "class_index l = Some c"
      and body: "(case class_index l of None \<Rightarrow> Some (heap_alloc_large A l w)
       | Some idx \<Rightarrow> Option.bind (alloc_active idx (class_size idx) w) (\<lambda>(r, w1).
           if r \<noteq> None then Some (r, w1)
           else let (found, w2) = try_partial idx w1 in
             if found then loop A l w2
             else Option.bind (scan_full_list A idx w2) (\<lambda>w3.
               if bins (fst w3) idx \<noteq> None then loop A l w3
               else let (found2, w4) = try_partial idx w3 in
                 if found2 then loop A l w4 else request_slab A idx (class_size idx) w4))) = Some rw"
    obtain r w1 where 1: "alloc_active c (class_size c) w = Some (r, w1)" using body c by (auto simp: bind_eq_Some_conv)
    have e1: "alloc_effect c r w w1" using alloc_active_effect [of c "fst w" "fst (snd w)" "snd (snd w)" r w1] 1 by simp
    show "alloc_effect c (fst rw) w (snd rw)"
    proof (cases r)
      case (Some q)
      then show ?thesis using body c 1 e1 by auto
    next
      case None
      note u1 = e1 [unfolded None effect_None]
      obtain f w2 where 2: "try_partial c w1 = (f, w2)" by (metis surj_pair)
      note u2 = uncounted_trans [OF u1 try_partial_uncounted [OF 2]]
      show ?thesis
      proof (cases f)
        case True
        then have "loop A l w2 = Some rw" using body c 1 2 None by simp
        then show ?thesis using IH c uncounted_effect [OF u2] by blast
      next
        case False
        then obtain w3 where 3: "scan_full_list A c w2 = Some w3" using body c 1 2 None by (auto simp: bind_eq_Some_conv)
        note u3 = uncounted_trans [OF u2 scan_full_list_uncounted [OF 3]]
        obtain f2 w4 where 4: "try_partial c w3 = (f2, w4)" by (metis surj_pair)
        note u4 = uncounted_trans [OF u3 try_partial_uncounted [OF 4]]
        have "loop A l w3 = Some rw \<or> loop A l w4 = Some rw \<or> request_slab A c (class_size c) w4 = Some (fst rw, snd rw)"
          using body c 1 2 3 4 None False by (auto split: if_splits)
        then show ?thesis
          using IH c uncounted_effect [OF u3] uncounted_effect [OF u4] request_slab_effect by blast
      qed
    qed
  qed
  then show ?thesis using assms(2) by blast
qed

lemma heap_alloc_counts:
  assumes a: "heap_alloc A l (h, po, s) = Some (r, h', po', s')"
  shows "hmetrics h' = counted_alloc l r (hmetrics h)" "registry (state po') = registry (state po)"
proof -
  have "hmetrics h' = counted_alloc l r (hmetrics h) \<and> registry (state po') = registry (state po)"
  proof (cases "class_index l")
    case None
    obtain q po1 s1 where al: "alloc_large A l po s = (q, po1, s1)" by (metis surj_pair)
    have "heap_alloc_large A l (h, po, s) = (r, h', po', s')" using a None by (subst (asm) heap_alloc.simps) simp
    then show ?thesis using None al alloc_large_registry [OF al]
      by (cases q) (auto simp: heap_alloc_large_def counted_alloc_def)
  next
    case (Some c)
    then show ?thesis using heap_alloc_effect [OF a Some] by (auto simp: alloc_effect_def counted_alloc_def split: option.splits)
  qed
  then show "hmetrics h' = counted_alloc l r (hmetrics h)" "registry (state po') = registry (state po)" by simp_all
qed

lemma heap_dealloc_counts:
  assumes d: "heap_dealloc A p l (h, po, s) = Some (h', po', s')"
  shows "hmetrics h' = counted_free l (hmetrics h) \<or> hmetrics h' = on_remote_free 1 (counted_free l (hmetrics h))"
    "registry (state po') = registry (state po)"
proof -
  have "(hmetrics h' = counted_free l (hmetrics h) \<or> hmetrics h' = on_remote_free 1 (counted_free l (hmetrics h))) \<and>
      registry (state po') = registry (state po)"
  proof (cases "class_index l")
    case None
    then show ?thesis using d
      by (auto simp: heap_dealloc_def counted_free_def split: prod.splits dest!: dealloc_large_registry)
  next
    case (Some c)
    then show ?thesis using d
      by (auto simp: heap_dealloc_def counted_free_def Let_def bind_eq_Some_conv uncounted_def split: if_splits
          dest!: reclaim_slab_uncounted)
  qed
  then show "hmetrics h' = counted_free l (hmetrics h) \<or> hmetrics h' = on_remote_free 1 (counted_free l (hmetrics h))"
    "registry (state po') = registry (state po)" by simp_all
qed

end
