(* ===== verification/Accounting.thy ===== *)
theory Accounting
  imports Global Heap_Counts
begin

text \<open>
  Metrics across the components: the registry of heaps in the pool, the counters in each heap, and the
  snapshot of the process (\<open>metrics.rs\<close>, \<open>pool.rs\<close>, \<open>heap.rs\<close>, \<open>global.rs\<close>). No operation of the pool
  touches the registry, and an operation of a heap changes its counters exactly once, when it
  succeeds. So the registry always lists the live heaps and a thread's exit does not panic, and the
  totals of a snapshot are those of the calls made.
\<close>

subsection \<open>The registry lists the heap objects of the process\<close>

definition registered :: "('p, 'm) process \<Rightarrow> bool" where
  "registered w \<longleftrightarrow> (\<exists>ps. registry_ok (metrics (state (gpool w))) (metrics_at (heap_at w)) ps \<and> set ps = dom (heap_at w))"

lemma registered_finite: "registered w \<Longrightarrow> finite (dom (heap_at w))"
  unfolding registered_def by (metis List.finite_set)

lemma registry_ok_idx:
  "registry_ok pm hm ps \<Longrightarrow> (\<And>p. p \<in> set ps \<Longrightarrow> registry_idx (hm' p) = registry_idx (hm p)) \<Longrightarrow> registry_ok pm hm' ps"
  unfolding registry_ok_def by simp

lemma registry_ok_cong:
  assumes "registry_ok (metrics st) hm ps" "registry st' = registry st" "\<And>p. p \<in> set ps \<Longrightarrow> registry_idx (hm' p) = registry_idx (hm p)"
  shows "registry_ok (metrics st') hm' ps"
  using assms unfolding registry_ok_def registry_def by simp

lemma metrics_at_Some: "H p = Some h \<Longrightarrow> metrics_at H p = hmetrics h"
  by (simp add: metrics_at_def)

lemma metrics_at_upd: "metrics_at (H(p \<mapsto> h)) q = (if q = p then hmetrics h else metrics_at H q)"
  by (simp add: metrics_at_def)

lemma metrics_at_put: "p \<in> dom H \<Longrightarrow> metrics_at (put_metrics hm H) p = hm p"
  by (auto simp: metrics_at_def put_metrics_def)

lemma counted_idx [simp]:
  "registry_idx (counted_alloc l r m) = registry_idx m" "registry_idx (counted_free l m) = registry_idx m"
  "registry_idx (on_remote_free n m) = registry_idx m"
  by (simp_all add: counted_alloc_def counted_free_def on_alloc_def on_dealloc_def on_large_alloc_def on_large_dealloc_def
      on_remote_free_def Let_def split: option.splits)

lemma registered_op:
  assumes reg: "registered w" and h: "heap_at w p = Some h" and po: "registry (state po) = registry (state (gpool w))"
    and idx: "registry_idx (hmetrics h') = registry_idx (hmetrics h)"
  shows "registered (w\<lparr>gpool := po, gstore := s, heap_at := (heap_at w)(p \<mapsto> h')\<rparr>)"
proof -
  obtain ps where r: "registry_ok (metrics (state (gpool w))) (metrics_at (heap_at w)) ps" "set ps = dom (heap_at w)"
    using reg by (auto simp: registered_def)
  have "registry_ok (metrics (state po)) (metrics_at ((heap_at w)(p \<mapsto> h'))) ps"
    using registry_ok_cong [OF r(1) po] idx metrics_at_Some [of "heap_at w", OF h] by (simp add: metrics_at_upd)
  moreover have "dom ((heap_at w)(p \<mapsto> h')) = set ps" using r(2) h by auto
  ultimately show ?thesis unfolding registered_def by (intro exI [of _ ps]) simp
qed

text \<open>Registering the new heap and taking out the one of an exiting thread.\<close>

lemma registered_new:
  assumes reg: "registered w" and q: "q \<notin> dom (heap_at w)" "q \<noteq> 0"
    and po: "pool_register_heap q (gpool w) (metrics_at ((heap_at w)(q \<mapsto> h))) = Some (po, hm)"
  shows "\<exists>ps. registry_ok (metrics (state po)) (metrics_at (put_metrics hm ((heap_at w)(q \<mapsto> h)))) ps \<and> set ps = insert q (dom (heap_at w))"
    "dead (metrics (state po)) = dead (metrics (state (gpool w)))"
    "\<exists>j. hm = (metrics_at ((heap_at w)(q \<mapsto> h)))(q := (hmetrics h)\<lparr>registry_idx := j\<rparr>)"
proof -
  let ?H = "(heap_at w)(q \<mapsto> h)"
  obtain pm where r: "register_heap q (metrics (state (gpool w))) (metrics_at ?H) = Some (pm, hm)"
      "po = (gpool w)\<lparr>state := state (gpool w)\<lparr>metrics := pm\<rparr>\<rparr>"
    using po by (auto simp: pool_register_heap_def bind_eq_Some_conv)
  obtain ps where ps: "registry_ok (metrics (state (gpool w))) (metrics_at (heap_at w)) ps" "set ps = dom (heap_at w)"
    using reg by (auto simp: registered_def)
  have "registry_idx (metrics_at ?H p) = registry_idx (metrics_at (heap_at w) p)" if "p \<in> set ps" for p
    using that ps(2) q(1) by (auto simp: metrics_at_upd)
  note ok = registry_ok_cong [OF ps(1) refl this]
  have "length ps < MAX_HEAPS" using r(1) ok by (auto simp: register_heap_def registry_ok_def split: if_splits)
  then have "registry_ok pm hm (ps @ [q])" using register_heap_ok [OF ok, of q] r(1) q ps(2) by auto
  moreover have "registry_idx (metrics_at (put_metrics hm ?H) p) = registry_idx (hm p)" if "p \<in> set (ps @ [q])" for p
    using that ps(2) metrics_at_put [of p ?H hm] by auto
  ultimately have "registry_ok pm (metrics_at (put_metrics hm ?H)) (ps @ [q])" by (rule registry_ok_idx)
  then show "\<exists>ps. registry_ok (metrics (state po)) (metrics_at (put_metrics hm ?H)) ps \<and> set ps = insert q (dom (heap_at w))"
    using r(2) ps(2) by (intro exI [of _ "ps @ [q]"]) simp
  show "dead (metrics (state po)) = dead (metrics (state (gpool w)))"
    using r by (auto simp: register_heap_def Let_def split: if_splits)
  show "\<exists>j. hm = (metrics_at ?H)(q := (hmetrics h)\<lparr>registry_idx := j\<rparr>)"
    using r(1) by (auto simp: register_heap_def set_registry_idx_def metrics_at_upd Let_def split: if_splits)
qed

lemma registered_exit:
  assumes reg: "registered w" and p: "p \<in> dom (heap_at w)"
  shows "\<exists>po hm ps. pool_deregister_heap p (gpool w) (metrics_at (heap_at w)) = Some (po, hm) \<and>
    registry_ok (metrics (state po)) hm ps \<and> set ps = dom (heap_at w) - {p} \<and>
    dead (metrics (state po)) = accumulate (dead (metrics (state (gpool w)))) (metrics_at (heap_at w) p) \<and>
    (\<forall>q. hm q = metrics_at (heap_at w) q \<or> (\<exists>j. hm q = (metrics_at (heap_at w) q)\<lparr>registry_idx := j\<rparr>)) \<and>
    (\<exists>pm. po = (gpool w)\<lparr>state := state (gpool w)\<lparr>metrics := pm\<rparr>\<rparr>)"
proof -
  obtain ps where ps: "registry_ok (metrics (state (gpool w))) (metrics_at (heap_at w)) ps" "set ps = dom (heap_at w)"
    using reg by (auto simp: registered_def)
  obtain i where i: "i < length ps" "p = ps ! i" using p ps(2) by (metis in_set_conv_nth)
  obtain pm hm where d: "deregister_heap p (metrics (state (gpool w))) (metrics_at (heap_at w)) = Some (pm, hm)"
      "registry_ok pm hm (swap_remove i ps)" "dead pm = accumulate (dead (metrics (state (gpool w)))) (metrics_at (heap_at w) p)"
      "\<forall>q. hm q = metrics_at (heap_at w) q \<or> (\<exists>j. hm q = (metrics_at (heap_at w) q)\<lparr>registry_idx := j\<rparr>)"
    using deregister_heap_ok [OF ps(1) i(1)] i(2) by blast
  have "set (swap_remove i ps) = dom (heap_at w) - {p}"
    using set_swap_remove [OF i(1)] ps i(2) by (simp add: registry_ok_def)
  then show ?thesis using d by (simp add: pool_deregister_heap_def) blast
qed

subsection \<open>Totals over the dead and the live heaps\<close>

definition total_of :: "(HeapMetrics \<Rightarrow> u64) \<Rightarrow> ('p, 'm) process \<Rightarrow> u64" where
  "total_of f w = f (dead (metrics (state (gpool w)))) + (\<Sum>p \<in> dom (heap_at w). f (metrics_at (heap_at w) p))"

text \<open>
  A counter: a field \<open>f\<close> of the heap metrics and the field \<open>g\<close> of the snapshot it is summed into.
\<close>

locale counter =
  fixes f :: "HeapMetrics \<Rightarrow> u64" and g :: "MetricsSnapshot \<Rightarrow> u64"
  assumes f_zero: "f HeapMetrics_ZERO = 0"
    and f_idx: "f (m\<lparr>registry_idx := j\<rparr>) = f m"
    and f_accumulate: "f (accumulate m k) = f m + f k"
    and g_new: "g (MetricsSnapshot_new\<lparr>mapped := b\<rparr>) = 0"
    and g_accumulate: "g (accumulate_heap m s) = g s + f m"
    and g_finalize: "g (finalize (s\<lparr>s_abandon_count := c1, s_adopt_count := c2, s_segment_mmap_count := c3,
          s_segment_munmap_count := c4, s_slab_purge_count := c5, s_pool_lock_count := c6\<rparr>)) = g s"
    and g_active: "g (s\<lparr>active := v\<rparr>) = g s"
begin

lemma sum_heaps_total: "distinct ps \<Longrightarrow> g (sum_heaps hm ps s) = g s + (\<Sum>p \<in> set ps. f (hm p))"
  by (induction ps) (simp_all add: sum_heaps_Cons g_accumulate add_ac, simp add: sum_heaps_def)

lemma snapshot_total:
  assumes "registered w"
  shows "g (snapshot w) = total_of f w"
proof -
  obtain ps where ps: "registry_ok (metrics (state (gpool w))) (metrics_at (heap_at w)) ps" "set ps = dom (heap_at w)"
    using assms by (auto simp: registered_def)
  have "distinct ps" using ps(1) by (simp add: registry_ok_def)
  then show ?thesis
    using sum_heaps_total [of ps] ps(2)
    by (simp add: snapshot_def pool_snapshot_def Let_def g_active aggregate_heap_metrics_def g_finalize
        aggregate_sum_heaps [OF ps(1)] g_accumulate g_new total_of_def)
qed

lemma total_op:
  assumes reg: "registered w" and h: "heap_at w p = Some h" and po: "registry (state po) = registry (state (gpool w))"
  shows "total_of f (w\<lparr>gpool := po, gstore := s, heap_at := (heap_at w)(p \<mapsto> h')\<rparr>) = total_of f w - f (hmetrics h) + f (hmetrics h')"
proof -
  have fin: "finite (dom (heap_at w))" using reg by (rule registered_finite)
  let ?D = "dom (heap_at w) - {p}"
  have D: "dom (heap_at w) = insert p ?D" "dom ((heap_at w)(p \<mapsto> h')) = insert p ?D" using h by auto
  have "(\<Sum>q \<in> ?D. f (metrics_at ((heap_at w)(p \<mapsto> h')) q)) = (\<Sum>q \<in> ?D. f (metrics_at (heap_at w) q))"
    by (rule sum.cong) (simp_all add: metrics_at_upd)
  moreover have "(\<Sum>q \<in> dom (heap_at w). f (metrics_at (heap_at w) q)) = f (hmetrics h) + (\<Sum>q \<in> ?D. f (metrics_at (heap_at w) q))"
    using fin by (subst D(1), subst sum.insert) (simp_all add: metrics_at_Some [of "heap_at w", OF h])
  moreover have "(\<Sum>q \<in> dom ((heap_at w)(p \<mapsto> h')). f (metrics_at ((heap_at w)(p \<mapsto> h')) q)) =
      f (hmetrics h') + (\<Sum>q \<in> ?D. f (metrics_at ((heap_at w)(p \<mapsto> h')) q))"
    using fin unfolding D(2) by (subst sum.insert) (simp_all add: metrics_at_upd)
  ultimately show ?thesis using po by (simp add: total_of_def registry_def)
qed

lemma total_new:
  assumes reg: "registered w" and q: "q \<notin> dom (heap_at w)" "q \<noteq> 0" and h: "hmetrics h = HeapMetrics_ZERO"
    and po: "pool_register_heap q (gpool w) (metrics_at ((heap_at w)(q \<mapsto> h))) = Some (gpool w', hm)"
    and w': "heap_at w' = put_metrics hm ((heap_at w)(q \<mapsto> h))"
  shows "total_of f w' = total_of f w"
proof -
  note r = registered_new(2,3) [OF reg q po]
  have D: "dom (heap_at w') = insert q (dom (heap_at w))" using w' by simp
  have "f (metrics_at (heap_at w') p) = f (metrics_at (heap_at w) p)" if "p \<in> dom (heap_at w)" for p
  proof -
    have "p \<noteq> q" using that q(1) by blast
    then have "hm p = metrics_at (heap_at w) p" using r(2) by (auto simp: metrics_at_upd)
    then show ?thesis using that metrics_at_put [of p "(heap_at w)(q \<mapsto> h)" hm] by (simp add: w')
  qed
  moreover have "f (metrics_at (heap_at w') q) = 0"
    using r(2) h metrics_at_put [of q "(heap_at w)(q \<mapsto> h)" hm] by (auto simp: w' f_idx f_zero)
  ultimately show ?thesis
    using r(1) q(1) registered_finite [OF reg] by (simp add: total_of_def D)
qed

lemma total_exit:
  assumes reg: "registered w" and p: "p \<in> dom (heap_at w)"
    and po: "registry (state (gpool w')) = registry st"
    and dd: "dead (metrics st) = accumulate (dead (metrics (state (gpool w)))) (metrics_at (heap_at w) p)"
    and hm: "\<forall>q. hm q = metrics_at (heap_at w) q \<or> (\<exists>j. hm q = (metrics_at (heap_at w) q)\<lparr>registry_idx := j\<rparr>)"
    and w': "heap_at w' = (put_metrics hm (heap_at w))(p := None)"
  shows "total_of f w' = total_of f w"
proof -
  let ?D = "dom (heap_at w) - {p}"
  have D: "dom (heap_at w') = ?D" "dom (heap_at w) = insert p ?D" using w' p by auto
  have "f (metrics_at (heap_at w') q) = f (metrics_at (heap_at w) q)" if q: "q \<in> ?D" for q
  proof -
    have "metrics_at (heap_at w') q = hm q"
      using q metrics_at_put [of q "heap_at w" hm] by (simp add: w' metrics_at_def)
    then show ?thesis using hm [rule_format, of q] by (auto simp: f_idx)
  qed
  then have "(\<Sum>q \<in> ?D. f (metrics_at (heap_at w') q)) = (\<Sum>q \<in> ?D. f (metrics_at (heap_at w) q))" by (intro sum.cong) simp_all
  moreover have "(\<Sum>q \<in> dom (heap_at w). f (metrics_at (heap_at w) q)) = f (metrics_at (heap_at w) p) + (\<Sum>q \<in> ?D. f (metrics_at (heap_at w) q))"
    using registered_finite [OF reg] by (subst D(2), subst sum.insert) simp_all
  moreover have "f (dead (metrics (state (gpool w')))) = f (dead (metrics (state (gpool w)))) + f (metrics_at (heap_at w) p)"
    using po dd by (simp add: registry_def f_accumulate)
  ultimately show ?thesis unfolding total_of_def D(1) by simp
qed

end

interpretation alloc_bytes_counter: counter alloc_bytes s_alloc_bytes
  by unfold_locales (simp_all add: HeapMetrics_ZERO_def accumulate_def MetricsSnapshot_new_def accumulate_heap_def finalize_def)

interpretation free_bytes_counter: counter free_bytes s_free_bytes
  by unfold_locales (simp_all add: HeapMetrics_ZERO_def accumulate_def MetricsSnapshot_new_def accumulate_heap_def finalize_def)

interpretation large_alloc_counter: counter large_alloc_count s_large_alloc_count
  by unfold_locales (simp_all add: HeapMetrics_ZERO_def accumulate_def MetricsSnapshot_new_def accumulate_heap_def finalize_def)

lemma class_counter:
  assumes "c < NUM_CLASSES"
  shows "counter (\<lambda>m. class_alloc_count m c) (\<lambda>s. s_class_alloc_count s c)"
  using assms by unfold_locales
    (simp_all add: HeapMetrics_ZERO_def accumulate_def MetricsSnapshot_new_def accumulate_heap_def finalize_def add_classes_def)

subsection \<open>Steps of the process\<close>

lemma same_books:
  assumes "registry (state (gpool w')) = registry (state (gpool w))" "heap_at w' = heap_at w"
  shows "registered w' = registered w" "total_of f w' = total_of f w"
proof -
  have "registry_ok (metrics (state (gpool w'))) hm ps = registry_ok (metrics (state (gpool w))) hm ps" for hm ps
    using assms(1) by (simp add: registry_ok_def registry_def)
  then show "registered w' = registered w" using assms(2) by (simp add: registered_def)
  show "total_of f w' = total_of f w" using assms by (simp add: total_of_def registry_def)
qed

lemma init_shape:
  assumes th: "threads_ok blocks w" and lb: "libc_ok L blocks" and i: "init_heap L t w = Some (q, w')"
  shows "q = 0 \<Longrightarrow> gpool w' = gpool w \<and> heap_at w' = heap_at w"
    "q \<noteq> 0 \<Longrightarrow> \<exists>h hm. q \<notin> dom (heap_at w) \<and> hmetrics h = HeapMetrics_ZERO \<and> heap_at w' = put_metrics hm ((heap_at w)(q \<mapsto> h)) \<and>
       pool_register_heap q (gpool w) (metrics_at ((heap_at w)(q \<mapsto> h))) = Some (gpool w', hm)"
proof -
  obtain a m where m: "malloc L (size_of_heap L) (libc_state w) = (a, m)" by (metis surj_pair)
  have q: "a = q" using i m by (auto simp: init_heap_def Let_def bind_eq_Some_conv split: if_splits prod.splits)
  show "q = 0 \<Longrightarrow> gpool w' = gpool w \<and> heap_at w' = heap_at w" using i m q by (auto simp: init_heap_def)
  assume nz: "q \<noteq> 0"
  obtain h n s where new: "Heap_new (gcounter w) (gstore w) = (h, n, s)" by (metis surj_pair)
  let ?H = "(heap_at w)(q \<mapsto> h)"
  obtain po hm w2 where r: "pool_register_heap q (gpool w) (metrics_at ?H) = Some (po, hm)"
    "ensure_key L (w\<lparr>libc_state := m, gpool := po, gstore := s, gcounter := n, heap_at := put_metrics hm ?H, HEAP := (HEAP w)(t := q)\<rparr>) = Some w2"
    "w' = set_key_value L t q w2"
    using i m q nz new by (auto simp: init_heap_def Let_def bind_eq_Some_conv)
  note k = key_calls [OF lb r(2), where t = t and p = q]
  have "gpool w' = po" using arg_cong [OF k(1), of pool] r(3) by simp
  moreover have "heap_at w' = put_metrics hm ?H" using k(2) r(3) by simp
  moreover have "hmetrics h = HeapMetrics_ZERO" using new by (auto simp: Heap_new_def next_heap_id_def)
  moreover have "q \<notin> dom (heap_at w)" using libc_okD(1) [OF lb m] q nz threads_okD(2) [OF th] by blast
  ultimately show "\<exists>h hm. q \<notin> dom (heap_at w) \<and> hmetrics h = HeapMetrics_ZERO \<and> heap_at w' = put_metrics hm ((heap_at w)(q \<mapsto> h)) \<and>
       pool_register_heap q (gpool w) (metrics_at ((heap_at w)(q \<mapsto> h))) = Some (gpool w', hm)"
    using r(1) by blast
qed

lemma init_registered:
  assumes th: "threads_ok blocks w" and lb: "libc_ok L blocks" and reg: "registered w" and i: "init_heap L t w = Some (q, w')"
  shows "registered w'"
proof (cases "q = 0")
  case True
  then show ?thesis using init_shape(1) [OF th lb i] same_books(1) [of w' w] reg by simp
next
  case False
  obtain h hm where s: "q \<notin> dom (heap_at w)" "heap_at w' = put_metrics hm ((heap_at w)(q \<mapsto> h))"
      "pool_register_heap q (gpool w) (metrics_at ((heap_at w)(q \<mapsto> h))) = Some (gpool w', hm)"
    using init_shape(2) [OF th lb i False] by blast
  from registered_new(1) [OF reg s(1) False s(3)] show ?thesis using s(2) by (simp add: registered_def)
qed

lemma exit_shape:
  assumes th: "threads_ok blocks w" and x: "thread_exit A L t w = Some w'" and reg: "registered w"
  shows "key_value w t = 0 \<Longrightarrow> gpool w' = gpool w \<and> heap_at w' = heap_at w"
    "key_value w t \<noteq> 0 \<Longrightarrow> \<exists>st hm ps. key_value w t \<in> dom (heap_at w) \<and> registry_ok (metrics st) hm ps \<and>
       set ps = dom (heap_at w) - {key_value w t} \<and>
       dead (metrics st) = accumulate (dead (metrics (state (gpool w)))) (metrics_at (heap_at w) (key_value w t)) \<and>
       (\<forall>q. hm q = metrics_at (heap_at w) q \<or> (\<exists>j. hm q = (metrics_at (heap_at w) q)\<lparr>registry_idx := j\<rparr>)) \<and>
       registry (state (gpool w')) = registry st \<and> heap_at w' = (put_metrics hm (heap_at w))(key_value w t := None)"
proof -
  let ?p = "key_value w t"
  show "?p = 0 \<Longrightarrow> gpool w' = gpool w \<and> heap_at w' = heap_at w" using x by (auto simp: thread_exit_def heap_destructor_def)
  note d = threads_okD [OF th]
  assume nz: "?p \<noteq> 0"
  then have p: "?p \<in> dom (heap_at w)" using tls_okD(5) [OF d(3), of t] by simp
  then have nd: "?p \<noteq> DESTROYED" using tls_okD(2) [OF d(3)] by metis
  from registered_exit [OF reg p] obtain po hm ps where
    e: "pool_deregister_heap ?p (gpool w) (metrics_at (heap_at w)) = Some (po, hm)" "registry_ok (metrics (state po)) hm ps"
      "set ps = dom (heap_at w) - {?p}" "dead (metrics (state po)) = accumulate (dead (metrics (state (gpool w)))) (metrics_at (heap_at w) ?p)"
      "\<forall>q. hm q = metrics_at (heap_at w) q \<or> (\<exists>j. hm q = (metrics_at (heap_at w) q)\<lparr>registry_idx := j\<rparr>)" by blast
  obtain h h' po' s where r: "put_metrics hm (heap_at w) ?p = Some h" "heap_drop A (h, po, gstore w) = Some (h', po', s)"
      "gpool w' = po'" "heap_at w' = (put_metrics hm (heap_at w))(?p := None)"
    using x nz nd e(1) by (auto simp: thread_exit_def heap_destructor_def Let_def bind_eq_Some_conv)
  have "registry (state (gpool w')) = registry (state po)" using heap_drop_uncounted [OF r(2)] r(3) by (simp add: uncounted_def)
  note all = p e(2-5) this r(4)
  show "\<exists>st hm ps. ?p \<in> dom (heap_at w) \<and> registry_ok (metrics st) hm ps \<and> set ps = dom (heap_at w) - {?p} \<and>
       dead (metrics st) = accumulate (dead (metrics (state (gpool w)))) (metrics_at (heap_at w) ?p) \<and>
       (\<forall>q. hm q = metrics_at (heap_at w) q \<or> (\<exists>j. hm q = (metrics_at (heap_at w) q)\<lparr>registry_idx := j\<rparr>)) \<and>
       registry (state (gpool w')) = registry st \<and> heap_at w' = (put_metrics hm (heap_at w))(?p := None)"
    by (intro exI [of _ "state po"] exI [of _ hm] exI [of _ ps] conjI) (fact all)+
qed

lemma exit_registered:
  assumes th: "threads_ok blocks w" and x: "thread_exit A L t w = Some w'" and reg: "registered w"
  shows "registered w'"
proof (cases "key_value w t = 0")
  case True
  then show ?thesis using exit_shape(1) [OF th x reg] same_books(1) [of w' w] reg by simp
next
  case False
  obtain st hm ps where e: "registry_ok (metrics st) hm ps" "set ps = dom (heap_at w) - {key_value w t}"
      "registry (state (gpool w')) = registry st" "heap_at w' = (put_metrics hm (heap_at w))(key_value w t := None)"
    using exit_shape(2) [OF th x reg False] by blast
  have "registry_idx (metrics_at (heap_at w') q) = registry_idx (hm q)" if "q \<in> set ps" for q
    using that e(2,4) metrics_at_put [of q "heap_at w" hm] by (simp add: metrics_at_def)
  from registry_ok_cong [OF e(1,3) this] have "registry_ok (metrics (state (gpool w'))) (metrics_at (heap_at w')) ps" .
  moreover have "set ps = dom (heap_at w')" using e(2,4) by auto
  ultimately show ?thesis unfolding registered_def by blast
qed

context counter
begin

lemma init_total:
  assumes th: "threads_ok blocks w" and lb: "libc_ok L blocks" and reg: "registered w" and i: "init_heap L t w = Some (q, w')"
  shows "total_of f w' = total_of f w"
proof (cases "q = 0")
  case True
  then show ?thesis using init_shape(1) [OF th lb i] same_books(2) [of w' w] by simp
next
  case False
  then show ?thesis using init_shape(2) [OF th lb i False] total_new [OF reg _ False] by blast
qed

lemma thread_exit_total:
  assumes th: "threads_ok blocks w" and x: "thread_exit A L t w = Some w'" and reg: "registered w"
  shows "total_of f w' = total_of f w"
proof (cases "key_value w t = 0")
  case True
  then show ?thesis using exit_shape(1) [OF th x reg] same_books(2) [of w' w] by simp
next
  case False
  obtain st hm ps where "key_value w t \<in> dom (heap_at w)"
      "dead (metrics st) = accumulate (dead (metrics (state (gpool w)))) (metrics_at (heap_at w) (key_value w t))"
      "\<forall>q. hm q = metrics_at (heap_at w) q \<or> (\<exists>j. hm q = (metrics_at (heap_at w) q)\<lparr>registry_idx := j\<rparr>)"
      "registry (state (gpool w')) = registry st" "heap_at w' = (put_metrics hm (heap_at w))(key_value w t := None)"
    using exit_shape(2) [OF th x reg False] by (elim exE conjE)
  then show ?thesis using total_exit [OF reg, of "key_value w t" w' st hm] by simp
qed

end

context page_allocator
begin

text \<open>An allocation that succeeds is not null.\<close>

lemma heap_alloc_positive:
  assumes th: "threads_ok blocks w" and R: "refines owns (view w) a" and l: "layout_ok l" "0 < lsize l"
    and h: "heap_at w ptr = Some h" "heap_alloc A l (h, gpool w, gstore w) = Some (Some q, h', po, s)"
  shows "0 < q"
proof -
  let ?\<sigma> = "(view w)\<lparr>pool := po, store := s, heaps := (heaps (view w))(hid h \<mapsto> h')\<rparr>"
  have "step A (view w) (Alloc (hid h) l (Some q)) ?\<sigma>" using h by (intro step_alloc) (simp_all add: by_id_at [OF th h(1)])
  moreover have "legal a (Alloc (hid h) l (Some q))" using l by (cases a) simp
  ultimately obtain a' where "ideal_step a (Alloc (hid h) l (Some q)) a'" using step_simulates [OF R] by blast
  then show ?thesis by (auto elim: ideal_someE simp: fits_in_def)
qed

lemma heap_call_alloc_shape:
  assumes th: "threads_ok blocks w" and R: "refines owns (view w) a" and l: "layout_ok l" "0 < lsize l"
    and c: "heap_call_alloc A l ptr w = Some (p, w')"
  shows "\<exists>h h' po s. heap_at w ptr = Some h \<and> w' = w\<lparr>gpool := po, gstore := s, heap_at := (heap_at w)(ptr \<mapsto> h')\<rparr> \<and>
    registry (state po) = registry (state (gpool w)) \<and> hmetrics h' = counted_alloc l (if p = 0 then None else Some p) (hmetrics h)"
proof -
  obtain h r h' po s where h: "heap_at w ptr = Some h" "heap_alloc A l (h, gpool w, gstore w) = Some (r, h', po, s)"
    "p = (case r of Some p \<Rightarrow> p | None \<Rightarrow> null)" "w' = w\<lparr>gpool := po, gstore := s, heap_at := (heap_at w)(ptr \<mapsto> h')\<rparr>"
    using c by (auto simp: heap_call_alloc_def bind_eq_Some_conv)
  have "r = (if p = 0 then None else Some p)"
    using h(2,3) heap_alloc_positive [OF th R l h(1)] by (cases r) auto
  then show ?thesis using h(1,4) heap_alloc_counts [OF h(2)] by blast
qed

end

text \<open>What a call of the program adds to a total; nothing for requests of size zero and for failures.\<close>

fun event_amount :: "(layout \<Rightarrow> nat) \<Rightarrow> gevent \<Rightarrow> nat" where
  "event_amount amount (GAlloc t l p) = (if lsize l = 0 \<or> p = null then 0 else amount l)"
| "event_amount amount e = 0"

locale alloc_counter = counter f g for f g +
  fixes amount :: "layout \<Rightarrow> nat"
  assumes f_alloc: "f (counted_alloc l (Some p) m) = f m + of_nat (amount l)"
    and f_free: "f (counted_free l m) = f m" and f_remote: "f (on_remote_free n m) = f m"
begin

lemma f_counted: "f (counted_alloc l (if p = 0 then None else Some p) m) = f m + of_nat (if p = 0 then 0 else amount l)"
  using f_alloc by (simp add: counted_alloc_def)

lemma call_alloc_total:
  assumes A: "page_allocator A owns" and th: "threads_ok blocks w" and R: "refines owns (view w) a" and l: "layout_ok l" "0 < lsize l"
    and c: "heap_call_alloc A l ptr w = Some (p, w')" and reg: "registered w"
  shows "registered w' \<and> total_of f w' = total_of f w + of_nat (event_amount amount (GAlloc t l p))"
proof -
  obtain h h' po s where r: "heap_at w ptr = Some h" "w' = w\<lparr>gpool := po, gstore := s, heap_at := (heap_at w)(ptr \<mapsto> h')\<rparr>"
      "registry (state po) = registry (state (gpool w))" "hmetrics h' = counted_alloc l (if p = 0 then None else Some p) (hmetrics h)"
    using page_allocator.heap_call_alloc_shape [OF A th R l c] by blast
  have "registered w'" using registered_op [OF reg r(1,3)] r(2,4) by simp
  moreover have "total_of f w' = total_of f w + of_nat (event_amount amount (GAlloc t l p))"
    using total_op [OF reg r(1,3), where s = s and h' = h'] r(2,4) f_counted l(2) by simp
  ultimately show ?thesis by blast
qed

lemma global_alloc_total:
  assumes A: "page_allocator A owns" and th: "threads_ok blocks w" and R: "refines owns (view w) a" and lb: "libc_ok L blocks"
    and cnt: "gcounter w + 1 \<noteq> 0" and l: "layout_ok l" and g: "global_alloc A L t l w = Some (p, w')" and reg: "registered w"
  shows "registered w' \<and> total_of f w' = total_of f w + of_nat (event_amount amount (GAlloc t l p))"
proof -
  consider "lsize l = 0 \<or> HEAP w t = DESTROYED" | "0 < lsize l" "HEAP w t = 0" "HEAP w t \<noteq> DESTROYED"
    | "0 < lsize l" "HEAP w t \<noteq> 0" "HEAP w t \<noteq> DESTROYED" by blast
  then show ?thesis
  proof cases
    case 1
    then have "w' = w" "lsize l = 0 \<or> p = 0" using g by (auto simp: global_alloc_def split: if_splits)
    then show ?thesis using reg by auto
  next
    case 2
    obtain ptr w1 where i: "init_heap L t w = Some (ptr, w1)"
        "(if ptr = 0 then Some (0, w1) else heap_call_alloc A l ptr w1) = Some (p, w')"
      using g 2 by (auto simp: global_alloc_def bind_eq_Some_conv)
    note ok = page_allocator.init_ok [OF A th R lb cnt 2(2) i(1)]
    note b = init_registered [OF th lb reg i(1)] init_total [OF th lb reg i(1)]
    show ?thesis
    proof (cases "ptr = 0")
      case True
      then show ?thesis using i(2) b by auto
    next
      case False
      then show ?thesis using call_alloc_total [OF A ok l 2(1) _ b(1), of ptr p w' t] i(2) b(2) by simp
    qed
  next
    case 3
    then have "heap_call_alloc A l (HEAP w t) w = Some (p, w')" using g by (simp add: global_alloc_def)
    then show ?thesis using call_alloc_total [OF A th R l 3(1) _ reg] by blast
  qed
qed

end

lemma global_dealloc_shape:
  assumes th: "threads_ok blocks w" and d: "global_dealloc A t p l w = Some w'"
  shows "lsize l = 0 \<or> HEAP w t = null \<or> HEAP w t = DESTROYED \<Longrightarrow>
      registry (state (gpool w')) = registry (state (gpool w)) \<and> heap_at w' = heap_at w"
    "0 < lsize l \<Longrightarrow> HEAP w t \<noteq> null \<Longrightarrow> HEAP w t \<noteq> DESTROYED \<Longrightarrow>
      \<exists>h h' po s. heap_at w (HEAP w t) = Some h \<and> w' = w\<lparr>gpool := po, gstore := s, heap_at := (heap_at w)(HEAP w t \<mapsto> h')\<rparr> \<and>
        registry (state po) = registry (state (gpool w)) \<and>
        (hmetrics h' = counted_free l (hmetrics h) \<or> hmetrics h' = on_remote_free 1 (counted_free l (hmetrics h)))"
proof -
  show "registry (state (gpool w')) = registry (state (gpool w)) \<and> heap_at w' = heap_at w"
    if "lsize l = 0 \<or> HEAP w t = null \<or> HEAP w t = DESTROYED"
    using that d by (auto simp: global_dealloc_def split: if_splits option.splits prod.splits dest!: dealloc_large_registry)
  assume "0 < lsize l" "HEAP w t \<noteq> null" "HEAP w t \<noteq> DESTROYED"
  then obtain h h' po s where h: "heap_at w (HEAP w t) = Some h" "heap_dealloc A p l (h, gpool w, gstore w) = Some (h', po, s)"
      "w' = w\<lparr>gpool := po, gstore := s, heap_at := (heap_at w)(HEAP w t \<mapsto> h')\<rparr>"
    using d by (auto simp: global_dealloc_def bind_eq_Some_conv)
  then show "\<exists>h h' po s. heap_at w (HEAP w t) = Some h \<and> w' = w\<lparr>gpool := po, gstore := s, heap_at := (heap_at w)(HEAP w t \<mapsto> h')\<rparr> \<and>
        registry (state po) = registry (state (gpool w)) \<and>
        (hmetrics h' = counted_free l (hmetrics h) \<or> hmetrics h' = on_remote_free 1 (counted_free l (hmetrics h)))"
    using heap_dealloc_counts [OF h(2)] by blast
qed

lemma dealloc_registered:
  assumes th: "threads_ok blocks w" and d: "global_dealloc A t p l w = Some w'" and reg: "registered w"
  shows "registered w'"
proof (cases "lsize l = 0 \<or> HEAP w t = null \<or> HEAP w t = DESTROYED")
  case True
  then show ?thesis using global_dealloc_shape(1) [OF th d] same_books(1) [of w' w] reg by simp
next
  case False
  then show ?thesis using global_dealloc_shape(2) [OF th d] registered_op [OF reg] by fastforce
qed

context alloc_counter
begin

lemma gstep_total:
  assumes A: "page_allocator A owns" and th: "threads_ok blocks w" and R: "refines owns (view w) a" and lb: "libc_ok L blocks"
    and st: "gstep A L w e w'" and lg: "glegal a e" and reg: "registered w"
  shows "registered w' \<and> total_of f w' = total_of f w + of_nat (event_amount amount e)"
  using st
proof cases
  case (gstep_alloc t l p)
  then show ?thesis using global_alloc_total [OF A th R lb gstep_alloc(2) _ gstep_alloc(3) reg] lg by (cases a) simp
next
  case (gstep_free t p l)
  have "total_of f w' = total_of f w"
  proof (cases "lsize l = 0 \<or> HEAP w t = null \<or> HEAP w t = DESTROYED")
    case True
    then show ?thesis using global_dealloc_shape(1) [OF th gstep_free(2)] same_books(2) [of w' w] by simp
  next
    case False
    then obtain h h' po s where r: "heap_at w (HEAP w t) = Some h"
        "w' = w\<lparr>gpool := po, gstore := s, heap_at := (heap_at w)(HEAP w t \<mapsto> h')\<rparr>" "registry (state po) = registry (state (gpool w))"
        "hmetrics h' = counted_free l (hmetrics h) \<or> hmetrics h' = on_remote_free 1 (counted_free l (hmetrics h))"
      using global_dealloc_shape(2) [OF th gstep_free(2)] by blast
    have "f (hmetrics h') = f (hmetrics h)" using r(4) f_free f_remote by auto
    then show ?thesis using total_op [OF reg r(1,3), where s = s and h' = h'] r(2) by simp
  qed
  then show ?thesis using dealloc_registered [OF th gstep_free(2) reg] gstep_free(1) by simp
next
  case (gstep_exit t)
  then show ?thesis using exit_registered [OF th _ reg] thread_exit_total [OF th _ reg] by auto
next
  case (gstep_write x v)
  then show ?thesis using same_books [of w' w] reg by simp
qed

end

text \<open>Along a run in which the program keeps its contract.\<close>

lemma client_keeps:
  assumes "\<not> client_breaks astep lawful a (e # es)"
  shows "lawful a e" "astep a e a1 \<Longrightarrow> \<not> client_breaks astep lawful a1 es"
proof -
  show "lawful a e"
  proof (rule ccontr)
    assume "\<not> lawful a e"
    then have "e # es = [] @ e # es \<and> trace astep a [] a \<and> \<not> lawful a e" by simp
    then show False using assms unfolding client_breaks_def by blast
  qed
  show "\<not> client_breaks astep lawful a1 es" if st: "astep a e a1"
  proof
    assume "client_breaks astep lawful a1 es"
    then obtain es1 f es2 a2 where "es = es1 @ f # es2" "trace astep a1 es1 a2" "\<not> lawful a2 f"
      by (auto simp: client_breaks_def)
    then have "e # es = (e # es1) @ f # es2 \<and> trace astep a (e # es1) a2 \<and> \<not> lawful a2 f"
      using st by (auto intro: trace.intros)
    then show False using assms unfolding client_breaks_def by blast
  qed
qed

context alloc_counter
begin

lemma run_total:
  assumes A: "page_allocator A owns" and lb: "libc_ok L blocks"
  shows "trace (gstep A L) w es w' \<Longrightarrow> threads_ok blocks w \<Longrightarrow> refines owns (view w) a \<Longrightarrow> registered w \<Longrightarrow>
    \<not> client_breaks gideal_step glegal a es \<Longrightarrow>
    registered w' \<and> total_of f w' = total_of f w + of_nat (sum_list (map (event_amount amount) es))"
proof (induction arbitrary: a rule: trace.induct)
  case (trace_cons w e w1 es w')
  note lg = client_keeps [OF trace_cons.prems(4)]
  note g = gstep_total [OF A trace_cons.prems(1,2) lb trace_cons.hyps(1) lg(1) trace_cons.prems(3)]
  obtain a1 where a1: "gideal_step a e a1" "threads_ok blocks w1" "refines owns (view w1) a1"
    using page_allocator.gstep_simulates [OF A lb trace_cons.prems(1,2) trace_cons.hyps(1) lg(1)] by blast
  show ?case using trace_cons.IH [OF a1(2,3) conjunct1 [OF g] lg(2) [OF a1(1)]] g by simp
qed simp

end

definition request_size :: "layout \<Rightarrow> nat" where
  "request_size l = (case class_index l of None \<Rightarrow> lsize l | Some c \<Rightarrow> class_size c)"

lemmas counting = counted_alloc_def counted_free_def on_alloc_def on_dealloc_def on_large_alloc_def on_large_dealloc_def
  on_remote_free_def inc_def inc_at_def

interpretation alloc_bytes_books: alloc_counter alloc_bytes s_alloc_bytes request_size
  by unfold_locales (simp_all add: counting request_size_def Let_def split: option.splits)

interpretation large_alloc_books: alloc_counter large_alloc_count s_large_alloc_count "\<lambda>l. if class_index l = None then 1 else 0"
  by unfold_locales (simp_all add: counting Let_def split: option.splits)

lemma class_books:
  "c < NUM_CLASSES \<Longrightarrow>
     alloc_counter (\<lambda>m. class_alloc_count m c) (\<lambda>s. s_class_alloc_count s c) (\<lambda>l. if class_index l = Some c then 1 else 0)"
  by (intro alloc_counter.intro class_counter, assumption, unfold_locales) (simp_all add: counting Let_def split: option.splits)

lemma process_start:
  assumes pa: "owns pa {}"
  shows "threads_ok blocks (ClMalloc_new pa s m)" "refines owns (view (ClMalloc_new pa s m)) (\<lambda>_. None, bytes s)"
    "registered (ClMalloc_new pa s m)" "counter f g \<Longrightarrow> total_of f (ClMalloc_new pa s m) = 0"
proof -
  have "by_id (\<lambda>_. None) = (\<lambda>_. None)" by (rule ext) (simp add: by_id_def)
  then have "view (ClMalloc_new pa s m) = initial pa s" by (simp add: view_def ClMalloc_new_def initial_def)
  then show "refines owns (view (ClMalloc_new pa s m)) (\<lambda>_. None, bytes s)"
    using initial_ok [of owns pa s] pa by (auto simp: refines_def program_bytes_def initial_def)
  show "threads_ok blocks (ClMalloc_new pa s m)"
    by (simp add: threads_ok_def ClMalloc_new_def tls_ok_def ids_inj_def)
  show "registered (ClMalloc_new pa s m)"
    using registry_new by (auto simp: registered_def ClMalloc_new_def PagePool_new_def intro!: exI [of _ "[]"])
  show "total_of f (ClMalloc_new pa s m) = 0" if "counter f g"
    using counter.f_zero [OF that] by (simp add: total_of_def ClMalloc_new_def PagePool_new_def PoolMetrics_new_def)
qed

lemma counter_run:
  assumes c: "alloc_counter f g amount" and run: "page_allocator A owns" "libc_ok L blocks" "owns pa {}"
      "trace (gstep A L) (ClMalloc_new pa s m) es w" "\<not> client_breaks gideal_step glegal (\<lambda>_. None, bytes s) es"
  shows "registered w" "g (snapshot w) = of_nat (sum_list (map (event_amount amount) es))"
proof -
  note c' = alloc_counter.axioms(1) [OF c]
  note R = alloc_counter.run_total [OF c run(1,2,4) process_start(1,2,3) [of owns, OF run(3)] run(5)]
  then show "registered w" by blast
  then show "g (snapshot w) = of_nat (sum_list (map (event_amount amount) es))"
    using R counter.snapshot_total [OF c', of w] process_start(4) [of owns pa f g s m, OF run(3) c'] by simp
qed

text \<open>A thread's exit returns.\<close>

lemma exit_returns:
  assumes A: "page_allocator A owns" and th: "threads_ok blocks w" and R: "refines owns (view w) a" and reg: "registered w"
  shows "\<exists>w'. thread_exit A L t w = Some w' \<and> (key_value w t \<noteq> null \<longrightarrow> HEAP w' t = DESTROYED \<and> dom (heap_at w') = dom (heap_at w) - {HEAP w t})"
proof (cases "key_value w t = null")
  case True
  then show ?thesis by (simp add: thread_exit_def heap_destructor_def)
next
  case False
  let ?p = "key_value w t"
  note d = threads_okD [OF th]
  have p: "?p \<in> dom (heap_at w)" "?p = HEAP w t" using tls_okD(5) [OF d(3) False] by auto
  have nd: "?p \<noteq> DESTROYED" using tls_okD(2) [OF d(3)] p(1) by metis
  obtain po hm pm where e: "pool_deregister_heap ?p (gpool w) (metrics_at (heap_at w)) = Some (po, hm)"
      "po = (gpool w)\<lparr>state := state (gpool w)\<lparr>metrics := pm\<rparr>\<rparr>"
    using registered_exit [OF reg p(1)] by blast
  let ?H = "put_metrics hm (heap_at w)"
  obtain h where h: "?H ?p = Some h" using p(1) by (auto simp: put_metrics_def)
  have "alike (heaps (view w)) (by_id ?H)" using alike_put_metrics [OF d(1)] by simp
  from refines_alike [OF R this, of pm] have "refines owns ((view w)\<lparr>pool := po, heaps := by_id ?H\<rparr>) a" using e(2) by simp
  then obtain G al where so: "system_ok owns G al ((view w)\<lparr>pool := po, heaps := by_id ?H\<rparr>)"
    by (cases a) (auto simp: refines_def)
  have hi: "heaps ((view w)\<lparr>pool := po, heaps := by_id ?H\<rparr>) (hid h) = Some h"
    using by_id_iff [OF put_metrics_inj [OF d(1)], of hm] h by auto
  obtain h' po' s where "heap_drop A (h, po, gstore w) = Some (h', po', s)"
    using page_allocator.system_drop [OF A so hi] by auto
  then show ?thesis using False nd e(1) h p(2) by (simp add: thread_exit_def heap_destructor_def)
qed

subsection \<open>Properties\<close>

text \<open>
  C8. The counters of a snapshot are exact for allocations. In a run in which the program keeps its
  contract, whatever threads come and go, the allocated bytes of a snapshot are the sum of the slot
  sizes (or sizes, for large requests) of all successful allocations, the count of each size class
  is the number of successful allocations of that class, and so for large ones, modulo \<open>2 ^ 64\<close>:
  each is counted once, in one heap, and none is lost when a heap is registered or dies.
\<close>

theorem snapshot_counts_allocations:
  assumes "page_allocator A owns" and "libc_ok L blocks" and "owns pa {}" and "trace (gstep A L) (ClMalloc_new pa s m) es w"
    and "\<not> client_breaks gideal_step glegal (\<lambda>_. None, bytes s) es"
  shows "s_alloc_bytes (snapshot w) = of_nat (sum_list (map (event_amount request_size) es)) \<and>
    (\<forall>c < NUM_CLASSES. s_class_alloc_count (snapshot w) c =
       of_nat (sum_list (map (event_amount (\<lambda>l. if class_index l = Some c then 1 else 0)) es))) \<and>
    s_large_alloc_count (snapshot w) = of_nat (sum_list (map (event_amount (\<lambda>l. if class_index l = None then 1 else 0)) es))"
  using counter_run(2) [OF alloc_bytes_books.alloc_counter_axioms assms] counter_run(2) [OF class_books assms]
    counter_run(2) [OF large_alloc_books.alloc_counter_axioms assms] by blast

theorem snapshot_counts_allocations_witness:
  "\<exists>p w. trace (gstep bump_pages one_block) one_start [GAlloc 0 small_layout p] w \<and>
     s_alloc_bytes (snapshot w) = of_nat (event_amount request_size (GAlloc 0 small_layout p))"
proof -
  obtain p w where t: "trace (gstep bump_pages one_block) one_start [GAlloc 0 small_layout p] w" using one_alloc by blast
  then have "s_alloc_bytes (snapshot w) = of_nat (event_amount request_size (GAlloc 0 small_layout p))"
    using snapshot_counts_allocations [OF bump_contract one_block_ok bump_empty t one_legal] by simp
  then show ?thesis using t by blast
qed

text \<open>
  C26. Frees and the snapshot. A free by a thread whose heap is alive adds the size of the allocation to
  the freed bytes; a free by a thread that never allocated, or after its heap was destroyed, returns
  the memory but is counted nowhere. In both cases the allocated bytes do not change, so the bytes a
  snapshot reports as live stay too high for ever after a free of the second kind.
\<close>

theorem heapless_free_uncounted:
  assumes "page_allocator A owns" and "libc_ok L blocks" and "owns pa {}" and "trace (gstep A L) (ClMalloc_new pa s m) es w"
    and "\<not> client_breaks gideal_step glegal (\<lambda>_. None, bytes s) es"
    and "global_dealloc A t p l w = Some w'" and "0 < lsize l"
  shows "s_free_bytes (snapshot w') = s_free_bytes (snapshot w) +
      (if HEAP w t = null \<or> HEAP w t = DESTROYED then 0 else of_nat (request_size l)) \<and>
    s_alloc_bytes (snapshot w') = s_alloc_bytes (snapshot w)"
proof -
  note ru = counter_run(1) [OF alloc_bytes_books.alloc_counter_axioms assms(1-5)]
  have th: "threads_ok blocks w" using page_allocator.global_run [OF assms(1-5)] by blast
  have ru': "registered w'" by (rule dealloc_registered [OF th assms(6) ru])
  note tot = free_bytes_counter.snapshot_total [OF ru] free_bytes_counter.snapshot_total [OF ru']
    alloc_bytes_counter.snapshot_total [OF ru] alloc_bytes_counter.snapshot_total [OF ru']
  show ?thesis
  proof (cases "HEAP w t = null \<or> HEAP w t = DESTROYED")
    case True
    then show ?thesis using global_dealloc_shape(1) [OF th assms(6)] same_books(2) [of w' w] tot by simp
  next
    case False
    then obtain h h' po s where r: "heap_at w (HEAP w t) = Some h"
        "w' = w\<lparr>gpool := po, gstore := s, heap_at := (heap_at w)(HEAP w t \<mapsto> h')\<rparr>" "registry (state po) = registry (state (gpool w))"
        "hmetrics h' = counted_free l (hmetrics h) \<or> hmetrics h' = on_remote_free 1 (counted_free l (hmetrics h))"
      using global_dealloc_shape(2) [OF th assms(6,7)] by blast
    have "free_bytes (hmetrics h') = free_bytes (hmetrics h) + of_nat (request_size l)" "alloc_bytes (hmetrics h') = alloc_bytes (hmetrics h)"
      using r(4) by (auto simp: counting request_size_def Let_def split: option.splits)
    then show ?thesis
      using False tot free_bytes_counter.total_op [OF ru r(1,3), where s = s and h' = h']
        alloc_bytes_counter.total_op [OF ru r(1,3), where s = s and h' = h'] r(2) by simp
  qed
qed

lemma init_other_thread:
  assumes lb: "libc_ok L blocks" and i: "init_heap L t w = Some (q, w')" and u: "u \<noteq> t"
  shows "HEAP w' u = HEAP w u"
proof -
  obtain a m where m: "malloc L (size_of_heap L) (libc_state w) = (a, m)" by (metis surj_pair)
  obtain h n s where new: "Heap_new (gcounter w) (gstore w) = (h, n, s)" by (metis surj_pair)
  show ?thesis
  proof (cases "a = 0")
    case True
    then show ?thesis using i m by (auto simp: init_heap_def)
  next
    case False
    let ?H = "(heap_at w)(a \<mapsto> h)"
    obtain po hm w2 where r: "w' = set_key_value L t a w2" "ensure_key L (w\<lparr>libc_state := m, gpool := po, gstore := s,
        gcounter := n, heap_at := put_metrics hm ?H, HEAP := (HEAP w)(t := a)\<rparr>) = Some w2"
      using i m False new by (auto simp: init_heap_def Let_def bind_eq_Some_conv)
    then show ?thesis using key_calls(3) [OF lb r(2), where t = t and p = a] u by simp
  qed
qed

lemma alloc_other_thread:
  assumes lb: "libc_ok L blocks" and g: "global_alloc A L t l w = Some (p, w')" and u: "u \<noteq> t"
  shows "HEAP w' u = HEAP w u"
proof -
  have call: "HEAP w2 = HEAP w1" if "heap_call_alloc A l q w1 = Some (p, w2)" for q w1 w2
    using that by (auto simp: heap_call_alloc_def bind_eq_Some_conv)
  show ?thesis
  proof (cases "lsize l \<noteq> 0 \<and> HEAP w t = 0")
    case True
    then obtain q w1 where i: "init_heap L t w = Some (q, w1)"
        "(if q = 0 then Some (0, w1) else heap_call_alloc A l q w1) = Some (p, w')"
      using g by (auto simp: global_alloc_def bind_eq_Some_conv DESTROYED_def)
    then have "HEAP w' = HEAP w1" using call by (auto split: if_splits)
    then show ?thesis using init_other_thread [OF lb i(1) u] by simp
  next
    case False
    then show ?thesis using g call [of "HEAP w t" w w'] by (auto simp: global_alloc_def split: if_splits)
  qed
qed

theorem heapless_free_uncounted_witness:
  "\<exists>p w w'. trace (gstep bump_pages one_block) one_start [GAlloc 0 small_layout p] w \<and>
     global_dealloc bump_pages 1 p small_layout w = Some w' \<and> s_free_bytes (snapshot w') = s_free_bytes (snapshot w)"
proof -
  obtain p w where t: "trace (gstep bump_pages one_block) one_start [GAlloc 0 small_layout p] w" using one_alloc by blast
  then have "global_alloc bump_pages one_block 0 small_layout one_start = Some (p, w)"
    by (auto elim!: trace_consE gstep.cases)
  then have H: "HEAP w 1 = 0" using alloc_other_thread [OF one_block_ok, of bump_pages 0 small_layout one_start p w 1]
    by (simp add: ClMalloc_new_def)
  then obtain w' where d: "global_dealloc bump_pages 1 p small_layout w = Some w'"
    by (cases "class_index small_layout") (auto simp: global_dealloc_def split_def small_layout_def)
  have "0 < lsize small_layout" by (simp add: small_layout_def)
  from heapless_free_uncounted [OF bump_contract one_block_ok bump_empty t one_legal d this] H
  have "s_free_bytes (snapshot w') = s_free_bytes (snapshot w)" by simp
  then show ?thesis using t d by (intro exI [of _ p] exI [of _ w] exI [of _ w'] conjI)
qed

text \<open>
  C7. The registry of the pool lists exactly the heap objects of the process at every point of a run,
  and a thread's exit returns without a panic: its heap is taken out of the registry, its slabs are
  given up, the heap object is gone and the thread's pointer is \<open>DESTROYED\<close>; the allocated
  and freed bytes of a snapshot are the same before and after.
\<close>

theorem thread_exit_returns:
  assumes "page_allocator A owns" and "libc_ok L blocks" and "owns pa {}" and "trace (gstep A L) (ClMalloc_new pa s m) es w"
    and "\<not> client_breaks gideal_step glegal (\<lambda>_. None, bytes s) es"
  shows "heap_ptrs (metrics (state (gpool w))) ` {..<heap_count (metrics (state (gpool w)))} = dom (heap_at w) \<and>
    (\<exists>w'. thread_exit A L t w = Some w' \<and>
       (key_value w t \<noteq> null \<longrightarrow> HEAP w' t = DESTROYED \<and> dom (heap_at w') = dom (heap_at w) - {HEAP w t}) \<and>
       s_alloc_bytes (snapshot w') = s_alloc_bytes (snapshot w) \<and> s_free_bytes (snapshot w') = s_free_bytes (snapshot w))"
proof -
  note ru = counter_run(1) [OF alloc_bytes_books.alloc_counter_axioms assms]
  obtain a where th: "threads_ok blocks w" and R: "refines owns (view w) a"
    using page_allocator.global_run [OF assms] by blast
  obtain w' where x: "thread_exit A L t w = Some w'"
      "key_value w t \<noteq> null \<longrightarrow> HEAP w' t = DESTROYED \<and> dom (heap_at w') = dom (heap_at w) - {HEAP w t}"
    using exit_returns [OF assms(1) th R ru] by blast
  have ru': "registered w'" by (rule exit_registered [OF th x(1) ru])
  have "s_alloc_bytes (snapshot w') = s_alloc_bytes (snapshot w)" "s_free_bytes (snapshot w') = s_free_bytes (snapshot w)"
    using alloc_bytes_counter.snapshot_total [OF ru] alloc_bytes_counter.snapshot_total [OF ru']
      free_bytes_counter.snapshot_total [OF ru] free_bytes_counter.snapshot_total [OF ru']
      alloc_bytes_counter.thread_exit_total [OF th x(1) ru] free_bytes_counter.thread_exit_total [OF th x(1) ru] by simp_all
  moreover have "heap_ptrs (metrics (state (gpool w))) ` {..<heap_count (metrics (state (gpool w)))} = dom (heap_at w)"
  proof -
    obtain ps where ps: "registry_ok (metrics (state (gpool w))) (metrics_at (heap_at w)) ps" "set ps = dom (heap_at w)"
      using ru by (auto simp: registered_def)
    have "heap_ptrs (metrics (state (gpool w))) ` {..<length ps} = (!) ps ` {..<length ps}"
      using ps(1) by (intro image_cong) (simp_all add: registry_ok_def)
    then show ?thesis using ps by (simp add: registry_ok_def nth_image lessThan_atLeast0)
  qed
  ultimately show ?thesis using x by blast
qed

theorem thread_exit_returns_witness:
  "\<exists>p w w'. trace (gstep bump_pages one_block) one_start [GAlloc 0 small_layout p] w \<and>
     thread_exit bump_pages one_block 0 w = Some w' \<and> s_alloc_bytes (snapshot w') = s_alloc_bytes (snapshot w)"
proof -
  obtain p w where t: "trace (gstep bump_pages one_block) one_start [GAlloc 0 small_layout p] w" using one_alloc by blast
  from thread_exit_returns [OF bump_contract one_block_ok bump_empty t one_legal, of 0]
  obtain w' where "thread_exit bump_pages one_block 0 w = Some w'" "s_alloc_bytes (snapshot w') = s_alloc_bytes (snapshot w)"
    by (elim conjE exE)
  then show ?thesis using t by (intro exI [of _ p] exI [of _ w] exI [of _ w'] conjI)
qed

end
