(* ===== verification/Heap_Typing.thy ===== *)
theory Heap_Typing
  imports Heap_System
begin

text \<open>
  The typing of the heap: what the code reads through a pointer is what it takes it for. A bin or
  queue of class \<open>c\<close> of a heap holds addresses of pages with a slab header of that class and that
  owner, and masking a pointer of the program gives the header of its slab
  (\<open>SlabHeader::from_ptr\<close> in \<open>src/src/slab.rs\<close>, on which \<open>Heap::dealloc\<close> relies).
\<close>

definition typed_slab :: "store \<Rightarrow> nat \<Rightarrow> addr \<Rightarrow> bool" where
  "typed_slab s c b \<longleftrightarrow> base_ok b \<and> header_ok (hdr s b) c"

definition typed_heap :: "'p allocator \<Rightarrow> u64 \<Rightarrow> heap \<Rightarrow> bool" where
  "typed_heap \<sigma> i h \<longleftrightarrow> hid h = i \<and>
     (\<forall>c b. bins h c = Some b \<longrightarrow> typed_slab (store \<sigma>) c b \<and> heap_id (hdr (store \<sigma>) b) = i) \<and>
     (\<forall>k c. \<exists>xs. dll (store \<sigma>) (i, k, c) xs \<and>
        (\<forall>b \<in> set xs. typed_slab (store \<sigma>) c b \<and> heap_id (hdr (store \<sigma>) b) = i \<and>
           bins h c \<noteq> Some b \<and> (k = Full \<longleftrightarrow> free_count b (store \<sigma>) = 0)))"

definition typed_pointer :: "store \<Rightarrow> addr \<Rightarrow> nat \<Rightarrow> bool" where
  "typed_pointer s p c \<longleftrightarrow> typed_slab s c (slab_from_ptr p) \<and> (\<exists>n < n_slots c. p = slot_addr (slab_from_ptr p) c n)"

lemma placed_slab:
  assumes "sys_ok owns G hs po s w" "place_of G b = Some pl" "is_slab pl"
  shows "typed_slab s (cls s b) b" "place_ok G s b pl"
proof -
  have "slab_at s b (live G) (lcls G) (img G)" "place_ok G s b pl"
    using sys_okD(7) [OF assms(1)] assms(2,3) by (auto simp: slabs_ok_def)
  then show "typed_slab s (cls s b) b" "place_ok G s b pl"
    using slab_okD(1,2) by (auto simp: slab_at_def typed_slab_def)
qed

lemma system_heap_typed:
  assumes so: "system_ok owns G al \<sigma>" and h: "heaps \<sigma> i = Some h"
  shows "typed_heap \<sigma> i h"
proof -
  note S = system_okD [OF so] and H = system_heap [OF so h]
  note D = sys_okD [OF H(2)]
  have bin: "bins h c = Some b \<longleftrightarrow> place_of G b = Some (Bin i c)" "hid h = i" for c b
    using D(2) H(1) by (auto simp: bins_ok_def)
  have "typed_slab (store \<sigma>) c b \<and> heap_id (hdr (store \<sigma>) b) = i" if b: "bins h c = Some b" for c b
    using placed_slab [OF H(2), of b "Bin i c"] b bin by (auto simp: is_slab_def place_ok_def)
  moreover have "\<exists>xs. dll (store \<sigma>) (i, k, c) xs \<and> (\<forall>b \<in> set xs. typed_slab (store \<sigma>) c b \<and>
      heap_id (hdr (store \<sigma>) b) = i \<and> bins h c \<noteq> Some b \<and> (k = Full \<longleftrightarrow> free_count b (store \<sigma>) = 0))" for k c
  proof (intro exI [of _ "queue G (i, k, c)"] conjI ballI)
    show "dll (store \<sigma>) (i, k, c) (queue G (i, k, c))" using D(3) H(1) by (auto simp: queues_ok_def)
    fix b assume "b \<in> set (queue G (i, k, c))"
    then have pl: "place_of G b = Some (Queue i k c)" using D(3) H(1) by (auto simp: queues_ok_def)
    note P = placed_slab [OF H(2) pl]
    have b0: "b \<noteq> busy G" using P(1) H(3) by (auto simp: settled_def typed_slab_def base_ok_def is_slab_def)
    show "typed_slab (store \<sigma>) c b" "heap_id (hdr (store \<sigma>) b) = i" "k = Full \<longleftrightarrow> free_count b (store \<sigma>) = 0"
      using P b0 by (auto simp: place_ok_def is_slab_def)
    show "bins h c \<noteq> Some b" using bin(1) pl by auto
  qed
  ultimately show ?thesis using bin(2) by (auto simp: typed_heap_def)
qed

lemma system_pointer_typed:
  assumes so: "system_ok owns G al \<sigma>" and p: "al p = Some l" "class_index l = Some c"
  shows "typed_pointer (store \<sigma>) p c"
proof -
  note S = system_okD [OF so]
  have live: "p \<in> live G" "lcls G p = c" using allocs_okD(6) [OF S(5) p] by simp_all
  obtain b pl where b: "place_of G b = Some pl" "is_slab pl" "p \<in> block b"
    using sys_okD(8) [OF S(1)] live(1) by (auto simp: live_ok_def)
  have sl: "slab_at (store \<sigma>) b (live G) (lcls G) (img G)" using sys_okD(7) [OF S(1)] b by (auto simp: slabs_ok_def)
  then have c: "cls (store \<sigma>) b = c" using live b(3) by (auto simp: slab_at_def)
  obtain loc rem where o: "slab_ok (store \<sigma>) b c loc rem (live G \<inter> block b)" using sl c by (auto simp: slab_at_def)
  have "slab_from_ptr p = b"
    using slab_from_ptr_inside [OF slab_okD(1) [OF o]] b(3) by (simp add: block_def)
  moreover obtain n where "n < n_slots c" "p = slot_addr b c n" using slab_slot_cases [OF o, of p] live b(3) by blast
  ultimately show ?thesis using slab_okD(1,2) [OF o] by (auto simp: typed_pointer_def typed_slab_def)
qed

text \<open>
  C9. Every pointer the allocator follows has the type the code takes it to have. In every state
  that a run reaches while the program keeps its contract: the active slabs and queues of class
  \<open>c\<close> of a heap are pages whose header is that of a slab of class \<open>c\<close> with the heap's id, the full
  queue holding exactly slabs without free slots; no slab is active twice; and for every pointer of
  the program in a slab class, masking its low bits gives the page whose header has the class it was
  allocated with, and the pointer is the start of one of its slots.
\<close>

theorem heap_well_typed:
  assumes "page_allocator A owns" and "owns pa {}" and "trace (step A) (initial pa s) es \<sigma>"
    and "\<not> client_breaks ideal_step legal (\<lambda>_. None, bytes s) es"
  shows "\<exists>al M. trace ideal_step (\<lambda>_. None, bytes s) es (al, M) \<and>
    (\<forall>i h. heaps \<sigma> i = Some h \<longrightarrow> typed_heap \<sigma> i h) \<and>
    (\<forall>i j h k c d b. heaps \<sigma> i = Some h \<longrightarrow> heaps \<sigma> j = Some k \<longrightarrow> bins h c = Some b \<longrightarrow> bins k d = Some b \<longrightarrow> i = j \<and> c = d) \<and>
    (\<forall>p l c. al p = Some l \<longrightarrow> class_index l = Some c \<longrightarrow> typed_pointer (store \<sigma>) p c)"
proof -
  obtain al M G where r: "trace ideal_step (\<lambda>_. None, bytes s) es (al, M)" "system_ok owns G al \<sigma>"
    using page_allocator.run_refines [OF assms] by blast
  have bin: "place_of G b = Some (Bin i c)" if "heaps \<sigma> i = Some h" "bins h c = Some b" for i h c b
    using sys_okD(2) [OF system_heap(2) [OF r(2) that(1)]] system_heap(1) [OF r(2) that(1)] that(2) by (auto simp: bins_ok_def)
  have "i = j \<and> c = d" if "heaps \<sigma> i = Some h" "heaps \<sigma> j = Some k" "bins h c = Some b" "bins k d = Some b" for i j h k c d b
    using bin [OF that(1,3)] bin [OF that(2,4)] by simp
  then show ?thesis using r(1) system_heap_typed [OF r(2)] system_pointer_typed [OF r(2)] by blast
qed

theorem heap_well_typed_witness:
  "\<exists>r \<sigma> h. trace (step bump_pages) (initial ({}, 16) zero_store) [New 1, Alloc 1 small_layout r] \<sigma> \<and>
     heaps \<sigma> 1 = Some h \<and> typed_heap \<sigma> 1 h"
proof -
  obtain r \<sigma> h where t: "trace (step bump_pages) (initial ({}, 16) zero_store) [New 1, Alloc 1 small_layout r] \<sigma>" "heaps \<sigma> 1 = Some h"
    using bump_run by blast
  from heap_well_typed [OF bump_contract bump_empty t(1) bump_run_legal] show ?thesis using t by blast
qed

end
