(* ===== verification/Pprof.thy ===== *)
theory Pprof
  imports Prelude
begin

text \<open>
  Sampling heap profiler (\<open>src/src/pprof.rs\<close>): configuration, the per-heap sampler, the tables of
  stacks and sampled pointers, and the instrumentation calls.

  The draw of a countdown with its random generator, and the weight of a sample, are arguments here
  (\<open>geo\<close>, \<open>weight\<close>); the theory Sampling defines the two functions of the source, \<open>geometric\<close> and
  \<open>unbiased_weight\<close>, that are passed for them. The frames the backtrace library reports are an
  argument too. A \<open>HashMap\<close> is an association list with distinct keys. Counters are 64-bit and wrap
  around, as in a release build.
\<close>

subsection \<open>Configuration\<close>

record pprof_statics =
  prof_active :: bool
  sample_interval :: u64

definition DEFAULT_SAMPLE_INTERVAL :: u64 where
  "DEFAULT_SAMPLE_INTERVAL = 512 * 1024"

text \<open>\<open>PprofConfig\<close> has the interval as its only field.\<close>

definition PprofConfig_default :: u64 where
  "PprofConfig_default = DEFAULT_SAMPLE_INTERVAL"

definition pprof_statics_init :: pprof_statics where
  "pprof_statics_init = \<lparr>prof_active = False, sample_interval = DEFAULT_SAMPLE_INTERVAL\<rparr>"

text \<open>A zero interval is refused by an assertion, before anything is stored.\<close>

definition set_pprof_config :: "u64 option \<Rightarrow> pprof_statics \<Rightarrow> pprof_statics option" where
  "set_pprof_config config g = (case config of
     Some c \<Rightarrow> if c > 0 then Some (g\<lparr>sample_interval := c, prof_active := True\<rparr>) else None
   | None \<Rightarrow> Some (g\<lparr>prof_active := False\<rparr>))"

definition pprof_config :: "pprof_statics \<Rightarrow> u64 option" where
  "pprof_config g = (if prof_active g then Some (sample_interval g) else None)"

definition should_sample :: "pprof_statics \<Rightarrow> bool" where
  "should_sample g = prof_active g"

subsection \<open>The sampler of a heap\<close>

record 'r Sampler =
  countdown :: u64
  rng :: 'r
  interval :: u64

definition Sampler_new :: "('r \<Rightarrow> u64 \<Rightarrow> u64 \<times> 'r) \<Rightarrow> (u64 \<Rightarrow> 'r) \<Rightarrow> u64 \<Rightarrow> pprof_statics \<Rightarrow> 'r Sampler" where
  "Sampler_new geo seed_from i g =
    (let r = seed_from i; n = sample_interval g; (c, r') = geo r n
     in \<lparr>countdown = c, rng = r', interval = n\<rparr>)"

definition Sampler_reset :: "('r \<Rightarrow> u64 \<Rightarrow> u64 \<times> 'r) \<Rightarrow> 'r Sampler \<Rightarrow> 'r Sampler" where
  "Sampler_reset geo sa = (case geo (rng sa) (interval sa) of (c, r') \<Rightarrow> sa\<lparr>countdown := c, rng := r'\<rparr>)"

text \<open>The countdown is an \<open>i64\<close>: compared as signed.\<close>

definition Sampler_check :: "('r \<Rightarrow> u64 \<Rightarrow> u64 \<times> 'r) \<Rightarrow> nat \<Rightarrow> 'r Sampler \<Rightarrow> bool \<times> 'r Sampler" where
  "Sampler_check geo sz sa =
    (let sa1 = sa\<lparr>countdown := countdown sa - of_nat sz\<rparr>
     in if sint (countdown sa1) \<le> 0 then (True, Sampler_reset geo sa1) else (False, sa1))"

subsection \<open>Tables\<close>

record StackCounters =
  alloc_count :: u64
  alloc_bytes :: u64
  live_count :: u64
  live_bytes :: u64

record StackTable =
  st_map :: "(nat list \<times> u32) list"
  counters :: "StackCounters list"

definition StackTable_new :: StackTable where
  "StackTable_new = \<lparr>st_map = [], counters = []\<rparr>"

definition StackCounters_ZERO :: StackCounters where
  "StackCounters_ZERO = \<lparr>alloc_count = 0, alloc_bytes = 0, live_count = 0, live_bytes = 0\<rparr>"

text \<open>Ids are lengths cut to 32 bits.\<close>

definition StackTable_intern :: "nat list \<Rightarrow> StackTable \<Rightarrow> u32 \<times> StackTable" where
  "StackTable_intern frames t =
    (let next_id = of_nat (length (counters t)) in
     case map_of (st_map t) frames of
       Some i \<Rightarrow> (i, t)
     | None \<Rightarrow> (next_id, t\<lparr>st_map := (frames, next_id) # st_map t, counters := counters t @ [StackCounters_ZERO]\<rparr>))"

record SampleRecord =
  stack_id :: u32
  smp_size :: nat
  smp_class :: u8

record PprofState =
  stacks :: StackTable
  side :: "(nat \<times> SampleRecord) list"

definition PprofState_new :: PprofState where
  "PprofState_new = \<lparr>stacks = StackTable_new, side = []\<rparr>"

text \<open>The mutex holds \<open>None\<close> until the first use; a poisoned lock is entered all the same.\<close>

definition the_state :: "PprofState option \<Rightarrow> PprofState" where
  "the_state st = (case st of None \<Rightarrow> PprofState_new | Some s \<Rightarrow> s)"

definition map_insert :: "'k \<Rightarrow> 'v \<Rightarrow> ('k \<times> 'v) list \<Rightarrow> ('k \<times> 'v) list" where
  "map_insert k v m = (k, v) # filter (\<lambda>e. fst e \<noteq> k) m"

definition map_remove :: "'k \<Rightarrow> ('k \<times> 'v) list \<Rightarrow> ('k \<times> 'v) list" where
  "map_remove k m = filter (\<lambda>e. fst e \<noteq> k) m"

subsection \<open>Instrumentation\<close>

text \<open>The thread-local flag; \<open>acquire\<close> returns whether the guard was obtained.\<close>

definition acquire :: "bool \<Rightarrow> bool \<times> bool" where
  "acquire in_pprof = (\<not> in_pprof, True)"

definition release :: "bool \<Rightarrow> bool" where
  "release in_pprof = False"

text \<open>The closure given to \<open>backtrace::trace\<close>: it stops the walk once 128 frames are collected.\<close>

fun collect_frames :: "nat list \<Rightarrow> nat list \<Rightarrow> nat list" where
  "collect_frames [] frames = frames"
| "collect_frames (ip # ips) frames =
    (let frames' = frames @ [ip] in if length frames' < 128 then collect_frames ips frames' else frames')"

text \<open>Indexing the counters out of range panics: \<open>None\<close>.\<close>

definition upd_counters :: "u32 \<Rightarrow> (StackCounters \<Rightarrow> StackCounters) \<Rightarrow> StackTable \<Rightarrow> StackTable option" where
  "upd_counters i f t = (if unat i < length (counters t)
     then Some (t\<lparr>counters := (counters t)[unat i := f (counters t ! unat i)]\<rparr>) else None)"

definition add_weight :: "u64 \<Rightarrow> nat \<Rightarrow> StackCounters \<Rightarrow> StackCounters" where
  "add_weight w sz c = c\<lparr>alloc_count := alloc_count c + w, alloc_bytes := alloc_bytes c + w * of_nat sz,
     live_count := live_count c + w, live_bytes := live_bytes c + w * of_nat sz\<rparr>"

definition sub_weight :: "u64 \<Rightarrow> nat \<Rightarrow> StackCounters \<Rightarrow> StackCounters" where
  "sub_weight w sz c = c\<lparr>live_count := live_count c - w, live_bytes := live_bytes c - w * of_nat sz\<rparr>"

definition record_in :: "(nat \<Rightarrow> u64 \<Rightarrow> u64) \<Rightarrow> u64 \<Rightarrow> nat \<Rightarrow> nat \<Rightarrow> u8 \<Rightarrow> nat list \<Rightarrow> PprofState \<Rightarrow> PprofState option" where
  "record_in weight n ptr sz class_idx frames st =
    (let (i, t) = StackTable_intern frames (stacks st) in
     do {
       t' \<leftarrow> upd_counters i (add_weight (weight sz n) sz) t;
       Some (st\<lparr>stacks := t', side := map_insert ptr \<lparr>stack_id = i, smp_size = sz, smp_class = class_idx\<rparr> (side st)\<rparr>)
     })"

definition remove_in :: "(nat \<Rightarrow> u64 \<Rightarrow> u64) \<Rightarrow> u64 \<Rightarrow> nat \<Rightarrow> PprofState \<Rightarrow> PprofState option" where
  "remove_in weight n ptr st =
    (case map_of (side st) ptr of
       None \<Rightarrow> Some st
     | Some r \<Rightarrow>
         do {
           t' \<leftarrow> upd_counters (stack_id r) (sub_weight (weight (smp_size r) n) (smp_size r)) (stacks st);
           Some (st\<lparr>stacks := t', side := map_remove ptr (side st)\<rparr>)
         })"

text \<open>
  The thread's flag, the statics and the table. \<open>ips\<close> are the frames the backtrace library visits.
\<close>

record pprof_world =
  in_pprof :: bool
  statics :: pprof_statics
  table :: "PprofState option"

definition record_sample :: "(nat \<Rightarrow> u64 \<Rightarrow> u64) \<Rightarrow> nat list \<Rightarrow> nat \<Rightarrow> nat \<Rightarrow> u8 \<Rightarrow> pprof_world \<Rightarrow> pprof_world option" where
  "record_sample weight ips ptr sz class_idx w =
    (let (got, flag) = acquire (in_pprof w) in
     if \<not> got then Some (w\<lparr>in_pprof := flag\<rparr>)
     else do {
       st \<leftarrow> record_in weight (sample_interval (statics w)) ptr sz class_idx (collect_frames ips []) (the_state (table w));
       Some (w\<lparr>in_pprof := release flag, table := Some st\<rparr>)
     })"

definition maybe_remove_sample :: "(nat \<Rightarrow> u64 \<Rightarrow> u64) \<Rightarrow> nat \<Rightarrow> pprof_world \<Rightarrow> pprof_world option" where
  "maybe_remove_sample weight ptr w =
    (let (got, flag) = acquire (in_pprof w) in
     if \<not> got then Some (w\<lparr>in_pprof := flag\<rparr>)
     else do {
       st \<leftarrow> remove_in weight (sample_interval (statics w)) ptr (the_state (table w));
       Some (w\<lparr>in_pprof := release flag, table := Some st\<rparr>)
     })"

text \<open>The hooks of \<open>src/src/heap.rs\<close>: after an allocation and before a deallocation.\<close>

definition maybe_sample ::
  "('r \<Rightarrow> u64 \<Rightarrow> u64 \<times> 'r) \<Rightarrow> (nat \<Rightarrow> u64 \<Rightarrow> u64) \<Rightarrow> nat list \<Rightarrow> nat \<Rightarrow> nat \<Rightarrow> u8 \<Rightarrow> 'r Sampler \<times> pprof_world \<Rightarrow>
   ('r Sampler \<times> pprof_world) option" where
  "maybe_sample geo weight ips ptr sz class_idx = (\<lambda>(sa, w).
     if should_sample (statics w)
     then case Sampler_check geo sz sa of
            (True, sa1) \<Rightarrow> map_option (Pair sa1) (record_sample weight ips ptr sz class_idx w)
          | (False, sa1) \<Rightarrow> Some (sa1, w)
     else Some (sa, w))"

definition sample_freed :: "(nat \<Rightarrow> u64 \<Rightarrow> u64) \<Rightarrow> nat \<Rightarrow> pprof_world \<Rightarrow> pprof_world option" where
  "sample_freed weight ptr w = (if should_sample (statics w) then maybe_remove_sample weight ptr w else Some w)"

subsection \<open>The sampler counts bytes\<close>

fun sampler_run :: "('r \<Rightarrow> u64 \<Rightarrow> u64 \<times> 'r) \<Rightarrow> nat list \<Rightarrow> 'r Sampler \<Rightarrow> bool list \<times> 'r Sampler" where
  "sampler_run geo [] sa = ([], sa)"
| "sampler_run geo (sz # szs) sa =
    (let (b, sa1) = Sampler_check geo sz sa; (bs, sa2) = sampler_run geo szs sa1 in (b # bs, sa2))"

lemma sint_minus_nat:
  assumes "0 < sint (c :: u64)" "sz < 2 ^ 63"
  shows "sint (c - of_nat sz) = sint c - int sz"
proof -
  have b: "sint c < 2 ^ 63" "int sz < 2 ^ 63" using sint_lt [of c] assms(2) by simp_all
  have sz: "sint (of_nat sz :: u64) = int sz"
  proof -
    have "sint (of_nat sz :: u64) = signed_take_bit 63 (int sz)" by (simp add: signed_of_nat)
    then show ?thesis using assms(2) by (simp add: signed_take_bit_int_eq_self)
  qed
  have "sint (c - of_nat sz) = signed_take_bit 63 (sint c - sint (of_nat sz :: u64))"
    by (simp add: sint_word_ariths(2))
  also have "\<dots> = sint c - int sz"
    unfolding sz by (rule signed_take_bit_int_eq_self) (use assms(1) b in linarith)+
  finally show ?thesis .
qed

lemma Sampler_check_cases:
  assumes "0 < sint (countdown sa)" "sz < 2 ^ 63"
  shows "int sz < sint (countdown sa) \<Longrightarrow> Sampler_check geo sz sa = (False, sa\<lparr>countdown := countdown sa - of_nat sz\<rparr>)"
    "sint (countdown sa) \<le> int sz \<Longrightarrow> fst (Sampler_check geo sz sa)"
  using sint_minus_nat [OF assms] by (simp_all add: Sampler_check_def Let_def)

text \<open>
  From a positive countdown, the next sample is taken exactly at the allocation that brings the
  bytes allocated since then to the countdown.
\<close>

lemma sampler_run_counts:
  assumes "0 < sint (countdown sa)" "sum_list szs < 2 ^ 63"
  shows "(True \<notin> set (fst (sampler_run geo szs sa)) \<longleftrightarrow> int (sum_list szs) < sint (countdown sa)) \<and>
    (int (sum_list szs) < sint (countdown sa) \<longrightarrow>
       sint (countdown (snd (sampler_run geo szs sa))) = sint (countdown sa) - int (sum_list szs))"
  using assms
proof (induction szs arbitrary: sa)
  case (Cons sz szs)
  then have sz: "sz < 2 ^ 63" "sum_list szs < 2 ^ 63" by simp_all
  show ?case
  proof (cases "int sz < sint (countdown sa)")
    case True
    let ?sa = "sa\<lparr>countdown := countdown sa - of_nat sz\<rparr>"
    have c: "sint (countdown ?sa) = sint (countdown sa) - int sz"
      using sint_minus_nat [OF Cons.prems(1) sz(1)] by simp
    then have "0 < sint (countdown ?sa)" using True by linarith
    note ih = Cons.IH [OF this sz(2), unfolded c]
    have run: "fst (sampler_run geo (sz # szs) sa) = False # fst (sampler_run geo szs ?sa)"
        "snd (sampler_run geo (sz # szs) sa) = snd (sampler_run geo szs ?sa)"
      using Sampler_check_cases(1) [OF Cons.prems(1) sz(1) True, of geo] by (simp_all add: Let_def split_def)
    show ?thesis unfolding run using ih True by (auto simp: algebra_simps)
  next
    case False
    then have "fst (Sampler_check geo sz sa)" using Sampler_check_cases(2) [OF Cons.prems(1) sz(1)] by simp
    then show ?thesis using False by (simp add: Let_def split_def)
  qed
qed simp

text \<open>
  Setting a configuration and reading it back gives the configuration; a zero interval is
  refused with a panic that leaves the profiler as it was.
\<close>

theorem pprof_config_round_trip:
  "(set_pprof_config c g = None \<longleftrightarrow> c = Some 0) \<and>
   (\<forall>g'. set_pprof_config c g = Some g' \<longrightarrow>
      pprof_config g' = c \<and> should_sample g' = (c \<noteq> None) \<and> (c = None \<longrightarrow> sample_interval g' = sample_interval g))"
  by (cases c) (auto simp: set_pprof_config_def pprof_config_def should_sample_def word_gt_0)

theorem pprof_config_round_trip_witness:
  "pprof_config (pprof_statics_init\<lparr>sample_interval := 4096, prof_active := True\<rparr>) = Some 4096"
  using pprof_config_round_trip [of "Some 4096" pprof_statics_init] by (simp add: set_pprof_config_def)

subsection \<open>The stack table\<close>

text \<open>
  Ids are the positions of the counters, in the order the stacks were first seen, so different
  stacks have different ids. The table holds at most \<open>2 ^ 32\<close> stacks.
\<close>

definition stacks_ok :: "StackTable \<Rightarrow> bool" where
  "stacks_ok t \<longleftrightarrow> distinct (map fst (st_map t)) \<and> length (counters t) \<le> 2 ^ 32 \<and>
     map (\<lambda>e. unat (snd e)) (rev (st_map t)) = [0..<length (counters t)]"

lemma stacks_ok_new [simp]: "stacks_ok StackTable_new"
  by (simp add: stacks_ok_def StackTable_new_def)

lemma stacks_okD:
  assumes "stacks_ok t" "map_of (st_map t) f = Some i"
  shows "unat i < length (counters t)"
proof -
  have "unat i \<in> set (map (\<lambda>e. unat (snd e)) (rev (st_map t)))"
    using map_of_SomeD [OF assms(2)] by force
  also have "map (\<lambda>e. unat (snd e)) (rev (st_map t)) = [0..<length (counters t)]"
    using assms(1) by (simp add: stacks_ok_def)
  finally show ?thesis by simp
qed

lemma stacks_ok_inj:
  assumes ok: "stacks_ok t" and f: "map_of (st_map t) f = Some i" and g: "map_of (st_map t) g = Some j"
    and eq: "unat i = unat j"
  shows "f = g"
proof -
  have "distinct (map (\<lambda>e. unat (snd e)) (rev (st_map t)))" using ok by (simp add: stacks_ok_def)
  then have "inj_on (\<lambda>e. unat (snd e)) (set (st_map t))" by (simp add: distinct_map)
  from inj_onD [OF this, of "(f, i)" "(g, j)"] have "(f, i) = (g, j)"
    using map_of_SomeD [OF f] map_of_SomeD [OF g] eq by simp
  then show ?thesis by simp
qed

lemma stacks_ok_upd [simp]: "stacks_ok (t\<lparr>counters := (counters t)[k := c]\<rparr>) = stacks_ok t"
  by (simp add: stacks_ok_def)

lemma StackTable_intern_old: "map_of (st_map t) f = Some i \<Longrightarrow> StackTable_intern f t = (i, t)"
  by (simp add: StackTable_intern_def)

lemma StackTable_intern_fresh:
  "map_of (st_map t) f = None \<Longrightarrow> StackTable_intern f t =
    (of_nat (length (counters t)),
     \<lparr>st_map = (f, of_nat (length (counters t))) # st_map t, counters = counters t @ [StackCounters_ZERO]\<rparr>)"
  by (simp add: StackTable_intern_def Let_def)

lemma unat_next_id: "n < 2 ^ 32 \<Longrightarrow> unat (of_nat n :: u32) = n"
  by (simp add: unat_of_nat take_bit_nat_eq_self)

lemma stacks_ok_intern:
  assumes "stacks_ok t" "length (counters t) < 2 ^ 32" "StackTable_intern f t = (i, t')"
  shows "stacks_ok t'" "map_of (st_map t') f = Some i" "length (counters t') \<le> Suc (length (counters t))"
    "g \<noteq> f \<Longrightarrow> map_of (st_map t') g = map_of (st_map t) g"
    "k < length (counters t) \<Longrightarrow> counters t' ! k = counters t ! k"
    "map_of (st_map t) f = None \<Longrightarrow> counters t' ! unat i = StackCounters_ZERO"
    "map_of (st_map t) g = Some j \<Longrightarrow> map_of (st_map t') g = Some j"
proof -
  show "stacks_ok t'"
  proof (cases "map_of (st_map t) f")
    case None
    then have "f \<notin> set (map fst (st_map t))" by (simp add: map_of_eq_None_iff)
    then show ?thesis
      using assms(1-3) StackTable_intern_fresh [OF None] unat_next_id [OF assms(2)]
      by (auto simp: stacks_ok_def)
  qed (use assms StackTable_intern_old in auto)
qed (use assms unat_next_id [OF assms(2)] in
    \<open>auto simp: StackTable_intern_def Let_def nth_append split: option.splits\<close>)

text \<open>
  Interning a stack gives it one id for ever: known stacks keep their ids and counters, two
  different stacks never share an id, the id is a valid index of the counters, and a stack seen for
  the first time starts with zero counters (as long as there are fewer than \<open>2 ^ 32\<close> stacks).
\<close>

theorem stack_intern_correct:
  assumes "stacks_ok t" "length (counters t) < 2 ^ 32" "StackTable_intern f t = (i, t')"
  shows "stacks_ok t' \<and> StackTable_intern f t' = (i, t') \<and> unat i < length (counters t') \<and>
    (\<forall>g j. map_of (st_map t) g = Some j \<longrightarrow> map_of (st_map t') g = Some j \<and> counters t' ! unat j = counters t ! unat j) \<and>
    (\<forall>g. map_of (st_map t') g = Some i \<longrightarrow> g = f) \<and>
    (map_of (st_map t) f = None \<longrightarrow> counters t' ! unat i = StackCounters_ZERO)"
proof (intro conjI allI impI)
  note ok = stacks_ok_intern [OF assms]
  show "stacks_ok t'" "map_of (st_map t) f = None \<Longrightarrow> counters t' ! unat i = StackCounters_ZERO"
    using ok(1,6) by simp_all
  show "StackTable_intern f t' = (i, t')" by (rule StackTable_intern_old [OF ok(2)])
  show "unat i < length (counters t')" by (rule stacks_okD [OF ok(1,2)])
  show "g = f" if "map_of (st_map t') g = Some i" for g by (rule stacks_ok_inj [OF ok(1) that ok(2) refl])
  show "map_of (st_map t') g = Some j" if "map_of (st_map t) g = Some j" for g j by (rule ok(7) [OF that])
  show "counters t' ! unat j = counters t ! unat j" if "map_of (st_map t) g = Some j" for g j
    by (rule ok(5) [OF stacks_okD [OF assms(1) that]])
qed

theorem stack_intern_correct_witness:
  "StackTable_intern [1, 2] (snd (StackTable_intern [1, 2] StackTable_new)) = (0, snd (StackTable_intern [1, 2] StackTable_new))"
  using stack_intern_correct [of StackTable_new "[1, 2]" 0 "snd (StackTable_intern [1, 2] StackTable_new)"]
  by (simp add: StackTable_intern_def StackTable_new_def stacks_ok_def)

subsection \<open>What the counters mean\<close>

text \<open>
  The history of a profile: sampled allocations, each with the frames the backtrace library
  visited, and frees. A sample is \<open>(pointer, stack, size)\<close>.
\<close>

datatype prof_event = Sampled "nat list" addr nat u8 | Freed addr

type_synonym sample = "addr \<times> nat list \<times> nat"

fun prof_exec :: "(nat \<Rightarrow> u64 \<Rightarrow> u64) \<Rightarrow> prof_event \<Rightarrow> pprof_world \<Rightarrow> pprof_world option" where
  "prof_exec weight (Sampled ips ptr sz c) w = record_sample weight ips ptr sz c w"
| "prof_exec weight (Freed ptr) w = maybe_remove_sample weight ptr w"

fun prof_run :: "(nat \<Rightarrow> u64 \<Rightarrow> u64) \<Rightarrow> prof_event list \<Rightarrow> pprof_world \<Rightarrow> pprof_world option" where
  "prof_run weight [] w = Some w"
| "prof_run weight (e # es) w = do { w1 \<leftarrow> prof_exec weight e w; prof_run weight es w1 }"

text \<open>The samples that are live after a history, and all samples of it.\<close>

fun live_after :: "prof_event \<Rightarrow> sample list \<Rightarrow> sample list" where
  "live_after (Sampled ips ptr sz c) L = (ptr, collect_frames ips [], sz) # L"
| "live_after (Freed ptr) L = filter (\<lambda>x. fst x \<noteq> ptr) L"

fun taken_after :: "prof_event \<Rightarrow> sample list \<Rightarrow> sample list" where
  "taken_after (Sampled ips ptr sz c) L = (ptr, collect_frames ips [], sz) # L"
| "taken_after (Freed ptr) L = L"

text \<open>The allocator gives out a pointer again only after the hook has seen it freed.\<close>

fun prof_legal :: "prof_event list \<Rightarrow> sample list \<Rightarrow> bool" where
  "prof_legal [] L \<longleftrightarrow> True"
| "prof_legal (e # es) L \<longleftrightarrow> (case e of Sampled ips ptr sz c \<Rightarrow> ptr \<notin> fst ` set L | Freed ptr \<Rightarrow> True) \<and>
     prof_legal es (live_after e L)"

definition weight_of :: "(nat \<Rightarrow> u64) \<Rightarrow> sample list \<Rightarrow> nat list \<Rightarrow> u64" where
  "weight_of v L f = (\<Sum>x \<leftarrow> filter (\<lambda>x. fst (snd x) = f) L. v (snd (snd x)))"

lemma weight_of_simps [simp]:
  "weight_of v [] f = 0"
  "weight_of v ((p, g, sz) # L) f = (if g = f then v sz + weight_of v L f else weight_of v L f)"
  by (simp_all add: weight_of_def)

lemma weight_of_absent: "f \<notin> (\<lambda>x. fst (snd x)) ` set L \<Longrightarrow> weight_of v L f = 0"
  by (induction L) auto

lemma weight_of_remove:
  assumes "distinct (map fst L)" "(p, g, sz) \<in> set L"
  shows "weight_of v (filter (\<lambda>x. fst x \<noteq> p) L) f = (if g = f then weight_of v L f - v sz else weight_of v L f)"
  using assms
proof (induction L)
  case (Cons x L)
  show ?case
  proof (cases "fst x = p")
    case True
    then have "p \<notin> fst ` set L" using Cons.prems(1) by auto
    then have "filter (\<lambda>x. fst x \<noteq> p) L = L" "x = (p, g, sz)"
      using Cons.prems(2) by (force simp: filter_id_conv)+
    then show ?thesis by simp
  next
    case False
    then have "(p, g, sz) \<in> set L" using Cons.prems(2) by auto
    then have "weight_of v (filter (\<lambda>x. fst x \<noteq> p) L) f = (if g = f then weight_of v L f - v sz else weight_of v L f)"
      using Cons by simp
    then show ?thesis using False by (cases x) simp
  qed
qed simp

text \<open>
  The side table holds the live samples, under the ids of their stacks, and the counters of each
  stack are the sums of the weights over its samples.
\<close>

definition tagged :: "StackTable \<Rightarrow> sample \<Rightarrow> addr \<times> u32 \<times> nat" where
  "tagged t x = (fst x, the (map_of (st_map t) (fst (snd x))), snd (snd x))"

definition counters_match :: "(nat \<Rightarrow> u64) \<Rightarrow> sample list \<Rightarrow> sample list \<Rightarrow> nat list \<Rightarrow> StackCounters \<Rightarrow> bool" where
  "counters_match v L T f c \<longleftrightarrow>
     live_count c = weight_of v L f \<and> live_bytes c = weight_of (\<lambda>sz. v sz * of_nat sz) L f \<and>
     alloc_count c = weight_of v T f \<and> alloc_bytes c = weight_of (\<lambda>sz. v sz * of_nat sz) T f"

definition known :: "StackTable \<Rightarrow> sample list \<Rightarrow> bool" where
  "known t L \<longleftrightarrow> (\<forall>x \<in> set L. fst (snd x) \<in> dom (map_of (st_map t)))"

definition tracks :: "(nat \<Rightarrow> u64) \<Rightarrow> sample list \<Rightarrow> sample list \<Rightarrow> PprofState \<Rightarrow> bool" where
  "tracks v L T st \<longleftrightarrow> stacks_ok (stacks st) \<and> distinct (map fst L) \<and> known (stacks st) L \<and> known (stacks st) T \<and>
     map (\<lambda>e. (fst e, stack_id (snd e), smp_size (snd e))) (side st) = map (tagged (stacks st)) L \<and>
     (\<forall>f i. map_of (st_map (stacks st)) f = Some i \<longrightarrow> counters_match v L T f (counters (stacks st) ! unat i))"

lemma tracks_new: "tracks v [] [] PprofState_new"
  by (simp add: tracks_def PprofState_new_def StackTable_new_def stacks_ok_def known_def)

lemma tracksD:
  assumes "tracks v L T st"
  shows "stacks_ok (stacks st)" "distinct (map fst L)" "known (stacks st) L" "known (stacks st) T"
    "map (\<lambda>e. (fst e, stack_id (snd e), smp_size (snd e))) (side st) = map (tagged (stacks st)) L"
    "map_of (st_map (stacks st)) f = Some i \<Longrightarrow> counters_match v L T f (counters (stacks st) ! unat i)"
  using assms by (simp_all add: tracks_def)

lemma known_weight: "known t L \<Longrightarrow> map_of (st_map t) f = None \<Longrightarrow> weight_of v L f = 0"
  by (rule weight_of_absent) (auto simp: known_def)

lemma tracks_side_keys:
  assumes "tracks v L T st"
  shows "map fst (side st) = map fst L"
proof -
  have "map fst (map (\<lambda>e. (fst e, stack_id (snd e), smp_size (snd e))) (side st)) = map fst (map (tagged (stacks st)) L)"
    by (simp only: tracksD(5) [OF assms])
  then show ?thesis by (simp add: tagged_def comp_def)
qed

lemma tracks_intern:
  assumes tr: "tracks v L T st" and small: "length (counters (stacks st)) < 2 ^ 32"
    and int: "StackTable_intern f (stacks st) = (i, t)"
  shows "tracks v L T (st\<lparr>stacks := t\<rparr>)"
proof -
  note d = tracksD [OF tr] and ok = stacks_ok_intern [OF tracksD(1) [OF tr] small int]
  have kn: "known t L" "known t T" using d(3,4) ok(7) unfolding known_def by blast+
  have tag: "map (tagged t) L = map (tagged (stacks st)) L"
  proof (rule map_cong [OF refl])
    fix x assume "x \<in> set L"
    then obtain j where "map_of (st_map (stacks st)) (fst (snd x)) = Some j" using d(3) unfolding known_def by blast
    then show "tagged t x = tagged (stacks st) x" using ok(7) by (simp add: tagged_def)
  qed
  have "counters_match v L T g (counters t ! unat j)" if g: "map_of (st_map t) g = Some j" for g j
  proof (cases "map_of (st_map (stacks st)) g")
    case None
    then have "g = f" using g ok(4) by (metis option.distinct(1))
    then show ?thesis
      using None ok(2,6) g known_weight [OF d(3) None] known_weight [OF d(4) None]
      by (simp add: counters_match_def StackCounters_ZERO_def)
  next
    case (Some k)
    then have "k = j" using ok(7) g by (metis option.inject)
    then show ?thesis using d(6) [OF Some] ok(5) [OF stacks_okD [OF d(1) Some]] by simp
  qed
  then show ?thesis using d ok(1) kn tag by (simp add: tracks_def)
qed

lemma counters_match_add:
  "counters_match v L T f c \<Longrightarrow> counters_match v ((p, f, sz) # L) ((p, f, sz) # T) f (add_weight (v sz) sz c)"
  by (simp add: counters_match_def add_weight_def algebra_simps)

lemma counters_match_other:
  "counters_match v L T g c \<Longrightarrow> g \<noteq> f \<Longrightarrow> counters_match v ((p, f, sz) # L) ((p, f, sz) # T) g c"
  by (simp add: counters_match_def)

lemma map_insert_fresh: "p \<notin> set (map fst m) \<Longrightarrow> map_insert p r m = (p, r) # m"
  unfolding map_insert_def by (induction m) auto

lemma tracks_record:
  assumes tr: "tracks (\<lambda>sz. weight sz n) L T st" and small: "length (counters (stacks st)) < 2 ^ 32"
    and fresh: "p \<notin> fst ` set L"
  obtains st' where "record_in weight n p sz c f st = Some st'"
    "tracks (\<lambda>sz. weight sz n) ((p, f, sz) # L) ((p, f, sz) # T) st'"
    "length (counters (stacks st')) \<le> Suc (length (counters (stacks st)))"
proof -
  let ?v = "\<lambda>sz. weight sz n"
  obtain i t where int: "StackTable_intern f (stacks st) = (i, t)" by (metis surj_pair)
  note ok = stacks_ok_intern [OF tracksD(1) [OF tr] small int]
  note d = tracksD [OF tracks_intern [OF tr small int], simplified]
  have i: "unat i < length (counters t)" by (rule stacks_okD [OF ok(1,2)])
  let ?t = "t\<lparr>counters := (counters t)[unat i := add_weight (weight sz n) sz (counters t ! unat i)]\<rparr>"
  let ?st = "st\<lparr>stacks := ?t, side := (p, \<lparr>stack_id = i, smp_size = sz, smp_class = c\<rparr>) # side st\<rparr>"
  have ins: "map_insert p r (side st) = (p, r) # side st" for r
    using fresh tracks_side_keys [OF tr] by (intro map_insert_fresh) simp
  have "record_in weight n p sz c f st = Some ?st"
    using int i by (simp add: record_in_def upd_counters_def ins)
  moreover have "counters_match ?v ((p, f, sz) # L) ((p, f, sz) # T) g (counters ?t ! unat j)"
    if g: "map_of (st_map t) g = Some j" for g j
  proof (cases "g = f")
    case True
    then show ?thesis using g ok(2) d(6) [OF ok(2)] i counters_match_add by simp
  next
    case False
    then have "unat j \<noteq> unat i" using stacks_ok_inj [OF ok(1) g ok(2)] by blast
    then show ?thesis using counters_match_other [OF d(6) [OF g] False] by simp
  qed
  then have "tracks ?v ((p, f, sz) # L) ((p, f, sz) # T) ?st"
    using d fresh ok(2) by (auto simp: tracks_def known_def tagged_def)
  ultimately show thesis using that ok(3) by simp
qed

lemma map_filter_fst:
  assumes "map f xs = map g ys" "\<And>x. fst (f x) = fst x" "\<And>y. fst (g y) = fst y"
  shows "map f (filter (\<lambda>x. fst x \<noteq> p) xs) = map g (filter (\<lambda>y. fst y \<noteq> p) ys)"
proof -
  have "filter (\<lambda>z. fst z \<noteq> p) (map f xs) = filter (\<lambda>z. fst z \<noteq> p) (map g ys)" by (simp only: assms(1))
  then show ?thesis by (simp add: filter_map comp_def assms(2,3))
qed

lemma counters_match_sub:
  assumes "counters_match v L T g c" "distinct (map fst L)" "(p, f, sz) \<in> set L"
  shows "counters_match v (filter (\<lambda>x. fst x \<noteq> p) L) T g (if g = f then sub_weight (v sz) sz c else c)"
  using assms(1) by (simp add: counters_match_def sub_weight_def weight_of_remove [OF assms(2,3)])

lemma tracks_remove:
  assumes tr: "tracks (\<lambda>sz. weight sz n) L T st"
  obtains st' where "remove_in weight n p st = Some st'"
    "tracks (\<lambda>sz. weight sz n) (filter (\<lambda>x. fst x \<noteq> p) L) T st'"
    "length (counters (stacks st')) = length (counters (stacks st))"
proof (cases "map_of (side st) p")
  case None
  then have "p \<notin> fst ` set L"
    using tracks_side_keys [OF tr] by (metis map_of_eq_None_iff list.set_map)
  then have "filter (\<lambda>x. fst x \<noteq> p) L = L" by (force simp: filter_id_conv)
  then show thesis using that [of st] tr None by (simp add: remove_in_def)
next
  case (Some r)
  let ?v = "\<lambda>sz. weight sz n" and ?t = "stacks st"
  note d = tracksD [OF tr]
  have "(p, stack_id r, smp_size r) \<in> set (map (\<lambda>e. (fst e, stack_id (snd e), smp_size (snd e))) (side st))"
    using map_of_SomeD [OF Some] by force
  then obtain x where x: "x \<in> set L" "(p, stack_id r, smp_size r) = tagged ?t x"
    unfolding d(5) by auto
  define f where "f = fst (snd x)"
  have f: "(p, f, smp_size r) \<in> set L" "stack_id r = the (map_of (st_map ?t) f)"
    using x by (simp_all add: tagged_def f_def)
  then have i: "map_of (st_map ?t) f = Some (stack_id r)" using d(3) unfolding known_def by force
  let ?t' = "?t\<lparr>counters := (counters ?t)[unat (stack_id r) :=
      sub_weight (weight (smp_size r) n) (smp_size r) (counters ?t ! unat (stack_id r))]\<rparr>"
  let ?st = "st\<lparr>stacks := ?t', side := map_remove p (side st)\<rparr>"
  have len: "unat (stack_id r) < length (counters ?t)" by (rule stacks_okD [OF d(1) i])
  then have "remove_in weight n p st = Some ?st" using Some by (simp add: remove_in_def upd_counters_def)
  moreover have "counters_match ?v (filter (\<lambda>x. fst x \<noteq> p) L) T g (counters ?t' ! unat j)"
    if g: "map_of (st_map ?t) g = Some j" for g j
  proof (cases "g = f")
    case True
    then show ?thesis using g i len counters_match_sub [OF d(6) [OF g] d(2) f(1)] by simp
  next
    case False
    then have "unat j \<noteq> unat (stack_id r)" using stacks_ok_inj [OF d(1) g i] by blast
    then show ?thesis using False counters_match_sub [OF d(6) [OF g] d(2) f(1)] by simp
  qed
  moreover have "map (\<lambda>e. (fst e, stack_id (snd e), smp_size (snd e))) (map_remove p (side st)) =
      map (tagged ?t') (filter (\<lambda>x. fst x \<noteq> p) L)"
    unfolding map_remove_def using d(5) by (intro map_filter_fst) (auto simp: tagged_def)
  ultimately have "tracks ?v (filter (\<lambda>x. fst x \<noteq> p) L) T ?st"
    using d(1-4) by (auto simp: tracks_def known_def distinct_map_filter)
  then show thesis using that \<open>remove_in weight n p st = Some ?st\<close> by simp
qed

text \<open>One event, and a whole history, outside the reentrancy guard.\<close>

abbreviation num_stacks :: "pprof_world \<Rightarrow> nat" where
  "num_stacks w \<equiv> length (counters (stacks (the_state (table w))))"

lemma prof_exec_tracks:
  assumes tr: "tracks (\<lambda>sz. weight sz (sample_interval (statics w))) L T (the_state (table w))"
    and w: "\<not> in_pprof w" "num_stacks w < 2 ^ 32" and legal: "prof_legal (e # es) L"
  obtains w' where "prof_exec weight e w = Some w'" "statics w' = statics w" "\<not> in_pprof w'"
    "num_stacks w' \<le> Suc (num_stacks w)"
    "tracks (\<lambda>sz. weight sz (sample_interval (statics w))) (live_after e L) (taken_after e T) (the_state (table w'))"
proof (cases e)
  case (Sampled ips p sz c)
  then have "p \<notin> fst ` set L" using legal by simp
  from tracks_record [of weight "sample_interval (statics w)" L T, OF tr w(2) this, of sz c "collect_frames ips []"] obtain st where
    "record_in weight (sample_interval (statics w)) p sz c (collect_frames ips []) (the_state (table w)) = Some st"
    "tracks (\<lambda>sz. weight sz (sample_interval (statics w))) (live_after e L) (taken_after e T) st"
    "length (counters (stacks st)) \<le> Suc (num_stacks w)"
    unfolding Sampled by auto
  then show thesis
    using that [of "w\<lparr>in_pprof := False, table := Some st\<rparr>"] w(1) Sampled
    by (simp add: record_sample_def acquire_def release_def the_state_def)
next
  case (Freed p)
  from tracks_remove [of weight "sample_interval (statics w)" L T, OF tr, of p] obtain st where
    "remove_in weight (sample_interval (statics w)) p (the_state (table w)) = Some st"
    "tracks (\<lambda>sz. weight sz (sample_interval (statics w))) (live_after e L) (taken_after e T) st"
    "length (counters (stacks st)) = num_stacks w"
    unfolding Freed by auto
  then show thesis
    using that [of "w\<lparr>in_pprof := False, table := Some st\<rparr>"] w(1) Freed
    by (simp add: maybe_remove_sample_def acquire_def release_def the_state_def)
qed

lemma prof_run_tracks:
  assumes "tracks (\<lambda>sz. weight sz (sample_interval (statics w))) L T (the_state (table w))"
    "\<not> in_pprof w" "num_stacks w + length es \<le> 2 ^ 32" "prof_legal es L"
  shows "\<exists>w'. prof_run weight es w = Some w' \<and>
    tracks (\<lambda>sz. weight sz (sample_interval (statics w))) (fold live_after es L) (fold taken_after es T) (the_state (table w'))"
  using assms
proof (induction es arbitrary: w L T)
  case (Cons e es)
  obtain w1 where w1: "prof_exec weight e w = Some w1" "statics w1 = statics w" "\<not> in_pprof w1"
    "num_stacks w1 \<le> Suc (num_stacks w)"
    "tracks (\<lambda>sz. weight sz (sample_interval (statics w))) (live_after e L) (taken_after e T) (the_state (table w1))"
    using prof_exec_tracks [of weight w L T e es] Cons.prems by auto
  have "prof_legal es (live_after e L)" "num_stacks w1 + length es \<le> 2 ^ 32" using Cons.prems(3,4) w1(4) by auto
  from Cons.IH [of w1, unfolded w1(2), OF w1(5,3) this(2,1)] show ?case using w1(1) by simp
qed simp

text \<open>The counters a profile reports for a stack.\<close>

definition reported :: "nat list \<Rightarrow> pprof_world \<Rightarrow> StackCounters" where
  "reported f w = (case map_of (st_map (stacks (the_state (table w)))) f of
     Some i \<Rightarrow> counters (stacks (the_state (table w))) ! unat i | None \<Rightarrow> StackCounters_ZERO)"

lemma tracks_reported: "tracks v L T (the_state (table w)) \<Longrightarrow> counters_match v L T f (reported f w)"
proof (cases "map_of (st_map (stacks (the_state (table w)))) f")
  case None
  assume "tracks v L T (the_state (table w))"
  note d = tracksD [OF this]
  show ?thesis using None known_weight [OF d(3) None] known_weight [OF d(4) None]
    by (simp add: reported_def counters_match_def StackCounters_ZERO_def)
qed (simp add: reported_def tracks_def)

text \<open>
  While the sample interval stays the same, recording and removing samples never panics, and
  after any history the profile reports for every stack exactly the sum of the unbiased weights of
  its samples: of all samples in \<open>alloc_count\<close> and \<open>alloc_bytes\<close>, of the samples not yet freed in
  \<open>live_count\<close> and \<open>live_bytes\<close> (modulo \<open>2 ^ 64\<close>). Pointers are given out again only after their
  free was seen.
\<close>

theorem profile_tracks_live:
  assumes "prof_legal es []" "length es \<le> 2 ^ 32" "\<not> in_pprof w" "table w = None"
  shows "\<exists>w'. prof_run weight es w = Some w' \<and>
    (\<forall>f. live_count (reported f w') = weight_of (\<lambda>sz. weight sz (sample_interval (statics w))) (fold live_after es []) f \<and>
      live_bytes (reported f w') =
        weight_of (\<lambda>sz. weight sz (sample_interval (statics w)) * of_nat sz) (fold live_after es []) f \<and>
      alloc_count (reported f w') = weight_of (\<lambda>sz. weight sz (sample_interval (statics w))) (fold taken_after es []) f \<and>
      alloc_bytes (reported f w') =
        weight_of (\<lambda>sz. weight sz (sample_interval (statics w)) * of_nat sz) (fold taken_after es []) f)"
proof -
  let ?v = "\<lambda>sz. weight sz (sample_interval (statics w))"
  have "the_state (table w) = PprofState_new" by (simp add: the_state_def assms(4))
  then obtain w' where "prof_run weight es w = Some w'"
    "tracks ?v (fold live_after es []) (fold taken_after es []) (the_state (table w'))"
    using prof_run_tracks [of weight w "[]" "[]" es] tracks_new [of ?v] assms
    by (auto simp: PprofState_new_def StackTable_new_def)
  then show ?thesis using tracks_reported [of ?v] unfolding counters_match_def by blast
qed

abbreviation profile_start :: pprof_world where
  "profile_start \<equiv> \<lparr>in_pprof = False, statics = \<lparr>prof_active = True, sample_interval = 100\<rparr>, table = None\<rparr>"

theorem profile_tracks_live_witness:
  "\<exists>w'. prof_run (\<lambda>sz n. n) [Sampled [7] 4096 16 3, Sampled [7] 8192 48 5, Freed 4096] profile_start = Some w' \<and>
    live_count (reported [7] w') = 100 \<and> alloc_count (reported [7] w') = 200 \<and> live_bytes (reported [7] w') = 4800"
  using profile_tracks_live [of "[Sampled [7] 4096 16 3, Sampled [7] 8192 48 5, Freed 4096]" profile_start "\<lambda>sz n. n"]
  by auto

lemmas prof_defs = record_sample_def maybe_remove_sample_def sample_freed_def should_sample_def set_pprof_config_def
  record_in_def remove_in_def upd_counters_def acquire_def release_def the_state_def PprofState_new_def
  StackTable_new_def StackTable_intern_def map_insert_def map_remove_def add_weight_def sub_weight_def
  StackCounters_ZERO_def reported_def

text \<open>
  C37. The weight of a removed sample is computed with the interval in force at the free, not the
  one it was recorded with: when the configuration changes in between, the only sample is freed and
  the side table is empty, and yet the stack's live count is the difference of the two weights.
\<close>

theorem interval_change_skews_live_count:
  assumes "0 < m" "\<not> in_pprof w" "table w = None"
  shows "\<exists>w1 g w2. record_sample weight ips p sz c w = Some w1 \<and>
    set_pprof_config (Some m) (statics w1) = Some g \<and>
    sample_freed weight p (w1\<lparr>statics := g\<rparr>) = Some w2 \<and> side (the_state (table w2)) = [] \<and>
    live_count (reported (collect_frames ips []) w2) = weight sz (sample_interval (statics w)) - weight sz m"
  using assms by (simp add: prof_defs)

theorem interval_change_skews_live_count_witness:
  "\<exists>w1 g w2. record_sample (\<lambda>sz n. n) [1] 4096 16 3 profile_start = Some w1 \<and>
    set_pprof_config (Some 300) (statics w1) = Some g \<and>
    sample_freed (\<lambda>sz n. n) 4096 (w1\<lparr>statics := g\<rparr>) = Some w2 \<and> side (the_state (table w2)) = [] \<and>
    live_count (reported [1] w2) = - 200"
  using interval_change_skews_live_count [of 300 profile_start "\<lambda>sz n. n" "[1]" 4096 16 3] by simp

text \<open>
  C38. A sampled pointer that is freed while profiling is switched off keeps its record and its
  weight. What becomes of them depends on the next use of the address once profiling is on again.
  When the address is sampled from another stack, the record is overwritten: after that allocation is
  freed no record is left, the second stack's live count is zero, and the first stack's live count
  still contains the weight although nothing of it is live. When the address is given out again
  without being sampled, its free finds the stale record and takes its weight back (computed with
  the interval now in force).
\<close>

theorem missed_free_leaks_live_count:
  assumes "collect_frames ips [] \<noteq> collect_frames jps []" "\<not> in_pprof w" "table w = None" "0 < m"
  shows "\<exists>w1 g1 w2 g2. record_sample weight ips p sz c w = Some w1 \<and>
    set_pprof_config None (statics w1) = Some g1 \<and> sample_freed weight p (w1\<lparr>statics := g1\<rparr>) = Some w2 \<and>
    set_pprof_config (Some m) (statics w2) = Some g2 \<and> map fst (side (the_state (table w2))) = [p] \<and>
    (\<exists>w3 w4. record_sample weight jps p sz c (w2\<lparr>statics := g2\<rparr>) = Some w3 \<and> sample_freed weight p w3 = Some w4 \<and>
      side (the_state (table w4)) = [] \<and>
      live_count (reported (collect_frames ips []) w4) = weight sz (sample_interval (statics w)) \<and>
      live_count (reported (collect_frames jps []) w4) = 0) \<and>
    (\<exists>w5. sample_freed weight p (w2\<lparr>statics := g2\<rparr>) = Some w5 \<and> side (the_state (table w5)) = [] \<and>
      live_count (reported (collect_frames ips []) w5) = weight sz (sample_interval (statics w)) - weight sz m)"
  using assms by (simp add: prof_defs)

theorem missed_free_leaks_live_count_witness:
  "\<exists>w1 g1 w2 g2 w3 w4. record_sample (\<lambda>sz n. n) [1] 4096 16 3 profile_start = Some w1 \<and>
    set_pprof_config None (statics w1) = Some g1 \<and> sample_freed (\<lambda>sz n. n) 4096 (w1\<lparr>statics := g1\<rparr>) = Some w2 \<and>
    set_pprof_config (Some 100) (statics w2) = Some g2 \<and>
    record_sample (\<lambda>sz n. n) [2] 4096 16 3 (w2\<lparr>statics := g2\<rparr>) = Some w3 \<and>
    sample_freed (\<lambda>sz n. n) 4096 w3 = Some w4 \<and> side (the_state (table w4)) = [] \<and>
    live_count (reported [1] w4) = 100 \<and> live_count (reported [2] w4) = 0"
  using missed_free_leaks_live_count [of "[1]" "[2]" profile_start 100 "\<lambda>sz n. n" 4096 16 3] by auto

subsection \<open>Frames\<close>

text \<open>A recorded stack is the first 128 frames that the backtrace library reports.\<close>

lemma collect_frames_take:
  "length frames < 128 \<Longrightarrow> collect_frames ips frames = frames @ take (128 - length frames) ips"
proof (induction ips arbitrary: frames)
  case (Cons ip ips)
  have "128 - length frames = Suc (127 - length frames)" using Cons.prems by simp
  then have *: "take (128 - length frames) (ip # ips) = ip # take (127 - length frames) ips" by simp
  show ?case
  proof (cases "length frames < 127")
    case True
    then show ?thesis using Cons.IH [of "frames @ [ip]"] * by simp
  next
    case False
    then have "length frames = 127" using Cons.prems by simp
    then show ?thesis by simp
  qed
qed simp

lemma record_sample_statics: "record_sample weight ips p sz c w = Some w' \<Longrightarrow> statics w' = statics w"
  by (auto simp: record_sample_def Let_def acquire_def split: if_splits bind_splits)

end
