(* ===== verification/Profiled.thy ===== *)
theory Profiled
  imports Heap_System Pprof
begin

text \<open>
  The allocator with the profiler in it (the build with the \<open>pprof\<close> feature): every heap has a
  sampler, \<open>alloc\<close> ends with the sampling hook on each path that returns a pointer, and \<open>dealloc\<close>
  begins with the hook that forgets a sample (\<open>src/src/heap.rs\<close>).

  The profiler allocates for itself: frames, tables and the profile of a dump live in memory of the
  same heaps. These calls go through the same hooks, with the thread's flag \<open>IN_PPROF\<close> set, at any
  point of a run and in any number, so a run is one of two clients of the allocator, the program and
  the profiler. The table is changed by one hook at a time, which is what the mutex \<open>PPROF\<close> is for.
  The configuration changes at any point of a run, and a process starts with profiling off.

  The allocator's contract is what makes the profile meaningful: a pointer is sampled again only
  after it was freed, so the records are those of allocations the program still holds.
\<close>

text \<open>The size and the class that the hook is given: those of the slot, or of the request if it is large.\<close>

definition hook_size :: "layout \<Rightarrow> nat" where
  "hook_size l = (case class_index l of None \<Rightarrow> lsize l | Some idx \<Rightarrow> class_size idx)"

definition hook_class :: "layout \<Rightarrow> u8" where
  "hook_class l = (case class_index l of None \<Rightarrow> - 1 | Some idx \<Rightarrow> of_nat idx)"

definition heap_alloc_sampled ::
  "'p PageAllocator \<Rightarrow> ('r \<Rightarrow> u64 \<Rightarrow> u64 \<times> 'r) \<Rightarrow> (nat \<Rightarrow> u64 \<Rightarrow> u64) \<Rightarrow> nat list \<Rightarrow> layout \<Rightarrow>
   heap \<times> 'p PagePool \<times> store \<Rightarrow> 'r Sampler \<times> pprof_world \<Rightarrow>
   (addr option \<times> (heap \<times> 'p PagePool \<times> store) \<times> 'r Sampler \<times> pprof_world) option" where
  "heap_alloc_sampled A geo weight ips l hw x =
    do {
      (r, hw') \<leftarrow> heap_alloc A l hw;
      case r of
        None \<Rightarrow> Some (None, hw', x)
      | Some ptr \<Rightarrow> do { x' \<leftarrow> maybe_sample geo weight ips ptr (hook_size l) (hook_class l) x; Some (Some ptr, hw', x') }
    }"

definition heap_dealloc_sampled ::
  "'p PageAllocator \<Rightarrow> (nat \<Rightarrow> u64 \<Rightarrow> u64) \<Rightarrow> addr \<Rightarrow> layout \<Rightarrow> heap \<times> 'p PagePool \<times> store \<Rightarrow> pprof_world \<Rightarrow>
   ((heap \<times> 'p PagePool \<times> store) \<times> pprof_world) option" where
  "heap_dealloc_sampled A weight ptr l hw w =
    do {
      w' \<leftarrow> sample_freed weight ptr w;
      hw' \<leftarrow> heap_dealloc A ptr l hw;
      Some (hw', w')
    }"

text \<open>The allocator, the samplers of its heaps by their ids, and the profiler.\<close>

record ('p, 'r) profiled =
  base :: "'p allocator"
  samplers :: "u64 \<rightharpoonup> 'r Sampler"
  world :: pprof_world

datatype client = Program | Profiler

datatype pevent = By client event | Config "u64 option"

text \<open>
  The flag is set while the profiler runs on a thread, and clear outside: a step of the profiler
  finds it set, a step of the program finds it clear, and after the step it is clear again.
\<close>

definition under_guard :: "client \<Rightarrow> pprof_world \<Rightarrow> pprof_world" where
  "under_guard c w = w\<lparr>in_pprof := (c = Profiler)\<rparr>"

inductive pstep ::
  "'p PageAllocator \<Rightarrow> ('r \<Rightarrow> u64 \<Rightarrow> u64 \<times> 'r) \<Rightarrow> (nat \<Rightarrow> u64 \<Rightarrow> u64) \<Rightarrow> (u64 \<Rightarrow> 'r) \<Rightarrow>
   ('p, 'r) profiled \<Rightarrow> pevent \<Rightarrow> ('p, 'r) profiled \<Rightarrow> bool" for A geo weight seed_from where
  pstep_new: "step A (base x) (New i) \<sigma> \<Longrightarrow>
    pstep A geo weight seed_from x (By c (New i))
      (x\<lparr>base := \<sigma>, samplers := (samplers x)(i \<mapsto> Sampler_new geo seed_from i (statics (world x)))\<rparr>)"
| pstep_alloc: "heaps (base x) i = Some h \<Longrightarrow> samplers x i = Some sa \<Longrightarrow>
    heap_alloc_sampled A geo weight ips l (h, pool (base x), store (base x)) (sa, under_guard c (world x)) = Some (r, (h', po, s), sa', w) \<Longrightarrow>
    pstep A geo weight seed_from x (By c (Alloc i l r))
      (x\<lparr>base := (base x)\<lparr>pool := po, store := s, heaps := (heaps (base x))(i \<mapsto> h')\<rparr>,
         samplers := (samplers x)(i \<mapsto> sa'), world := under_guard Program w\<rparr>)"
| pstep_free: "heaps (base x) i = Some h \<Longrightarrow>
    heap_dealloc_sampled A weight p l (h, pool (base x), store (base x)) (under_guard c (world x)) = Some ((h', po, s), w) \<Longrightarrow>
    pstep A geo weight seed_from x (By c (Free i p l))
      (x\<lparr>base := (base x)\<lparr>pool := po, store := s, heaps := (heaps (base x))(i \<mapsto> h')\<rparr>, world := under_guard Program w\<rparr>)"
| pstep_drop: "step A (base x) (Drop i) \<sigma> \<Longrightarrow>
    pstep A geo weight seed_from x (By c (Drop i)) (x\<lparr>base := \<sigma>, samplers := (samplers x)(i := None)\<rparr>)"
| pstep_write: "step A (base x) (Write a v) \<sigma> \<Longrightarrow> pstep A geo weight seed_from x (By c (Write a v)) (x\<lparr>base := \<sigma>\<rparr>)"
| pstep_config: "set_pprof_config cfg (statics (world x)) = Some g \<Longrightarrow>
    pstep A geo weight seed_from x (Config cfg) (x\<lparr>world := (world x)\<lparr>statics := g\<rparr>\<rparr>)"

definition profiled_initial :: "'p \<Rightarrow> store \<Rightarrow> pprof_statics \<Rightarrow> ('p, 'r) profiled" where
  "profiled_initial pa s g = \<lparr>base = initial pa s, samplers = (\<lambda>_. None),
     world = \<lparr>in_pprof = False, statics = g, table = None\<rparr>\<rparr>"

text \<open>
  The calls of the allocator in a run; the memory that the profiler holds for itself after a step;
  and that each of the two clients frees only what it allocated.
\<close>

fun heap_events :: "pevent list \<Rightarrow> event list" where
  "heap_events [] = []"
| "heap_events (By c e # es) = e # heap_events es"
| "heap_events (Config cfg # es) = heap_events es"

fun own_after :: "pevent \<Rightarrow> addr set \<Rightarrow> addr set" where
  "own_after (By Profiler (Alloc i l (Some p))) Q = insert p Q"
| "own_after (By Profiler (Free i p l)) Q = Q - {p}"
| "own_after e Q = Q"

fun frees_own :: "pevent list \<Rightarrow> addr set \<Rightarrow> bool" where
  "frees_own [] Q \<longleftrightarrow> True"
| "frees_own (e # es) Q \<longleftrightarrow>
    (case e of By c (Free i p l) \<Rightarrow> (p \<in> Q \<longleftrightarrow> c = Profiler) | _ \<Rightarrow> True) \<and> frees_own es (own_after e Q)"

definition one_interval :: "u64 \<Rightarrow> pevent list \<Rightarrow> bool" where
  "one_interval R es \<longleftrightarrow> (\<forall>cfg. Config cfg \<in> set es \<longrightarrow> cfg = Some R)"

subsection \<open>The profiler is one more client of the allocator\<close>

lemma heap_alloc_sampled_base:
  "heap_alloc_sampled A geo weight ips l hw x = Some (r, hw', x') \<Longrightarrow> heap_alloc A l hw = Some (r, hw')"
  by (auto simp: heap_alloc_sampled_def bind_eq_Some_conv split: option.splits)

lemma heap_dealloc_sampled_base:
  "heap_dealloc_sampled A weight p l hw w = Some (hw', w') \<Longrightarrow> heap_dealloc A p l hw = Some hw'"
  by (auto simp: heap_dealloc_sampled_def bind_eq_Some_conv)

lemma pstep_base: "pstep A geo weight seed_from x (By c e) y \<Longrightarrow> step A (base x) e (base y)"
  by (erule pstep.cases)
    (auto dest!: heap_alloc_sampled_base heap_dealloc_sampled_base intro: step_alloc step_free)

inductive_cases pstep_configE: "pstep A geo weight seed_from x (Config cfg) y"


subsection \<open>The tables stay well formed\<close>

text \<open>Whatever the configuration was, every record has the id of a stack that has counters.\<close>

definition table_ok :: "pprof_world \<Rightarrow> bool" where
  "table_ok w \<longleftrightarrow> \<not> in_pprof w \<and> stacks_ok (stacks (the_state (table w))) \<and>
     (\<forall>e \<in> set (side (the_state (table w))). unat (stack_id (snd e)) < num_stacks w)"

lemma under_guard_sel [simp]:
  "in_pprof (under_guard c w) = (c = Profiler)" "statics (under_guard c w) = statics w" "table (under_guard c w) = table w"
  by (simp_all add: under_guard_def)

lemma under_guard_Program: "\<not> in_pprof w \<Longrightarrow> under_guard Program w = w"
  by (simp add: under_guard_def)

text \<open>Under the guard the hooks do nothing to the tables.\<close>

lemma guarded_hooks:
  "record_sample weight ips p sz k (under_guard Profiler w) = Some (under_guard Profiler w)"
  "maybe_remove_sample weight p (under_guard Profiler w) = Some (under_guard Profiler w)"
  by (simp_all add: record_sample_def maybe_remove_sample_def acquire_def under_guard_def)

lemma record_in_ok:
  assumes ok: "stacks_ok (stacks st)" "\<forall>e \<in> set (side st). unat (stack_id (snd e)) < length (counters (stacks st))"
    and n: "length (counters (stacks st)) < 2 ^ 32"
  obtains st' where "record_in weight R p sz k f st = Some st'" "stacks_ok (stacks st')"
    "\<forall>e \<in> set (side st'). unat (stack_id (snd e)) < length (counters (stacks st'))"
    "length (counters (stacks st')) \<le> Suc (length (counters (stacks st)))"
proof -
  obtain i t where int: "StackTable_intern f (stacks st) = (i, t)" by (metis surj_pair)
  note t = stacks_ok_intern [OF ok(1) n int]
  have len: "length (counters (stacks st)) \<le> length (counters t)"
    using int by (auto simp: StackTable_intern_def Let_def split: option.splits)
  have i: "unat i < length (counters t)" by (rule stacks_okD [OF t(1,2)])
  let ?st = "st\<lparr>stacks := t\<lparr>counters := (counters t)[unat i := add_weight (weight sz R) sz (counters t ! unat i)]\<rparr>,
      side := map_insert p \<lparr>stack_id = i, smp_size = sz, smp_class = k\<rparr> (side st)\<rparr>"
  have "record_in weight R p sz k f st = Some ?st" using int i by (simp add: record_in_def upd_counters_def)
  moreover have "\<forall>e \<in> set (side ?st). unat (stack_id (snd e)) < length (counters (stacks ?st))"
    using ok(2) i len by (auto simp: map_insert_def dest!: bspec)
  ultimately show thesis using that [of ?st] t(1,3) by simp
qed

lemma remove_in_ok:
  assumes ok: "stacks_ok (stacks st)" "\<forall>e \<in> set (side st). unat (stack_id (snd e)) < length (counters (stacks st))"
  obtains st' where "remove_in weight R p st = Some st'" "stacks_ok (stacks st')"
    "\<forall>e \<in> set (side st'). unat (stack_id (snd e)) < length (counters (stacks st'))"
    "length (counters (stacks st')) = length (counters (stacks st))"
proof (cases "map_of (side st) p")
  case None
  then show thesis using that [of st] ok by (simp add: remove_in_def)
next
  case (Some r)
  have "unat (stack_id r) < length (counters (stacks st))" using ok(2) map_of_SomeD [OF Some] by force
  then show thesis using that ok Some by (simp add: remove_in_def upd_counters_def map_remove_def)
qed

text \<open>The hooks never panic, whichever client calls them.\<close>

lemma maybe_sample_ok:
  assumes ok: "table_ok w" and n: "num_stacks w < 2 ^ 32"
  obtains sa' w' where "maybe_sample geo weight ips p sz k (sa, under_guard c w) = Some (sa', w')"
    "table_ok (under_guard Program w')" "statics w' = statics w" "num_stacks w' \<le> Suc (num_stacks w)"
proof -
  have T: "\<not> in_pprof w" "stacks_ok (stacks (the_state (table w)))"
    "\<forall>e \<in> set (side (the_state (table w))). unat (stack_id (snd e)) < num_stacks w"
    using ok by (simp_all add: table_ok_def)
  obtain b sa1 where chk: "Sampler_check geo sz sa = (b, sa1)" by (metis surj_pair)
  have "\<exists>w'. record_sample weight ips p sz k (under_guard c w) = Some w' \<and> table_ok (under_guard Program w') \<and>
      statics w' = statics w \<and> num_stacks w' \<le> Suc (num_stacks w)"
  proof (cases c)
    case Profiler
    then show ?thesis using guarded_hooks(1) ok T by (auto simp: table_ok_def)
  next
    case Program
    obtain st where "record_in weight (sample_interval (statics w)) p sz k (collect_frames ips []) (the_state (table w)) = Some st"
      "stacks_ok (stacks st)" "\<forall>e \<in> set (side st). unat (stack_id (snd e)) < length (counters (stacks st))"
      "length (counters (stacks st)) \<le> Suc (num_stacks w)"
      using record_in_ok [OF T(2,3) n] by metis
    then show ?thesis unfolding Program
      by (intro exI [of _ "w\<lparr>in_pprof := False, table := Some st\<rparr>"])
        (simp add: under_guard_def record_sample_def acquire_def release_def table_ok_def the_state_def)
  qed
  moreover have "table_ok (under_guard Program (under_guard c w))" using ok by (simp add: table_ok_def)
  ultimately show thesis using that chk by (cases "should_sample (statics w)"; cases b) (auto simp: maybe_sample_def)
qed

lemma sample_freed_ok:
  assumes ok: "table_ok w"
  obtains w' where "sample_freed weight p (under_guard c w) = Some w'"
    "table_ok (under_guard Program w')" "statics w' = statics w" "num_stacks w' = num_stacks w"
proof -
  have T: "\<not> in_pprof w" "stacks_ok (stacks (the_state (table w)))"
    "\<forall>e \<in> set (side (the_state (table w))). unat (stack_id (snd e)) < num_stacks w"
    using ok by (simp_all add: table_ok_def)
  have "\<exists>w'. maybe_remove_sample weight p (under_guard c w) = Some w' \<and> table_ok (under_guard Program w') \<and>
      statics w' = statics w \<and> num_stacks w' = num_stacks w"
  proof (cases c)
    case Profiler
    then show ?thesis using guarded_hooks(2) T by (auto simp: table_ok_def)
  next
    case Program
    obtain st where "remove_in weight (sample_interval (statics w)) p (the_state (table w)) = Some st"
      "stacks_ok (stacks st)" "\<forall>e \<in> set (side st). unat (stack_id (snd e)) < length (counters (stacks st))"
      "length (counters (stacks st)) = num_stacks w"
      using remove_in_ok [OF T(2,3)] by metis
    then show ?thesis unfolding Program
      by (intro exI [of _ "w\<lparr>in_pprof := False, table := Some st\<rparr>"])
        (simp add: under_guard_def maybe_remove_sample_def acquire_def release_def table_ok_def the_state_def)
  qed
  moreover have "table_ok (under_guard Program (under_guard c w))" using ok by (simp add: table_ok_def)
  ultimately show thesis using that by (cases "should_sample (statics w)") (auto simp: sample_freed_def)
qed

subsection \<open>Records belong to live allocations of the program\<close>

definition samples_live :: "(addr \<rightharpoonup> layout) \<Rightarrow> addr set \<Rightarrow> sample list \<Rightarrow> bool" where
  "samples_live al Q L \<longleftrightarrow> (\<forall>p f sz. (p, f, sz) \<in> set L \<longrightarrow> (\<exists>l. al p = Some l \<and> sz = hook_size l) \<and> p \<notin> Q)"

text \<open>While every configuration set has the interval \<open>R\<close>; before the first one nothing is recorded.\<close>

definition profiles :: "(nat \<Rightarrow> u64 \<Rightarrow> u64) \<Rightarrow> u64 \<Rightarrow> (addr \<rightharpoonup> layout) \<Rightarrow> addr set \<Rightarrow> pprof_world \<Rightarrow> bool" where
  "profiles weight R al Q w \<longleftrightarrow> Q \<subseteq> dom al \<and> (prof_active (statics w) \<longrightarrow> sample_interval (statics w) = R) \<and>
     (\<exists>L T. tracks (\<lambda>sz. weight sz R) L T (the_state (table w)) \<and> samples_live al Q L \<and> (\<not> prof_active (statics w) \<longrightarrow> L = []))"

lemma profiles_start:
  "(prof_active g \<longrightarrow> sample_interval g = R) \<Longrightarrow> profiles weight R al {} \<lparr>in_pprof = False, statics = g, table = None\<rparr>"
  unfolding profiles_def using tracks_new by (auto simp: the_state_def samples_live_def intro!: exI [of _ "[]"])

lemma profiles_cong: "profiles weight R al Q w \<Longrightarrow> statics w' = statics w \<Longrightarrow> table w' = table w \<Longrightarrow> profiles weight R al Q w'"
  by (simp add: profiles_def)

lemma profiles_config:
  assumes "profiles weight R al Q w" "set_pprof_config (Some R) (statics w) = Some g"
  shows "profiles weight R al Q (w\<lparr>statics := g\<rparr>)"
proof -
  have "g = (statics w)\<lparr>sample_interval := R, prof_active := True\<rparr>"
    using assms(2) by (simp add: set_pprof_config_def split: if_splits)
  then show ?thesis using assms(1) by (auto simp: profiles_def)
qed

text \<open>The two clients allocate and free.\<close>

definition owned :: "client \<Rightarrow> addr \<Rightarrow> addr set \<Rightarrow> addr set" where
  "owned c p Q = (if c = Profiler then insert p Q else Q)"

lemma profiles_alloc:
  assumes "profiles weight R al Q w" "al p = None"
  shows "profiles weight R (al(p \<mapsto> l)) (owned c p Q) w"
proof -
  have p: "p \<notin> Q" using assms by (auto simp: profiles_def)
  obtain L T where L: "tracks (\<lambda>sz. weight sz R) L T (the_state (table w))" "samples_live al Q L" "\<not> prof_active (statics w) \<longrightarrow> L = []"
    using assms(1) by (auto simp: profiles_def)
  have "samples_live (al(p \<mapsto> l)) (owned c p Q) L"
    using L(2) assms(2) unfolding samples_live_def owned_def by (metis fun_upd_other insertE option.distinct(1))
  moreover have "owned c p Q \<subseteq> dom (al(p \<mapsto> l))" using assms(1) by (auto simp: profiles_def owned_def)
  ultimately show ?thesis using assms(1) L(1,3) unfolding profiles_def by blast
qed

lemma maybe_sample_profiles:
  assumes w: "profiles weight R al Q w" and tb: "table_ok w" and fresh: "al p = None" and n: "num_stacks w < 2 ^ 32"
    and ms: "maybe_sample geo weight ips p (hook_size l) k (sa, under_guard c w) = Some (sa', w')"
  shows "profiles weight R (al(p \<mapsto> l)) (owned c p Q) (under_guard Program w')"
proof -
  obtain b sa1 where chk: "Sampler_check geo (hook_size l) sa = (b, sa1)" by (metis surj_pair)
  show ?thesis
  proof (cases "should_sample (statics w) \<and> b \<and> c = Program")
    case False
    then have "table w' = table w \<and> statics w' = statics w"
      using ms chk guarded_hooks(1) [of weight ips p "hook_size l" k w]
      by (cases c; cases b) (auto simp: maybe_sample_def split: if_splits)
    then show ?thesis by (intro profiles_cong [OF profiles_alloc [OF w fresh]]) simp_all
  next
    case True
    then have on: "sample_interval (statics w) = R" "prof_active (statics w)" using w by (auto simp: profiles_def should_sample_def)
    obtain L T where tr: "tracks (\<lambda>sz. weight sz (sample_interval (statics w))) L T (the_state (table w))"
      and L: "samples_live al Q L" using w unfolding on(1) by (auto simp: profiles_def)
    have "p \<notin> fst ` set L" using L fresh by (force simp: samples_live_def)
    then have "prof_legal [Sampled ips p (hook_size l) k] L" by simp
    moreover have "\<not> in_pprof w" using tb by (simp add: table_ok_def)
    ultimately obtain w1 where w1: "record_sample weight ips p (hook_size l) k w = Some w1" "statics w1 = statics w"
      "tracks (\<lambda>sz. weight sz R) ((p, collect_frames ips [], hook_size l) # L)
         ((p, collect_frames ips [], hook_size l) # T) (the_state (table w1))"
      using prof_exec_tracks [where weight = weight, OF tr _ n, of "Sampled ips p (hook_size l) k" "[]"] unfolding on(1) by auto
    have "w' = w1" using ms True chk w1(1) under_guard_Program [OF \<open>\<not> in_pprof w\<close>] by (simp add: maybe_sample_def)
    moreover have "p \<notin> Q" using w fresh by (auto simp: profiles_def)
    then have "samples_live (al(p \<mapsto> l)) Q ((p, collect_frames ips [], hook_size l) # L)"
      using L fresh by (fastforce simp: samples_live_def)
    moreover have "Q \<subseteq> dom (al(p \<mapsto> l))" using w by (auto simp: profiles_def)
    ultimately show ?thesis using w1(2,3) on True unfolding profiles_def owned_def under_guard_sel by auto
  qed
qed

lemma sample_freed_profiles:
  assumes w: "profiles weight R al Q w" and tb: "table_ok w" and n: "num_stacks w < 2 ^ 32"
    and own: "p \<in> Q \<longleftrightarrow> c = Profiler" and sf: "sample_freed weight p (under_guard c w) = Some w'"
  shows "profiles weight R (al(p := None)) (Q - {p}) (under_guard Program w')"
proof -
  obtain L T where tr: "tracks (\<lambda>sz. weight sz R) L T (the_state (table w))" and L: "samples_live al Q L"
    and off: "\<not> prof_active (statics w) \<longrightarrow> L = []" using w by (auto simp: profiles_def)
  have Q: "Q - {p} \<subseteq> dom (al(p := None))" using w by (auto simp: profiles_def)
  have L': "samples_live (al(p := None)) (Q - {p}) (filter (\<lambda>x. fst x \<noteq> p) L)" using L by (auto simp: samples_live_def)
  show ?thesis
  proof (cases "should_sample (statics w) \<and> c = Program")
    case False
    then have eq: "table w' = table w" "statics w' = statics w"
      using sf guarded_hooks(2) [of weight p w] by (cases c; auto simp: sample_freed_def split: if_splits)+
    have "filter (\<lambda>x. fst x \<noteq> p) L = L"
      using L off False own by (cases c) (force simp: samples_live_def should_sample_def filter_id_conv)+
    then show ?thesis using tr L' Q w off eq unfolding profiles_def under_guard_sel by metis
  next
    case True
    then have on: "sample_interval (statics w) = R" "prof_active (statics w)" using w by (auto simp: profiles_def should_sample_def)
    have ip: "\<not> in_pprof w" using tb by (simp add: table_ok_def)
    have "prof_legal [Freed p] L" by simp
    then obtain w1 where w1: "maybe_remove_sample weight p w = Some w1" "statics w1 = statics w"
      "tracks (\<lambda>sz. weight sz R) (filter (\<lambda>x. fst x \<noteq> p) L) T (the_state (table w1))"
      using prof_exec_tracks [where weight = weight and w = w and L = L and T = T and e = "Freed p" and es = "[]"] tr ip n
      unfolding on(1) by auto
    have "w' = w1" using sf True w1(1) under_guard_Program [OF ip] by (simp add: sample_freed_def)
    then show ?thesis using w1(2,3) on L' Q unfolding profiles_def under_guard_sel by auto
  qed
qed

subsection \<open>Runs\<close>

definition profiled_ok :: "('p \<Rightarrow> region set \<Rightarrow> bool) \<Rightarrow> ideal \<Rightarrow> ('p, 'r) profiled \<Rightarrow> bool" where
  "profiled_ok owns a x \<longleftrightarrow> refines owns (base x) a \<and> table_ok (world x) \<and> dom (samplers x) = dom (heaps (base x))"

lemma client_breaks_Cons:
  assumes "\<not> client_breaks astep lawful a (e # es)"
  shows "lawful a e" "astep a e a' \<Longrightarrow> \<not> client_breaks astep lawful a' es"
proof -
  show "lawful a e" using assms unfolding client_breaks_def by (metis append_Nil trace_nil)
  show "\<not> client_breaks astep lawful a' es" if "astep a e a'"
  proof
    assume "client_breaks astep lawful a' es"
    then obtain es1 f es2 a1 where "es = es1 @ f # es2" "trace astep a' es1 a1" "\<not> lawful a1 f"
      unfolding client_breaks_def by blast
    then have "e # es = (e # es1) @ f # es2 \<and> trace astep a (e # es1) a1 \<and> \<not> lawful a1 f"
      using trace_cons [where step = astep, OF that] by simp
    then show False using assms unfolding client_breaks_def by blast
  qed
qed

inductive_cases ideal_allocE: "ideal_step a (Alloc i l r) a'"
inductive_cases ideal_freeE: "ideal_step a (Free i p l) a'"

lemma ideal_step_same:
  "ideal_step a (New i) a' \<Longrightarrow> fst a' = fst a" "ideal_step a (Drop i) a' \<Longrightarrow> fst a' = fst a"
  "ideal_step a (Write b v) a' \<Longrightarrow> fst a' = fst a"
  by (auto elim: ideal_step.cases)

lemma step_heaps_dom:
  "step A \<sigma> (New i) \<sigma>' \<Longrightarrow> dom (heaps \<sigma>') = insert i (dom (heaps \<sigma>))"
  "step A \<sigma> (Drop i) \<sigma>' \<Longrightarrow> dom (heaps \<sigma>') = dom (heaps \<sigma>) - {i}"
  "step A \<sigma> (Write b v) \<sigma>' \<Longrightarrow> dom (heaps \<sigma>') = dom (heaps \<sigma>)"
  by (auto elim!: step.cases split: if_splits)

lemma heap_alloc_sampled_cases:
  assumes "heap_alloc_sampled A geo weight ips l hw (sa, w) = Some (r, hw', sa', w')"
  obtains "r = None" "sa' = sa" "w' = w"
  | p where "r = Some p" "maybe_sample geo weight ips p (hook_size l) (hook_class l) (sa, w) = Some (sa', w')"
  using assms by (auto simp: heap_alloc_sampled_def bind_eq_Some_conv split: option.splits)

lemma heap_dealloc_sampled_hook:
  "heap_dealloc_sampled A weight p l hw w = Some (hw', w') \<Longrightarrow> sample_freed weight p w = Some w'"
  by (auto simp: heap_dealloc_sampled_def bind_eq_Some_conv)

text \<open>What a step does to the tables, in both invariants.\<close>

lemma pstep_table:
  assumes st: "pstep A geo weight seed_from x e y" and tb: "table_ok (world x)" and n: "num_stacks (world x) < 2 ^ 32"
  shows "table_ok (world y) \<and> num_stacks (world y) \<le> Suc (num_stacks (world x))"
  using st
proof cases
  case (pstep_alloc i h sa ips l c r h' po s sa' w)
  show ?thesis
  proof (rule heap_alloc_sampled_cases [OF pstep_alloc(5)])
    assume "w = under_guard c (world x)"
    then show ?thesis using tb pstep_alloc(2) by (simp add: table_ok_def)
  next
    fix p assume "maybe_sample geo weight ips p (hook_size l) (hook_class l) (sa, under_guard c (world x)) = Some (sa', w)"
    moreover have "world y = under_guard Program w" using pstep_alloc(2) by simp
    ultimately show ?thesis
      using maybe_sample_ok [OF tb n, of geo weight ips p "hook_size l" "hook_class l" sa c]
      by (metis option.inject prod.inject under_guard_sel(3))
  qed
next
  case (pstep_free i h p l c h' po s w)
  have "world y = under_guard Program w" using pstep_free(2) by simp
  then show ?thesis
    using sample_freed_ok [OF tb, of weight p c] heap_dealloc_sampled_hook [OF pstep_free(4)]
    by (metis le_SucI option.inject order_refl under_guard_sel(3))
qed (use tb in \<open>simp_all add: table_ok_def\<close>)

lemma pstep_samplers:
  assumes "pstep A geo weight seed_from x e y" "dom (samplers x) = dom (heaps (base x))"
  shows "dom (samplers y) = dom (heaps (base y))"
  using assms(1)
proof cases
  case (pstep_new i \<sigma>)
  then show ?thesis using assms(2) step_heaps_dom(1) [OF pstep_new(3)] by simp
next
  case (pstep_drop i \<sigma>)
  then show ?thesis using assms(2) step_heaps_dom(2) [OF pstep_drop(3)] by simp
next
  case (pstep_write b v \<sigma>)
  then show ?thesis using assms(2) step_heaps_dom(3) [OF pstep_write(3)] by simp
qed (use assms(2) in auto)

text \<open>What a step does to the profile; \<open>a\<close> and \<open>a'\<close> are the states of the ideal allocator around it.\<close>

lemma pstep_profiles:
  assumes st: "pstep A geo weight seed_from x (By c e) y" and id: "ideal_step a e a'"
    and tb: "table_ok (world x)" "num_stacks (world x) < 2 ^ 32"
    and pr: "profiles weight R (fst a) Q (world x)" and fr: "frees_own (By c e # es) Q"
  shows "profiles weight R (fst a') (own_after (By c e) Q) (world y)"
  using st
proof cases
  case (pstep_new i \<sigma>)
  then show ?thesis using pr ideal_step_same(1) [OF id [unfolded pstep_new(1)]] by (cases c) simp_all
next
  case (pstep_drop i \<sigma>)
  then show ?thesis using pr ideal_step_same(2) [OF id [unfolded pstep_drop(1)]] by (cases c) simp_all
next
  case (pstep_write b v \<sigma>)
  then show ?thesis using pr ideal_step_same(3) [OF id [unfolded pstep_write(1)]] by (cases c) simp_all
next
  case (pstep_alloc i h sa ips l r h' po s sa' w)
  have y: "world y = under_guard Program w" using pstep_alloc(2) by simp
  show ?thesis
  proof (rule heap_alloc_sampled_cases [OF pstep_alloc(5)])
    assume r: "r = None" and w: "w = under_guard c (world x)"
    have "fst a' = fst a" using id r unfolding pstep_alloc(1) by (auto elim!: ideal_allocE)
    moreover have "own_after (By c e) Q = Q" using r unfolding pstep_alloc(1) by (cases c) simp_all
    ultimately show ?thesis using profiles_cong [OF pr, of "world y"] y w by simp
  next
    fix p assume r: "r = Some p" and
      m: "maybe_sample geo weight ips p (hook_size l) (hook_class l) (sa, under_guard c (world x)) = Some (sa', w)"
    have ap: "fst a p = None" "fst a' = (fst a)(p \<mapsto> l)"
      using id r unfolding pstep_alloc(1) by (auto elim!: ideal_allocE simp: fits_in_def)
    have "own_after (By c e) Q = owned c p Q" using r unfolding pstep_alloc(1) by (cases c) (simp_all add: owned_def)
    then show ?thesis using maybe_sample_profiles [OF pr tb(1) ap(1) tb(2) m] ap(2) y by simp
  qed
next
  case (pstep_free i h p l h' po s w)
  have own: "p \<in> Q \<longleftrightarrow> c = Profiler" using fr unfolding pstep_free(1) by simp
  have "fst a' = (fst a)(p := None)" using id unfolding pstep_free(1) by (auto elim!: ideal_freeE)
  moreover have "own_after (By c e) Q = Q - {p}" using own unfolding pstep_free(1) by (cases c) simp_all
  ultimately show ?thesis
    using sample_freed_profiles [OF pr tb own heap_dealloc_sampled_hook [OF pstep_free(4)]] pstep_free(2) by simp
qed

context page_allocator
begin

lemma prun_preserves:
  assumes "trace (pstep A geo weight seed_from) x es y" "profiled_ok owns a x" "num_stacks (world x) + length es \<le> 2 ^ 32"
    "\<not> client_breaks ideal_step legal a (heap_events es)"
  shows "\<exists>a'. trace ideal_step a (heap_events es) a' \<and> profiled_ok owns a' y \<and> num_stacks (world y) \<le> num_stacks (world x) + length es \<and>
    (frees_own es Q \<and> one_interval R es \<and> profiles weight R (fst a) Q (world x) \<longrightarrow>
       profiles weight R (fst a') (fold own_after es Q) (world y))"
  using assms
proof (induction arbitrary: a Q rule: trace.induct)
  case (trace_nil x)
  then show ?case by (auto intro: trace.intros)
next
  case (trace_cons x e y es z)
  have R: "refines owns (base x) a" and tb: "table_ok (world x)" and sm: "dom (samplers x) = dom (heaps (base x))"
    using trace_cons.prems(1) by (simp_all add: profiled_ok_def)
  have n: "num_stacks (world x) < 2 ^ 32" using trace_cons.prems(2) by simp
  note y = pstep_table [OF trace_cons.hyps(1) tb n] pstep_samplers [OF trace_cons.hyps(1) sm]
  have len: "num_stacks (world y) + length es \<le> 2 ^ 32" using y(1) trace_cons.prems(2) by simp
  show ?case
  proof (cases e)
    case (Config cfg)
    have b: "base y = base x" using trace_cons.hyps(1) unfolding Config by (auto elim: pstep_configE)
    then have ok: "profiled_ok owns a y" using R y by (simp add: profiled_ok_def)
    have "\<not> client_breaks ideal_step legal a (heap_events es)" using trace_cons.prems(3) unfolding Config by simp
    from trace_cons.IH [OF ok len this, of Q] obtain a' where a': "trace ideal_step a (heap_events es) a'" "profiled_ok owns a' z"
      "num_stacks (world z) \<le> num_stacks (world y) + length es"
      "frees_own es Q \<and> one_interval R es \<and> profiles weight R (fst a) Q (world y) \<longrightarrow>
         profiles weight R (fst a') (fold own_after es Q) (world z)" by blast
    have "profiles weight R (fst a) Q (world y)" if "cfg = Some R" "profiles weight R (fst a) Q (world x)"
      using trace_cons.hyps(1) that profiles_config unfolding Config by (auto elim!: pstep_configE)
    then show ?thesis using a' y(1) Config by (intro exI [of _ a']) (auto simp: one_interval_def)
  next
    case (By c f)
    note br = client_breaks_Cons [of ideal_step legal a f "heap_events es"]
    have nb: "\<not> client_breaks ideal_step legal a (f # heap_events es)" using trace_cons.prems(3) unfolding By by simp
    obtain a1 where a1: "ideal_step a f a1" "refines owns (base y) a1"
      using step_simulates [OF R pstep_base [OF trace_cons.hyps(1) [unfolded By]] br(1) [OF nb]] by blast
    then have ok: "profiled_ok owns a1 y" using y by (simp add: profiled_ok_def)
    from trace_cons.IH [OF ok len br(2) [OF nb a1(1)], of "own_after e Q"] obtain a' where
      a': "trace ideal_step a1 (heap_events es) a'" "profiled_ok owns a' z" "num_stacks (world z) \<le> num_stacks (world y) + length es"
        "frees_own es (own_after e Q) \<and> one_interval R es \<and> profiles weight R (fst a1) (own_after e Q) (world y) \<longrightarrow>
           profiles weight R (fst a') (fold own_after es (own_after e Q)) (world z)" by blast
    have "profiles weight R (fst a1) (own_after e Q) (world y)" if "frees_own (e # es) Q" "profiles weight R (fst a) Q (world x)"
      using pstep_profiles [OF trace_cons.hyps(1) [unfolded By] a1(1) tb n that(2) that(1) [unfolded By]] By by simp
    moreover have "trace ideal_step a (f # heap_events es) a'" by (rule trace.trace_cons [where step = ideal_step, OF a1(1) a'(1)])
    ultimately show ?thesis using a'(2-4) y(1) By by (intro exI [of _ a']) (auto simp: one_interval_def)
  qed
qed

end

lemma profiled_run:
  fixes x :: "('p, 'r) profiled"
  assumes "page_allocator A owns" "owns pa {}" "length es < 2 ^ 32"
    "trace (pstep A geo weight seed_from) (profiled_initial pa s g) es x"
    "\<not> client_breaks ideal_step legal (\<lambda>_. None, bytes s) (heap_events es)"
  obtains al M where "trace ideal_step (\<lambda>_. None, bytes s) (heap_events es) (al, M)" "profiled_ok owns (al, M) x"
    "num_stacks (world x) < 2 ^ 32"
    "frees_own es {} \<Longrightarrow> one_interval R es \<Longrightarrow> prof_active g \<longrightarrow> sample_interval g = R \<Longrightarrow>
       profiles weight R al (fold own_after es {}) (world x)"
proof -
  define x0 :: "('p, 'r) profiled" where "x0 = profiled_initial pa s g"
  have "refines owns (initial pa s) (\<lambda>_. None, bytes s)"
    using initial_ok [of owns pa s] assms(2) by (auto simp: refines_def program_bytes_def)
  moreover have st: "the_state None = PprofState_new" by (simp add: the_state_def)
  ultimately have ok: "profiled_ok owns (\<lambda>_. None, bytes s) x0"
    by (simp add: x0_def profiled_ok_def profiled_initial_def initial_def table_ok_def PprofState_new_def)
  have n: "num_stacks (world x0) = 0"
    by (simp add: x0_def profiled_initial_def st PprofState_new_def StackTable_new_def)
  then have "num_stacks (world x0) + length es \<le> 2 ^ 32" using assms(3) by simp
  from page_allocator.prun_preserves [OF assms(1) assms(4) [folded x0_def] ok this assms(5), of "{}" R] obtain a' where
    a': "trace ideal_step (\<lambda>_. None, bytes s) (heap_events es) a'" "profiled_ok owns a' x" "num_stacks (world x) \<le> length es"
      "frees_own es {} \<and> one_interval R es \<and> profiles weight R (\<lambda>_. None) {} (world x0) \<longrightarrow>
         profiles weight R (fst a') (fold own_after es {}) (world x)"
    unfolding n by auto
  have "profiles weight R (\<lambda>_. None) {} (world x0)" if "prof_active g \<longrightarrow> sample_interval g = R"
    using profiles_start [OF that] by (simp add: x0_def profiled_initial_def)
  then show thesis using that [of "fst a'" "snd a'"] a' assms(3) by simp
qed

lemma alloc_sampled_returns:
  assumes "profiled_ok owns a x" "num_stacks (world x) < 2 ^ 32" and r: "heap_alloc A l hw = Some (r, hw')"
  shows "\<exists>sa' w'. heap_alloc_sampled A geo weight ips l hw (sa, under_guard c (world x)) = Some (r, hw', sa', w')"
proof (cases r)
  case (Some p)
  have "table_ok (world x)" using assms(1) by (simp add: profiled_ok_def)
  then obtain sa' w' where
    "maybe_sample geo weight ips p (hook_size l) (hook_class l) (sa, under_guard c (world x)) = Some (sa', w')"
    using maybe_sample_ok [OF _ assms(2)] by metis
  then show ?thesis using r Some by (simp add: heap_alloc_sampled_def)
qed (use r in \<open>simp add: heap_alloc_sampled_def\<close>)

text \<open>Under the guard an allocation leaves the tables alone.\<close>

lemma guarded_alloc_table:
  assumes "heap_alloc_sampled A geo weight ips l hw (sa, under_guard Profiler w) = Some (r, hw', sa', w')"
  shows "table w' = table w"
proof (rule heap_alloc_sampled_cases [OF assms])
  fix p assume m: "maybe_sample geo weight ips p (hook_size l) (hook_class l) (sa, under_guard Profiler w) = Some (sa', w')"
  obtain b sa1 where "Sampler_check geo (hook_size l) sa = (b, sa1)" by (metis surj_pair)
  then show ?thesis using m guarded_hooks(1) [of weight ips p "hook_size l" "hook_class l" w]
    by (cases b) (auto simp: maybe_sample_def split: if_splits)
qed simp


text \<open>
  C11. With the profiler in it every operation still returns, whatever configurations are set during
  the run, off and on and with any intervals: in every state such a run reaches, each heap has a
  sampler, an allocation returns whatever the backtrace library reports, and a free of an allocated
  pointer returns, both for the program and, under the reentrancy guard, for the profiler itself.
  Between calls the guard is free. No hook panics.
\<close>

theorem profiled_operations_return:
  assumes "page_allocator A owns" "owns pa {}" "length es < 2 ^ 32"
    "trace (pstep A geo weight seed_from) (profiled_initial pa s g) es x"
    "\<not> client_breaks ideal_step legal (\<lambda>_. None, bytes s) (heap_events es)" "heaps (base x) i = Some h"
  shows "\<exists>al M sa. trace ideal_step (\<lambda>_. None, bytes s) (heap_events es) (al, M) \<and> samplers x i = Some sa \<and>
    under_guard Program (world x) = world x \<and>
    (\<forall>c l ips. layout_ok l \<longrightarrow> 0 < lsize l \<longrightarrow>
      (\<exists>r. heap_alloc_sampled A geo weight ips l (h, pool (base x), store (base x)) (sa, under_guard c (world x)) = Some r)) \<and>
    (\<forall>c p l. al p = Some l \<longrightarrow>
      (\<exists>r. heap_dealloc_sampled A weight p l (h, pool (base x), store (base x)) (under_guard c (world x)) = Some r))"
proof -
  obtain al M where a: "trace ideal_step (\<lambda>_. None, bytes s) (heap_events es) (al, M)" "profiled_ok owns (al, M) x"
    "num_stacks (world x) < 2 ^ 32" by (rule profiled_run [OF assms(1-5), of 0])
  obtain G where so: "system_ok owns G al (base x)" and tb: "table_ok (world x)"
    and sm: "dom (samplers x) = dom (heaps (base x))" using a(2) by (auto simp: profiled_ok_def refines_def)
  obtain sa where sa: "samplers x i = Some sa" using sm assms(6) by blast
  have "\<exists>r. heap_alloc_sampled A geo weight ips l (h, pool (base x), store (base x)) (sa, under_guard c (world x)) = Some r"
    if l: "layout_ok l" "0 < lsize l" for c l ips
    using page_allocator.system_alloc [OF assms(1) so assms(6) l] alloc_sampled_returns [OF a(2,3)] by blast
  moreover have "\<exists>r. heap_dealloc_sampled A weight p l (h, pool (base x), store (base x)) (under_guard c (world x)) = Some r"
    if "al p = Some l" for c p l
    using sample_freed_ok [OF tb, of weight p c] page_allocator.system_dealloc [OF assms(1) so assms(6) that]
    by (fastforce simp: heap_dealloc_sampled_def)
  moreover have "under_guard Program (world x) = world x" using tb by (intro under_guard_Program) (simp add: table_ok_def)
  ultimately show ?thesis using a(1) sa by blast
qed

text \<open>
  A run over the bump allocator. Profiling is switched on, a heap is made, the program allocates, and
  the profiler allocates for itself. Every countdown is one byte, so that the program's allocation is
  sampled; the profiler's would be, but for the guard.
\<close>

abbreviation one_byte :: "unit \<Rightarrow> u64 \<Rightarrow> u64 \<times> unit" where
  "one_byte r n \<equiv> (1, r)"

abbreviation bump_pstep :: "(bump_kernel, unit) profiled \<Rightarrow> pevent \<Rightarrow> (bump_kernel, unit) profiled \<Rightarrow> bool" where
  "bump_pstep \<equiv> pstep bump_pages one_byte (\<lambda>sz n. n) (\<lambda>i. ())"

abbreviation bump_profiled :: "(bump_kernel, unit) profiled" where
  "bump_profiled \<equiv> profiled_initial ({}, 16) zero_store pprof_statics_init"

abbreviation sampled_events :: "pevent list" where
  "sampled_events \<equiv> [Config (Some 100), By Program (New 1), By Program (Alloc 1 big_layout (Some 65536))]"

abbreviation profiled_events :: "addr option \<Rightarrow> pevent list" where
  "profiled_events q \<equiv> sampled_events @ [By Profiler (Alloc 1 small_layout q)]"

lemma profiled_events_ok:
  "length (profiled_events q) < 2 ^ 32" "frees_own (profiled_events q) {}" "one_interval 100 (profiled_events q)"
  "\<not> client_breaks ideal_step legal (\<lambda>_. None, bytes zero_store) (heap_events (profiled_events q))"
  using small_layout_ok big_layout_ok by (auto simp: one_interval_def intro!: always_legal)

lemma sampled_events_ok: "\<not> client_breaks ideal_step legal (\<lambda>_. None, bytes zero_store) (heap_events sampled_events)"
  using big_layout_ok by (auto intro!: always_legal)

lemma first_sampled:
  "\<exists>sa' w'. maybe_sample one_byte (\<lambda>sz n. n) [7] 65536 (hook_size big_layout) k
     (\<lparr>countdown = 1, rng = (), interval = 100\<rparr>, \<lparr>in_pprof = False, statics = \<lparr>prof_active = True, sample_interval = 100\<rparr>, table = None\<rparr>) =
     Some (sa', w') \<and> map fst (side (the_state (table w'))) = [65536]"
proof -
  let ?sa = "\<lparr>countdown = 1, rng = (), interval = 100\<rparr>"
  have "hook_size big_layout = 131072" using big_layout_ok(3) by (simp add: hook_size_def) (simp add: big_layout_def)
  moreover obtain b sa' where chk: "Sampler_check one_byte 131072 ?sa = (b, sa')" by (metis surj_pair)
  moreover have b using Sampler_check_cases(2) [of ?sa 131072 one_byte] chk by simp
  ultimately show ?thesis by (simp add: maybe_sample_def prof_defs)
qed

lemma sampled_run:
  "\<exists>x h. trace bump_pstep bump_profiled sampled_events x \<and> heaps (base x) 1 = Some h \<and>
     map fst (side (the_state (table (world x)))) = [65536]"
proof -
  let ?w = "\<lparr>in_pprof = False, statics = \<lparr>prof_active = True, sample_interval = 100\<rparr>, table = None\<rparr>"
  let ?x0 = "bump_profiled" and ?x1 = "bump_profiled\<lparr>world := ?w\<rparr>" and ?sa = "\<lparr>countdown = 1, rng = (), interval = 100\<rparr> :: unit Sampler"
  have p1: "bump_pstep ?x0 (Config (Some 100)) ?x1"
    using pstep_config [of "Some 100" ?x0 "statics ?w" bump_pages one_byte "\<lambda>sz n. n" "\<lambda>i. ()"]
    by (simp add: set_pprof_config_def profiled_initial_def pprof_statics_init_def)
  obtain h n s where new: "Heap_new 1 zero_store = (h, n, s)" by (metis surj_pair)
  let ?\<sigma> = "(initial ({}, 16) zero_store)\<lparr>store := s, heaps := [1 \<mapsto> h], counter := n\<rparr> :: bump_kernel allocator"
  have "hid h = 1" using new by (auto simp: Heap_new_def next_heap_id_def)
  then have s1: "step bump_pages (base ?x1) (New 1) ?\<sigma>"
    using step_new [of "initial ({}, 16) zero_store" h n s bump_pages] new by (simp add: initial_def profiled_initial_def)
  let ?x2 = "?x1\<lparr>base := ?\<sigma>, samplers := [1 \<mapsto> ?sa]\<rparr>"
  have p2: "bump_pstep ?x1 (By Program (New 1)) ?x2"
    using pstep_new [OF s1, of one_byte "\<lambda>sz n. n" "\<lambda>i. ()" Program] by (simp add: Sampler_new_def profiled_initial_def)
  obtain h' po s' where al: "heap_alloc bump_pages big_layout (h, pool ?\<sigma>, s) = Some (Some 65536, h', po, s')"
    using bump_big_alloc [of "pool ?\<sigma>" h s] by (auto simp: initial_def PagePool_new_def)
  obtain sa' w' where m: "maybe_sample one_byte (\<lambda>sz n. n) [7] 65536 (hook_size big_layout) (hook_class big_layout) (?sa, ?w) = Some (sa', w')"
    "map fst (side (the_state (table w'))) = [65536]" using first_sampled [of "hook_class big_layout"] by (elim exE conjE)
  have hs: "heap_alloc_sampled bump_pages one_byte (\<lambda>sz n. n) [7] big_layout (h, pool (base ?x2), store (base ?x2))
      (?sa, under_guard Program (world ?x2)) = Some (Some 65536, (h', po, s'), sa', w')"
    using al m(1) by (simp add: heap_alloc_sampled_def under_guard_def)
  let ?x3 = "?x2\<lparr>base := (base ?x2)\<lparr>pool := po, store := s', heaps := (heaps (base ?x2))(1 \<mapsto> h')\<rparr>,
      samplers := (samplers ?x2)(1 \<mapsto> sa'), world := under_guard Program w'\<rparr>"
  have p3: "bump_pstep ?x2 (By Program (Alloc 1 big_layout (Some 65536))) ?x3" by (rule pstep_alloc [OF _ _ hs]) simp_all
  have "trace bump_pstep ?x0 sampled_events ?x3"
    by (rule trace_cons [where step = bump_pstep, OF p1 trace_cons [where step = bump_pstep, OF p2 trace_cons [where step = bump_pstep, OF p3 trace_nil]]])
  moreover have "heaps (base ?x3) 1 = Some h'" by simp
  moreover have "map fst (side (the_state (table (world ?x3)))) = [65536]" using m(2) by simp
  ultimately show ?thesis by (intro exI [of _ ?x3] exI [of _ h'] conjI)
qed

lemma profiled_bump_run:
  "\<exists>q x h. trace bump_pstep bump_profiled (profiled_events q) x \<and> heaps (base x) 1 = Some h \<and>
     map fst (side (the_state (table (world x)))) = [65536]"
proof -
  obtain x h where t: "trace bump_pstep bump_profiled sampled_events x" "heaps (base x) 1 = Some h"
    "map fst (side (the_state (table (world x)))) = [65536]" using sampled_run by (elim exE conjE)
  have len: "length sampled_events < 2 ^ 32" by simp
  obtain al M where a: "profiled_ok (owns_pages fst) (al, M) x" "num_stacks (world x) < 2 ^ 32"
    by (rule profiled_run [OF bump_contract bump_empty len t(1) sampled_events_ok, of 0])
  obtain G where so: "system_ok (owns_pages fst) G al (base x)" using a(1) by (auto simp: profiled_ok_def refines_def)
  obtain sa where sa: "samplers x 1 = Some sa" using a(1) t(2) by (auto simp: profiled_ok_def)
  obtain q h' po s where al: "heap_alloc bump_pages small_layout (h, pool (base x), store (base x)) = Some (q, h', po, s)"
    using page_allocator.system_alloc [OF bump_contract so t(2) small_layout_ok] by blast
  obtain sa' w' where hs: "heap_alloc_sampled bump_pages one_byte (\<lambda>sz n. n) [7] small_layout
      (h, pool (base x), store (base x)) (sa, under_guard Profiler (world x)) = Some (q, (h', po, s), sa', w')"
    using alloc_sampled_returns [OF a al] by blast
  then have tb: "table w' = table (world x)" by (rule guarded_alloc_table)
  let ?y = "x\<lparr>base := (base x)\<lparr>pool := po, store := s, heaps := (heaps (base x))(1 \<mapsto> h')\<rparr>,
      samplers := (samplers x)(1 \<mapsto> sa'), world := under_guard Program w'\<rparr>"
  have "bump_pstep x (By Profiler (Alloc 1 small_layout q)) ?y" by (rule pstep_alloc [OF t(2) sa hs])
  then have "trace bump_pstep x [By Profiler (Alloc 1 small_layout q)] ?y" by (rule trace_cons [where step = bump_pstep, OF _ trace_nil])
  then have "trace bump_pstep bump_profiled (profiled_events q) ?y" by (rule trace_append [OF t(1)])
  moreover have "heaps (base ?y) 1 = Some h'" "map fst (side (the_state (table (world ?y)))) = [65536]" using t(3) tb by simp_all
  ultimately show ?thesis by (intro exI [of _ q] exI [of _ ?y] exI [of _ h'] conjI)
qed


theorem profiled_operations_return_witness:
  "\<exists>q x h sa. trace bump_pstep bump_profiled (profiled_events q) x \<and> heaps (base x) 1 = Some h \<and>
    (\<forall>c. \<exists>y. heap_alloc_sampled bump_pages one_byte (\<lambda>sz n. n) [7] small_layout (h, pool (base x), store (base x)) (sa, under_guard c (world x)) = Some y)"
proof -
  obtain q x h where t: "trace bump_pstep bump_profiled (profiled_events q) x" "heaps (base x) 1 = Some h" using profiled_bump_run by (elim exE conjE)
  note ev = profiled_events_ok [of q]
  from profiled_operations_return [OF bump_contract bump_empty ev(1) t(1) ev(4) t(2)] show ?thesis using t small_layout_ok by blast
qed

end
