(* ===== verification/Floating.thy ===== *)
theory Floating
  imports Prelude Complex_Main
begin

text \<open>
  Floating-point numbers, as far as the profiler uses them. A finite \<open>f64\<close> is the real number it
  stands for. Conversions of integers, literals and the operations \<open>*\<close>, \<open>/\<close> and \<open>-\<close> round the exact
  result to the nearest representable number, ties to even, with subnormal numbers; \<open>ceil\<close>,
  \<open>round\<close>, negation and comparisons are exact, and \<open>as u64\<close> truncates and saturates. Infinities and
  NaN are not represented. The lemmas bound relative errors (\<open>appr\<close>) through sequences of operations.
\<close>

subsection \<open>Rounding and casts\<close>

text \<open>Nearest integer, ties to even; the distance of neighbouring numbers; rounding.\<close>

definition round_even :: "real \<Rightarrow> int" where
  "round_even x = (let k = \<lfloor>x\<rfloor> in
     if x - real_of_int k < 1 / 2 then k else if 1 / 2 < x - real_of_int k then k + 1 else if even k then k else k + 1)"

definition f64_ulp :: "real \<Rightarrow> real" where
  "f64_ulp x = 2 powr (max (real_of_int \<lfloor>log 2 \<bar>x\<bar>\<rfloor>) (- 1022) - 52)"

definition f64_round :: "real \<Rightarrow> real" where
  "f64_round x = (if x = 0 then 0 else real_of_int (round_even (x / f64_ulp x)) * f64_ulp x)"

definition MIN_POSITIVE :: real where
  "MIN_POSITIVE = 1 / 2 ^ 1022"

text \<open>The cast \<open>as u64\<close>, and \<open>f64::round\<close>, which rounds ties away from zero.\<close>

definition f64_to_u64 :: "real \<Rightarrow> u64" where
  "f64_to_u64 x = (if x \<le> 0 then 0 else if 2 ^ 64 \<le> x then - 1 else of_nat (nat \<lfloor>x\<rfloor>))"

definition round_away :: "real \<Rightarrow> real" where
  "round_away x = (if 0 \<le> x then real_of_int \<lfloor>x + 1 / 2\<rfloor> else - real_of_int \<lfloor>1 / 2 - x\<rfloor>)"

subsection \<open>Rounding errors\<close>

lemma round_even_error: "\<bar>real_of_int (round_even x) - x\<bar> \<le> 1 / 2"
proof -
  have "real_of_int \<lfloor>x\<rfloor> \<le> x" "x < real_of_int \<lfloor>x\<rfloor> + 1" by linarith+
  then show ?thesis unfolding round_even_def Let_def by (auto simp: abs_le_iff)
qed

lemma f64_ulp_pos [simp]: "0 < f64_ulp x" "f64_ulp x \<noteq> 0" "\<bar>f64_ulp x\<bar> = f64_ulp x"
  by (simp_all add: f64_ulp_def)

lemma f64_round_error: "\<bar>f64_round x - x\<bar> \<le> f64_ulp x / 2"
proof (cases "x = 0")
  case False
  have "f64_round x - x = (real_of_int (round_even (x / f64_ulp x)) - x / f64_ulp x) * f64_ulp x"
    using False by (simp add: f64_round_def left_diff_distrib)
  then have "\<bar>f64_round x - x\<bar> = \<bar>real_of_int (round_even (x / f64_ulp x)) - x / f64_ulp x\<bar> * f64_ulp x"
    by (simp add: abs_mult)
  also have "\<dots> \<le> 1 / 2 * f64_ulp x"
    by (rule mult_right_mono [OF round_even_error]) (simp add: less_imp_le)
  finally show ?thesis by simp
qed (simp add: f64_round_def less_imp_le)

lemma MIN_POSITIVE_powr: "MIN_POSITIVE = 2 powr (- 1022)"
  by (simp add: MIN_POSITIVE_def powr_minus_divide powr_numeral)

lemma f64_ulp_normal:
  assumes "MIN_POSITIVE \<le> \<bar>x\<bar>"
  shows "f64_ulp x \<le> \<bar>x\<bar> / 2 ^ 52"
proof -
  let ?k = "\<lfloor>log 2 \<bar>x\<bar>\<rfloor>"
  have x: "0 < \<bar>x\<bar>" using assms by (auto simp: MIN_POSITIVE_def)
  have "- 1022 \<le> log 2 \<bar>x\<bar>" using assms x by (simp add: MIN_POSITIVE_powr le_log_iff)
  then have "- 1022 \<le> ?k" by (simp add: le_floor_iff)
  then have "- 1022 \<le> real_of_int ?k" by linarith
  then have "f64_ulp x = 2 powr real_of_int ?k / 2 ^ 52"
    by (simp add: f64_ulp_def max_absorb1 powr_diff powr_numeral)
  moreover have "2 powr real_of_int ?k \<le> \<bar>x\<bar>"
  proof -
    have "real_of_int ?k \<le> log 2 \<bar>x\<bar>" by simp
    then have "2 powr real_of_int ?k \<le> 2 powr log 2 \<bar>x\<bar>" by simp
    then show ?thesis using x by (simp add: powr_log_cancel)
  qed
  ultimately show ?thesis by (simp add: divide_right_mono)
qed

lemma f64_round_normal:
  assumes "MIN_POSITIVE \<le> \<bar>x\<bar>"
  shows "\<bar>f64_round x - x\<bar> \<le> \<bar>x\<bar> / 2 ^ 53"
  using f64_round_error [of x] f64_ulp_normal [OF assms] by simp

text \<open>\<open>y\<close> approximates \<open>x\<close> with a relative error of at most \<open>e\<close>.\<close>

definition appr :: "real \<Rightarrow> real \<Rightarrow> real \<Rightarrow> bool" where
  "appr e x y \<longleftrightarrow> \<bar>y - x\<bar> \<le> e * \<bar>x\<bar>"

lemma appr_round: "MIN_POSITIVE \<le> \<bar>x\<bar> \<Longrightarrow> appr (1 / 2 ^ 53) x (f64_round x)"
  using f64_round_normal [of x] by (simp add: appr_def)

lemma appr_mono: "appr d x y \<Longrightarrow> d \<le> e \<Longrightarrow> appr e x y"
  unfolding appr_def by (meson abs_ge_zero mult_right_mono order_trans)

lemma appr_factor: "appr e x y \<longleftrightarrow> 0 \<le> e \<and> (\<exists>a. \<bar>a\<bar> \<le> e \<and> y = x * (1 + a))" if "x \<noteq> 0"
proof
  assume ap: "appr e x y"
  let ?a = "(y - x) / x"
  have "y = x * (1 + ?a)" using that by (simp add: field_simps)
  moreover have "\<bar>?a\<bar> \<le> e" using ap that unfolding appr_def by (simp add: abs_divide pos_divide_le_eq)
  ultimately show "0 \<le> e \<and> (\<exists>a. \<bar>a\<bar> \<le> e \<and> y = x * (1 + a))" by (metis abs_ge_zero order_trans)
next
  assume "0 \<le> e \<and> (\<exists>a. \<bar>a\<bar> \<le> e \<and> y = x * (1 + a))"
  then obtain a where a: "\<bar>a\<bar> \<le> e" "y = x * (1 + a)" by blast
  have "\<bar>y - x\<bar> = \<bar>a\<bar> * \<bar>x\<bar>" unfolding a(2) by (simp add: algebra_simps abs_mult)
  then show "appr e x y" using a(1) unfolding appr_def by (simp add: mult_right_mono)
qed

lemma abs_factors:
  assumes "\<bar>a\<bar> \<le> d" "\<bar>b\<bar> \<le> (e :: real)" "d + e + d * e \<le> f"
  shows "\<exists>c. \<bar>c\<bar> \<le> f \<and> (1 + a) * (1 + b) = 1 + c"
proof -
  have "\<bar>a + b + a * b\<bar> \<le> \<bar>a\<bar> + \<bar>b\<bar> + \<bar>a\<bar> * \<bar>b\<bar>" by (metis abs_mult abs_triangle_ineq add_right_mono order_trans)
  also have "\<dots> \<le> d + e + d * e" using assms(1,2) by (intro add_mono mult_mono) auto
  finally show ?thesis using assms(3) by (intro exI [of _ "a + b + a * b"]) (simp add: algebra_simps)
qed

lemma appr_trans:
  assumes "appr d x y" "appr e y z" "d + e + d * e \<le> f" "0 \<le> e" "x \<noteq> 0"
  shows "appr f x z"
proof -
  obtain a where a: "\<bar>a\<bar> \<le> d" "y = x * (1 + a)" "0 \<le> d" using assms(1,5) by (auto simp: appr_factor)
  obtain b where b: "\<bar>b\<bar> \<le> e" "z = y * (1 + b)"
  proof (cases "y = 0")
    case True
    then have "z = 0" using assms(2) by (simp add: appr_def)
    then show thesis using that [of 0] True assms(4) by simp
  qed (use assms(2) that in \<open>auto simp: appr_factor\<close>)
  have "0 \<le> f" using assms(3,4) a(3) by (meson add_nonneg_nonneg mult_nonneg_nonneg order_trans)
  then show ?thesis
    using abs_factors [OF a(1) b(1) assms(3)] assms(5) unfolding a(2) b(2) by (auto simp: appr_factor mult.assoc)
qed

lemma appr_mult:
  assumes "appr d x x'" "appr e y y'" "d + e + d * e \<le> f" "x \<noteq> 0" "y \<noteq> 0"
  shows "appr f (x * y) (x' * y')"
proof -
  obtain a where a: "\<bar>a\<bar> \<le> d" "x' = x * (1 + a)" "0 \<le> d" using assms(1,4) by (auto simp: appr_factor)
  obtain b where b: "\<bar>b\<bar> \<le> e" "y' = y * (1 + b)" "0 \<le> e" using assms(2,5) by (auto simp: appr_factor)
  obtain c where c: "\<bar>c\<bar> \<le> f" "(1 + a) * (1 + b) = 1 + c" using abs_factors [OF a(1) b(1) assms(3)] by blast
  have "x' * y' = x * y * ((1 + a) * (1 + b))" unfolding a(2) b(2) by (simp add: algebra_simps)
  then have "x' * y' = x * y * (1 + c)" using c(2) by simp
  then show ?thesis using c(1) assms(4,5) by (auto simp: appr_factor intro: order_trans [OF abs_ge_zero])
qed

lemma appr_divide:
  assumes "appr d x x'" "appr e y y'" "d + e \<le> f * (1 - e)" "e < 1" "x \<noteq> 0" "y \<noteq> 0"
  shows "appr f (x / y) (x' / y')"
proof -
  obtain a where a: "\<bar>a\<bar> \<le> d" "x' = x * (1 + a)" "0 \<le> d" using assms(1,5) by (auto simp: appr_factor)
  obtain b where b: "\<bar>b\<bar> \<le> e" "y' = y * (1 + b)" "0 \<le> e" using assms(2,6) by (auto simp: appr_factor)
  have pos: "0 < 1 - e" "1 - e \<le> 1 + b" using b(1) assms(4) by (auto simp: abs_le_iff)
  then have f: "0 \<le> f" using a(3) b(3) assms(3) by (smt (verit) mult_neg_pos)
  have c: "(1 + a) / (1 + b) = 1 + (a - b) / (1 + b)" using pos by (simp add: field_simps)
  have "\<bar>a - b\<bar> \<le> f * (1 - e)" using a(1) b(1) assms(3) by linarith
  also have "\<dots> \<le> f * (1 + b)" using pos f by (simp add: mult_left_mono)
  finally have "\<bar>(a - b) / (1 + b)\<bar> \<le> f" using pos by (simp add: abs_divide pos_divide_le_eq)
  moreover have "x' / y' = x / y * ((1 + a) / (1 + b))" unfolding a(2) b(2) by simp
  ultimately show ?thesis unfolding c using f assms(5,6) by (auto simp: appr_factor)
qed

lemma appr_pos: "appr e x y \<Longrightarrow> 0 < x \<Longrightarrow> e < 1 \<Longrightarrow> 0 < y \<and> (1 - e) * x \<le> y \<and> y \<le> (1 + e) * x"
proof -
  assume a: "appr e x y" "0 < x" "e < 1"
  then have "(1 - e) * x \<le> y" "y \<le> (1 + e) * x" unfolding appr_def by (auto simp: abs_le_iff algebra_simps)
  moreover have "0 < (1 - e) * x" using a by simp
  ultimately show ?thesis by linarith
qed

lemma MIN_POSITIVE_le: "1 / 2 ^ 70 \<le> x \<Longrightarrow> MIN_POSITIVE \<le> x"
  by (rule order_trans [of _ "1 / 2 ^ 70"]) (simp add: MIN_POSITIVE_def)

lemma appr_nat: "appr (1 / 2 ^ 53) (real k) (f64_round (real k))"
proof (cases "k = 0")
  case False
  then have "(1 :: real) \<le> real k" by simp
  then have "1 / 2 ^ 70 \<le> real k" by (rule order_trans [rotated]) simp
  then show ?thesis using MIN_POSITIVE_le by (intro appr_round) simp
qed (simp add: appr_def f64_round_def)

subsection \<open>64-bit integers\<close>

lemma unat_of_nat64: "k < 2 ^ 64 \<Longrightarrow> unat (of_nat k :: u64) = k"
  by (simp add: unat_of_nat take_bit_nat_eq_self)

lemma f64_to_u64_nat: "real k = x \<Longrightarrow> k < 2 ^ 64 \<Longrightarrow> unat (f64_to_u64 x) = k"
proof -
  assume k: "real k = x" "k < 2 ^ 64"
  then have "\<not> 2 ^ 64 \<le> x" by (metis not_le of_nat_less_iff of_nat_numeral of_nat_power)
  moreover have "nat \<lfloor>x\<rfloor> = k" using k(1) by auto
  moreover have "x \<le> 0 \<longleftrightarrow> k = 0" using k(1) by auto
  ultimately show ?thesis unfolding f64_to_u64_def using unat_of_nat64 [OF k(2)] by (simp only: if_False unat_0 split: if_split) simp
qed

lemma unat_max: "unat (max a b) = max (unat a) (unat b)"
  by (simp add: max_def word_le_nat_alt)

lemma sint_unat:
  assumes "unat (w :: u64) < 2 ^ 63"
  shows "sint w = int (unat w)"
proof -
  have "sint w = signed_take_bit 63 (int (unat w))" by (simp add: sint_uint)
  also have "\<dots> = int (unat w)"
  proof (rule signed_take_bit_int_eq_self)
    have "int (unat w) < int (2 ^ 63)" using assms by (simp only: of_nat_less_iff)
    then show "int (unat w) < 2 ^ 63" by (simp only: of_nat_power of_nat_numeral)
    show "- (2 ^ 63) \<le> int (unat w)" by (rule order_trans [OF _ of_nat_0_le_iff]) simp
  qed
  finally show ?thesis .
qed

lemma sint_neg: "2 ^ 63 \<le> unat (w :: u64) \<Longrightarrow> sint w < 0"
proof -
  assume big: "2 ^ 63 \<le> unat w"
  show ?thesis
  proof (rule ccontr)
    assume "\<not> sint w < 0"
    then have "0 \<le> sint w" "sint w < 2 ^ 63" using sint_lt [of w] by simp_all
    then have "take_bit 64 (sint w) = sint w" by (intro take_bit_int_eq_self) simp_all
    moreover have "uint w = take_bit 64 (sint w)" using unsigned_less [where 'a = int, of w] by (simp add: sint_uint take_bit_signed_take_bit take_bit_int_eq_self)
    ultimately have "int (unat w) < 2 ^ 63" using \<open>sint w < 2 ^ 63\<close> by simp
    moreover have "int (2 ^ 63) \<le> int (unat w)" using big by (simp only: of_nat_le_iff)
    ultimately show False by simp
  qed
qed

lemma unat_minus_1: "unat (- 1 :: u64) = 2 ^ 64 - 1"
  by (simp add: unsigned_minus_1_eq_mask mask_eq_exp_minus_1)

lemma f64_to_u64_large:
  assumes "real k \<le> x" "k < 2 ^ 64"
  shows "k \<le> unat (f64_to_u64 x)"
proof (cases "2 ^ 64 \<le> x")
  case True
  have "\<not> x \<le> 0" using True by (simp add: not_le less_le_trans [rotated])
  then have "unat (f64_to_u64 x) = 2 ^ 64 - 1" using True unat_minus_1 by (simp add: f64_to_u64_def)
  then show ?thesis using assms(2) by simp
next
  case False
  show ?thesis
  proof (cases "x \<le> 0")
    case True
    then show ?thesis using assms(1) by simp
  next
    case pos: False
    have "\<lfloor>x\<rfloor> < 2 ^ 64" using False by (simp add: floor_less_iff)
    then have "nat \<lfloor>x\<rfloor> < 2 ^ 64" using pos by (simp add: nat_less_iff)
    moreover have "f64_to_u64 x = of_nat (nat \<lfloor>x\<rfloor>)" using pos False by (simp only: f64_to_u64_def if_False)
    moreover have "k \<le> nat \<lfloor>x\<rfloor>" using assms(1) by (simp add: le_nat_floor)
    ultimately show ?thesis using unat_of_nat64 by metis
  qed
qed

end
