(* ===== verification/Sampling.thy ===== *)
theory Sampling
  imports Pprof Floating
begin

text \<open>
  The floating-point part of the profiler (\<open>src/src/pprof.rs\<close>): the countdown drawn by \<open>geometric\<close>
  and the weight of a sample, \<open>unbiased_weight\<close>, over the numbers of the theory Floating. No result
  reaches \<open>2 ^ 100\<close>, and no divisor is zero as long as the sample interval is positive, which
  \<open>set_pprof_config\<close> ensures, so infinities and NaN do not arise.

  The precision of \<open>f64::ln\<close> and \<open>f64::exp\<close> is not specified by the language, so these two are
  arguments, \<open>ln_f\<close> and \<open>exp_f\<close>, with an error bound as a hypothesis (\<open>ln_accurate\<close>,
  \<open>exp_accurate\<close>), which a correctly rounded library satisfies. So is the random generator:
  \<open>rng.random()\<close> returns a multiple of \<open>2 ^ - 53\<close> in \<open>[0, 1)\<close> (\<open>uniform_draws\<close>).
\<close>

subsection \<open>The two functions\<close>

definition geometric :: "(real \<Rightarrow> real) \<Rightarrow> ('r \<Rightarrow> real \<times> 'r) \<Rightarrow> 'r \<Rightarrow> u64 \<Rightarrow> u64 \<times> 'r" where
  "geometric ln_f random r mean =
    (let (u, r') = random r;
         u' = (if u \<le> 0 then MIN_POSITIVE else u);
         result = f64_round (- f64_round (real (unat mean)) * ln_f u')
     in (max (f64_to_u64 (real_of_int \<lceil>result\<rceil>)) 1, r'))"

definition unbiased_weight :: "(real \<Rightarrow> real) \<Rightarrow> nat \<Rightarrow> u64 \<Rightarrow> u64" where
  "unbiased_weight exp_f sz n =
    (let z = f64_round (real sz); r = f64_round (real (unat n)); ratio = f64_round (z / r) in
     if ratio < f64_round (1 / 10 ^ 6) then n
     else let w = f64_round (z / f64_round (1 - exp_f (- ratio)))
          in f64_to_u64 (max (round_away (f64_round (w / z))) 1))"

subsection \<open>The countdown\<close>

text \<open>
  The library logarithm is accurate to a relative error of \<open>2 ^ - 50\<close> on the draws, and the generator
  returns multiples of \<open>2 ^ - 53\<close>; \<open>drawn\<close> is the number whose logarithm is taken.
\<close>

definition ln_accurate :: "(real \<Rightarrow> real) \<Rightarrow> bool" where
  "ln_accurate ln_f \<longleftrightarrow> (\<forall>u. MIN_POSITIVE \<le> u \<and> u \<le> 1 - 1 / 2 ^ 53 \<longrightarrow> appr (1 / 2 ^ 50) (ln u) (ln_f u))"

definition uniform_draws :: "('r \<Rightarrow> real \<times> 'r) \<Rightarrow> bool" where
  "uniform_draws random \<longleftrightarrow> (\<forall>r. \<exists>k < 2 ^ 53. fst (random r) = real k / 2 ^ 53)"

definition drawn :: "real \<Rightarrow> real" where
  "drawn u = (if u \<le> 0 then MIN_POSITIVE else u)"

lemma drawn_range:
  assumes "uniform_draws random"
  shows "MIN_POSITIVE \<le> drawn (fst (random r))" "drawn (fst (random r)) \<le> 1 - 1 / 2 ^ 53"
proof -
  obtain k :: nat where k: "k < 2 ^ 53" "fst (random r) = real k / 2 ^ 53"
    using assms unfolding uniform_draws_def by blast
  have "real k + 1 \<le> 2 ^ 53" using k(1) by (metis Suc_leI of_nat_Suc of_nat_mono of_nat_numeral of_nat_power add.commute)
  then have up: "real k / 2 ^ 53 \<le> 1 - 1 / 2 ^ 53" by (simp add: field_simps)
  have lo: "1 / 2 ^ 70 \<le> real k / 2 ^ 53" if "k \<noteq> 0"
  proof -
    have "(1 :: real) \<le> real k" using that by simp
    then have "1 / 2 ^ 53 \<le> real k / 2 ^ 53" by (simp add: divide_right_mono)
    then show ?thesis by (rule order_trans [rotated]) simp
  qed
  show "MIN_POSITIVE \<le> drawn (fst (random r))"
    unfolding k(2) drawn_def using MIN_POSITIVE_le [OF lo] by (cases "k = 0") simp_all
  show "drawn (fst (random r)) \<le> 1 - 1 / 2 ^ 53"
    using up k(2) by (auto simp: drawn_def MIN_POSITIVE_def)
qed

lemma ln_draw_bounds:
  assumes "MIN_POSITIVE \<le> u" "u \<le> 1 - 1 / 2 ^ 53"
  shows "1 / 2 ^ 53 \<le> - ln u" "- ln u \<le> 1022"
proof -
  have pos: "0 < u" using assms(1) by (rule less_le_trans [rotated]) (simp add: MIN_POSITIVE_def)
  show "1 / 2 ^ 53 \<le> - ln u" using ln_le_minus_one [OF pos] assms(2) by simp
  have "ln MIN_POSITIVE \<le> ln u" using assms(1) pos by (simp add: MIN_POSITIVE_def)
  moreover have "ln MIN_POSITIVE = - (1022 * ln 2)"
    unfolding MIN_POSITIVE_def by (simp only: ln_divide_pos ln_realpow ln_one zero_less_power zero_less_numeral zero_less_one)
  moreover have "ln 2 \<le> (1 :: real)" using ln_le_minus_one [of "2 :: real"] by simp
  ultimately show "- ln u \<le> 1022" by linarith
qed

lemma geometric_value:
  assumes "ln_accurate ln_f" "uniform_draws random" "0 < n"
  obtains y where "appr (1 / 2 ^ 49) (real (unat n) * - ln (drawn (fst (random r)))) y"
    "geometric ln_f random r n = (max (f64_to_u64 (real_of_int \<lceil>y\<rceil>)) 1, snd (random r))"
proof -
  let ?u = "drawn (fst (random r))" and ?n = "real (unat n)"
  note u = drawn_range [OF assms(2), of r]
  note l = ln_draw_bounds [OF u]
  have n: "1 \<le> ?n" using assms(3) by (metis One_nat_def Suc_leI of_nat_1 of_nat_mono unat_gt_0 word_neq_0_conv)
  have lnf: "appr (1 / 2 ^ 50) (- ln ?u) (- ln_f ?u)"
    using assms(1) u unfolding ln_accurate_def appr_def by (simp add: abs_minus_commute)
  have nz: "?n \<noteq> 0" "- ln ?u \<noteq> 0" using n l(1) by auto
  define m where "m = f64_round ?n * - ln_f ?u"
  have m: "appr (5 / 2 ^ 52) (?n * - ln ?u) m"
    unfolding m_def by (rule appr_mult [OF appr_nat lnf _ nz]) simp
  have big: "1 / 2 ^ 53 \<le> ?n * - ln ?u" by (rule order_trans [OF _ mult_mono [OF n l(1)]]) (use n in simp_all)
  have "(1 - 5 / 2 ^ 52) * (1 / 2 ^ 53) \<le> (1 - 5 / 2 ^ 52) * (?n * - ln ?u)" by (rule mult_left_mono [OF big]) simp
  also have "\<dots> \<le> \<bar>m\<bar>" using appr_pos [OF m less_le_trans [OF _ big]] by auto
  finally have "1 / 2 ^ 70 \<le> \<bar>m\<bar>" by (rule order_trans [rotated]) simp
  then have r: "appr (1 / 2 ^ 53) m (f64_round m)" by (intro appr_round MIN_POSITIVE_le)
  have y: "appr (1 / 2 ^ 49) (?n * - ln ?u) (f64_round m)"
    by (rule appr_trans [OF m r]) (use nz in simp_all)
  have "geometric ln_f random r n = (max (f64_to_u64 (real_of_int \<lceil>f64_round m\<rceil>)) 1, snd (random r))"
    by (simp add: geometric_def drawn_def m_def split_def Let_def)
  then show thesis using that y by blast
qed

lemma geometric_ceiling:
  assumes "ln_accurate ln_f" "uniform_draws random" "0 < n" "unat n \<le> 2 ^ 53"
  obtains y where "appr (1 / 2 ^ 49) (real (unat n) * - ln (drawn (fst (random r)))) y" "0 < y" "y \<le> 1023 * real (unat n)"
    "int (unat (fst (geometric ln_f random r n))) = \<lceil>y\<rceil>" "sint (fst (geometric ln_f random r n)) = \<lceil>y\<rceil>"
proof -
  define N where "N = real (unat n)"
  let ?l = "- ln (drawn (fst (random r)))"
  obtain y where y: "appr (1 / 2 ^ 49) (real (unat n) * ?l) y"
    "geometric ln_f random r n = (max (f64_to_u64 (real_of_int \<lceil>y\<rceil>)) 1, snd (random r))"
    by (rule geometric_value [OF assms(1-3)])
  note l = ln_draw_bounds [OF drawn_range [OF assms(2), of r]]
  have n0: "0 < unat n" using assms(3) by (simp add: unat_gt_0 word_neq_0_conv)
  have n: "0 < N" using n0 unfolding N_def by (simp only: of_nat_0_less_iff)
  have nN: "N \<le> 2 ^ 53" unfolding N_def using of_nat_mono [OF assms(4), where 'a = real] by simp
  have lp: "0 < ?l" using l(1) by (rule less_le_trans [rotated]) simp
  then have x: "0 < N * ?l" "N * ?l \<le> N * 1022" using n mult_left_mono [OF l(2), of N] by (simp_all add: mult_pos_neg)
  have p: "0 < y" "y \<le> (1 + 1 / 2 ^ 49) * (N * ?l)" using appr_pos [OF y(1)] x(1) by (auto simp: N_def)
  have "(1 + 1 / 2 ^ 49) * (N * ?l) \<le> (1 + 1 / 2 ^ 49) * (N * 1022)" by (rule mult_left_mono [OF x(2)]) simp
  then have yb: "y \<le> 1023 * N" using p(2) n by simp
  then have "y \<le> 1023 * 2 ^ 53" using nN by linarith
  then have c: "1 \<le> \<lceil>y\<rceil>" "\<lceil>y\<rceil> \<le> 1023 * 2 ^ 53" using p(1) by (simp_all add: ceiling_le_iff)
  let ?g = "fst (geometric ln_f random r n)"
  have "unat (f64_to_u64 (real_of_int \<lceil>y\<rceil>)) = nat \<lceil>y\<rceil>"
    using c by (intro f64_to_u64_nat) (simp_all add: nat_less_iff del: one_le_ceiling ceiling_le_numeral)
  then have g: "int (unat ?g) = \<lceil>y\<rceil>" using c(1) p(1) unfolding y(2) fst_conv unat_max by (simp del: one_le_ceiling)
  have "sint ?g = int (unat ?g)"
  proof (rule sint_unat)
    have "int (unat ?g) < 2 ^ 63" unfolding g using c(2) by (rule le_less_trans) simp
    then have "int (unat ?g) < int (2 ^ 63)" by (simp only: of_nat_power of_nat_numeral)
    then show "unat ?g < 2 ^ 63" by (simp only: of_nat_less_iff)
  qed
  show thesis by (rule that [of y]) (use y(1) p(1) yb g \<open>sint ?g = int (unat ?g)\<close> in \<open>simp_all add: N_def\<close>)
qed

text \<open>The countdown of a sampler stays positive and bounded.\<close>

definition sampler_ok :: "'r Sampler \<Rightarrow> bool" where
  "sampler_ok sa \<longleftrightarrow> 0 < interval sa \<and> unat (interval sa) \<le> 2 ^ 53 \<and>
     0 < sint (countdown sa) \<and> sint (countdown sa) \<le> 1023 * int (unat (interval sa))"

lemma geometric_countdown:
  assumes "ln_accurate ln_f" "uniform_draws random" "0 < n" "unat n \<le> 2 ^ 53"
  shows "0 < sint (fst (geometric ln_f random r n))" "sint (fst (geometric ln_f random r n)) \<le> 1023 * int (unat n)"
proof -
  obtain y where y: "0 < y" "y \<le> 1023 * real (unat n)" "sint (fst (geometric ln_f random r n)) = \<lceil>y\<rceil>"
    by (rule geometric_ceiling [OF assms, of r])
  show "0 < sint (fst (geometric ln_f random r n))" unfolding y(3) using y(1) by simp
  have "y \<le> real_of_int (1023 * int (unat n))" using y(2) by simp
  then show "sint (fst (geometric ln_f random r n)) \<le> 1023 * int (unat n)" unfolding y(3) by (simp only: ceiling_le_iff)
qed

lemma sampler_ok_new:
  assumes "ln_accurate ln_f" "uniform_draws random" "0 < sample_interval g" "unat (sample_interval g) \<le> 2 ^ 53"
  shows "sampler_ok (Sampler_new (geometric ln_f random) seed_from i g)"
  using geometric_countdown [OF assms, of "seed_from i"] assms(3,4)
  by (simp add: sampler_ok_def Sampler_new_def Let_def split_def)

lemma sampler_ok_check:
  assumes "ln_accurate ln_f" "uniform_draws random" "sampler_ok sa" "sz < 2 ^ 63"
  shows "sampler_ok (snd (Sampler_check (geometric ln_f random) sz sa))"
proof -
  have ok: "0 < interval sa" "unat (interval sa) \<le> 2 ^ 53" "0 < sint (countdown sa)"
    "sint (countdown sa) \<le> 1023 * int (unat (interval sa))" using assms(3) by (simp_all only: sampler_ok_def)
  note c = sint_minus_nat [OF ok(3) assms(4)]
  show ?thesis
    using geometric_countdown [OF assms(1,2) ok(1,2), of "rng sa"] ok c
    by (auto simp: Sampler_check_def Sampler_reset_def sampler_ok_def Let_def split_def)
qed

lemma sampler_ok_run:
  assumes "ln_accurate ln_f" "uniform_draws random" "sampler_ok sa" "\<forall>sz \<in> set szs. sz < 2 ^ 63"
  shows "sampler_ok (snd (sampler_run (geometric ln_f random) szs sa))"
  using assms(3,4)
proof (induction szs arbitrary: sa)
  case (Cons sz szs)
  then have "sampler_ok (snd (Sampler_check (geometric ln_f random) sz sa))"
    using sampler_ok_check [OF assms(1,2)] by simp
  from Cons.IH [OF this] Cons.prems(2) show ?case by (simp add: Let_def split_def)
qed simp

lemma interval_run: "interval (snd (sampler_run geo szs sa)) = interval sa"
  by (induction szs arbitrary: sa) (simp_all add: Let_def split_def Sampler_check_def Sampler_reset_def)

text \<open>
  C34. With an interval of at most \<open>2 ^ 53\<close> bytes and a library logarithm accurate to \<open>2 ^ - 50\<close>, the
  countdown of a heap's sampler is always between 1 and 1023 intervals, whatever was allocated
  before. The next sample is taken exactly at the allocation that brings the bytes allocated since
  then to the countdown; so every 1023 intervals of allocated bytes contain a sample.
\<close>

theorem sampler_counts_bytes:
  assumes "ln_accurate ln_f" "uniform_draws random" "0 < sample_interval g" "unat (sample_interval g) \<le> 2 ^ 53"
    "\<forall>sz \<in> set szs. sz < 2 ^ 63"
  shows "\<exists>sa. sa = snd (sampler_run (geometric ln_f random) szs (Sampler_new (geometric ln_f random) seed_from i g)) \<and>
    1 \<le> sint (countdown sa) \<and> sint (countdown sa) \<le> 1023 * int (unat (sample_interval g)) \<and>
    (\<forall>szs'. sum_list szs' < 2 ^ 63 \<longrightarrow>
       (True \<in> set (fst (sampler_run (geometric ln_f random) szs' sa)) \<longleftrightarrow> sint (countdown sa) \<le> int (sum_list szs')))"
proof -
  let ?new = "Sampler_new (geometric ln_f random) seed_from i g"
  let ?sa = "snd (sampler_run (geometric ln_f random) szs ?new)"
  have ok: "sampler_ok ?sa" by (rule sampler_ok_run [OF assms(1,2) sampler_ok_new [OF assms(1-4)] assms(5)])
  have iv: "interval ?sa = sample_interval g" unfolding interval_run by (simp add: Sampler_new_def Let_def split_def)
  have cd: "0 < sint (countdown ?sa)" "sint (countdown ?sa) \<le> 1023 * int (unat (sample_interval g))"
    using ok unfolding sampler_ok_def iv by blast+
  moreover have "True \<in> set (fst (sampler_run (geometric ln_f random) szs' ?sa)) \<longleftrightarrow> sint (countdown ?sa) \<le> int (sum_list szs')"
    if "sum_list szs' < 2 ^ 63" for szs'
    using conjunct1 [OF sampler_run_counts [OF cd(1) that, of "geometric ln_f random"]] by (metis not_less)
  ultimately show ?thesis by (intro exI [of _ ?sa]) simp
qed

text \<open>
  C33. An allocation of \<open>Z\<close> bytes right after a sample is sampled exactly when the uniform draw is
  at least \<open>e ^ (- Z / R)\<close>, that is with probability \<open>1 - e ^ (- Z / R)\<close>: floating-point rounding
  moves the threshold only in a relative band of \<open>2 ^ - 48\<close> of the exponent.
\<close>

theorem sampling_threshold:
  assumes "ln_accurate ln_f" "uniform_draws random" "0 < interval sa" "unat (interval sa) \<le> 2 ^ 53"
    and u: "fst (random (rng sa)) = u" "0 < u" and sz: "0 < sz" "sz < 2 ^ 63"
  shows "(exp (- (1 - 1 / 2 ^ 48) * (real sz / real (unat (interval sa)))) \<le> u \<longrightarrow>
      fst (Sampler_check (geometric ln_f random) sz (Sampler_reset (geometric ln_f random) sa))) \<and>
    (u < exp (- (1 + 1 / 2 ^ 48) * (real sz / real (unat (interval sa)))) \<longrightarrow>
      \<not> fst (Sampler_check (geometric ln_f random) sz (Sampler_reset (geometric ln_f random) sa)))"
proof -
  define N where "N = real (unat (interval sa))"
  let ?geo = "geometric ln_f random"
  have du: "drawn u = u" using u(2) by (simp add: drawn_def)
  obtain y where y: "appr (1 / 2 ^ 49) (N * - ln u) y" "0 < y" "sint (fst (?geo (rng sa) (interval sa))) = \<lceil>y\<rceil>"
    by (rule geometric_ceiling [OF assms(1-4), of "rng sa", unfolded u(1) du N_def [symmetric]])
  have N: "0 < N" using assms(3) unfolding N_def by (metis of_nat_0_less_iff unat_gt_0 word_neq_0_conv)
  have "u < 1" using drawn_range(2) [OF assms(2), of "rng sa"] u by (simp add: drawn_def)
  then have x: "0 < N * - ln u" using N u(2) by (simp add: mult_pos_neg)
  have yb: "(1 - 1 / 2 ^ 49) * (N * - ln u) \<le> y" "y \<le> (1 + 1 / 2 ^ 49) * (N * - ln u)"
    using appr_pos [OF y(1) x] by simp_all
  have c: "countdown (Sampler_reset ?geo sa) = fst (?geo (rng sa) (interval sa))"
    by (simp add: Sampler_reset_def split_def)
  have pos: "0 < sint (countdown (Sampler_reset ?geo sa))" unfolding c y(3) using y(2) by simp
  have chk: "fst (Sampler_check ?geo sz (Sampler_reset ?geo sa)) \<longleftrightarrow> y \<le> real sz"
  proof -
    have "fst (Sampler_check ?geo sz (Sampler_reset ?geo sa)) \<longleftrightarrow> \<lceil>y\<rceil> \<le> int sz"
      using Sampler_check_cases [OF pos sz(2), of ?geo] unfolding c y(3) by (cases "\<lceil>y\<rceil> \<le> int sz") auto
    then show ?thesis by (simp add: ceiling_le_iff)
  qed
  show ?thesis unfolding chk N_def [symmetric]
  proof (intro conjI impI)
    assume "exp (- (1 - 1 / 2 ^ 48) * (real sz / N)) \<le> u"
    then have "- (1 - 1 / 2 ^ 48) * (real sz / N) \<le> ln u" using u(2) by (simp only: ln_ge_iff)
    then have "N * - ln u \<le> (1 - 1 / 2 ^ 48) * real sz" using N by (simp add: field_simps)
    then have "(1 + 1 / 2 ^ 49) * (N * - ln u) \<le> (1 + 1 / 2 ^ 49) * ((1 - 1 / 2 ^ 48) * real sz)"
      by (rule mult_left_mono) simp
    also have "\<dots> \<le> real sz" using sz(1) by simp
    finally show "y \<le> real sz" using yb(2) by linarith
  next
    assume "u < exp (- (1 + 1 / 2 ^ 48) * (real sz / N))"
    then have "ln u < - (1 + 1 / 2 ^ 48) * (real sz / N)" using u(2) by (metis exp_less_cancel_iff exp_ln)
    then have "(1 + 1 / 2 ^ 48) * real sz < N * - ln u" using N by (simp add: field_simps)
    then have "(1 - 1 / 2 ^ 49) * ((1 + 1 / 2 ^ 48) * real sz) < (1 - 1 / 2 ^ 49) * (N * - ln u)"
      by (rule mult_strict_left_mono) simp
    moreover have "real sz \<le> (1 - 1 / 2 ^ 49) * ((1 + 1 / 2 ^ 48) * real sz)" by simp
    ultimately show "\<not> y \<le> real sz" using yb(1) by linarith
  qed
qed

text \<open>
  C36. The countdown is a 64-bit signed integer, but the draw is an unsigned one. At an interval of
  \<open>u64::MAX\<close>, the natural setting for hardly ever sampling, two draws in five
  (\<open>u \<le> 2 / 5\<close>) give a negative countdown, and then the very next allocation, whatever its size
  up to \<open>2 ^ 60\<close>, is sampled.
\<close>

theorem huge_interval_samples_next:
  assumes "ln_accurate ln_f" "uniform_draws random" "interval sa = - 1" "fst (random (rng sa)) \<le> 2 / 5" "sz \<le> 2 ^ 60"
  shows "sint (countdown (Sampler_reset (geometric ln_f random) sa)) < 0 \<and>
    fst (Sampler_check (geometric ln_f random) sz (Sampler_reset (geometric ln_f random) sa))"
proof -
  let ?u = "drawn (fst (random (rng sa)))" and ?geo = "geometric ln_f random"
  define N where "N = real (unat (- 1 :: u64))"
  have pos: "0 < (- 1 :: u64)" by (simp add: word_gt_0)
  have N: "N = 2 ^ 64 - 1" by (simp add: N_def unat_minus_1)
  obtain y where y: "appr (1 / 2 ^ 49) (N * - ln ?u) y"
    "?geo (rng sa) (- 1) = (max (f64_to_u64 (real_of_int \<lceil>y\<rceil>)) 1, snd (random (rng sa)))"
    by (rule geometric_value [OF assms(1,2) pos, of "rng sa", folded N_def])
  have "0 < ?u" using drawn_range(1) [OF assms(2), of "rng sa"] by (rule less_le_trans [rotated]) (simp add: MIN_POSITIVE_def)
  then have "3 / 5 \<le> - ln ?u" using ln_le_minus_one [of ?u] assms(4) by (simp add: drawn_def MIN_POSITIVE_def split: if_splits)
  then have l: "N * (3 / 5) \<le> N * - ln ?u" by (rule mult_left_mono) (simp add: N)
  then have "(1 - 1 / 2 ^ 49) * (N * (3 / 5)) \<le> (1 - 1 / 2 ^ 49) * (N * - ln ?u)" by (rule mult_left_mono) simp
  also have "\<dots> \<le> y"
    using appr_pos [OF y(1) less_le_trans [OF _ l]] by (rule conjunct1 [OF conjunct2]) (simp_all add: N)
  also have "\<dots> \<le> real_of_int \<lceil>y\<rceil>" by simp
  finally have "real (2 ^ 63 + 2 ^ 60) \<le> real_of_int \<lceil>y\<rceil>" by (rule order_trans [rotated]) (simp add: N)
  then have c: "2 ^ 63 + 2 ^ 60 \<le> unat (f64_to_u64 (real_of_int \<lceil>y\<rceil>))" by (rule f64_to_u64_large) simp
  let ?c = "countdown (Sampler_reset ?geo sa)"
  have "?c = max (f64_to_u64 (real_of_int \<lceil>y\<rceil>)) 1" using y(2) assms(3) by (simp add: Sampler_reset_def)
  then have c: "2 ^ 63 + 2 ^ 60 \<le> unat ?c" using c by (simp add: unat_max)
  then have "2 ^ 63 \<le> unat ?c - sz" using assms(5) by linarith
  moreover have "unat (?c - of_nat sz) = unat ?c - sz"
  proof -
    have s: "unat (of_nat sz :: u64) = sz" using assms(5) by (intro unat_of_nat64) simp
    moreover have "(of_nat sz :: u64) \<le> ?c" using c assms(5) unfolding word_le_nat_alt s by linarith
    ultimately show ?thesis by (simp only: unat_sub)
  qed
  ultimately have "sint (?c - of_nat sz) < 0" by (intro sint_neg) simp
  moreover have "sint ?c < 0" using c by (intro sint_neg) simp
  ultimately show ?thesis by (simp add: Sampler_check_def Let_def)
qed

subsection \<open>The weight\<close>

text \<open>The library exponential of a non-positive argument is accurate to an absolute error of \<open>2 ^ - 50\<close>.\<close>

definition exp_accurate :: "(real \<Rightarrow> real) \<Rightarrow> bool" where
  "exp_accurate exp_f \<longleftrightarrow> (\<forall>x \<le> 0. \<bar>exp_f x - exp x\<bar> \<le> 1 / 2 ^ 50)"

lemma mult_exp_minus_le: "x * exp (- x) \<le> (1 :: real)"
proof -
  have "x \<le> exp x" using exp_ge_add_one_self [of x] by linarith
  then show ?thesis by (simp add: exp_minus field_simps)
qed

text \<open>A relative error of the exponent becomes an absolute error of the exponential.\<close>

lemma exp_appr:
  assumes "appr e t s" "0 < t" "e \<le> 1 / 2"
  shows "\<bar>exp (- s) - exp (- t)\<bar> \<le> 2 * e"
proof -
  have e: "0 \<le> e" using assms(1,2) by (simp add: appr_factor)
  let ?m = "min s t"
  have st: "\<bar>s - t\<bar> \<le> e * t" using assms(1,2) unfolding appr_def by simp
  moreover have "e * t \<le> 1 / 2 * t" using assms(2,3) by (intro mult_right_mono) simp_all
  ultimately have b: "t \<le> 2 * ?m" "\<bar>s - t\<bar> \<le> e * t" using assms(2)
    by (simp_all only: min_def split: if_split) linarith+
  have "\<bar>exp (- s) - exp (- t)\<bar> \<le> \<bar>s - t\<bar> * exp (- ?m)"
  proof (cases "s \<le> t")
    case True
    then show ?thesis
      using exp_ge_add_one_self [of "s - t"] mult_right_mono [of "1 + (s - t)" "exp (s - t)" "exp (- s)"]
      by (simp add: min_def algebra_simps flip: exp_add)
  next
    case False
    then show ?thesis
      using exp_ge_add_one_self [of "t - s"] mult_right_mono [of "1 + (t - s)" "exp (t - s)" "exp (- t)"]
      by (simp add: min_def algebra_simps flip: exp_add)
  qed
  also have "\<dots> \<le> e * (2 * ?m) * exp (- ?m)"
    using b e by (intro mult_right_mono) (auto intro: order_trans [OF b(2)] mult_left_mono)
  also have "\<dots> = 2 * e * (?m * exp (- ?m))" by simp
  also have "\<dots> \<le> 2 * e * 1" using e by (intro mult_left_mono mult_exp_minus_le) simp
  finally show ?thesis by simp
qed

lemma ratio_appr:
  assumes "0 < sz" "0 < n" "sz < 2 ^ 64"
  shows "appr (1 / 2 ^ 51) (real sz / real (unat (n :: u64))) (f64_round (f64_round (real sz) / f64_round (real (unat n))))"
proof -
  define Z N where "Z = real sz" and "N = real (unat n)"
  have Z: "1 \<le> Z" "Z \<noteq> 0" using assms(1) by (auto simp: Z_def)
  have "0 < unat n" using assms(2) by (simp add: unat_gt_0 word_neq_0_conv)
  then have "real 1 \<le> N" unfolding N_def by (intro of_nat_mono) linarith
  then have N: "1 \<le> N" "N \<noteq> 0" by auto
  have "unat n \<le> 2 ^ 64" using unsigned_less [where 'a = nat, of n] by simp
  then have N64: "N \<le> 2 ^ 64" unfolding N_def by (metis of_nat_le_iff of_nat_numeral of_nat_power)
  let ?q = "f64_round Z / f64_round N"
  have zn: "appr (1 / 2 ^ 53) Z (f64_round Z)" "appr (1 / 2 ^ 53) N (f64_round N)"
    unfolding Z_def N_def by (rule appr_nat)+
  have q: "appr (5 / 2 ^ 54) (Z / N) ?q"
    by (rule appr_divide [OF zn]) (use Z N in simp_all)
  have "1 / 2 ^ 64 \<le> Z / N" by (rule frac_le) (use Z N N64 in simp_all)
  then have "(1 - 5 / 2 ^ 54) * (1 / 2 ^ 64) \<le> (1 - 5 / 2 ^ 54) * (Z / N)" by (rule mult_left_mono) simp
  also have "\<dots> \<le> ?q" using appr_pos [OF q] Z N by simp
  also have "\<dots> \<le> \<bar>?q\<bar>" by (rule abs_ge_self)
  finally have "1 / 2 ^ 70 \<le> \<bar>?q\<bar>" by (rule order_trans [rotated]) simp
  then have r: "appr (1 / 2 ^ 53) ?q (f64_round ?q)" by (intro appr_round MIN_POSITIVE_le)
  have "appr (1 / 2 ^ 51) (Z / N) (f64_round ?q)"
    by (rule appr_trans [OF q r]) (use Z N in simp_all)
  then show ?thesis by (simp only: Z_def N_def)
qed

text \<open>The last steps of the computation, from an approximation \<open>q\<close> of the sampling probability.\<close>

lemma weight_quotient:
  assumes "appr (36 / 10 ^ 10) p (f64_round q)" "1 / 10 ^ 6 \<le> p" "p \<le> 1" "1 \<le> k"
  shows "appr (5 / 10 ^ 9) (1 / p) (f64_round (f64_round (f64_round (real k) / f64_round q) / f64_round (real k)))"
proof -
  define z q' where "z = f64_round (real k)" and "q' = f64_round q"
  have p: "0 < p" using assms(2) by (rule less_le_trans [rotated]) simp
  have z: "1 / 2 \<le> z"
  proof -
    have "1 \<le> real k" using assms(4) by simp
    then have "(1 - 1 / 2 ^ 53) * 1 \<le> (1 - 1 / 2 ^ 53) * real k" by (intro mult_left_mono) simp_all
    moreover have "(1 - 1 / 2 ^ 53) * real k \<le> z" using appr_pos [OF appr_nat, of k] assms(4) by (simp add: z_def)
    moreover have "1 / 2 \<le> (1 - 1 / 2 ^ 53) * (1 :: real)" by simp
    ultimately show ?thesis by linarith
  qed
  have q': "0 < q'" "q' \<le> 2"
  proof -
    have "q' \<le> (1 + 36 / 10 ^ 10) * p" "0 < q'" using appr_pos [OF assms(1) p] by (simp_all add: q'_def)
    moreover have "(1 + 36 / 10 ^ 10) * p \<le> (1 + 36 / 10 ^ 10) * 1" by (rule mult_left_mono [OF assms(3)]) simp
    ultimately show "0 < q'" "q' \<le> 2" by simp_all
  qed
  have "1 / 4 \<le> \<bar>z / q'\<bar>" using z q' by (simp add: field_simps)
  then have "1 / 2 ^ 70 \<le> \<bar>z / q'\<bar>" by (rule order_trans [rotated]) simp
  then have "appr (1 / 2 ^ 53) (z / q') (f64_round (z / q'))" by (intro appr_round MIN_POSITIVE_le)
  moreover have "appr 0 z z" by (simp add: appr_def)
  ultimately have w: "appr (1 / 2 ^ 53) (z / q' / z) (f64_round (z / q') / z)"
    by (rule appr_divide) (use z q' in simp_all)
  have eq: "z / q' / z = 1 / q'" using z by simp
  let ?v = "f64_round (z / q') / z"
  have "1 / 2 \<le> 1 / q'" using q' by (simp add: field_simps)
  then have "(1 - 1 / 2 ^ 53) * (1 / 2) \<le> (1 - 1 / 2 ^ 53) * (1 / q')" by (rule mult_left_mono) simp
  moreover have "(1 - 1 / 2 ^ 53) * (1 / q') \<le> ?v" using appr_pos [OF w [unfolded eq]] q' by simp
  moreover have "1 / 4 \<le> (1 - 1 / 2 ^ 53) * (1 / 2 :: real)" by simp
  ultimately have "1 / 4 \<le> ?v" by linarith
  then have "1 / 4 \<le> \<bar>?v\<bar>" by linarith
  then have "1 / 2 ^ 70 \<le> \<bar>?v\<bar>" by (rule order_trans [rotated]) simp
  then have r: "appr (1 / 2 ^ 53) ?v (f64_round ?v)" by (intro appr_round MIN_POSITIVE_le)
  have v: "appr (1 / 2 ^ 51) (1 / q') (f64_round ?v)"
    by (rule appr_trans [OF w [unfolded eq] r]) (use q' in simp_all)
  have "appr 0 1 (1 :: real)" by (simp add: appr_def)
  then have "appr (4 / 10 ^ 9) (1 / p) (1 / q')"
    by (rule appr_divide [OF _ assms(1) [folded q'_def]]) (use p in simp_all)
  from appr_trans [OF this v] show ?thesis using p unfolding z_def q'_def by simp
qed

lemma one_minus_exp_lower:
  assumes "1 / real k \<le> t" "0 < k"
  shows "1 / real (Suc k) \<le> 1 - exp (- t)"
proof -
  have t: "0 < t" using assms by (smt (verit) divide_pos_pos of_nat_0_less_iff)
  have "exp (- t) \<le> 1 / (1 + t)" using exp_ge_add_one_self [of t] t by (simp add: exp_minus field_simps)
  moreover have "1 / (1 + t) \<le> 1 / (1 + 1 / real k)"
    using assms t by (intro divide_left_mono mult_pos_pos) (simp_all add: add_pos_pos)
  moreover have "1 / (1 + 1 / real k) = 1 - 1 / real (Suc k)" using assms(2) by (simp add: field_simps)
  ultimately show ?thesis by linarith
qed

lemma probability_appr:
  assumes "exp_accurate exp_f" "appr (1 / 2 ^ 51) t s" "0 < t" "1 / 10 ^ 6 \<le> 1 - exp (- t)"
  shows "appr (36 / 10 ^ 10) (1 - exp (- t)) (f64_round (1 - exp_f (- s)))"
proof -
  define p q where "p = 1 - exp (- t)" and "q = 1 - exp_f (- s)"
  have s: "0 < s" using appr_pos [OF assms(2,3)] by simp
  have p: "1 / 10 ^ 6 \<le> p" "p \<le> 1" using assms(4) by (simp_all add: p_def)
  define e :: real where "e = 1 / 2 ^ 50"
  have "\<bar>exp_f (- s) - exp (- s)\<bar> \<le> e" using assms(1) s unfolding exp_accurate_def e_def by simp
  moreover have "\<bar>exp (- s) - exp (- t)\<bar> \<le> 2 * (e / 2)" by (rule exp_appr) (use assms(2,3) in \<open>simp_all add: e_def\<close>)
  ultimately have "\<bar>q - p\<bar> \<le> 2 * e" unfolding p_def q_def by linarith
  then have qp: "\<bar>q - p\<bar> \<le> 1 / 2 ^ 49" by (simp add: e_def)
  then have "p - 1 / 2 ^ 49 \<le> q" "q \<le> p + 1 / 2 ^ 49" by linarith+
  then have q: "1 / 2 ^ 70 \<le> q" "q \<le> 2" using p by simp_all
  have "\<bar>f64_round q - q\<bar> \<le> \<bar>q\<bar> / 2 ^ 53" using q by (intro f64_round_normal MIN_POSITIVE_le) simp
  also have "\<dots> \<le> 1 / 2 ^ 52" using q by simp
  finally have "\<bar>f64_round q - p\<bar> \<le> 1 / 2 ^ 52 + 1 / 2 ^ 49" using qp by linarith
  also have "\<dots> \<le> 1 / 2 ^ 48" by simp
  also have "\<dots> \<le> 36 / 10 ^ 10 * (1 / 10 ^ 6)" by simp
  also have "\<dots> \<le> 36 / 10 ^ 10 * \<bar>p\<bar>" using p(1) by (intro mult_left_mono) simp_all
  finally show ?thesis unfolding appr_def p_def q_def .
qed

lemma rounded_weight:
  assumes "\<bar>v - x\<bar> \<le> 1 / 100" "1 \<le> x" "x \<le> 10 ^ 6"
  shows "\<bar>real (unat (f64_to_u64 (max (round_away v) 1))) - x\<bar> \<le> 51 / 100"
proof -
  define m where "m = max \<lfloor>v + 1 / 2\<rfloor> 1"
  have v: "0 \<le> v" "v \<le> 10 ^ 6 + 1" using assms by (simp_all, linarith+)
  have "\<lfloor>v + 1 / 2\<rfloor> \<le> \<lfloor>10 ^ 6 + 2 :: real\<rfloor>" using v(2) by (intro floor_mono) simp
  then have m: "1 \<le> m" "m \<le> 10 ^ 6 + 2" by (simp_all add: m_def)
  have "max (round_away v) 1 = real_of_int m" using v(1) by (simp add: round_away_def m_def)
  moreover have "unat (f64_to_u64 (real_of_int m)) = nat m" using m by (intro f64_to_u64_nat) (simp_all add: nat_less_iff)
  ultimately have eq: "real (unat (f64_to_u64 (max (round_away v) 1))) = real_of_int m" using m(1) by simp
  have "\<bar>real_of_int m - x\<bar> \<le> 51 / 100"
  proof (cases "1 \<le> \<lfloor>v + 1 / 2\<rfloor>")
    case True
    then have "m = \<lfloor>v + 1 / 2\<rfloor>" by (simp add: m_def)
    then have "real_of_int m \<le> v + 1 / 2" "v + 1 / 2 < real_of_int m + 1" by linarith+
    then show ?thesis using assms(1) by linarith
  next
    case False
    then have "v < 1 / 2" by (simp add: le_floor_iff not_le)
    then show ?thesis using assms(1,2) by linarith
  qed
  then show ?thesis unfolding eq .
qed

lemma rounded_appr:
  assumes "appr (5 / 10 ^ 9) x v" "1 \<le> x" "x \<le> 10 ^ 6"
  shows "\<bar>real (unat (f64_to_u64 (max (round_away v) 1))) - x\<bar> \<le> 51 / 100"
proof (rule rounded_weight [OF _ assms(2,3)])
  have "\<bar>v - x\<bar> \<le> 5 / 10 ^ 9 * \<bar>x\<bar>" using assms(1) by (simp only: appr_def)
  also have "\<dots> \<le> 5 / 10 ^ 9 * 10 ^ 6" using assms(2,3) by (intro mult_left_mono) simp_all
  finally show "\<bar>v - x\<bar> \<le> 1 / 100" by (rule order_trans) simp
qed

lemma ratio_not_tiny:
  assumes "0 < sz" "0 < n" "sz < 2 ^ 64" "unat (n :: u64) \<le> 999999 * sz"
  shows "f64_round (1 / 10 ^ 6) \<le> f64_round (f64_round (real sz) / f64_round (real (unat n)))"
    "1 / 999999 \<le> real sz / real (unat n)"
proof -
  define t where "t = real sz / real (unat n)"
  have n: "0 < real (unat n)" using assms(2) by (metis of_nat_0_less_iff unat_gt_0 word_neq_0_conv)
  have "real (unat n) \<le> real (999999 * sz)" by (rule of_nat_mono [OF assms(4)])
  then show t: "1 / 999999 \<le> real sz / real (unat n)" using n by (simp add: field_simps)
  then have "1 / 999999 \<le> t" by (simp only: t_def)
  then have "(1 - 1 / 2 ^ 51) * (1 / 999999) \<le> (1 - 1 / 2 ^ 51) * t" by (rule mult_left_mono) simp
  moreover have "(1 - 1 / 2 ^ 51) * t \<le> f64_round (f64_round (real sz) / f64_round (real (unat n)))"
    using appr_pos [OF ratio_appr [OF assms(1-3)]] n assms(1) by (simp add: t_def)
  moreover have "f64_round (1 / 10 ^ 6) - 1 / 10 ^ 6 \<le> \<bar>1 / 10 ^ 6\<bar> / 2 ^ 53"
    by (rule order_trans [OF abs_ge_self f64_round_normal [OF MIN_POSITIVE_le]]) simp
  ultimately show "f64_round (1 / 10 ^ 6) \<le> f64_round (f64_round (real sz) / f64_round (real (unat n)))"
    by simp
qed

text \<open>
  C32. The weight of a sample is the reciprocal of the probability that its allocation is sampled:
  for an allocation of \<open>Z\<close> bytes at an interval \<open>R \<le> 999999 * Z\<close>, \<open>unbiased_weight\<close> is the value of
  \<open>1 / (1 - e ^ (- Z / R))\<close> rounded to an integer, with all floating-point errors within \<open>0.51\<close> of it.
\<close>

theorem weight_inverse_probability:
  assumes "exp_accurate exp_f" "0 < sz" "sz < 2 ^ 64" "0 < n" "unat n \<le> 999999 * sz"
  shows "\<bar>real (unat (unbiased_weight exp_f sz n)) - 1 / (1 - exp (- (real sz / real (unat n))))\<bar> \<le> 51 / 100"
proof -
  define t where "t = real sz / real (unat n)"
  define s where "s = f64_round (f64_round (real sz) / f64_round (real (unat n)))"
  note nt = ratio_not_tiny [OF assms(2,4,3,5), folded s_def t_def]
  have ts: "appr (1 / 2 ^ 51) t s" unfolding t_def s_def by (rule ratio_appr [OF assms(2,4,3)])
  have t: "0 < t" using nt(2) by (rule less_le_trans [rotated]) simp
  have p: "1 / 10 ^ 6 \<le> 1 - exp (- t)" "1 - exp (- t) \<le> 1" using one_minus_exp_lower [of 999999 t] nt(2) by simp_all
  define v where "v = f64_round (f64_round (f64_round (real sz) / f64_round (1 - exp_f (- s))) / f64_round (real sz))"
  have "appr (5 / 10 ^ 9) (1 / (1 - exp (- t))) v"
    unfolding v_def using assms(2) by (intro weight_quotient [OF probability_appr [OF assms(1) ts t p(1)] p]) simp
  moreover have "1 \<le> 1 / (1 - exp (- t))" "1 / (1 - exp (- t)) \<le> 10 ^ 6" using p t by (simp_all add: field_simps)
  ultimately have "\<bar>real (unat (f64_to_u64 (max (round_away v) 1))) - 1 / (1 - exp (- t))\<bar> \<le> 51 / 100"
    by (rule rounded_appr)
  moreover have "unbiased_weight exp_f sz n = f64_to_u64 (max (round_away v) 1)"
    using nt(1) unfolding unbiased_weight_def Let_def v_def s_def by simp
  ultimately show ?thesis unfolding t_def by simp
qed

text \<open>
  C35. Below a ratio of one millionth the weight is not the reciprocal of the sampling probability.
  For an allocation of \<open>Z\<close> bytes at an interval \<open>R > 1000001 * Z\<close> the weight is the whole interval
  \<open>R\<close>, while the reciprocal is at most \<open>R / Z + 1\<close>: the sample counts for \<open>Z\<close> times too many objects.
\<close>

theorem tiny_weight_overcounts:
  assumes "0 < sz" "1000001 * sz < unat n"
  shows "unbiased_weight exp_f sz n = n \<and>
    real sz * (1 / (1 - exp (- (real sz / real (unat n)))) - 1) \<le> real (unat (unbiased_weight exp_f sz n))"
proof -
  define t where "t = real sz / real (unat n)"
  have "0 < unat n" using assms(2) by simp
  then have n: "0 < n" "0 < real (unat n)" by (simp_all only: unat_gt_0 word_neq_0_conv of_nat_0_less_iff)
  have sz: "sz < 2 ^ 64" using assms unsigned_less [where 'a = nat, of n] by simp
  have "real (1000001 * sz) \<le> real (unat n)" using assms(2) by (intro of_nat_mono) simp
  then have t: "0 < t" "t \<le> 1 / 1000001" using n(2) assms(1) by (simp_all add: t_def field_simps)
  have "f64_round (f64_round (real sz) / f64_round (real (unat n))) \<le> (1 + 1 / 2 ^ 51) * t"
    using appr_pos [OF ratio_appr [OF assms(1) n(1) sz]] t(1) by (simp add: t_def)
  also have "\<dots> \<le> (1 + 1 / 2 ^ 51) * (1 / 1000001)" by (rule mult_left_mono [OF t(2)]) simp
  finally have r: "f64_round (f64_round (real sz) / f64_round (real (unat n))) \<le> (1 + 1 / 2 ^ 51) * (1 / 1000001)" .
  have "1 / 10 ^ 6 - f64_round (1 / 10 ^ 6) \<le> \<bar>1 / 10 ^ 6\<bar> / 2 ^ 53"
    by (rule order_trans [OF abs_ge_minus_self [THEN ord_eq_le_trans [rotated]] f64_round_normal [OF MIN_POSITIVE_le]]) simp_all
  then have "f64_round (f64_round (real sz) / f64_round (real (unat n))) < f64_round (1 / 10 ^ 6)"
    using r by simp
  then have w: "unbiased_weight exp_f sz n = n" by (simp add: unbiased_weight_def Let_def)
  have e: "exp (- t) \<le> 1 / (1 + t)" using exp_ge_add_one_self [of t] t(1) by (simp add: exp_minus field_simps)
  then have "t / (1 + t) \<le> 1 - exp (- t)" using t(1) by (simp add: field_simps)
  then have "1 / (1 - exp (- t)) \<le> 1 / (t / (1 + t))" using t(1) by (intro divide_left_mono) simp_all
  also have "\<dots> = 1 / t + 1" using t(1) by (simp add: field_simps)
  finally have "real sz * (1 / (1 - exp (- t)) - 1) \<le> real sz * (1 / t)" by (intro mult_left_mono) simp_all
  also have "\<dots> = real (unat n)" using assms(1) n(2) by (simp add: t_def)
  finally show ?thesis unfolding w t_def by simp
qed

subsection \<open>Instances over a correctly rounded library\<close>

lemma ln_rounded_accurate: "ln_accurate (\<lambda>u. f64_round (ln u))"
  unfolding ln_accurate_def
proof (intro allI impI)
  fix u :: real assume "MIN_POSITIVE \<le> u \<and> u \<le> 1 - 1 / 2 ^ 53"
  then have "1 / 2 ^ 53 \<le> \<bar>ln u\<bar>" using ln_draw_bounds(1) [of u] by linarith
  then have "1 / 2 ^ 70 \<le> \<bar>ln u\<bar>" by (rule order_trans [rotated]) simp
  then show "appr (1 / 2 ^ 50) (ln u) (f64_round (ln u))"
    by (intro appr_mono [OF appr_round [OF MIN_POSITIVE_le]]) simp_all
qed

lemma exp_rounded_accurate: "exp_accurate (\<lambda>x. f64_round (exp x))"
  unfolding exp_accurate_def
proof (intro allI impI)
  fix x :: real assume "x \<le> 0"
  then have "log 2 \<bar>exp x\<bar> \<le> 0" by (simp add: log_def divide_nonpos_pos)
  then have "real_of_int \<lfloor>log 2 \<bar>exp x\<bar>\<rfloor> \<le> 0" by (metis floor_mono floor_zero of_int_0 of_int_le_iff)
  then have "f64_ulp (exp x) \<le> 2 powr (- 52)" unfolding f64_ulp_def by (intro powr_mono) simp_all
  also have "\<dots> = 1 / 2 ^ 52" by (simp add: powr_minus_divide powr_numeral)
  finally show "\<bar>f64_round (exp x) - exp x\<bar> \<le> 1 / 2 ^ 50" using f64_round_error [of "exp x"] by simp
qed

lemma half_uniform: "uniform_draws (\<lambda>r. (1 / 2, r))"
  unfolding uniform_draws_def by (intro allI exI [of _ "2 ^ 52"]) simp

theorem sampler_counts_bytes_witness:
  "\<exists>sa. sa = snd (sampler_run (geometric (\<lambda>u. f64_round (ln u)) (\<lambda>r. (1 / 2, r))) [300, 40]
      (Sampler_new (geometric (\<lambda>u. f64_round (ln u)) (\<lambda>r. (1 / 2, r))) (\<lambda>i. ()) 7 pprof_statics_init)) \<and>
    1 \<le> sint (countdown sa) \<and> sint (countdown sa) \<le> 1023 * 524288"
proof -
  have "unat (sample_interval pprof_statics_init) = 524288" "0 < sample_interval pprof_statics_init"
    by (simp_all add: pprof_statics_init_def DEFAULT_SAMPLE_INTERVAL_def)
  then show ?thesis
    using sampler_counts_bytes [OF ln_rounded_accurate half_uniform, of pprof_statics_init "[300, 40]" "\<lambda>i. ()" 7] by auto
qed

theorem sampling_threshold_witness:
  "fst (Sampler_check (geometric (\<lambda>u. f64_round (ln u)) (\<lambda>r. (1 / 2, r))) 200
     (Sampler_reset (geometric (\<lambda>u. f64_round (ln u)) (\<lambda>r. (1 / 2, r))) \<lparr>countdown = 1, rng = (), interval = 100\<rparr>))"
proof -
  let ?x = "(1 - 1 / 2 ^ 48) * (200 / 100 :: real)"
  have "1 + ?x \<le> exp ?x" by (rule exp_ge_add_one_self)
  moreover have "2 \<le> 1 + ?x" by simp
  ultimately have "2 \<le> exp ?x" by linarith
  then have "exp (- ?x) \<le> 1 / 2" by (simp add: exp_minus field_simps)
  then show ?thesis
    using sampling_threshold [OF ln_rounded_accurate half_uniform, of "\<lparr>countdown = 1, rng = (), interval = 100\<rparr>" "1 / 2" 200]
    by simp
qed

theorem weight_inverse_probability_witness:
  "\<bar>real (unat (unbiased_weight (\<lambda>x. f64_round (exp x)) 1024 524288)) - 1 / (1 - exp (- (1 / 512)))\<bar> \<le> 51 / 100"
  using weight_inverse_probability [OF exp_rounded_accurate, of 1024 524288] by simp

theorem tiny_weight_overcounts_witness:
  "unbiased_weight (\<lambda>x. f64_round (exp x)) 16 33554432 = 33554432 \<and> 16 * (1 / (1 - exp (- (16 / 33554432))) - 1) \<le> (33554432 :: real)"
  using tiny_weight_overcounts [of 16 33554432 "\<lambda>x. f64_round (exp x)"] by auto

theorem huge_interval_samples_next_witness:
  "fst (Sampler_check (geometric (\<lambda>u. f64_round (ln u)) (\<lambda>r. (1 / 4, r))) 16
     (Sampler_reset (geometric (\<lambda>u. f64_round (ln u)) (\<lambda>r. (1 / 4, r))) \<lparr>countdown = 1, rng = (), interval = - 1\<rparr>))"
proof -
  have "uniform_draws (\<lambda>r :: unit. (1 / 4, r))"
    unfolding uniform_draws_def by (intro allI exI [of _ "2 ^ 51"]) simp
  from huge_interval_samples_next [OF ln_rounded_accurate this, of "\<lparr>countdown = 1, rng = (), interval = - 1\<rparr>" 16]
  show ?thesis by simp
qed

end
