(* ===== verification/Profile.thy ===== *)
theory Profile
  imports Pprof "HOL-Library.Sublist" "HOL-Library.Multiset"
begin

text \<open>
  The profile dump (\<open>src/src/pprof.rs\<close>): string table, the minimal protobuf encoder, and
  \<open>build_profile\<close>. Strings are lists of bytes (UTF-8). Compression and the writer are third-party
  or the caller's: they are an argument of \<open>dump\<close>, as are the symbol names the backtrace library
  finds, the clock, and the orders in which the hash maps are iterated.

  The correctness statement is a round trip through a reader of the format, which parses the
  fields, resolves locations to functions and functions to strings, and gets back every stack by
  its symbol names with its counters.
\<close>

unbundle bit_operations_syntax

subsection \<open>Encoder\<close>

lemma unat_drop_bit_7: "unat (drop_bit 7 (v :: u64)) = unat v div 128"
  by (simp add: drop_bit_eq_div unat_div_distrib)

lemma drop_bit_7_less: "drop_bit 7 v \<noteq> 0 \<Longrightarrow> unat (drop_bit 7 (v :: u64)) < unat v"
  unfolding unat_drop_bit_7 using unat_drop_bit_7 [of v] by (metis div_less_dividend div_0 gr0I one_less_numeral_iff semiring_norm(76) unat_eq_zero)

function encode_varint :: "u8 list \<Rightarrow> u64 \<Rightarrow> u8 list" where
  "encode_varint buf val =
    (let byte = ucast (val AND 0x7F); val1 = drop_bit 7 val
     in if val1 = 0 then buf @ [byte] else encode_varint (buf @ [byte OR 0x80]) val1)"
  by auto

termination
  by (relation "measure (\<lambda>(buf, val). unat val)") (simp_all only: wf_measure in_measure split, rule drop_bit_7_less)

declare encode_varint.simps [simp del]

definition encode_varint_field :: "u8 list \<Rightarrow> u32 \<Rightarrow> u64 \<Rightarrow> u8 list" where
  "encode_varint_field buf field val = encode_varint (encode_varint buf (push_bit 3 (ucast field))) val"

definition encode_field :: "u8 list \<Rightarrow> u32 \<Rightarrow> u8 list \<Rightarrow> u8 list" where
  "encode_field buf field data =
    encode_varint (encode_varint buf (push_bit 3 (ucast field) OR 2)) (of_nat (length data)) @ data"

definition encode_bytes_field :: "u8 list \<Rightarrow> u32 \<Rightarrow> u8 list \<Rightarrow> u8 list" where
  "encode_bytes_field buf field data = encode_field buf field data"

definition encode_value_type :: "u64 \<Rightarrow> u64 \<Rightarrow> u8 list" where
  "encode_value_type type_idx unit_idx = encode_varint_field (encode_varint_field [] 1 type_idx) 2 unit_idx"

definition encode_label :: "u64 \<Rightarrow> u64 \<Rightarrow> u8 list" where
  "encode_label key str_val = encode_varint_field (encode_varint_field [] 1 key) 2 str_val"

subsection \<open>String table\<close>

record StringTable =
  tbl :: "string list"
  smap :: "(string \<times> nat) list"

definition StringTable_new :: StringTable where
  "StringTable_new = \<lparr>tbl = [], smap = []\<rparr>"

definition StringTable_intern :: "string \<Rightarrow> StringTable \<Rightarrow> nat \<times> StringTable" where
  "StringTable_intern s t = (case map_of (smap t) s of
     Some idx \<Rightarrow> (idx, t)
   | None \<Rightarrow> (let idx = length (tbl t) in (idx, \<lparr>tbl = tbl t @ [s], smap = map_insert s idx (smap t)\<rparr>)))"

text \<open>Formatting of numbers: \<open>{}\<close> and \<open>{:x}\<close>.\<close>

fun digits :: "nat \<Rightarrow> nat \<Rightarrow> string" where
  "digits base n = (if n < base \<or> base < 2 then [''0123456789abcdef'' ! n]
     else digits base (n div base) @ [''0123456789abcdef'' ! (n mod base)])"

declare digits.simps [simp del]

text \<open>\<open>resolve ip\<close> is the name of the last symbol that the backtrace library reports with a name.\<close>

definition symbol_name :: "(nat \<Rightarrow> string option) \<Rightarrow> nat \<Rightarrow> string" where
  "symbol_name resolve ip = (case resolve ip of None \<Rightarrow> ''0x'' @ digits 16 ip | Some sym_name \<Rightarrow> sym_name)"

definition resolve_symbol :: "(nat \<Rightarrow> string option) \<Rightarrow> nat \<Rightarrow> StringTable \<Rightarrow> nat \<times> StringTable" where
  "resolve_symbol resolve ip strings = StringTable_intern (symbol_name resolve ip) strings"

subsection \<open>Building the profile\<close>

record LocTables =
  strings :: StringTable
  locations :: "(u64 \<times> nat) list"
  loc_map :: "(nat \<times> u64) list"
  funcs :: "(u64 \<times> nat) list"
  func_map :: "(nat \<times> u64) list"

definition add_location :: "(nat \<Rightarrow> string option) \<Rightarrow> nat \<Rightarrow> LocTables \<Rightarrow> LocTables" where
  "add_location resolve ip lt =
    (if map_of (loc_map lt) ip \<noteq> None then lt
     else
       let (func_id, lt1) =
             (case map_of (func_map lt) ip of
                Some fid \<Rightarrow> (fid, lt)
              | None \<Rightarrow>
                  let fid = of_nat (length (func_map lt)) + 1;
                      (name, strs) = resolve_symbol resolve ip (strings lt)
                  in (fid, lt\<lparr>strings := strs, func_map := map_insert ip fid (func_map lt),
                        funcs := funcs lt @ [(fid, name)]\<rparr>));
           loc_id = of_nat (length (loc_map lt1)) + 1
       in lt1\<lparr>loc_map := map_insert ip loc_id (loc_map lt1), locations := locations lt1 @ [(loc_id, unat func_id)]\<rparr>)"

definition add_stacks :: "(nat \<Rightarrow> string option) \<Rightarrow> (nat list \<times> u32) list \<Rightarrow> LocTables \<Rightarrow> LocTables" where
  "add_stacks resolve stack_iter lt = fold (\<lambda>(frames, i). fold (add_location resolve) frames) stack_iter lt"

text \<open>A frame without a location panics: \<open>None\<close>.\<close>

fun encode_locs :: "(nat \<times> u64) list \<Rightarrow> nat list \<Rightarrow> u8 list \<Rightarrow> u8 list option" where
  "encode_locs lm [] sample = Some sample"
| "encode_locs lm (ip # ips) sample =
    do { loc_id \<leftarrow> map_of lm ip; encode_locs lm ips (encode_varint_field sample 1 loc_id) }"

definition encode_values :: "StackCounters \<Rightarrow> u8 list \<Rightarrow> u8 list" where
  "encode_values c sample =
    (let s1 = encode_varint_field sample 2 (alloc_count c);
         s2 = encode_varint_field s1 2 (alloc_bytes c);
         s3 = encode_varint_field s2 2 (live_count c)
     in encode_varint_field s3 2 (live_bytes c))"

definition encode_class_label :: "nat \<Rightarrow> SampleRecord list \<Rightarrow> u32 \<Rightarrow> u8 list \<times> StringTable \<Rightarrow> u8 list \<times> StringTable" where
  "encode_class_label st_size_class side_iter i = (\<lambda>(sample, strs).
     case List.find (\<lambda>r. stack_id r = i) side_iter of
       None \<Rightarrow> (sample, strs)
     | Some r \<Rightarrow>
         (case StringTable_intern (digits 10 (unat (smp_class r))) strs of
            (class_str, strs1) \<Rightarrow>
              (encode_field sample 3 (encode_label (of_nat st_size_class) (of_nat class_str)), strs1)))"

definition encode_sample ::
  "nat \<Rightarrow> (nat \<times> u64) list \<Rightarrow> StackCounters list \<Rightarrow> SampleRecord list \<Rightarrow> nat list \<times> u32 \<Rightarrow>
   u8 list \<times> StringTable \<Rightarrow> (u8 list \<times> StringTable) option" where
  "encode_sample st_size_class lm cs side_iter = (\<lambda>(frames, i) (profile, strs).
     if unat i < length cs
     then
       (let c = cs ! unat i in
        if alloc_count c = 0 \<and> live_count c = 0 then Some (profile, strs)
        else do {
          sample \<leftarrow> encode_locs lm frames [];
          let (sample1, strs1) = encode_class_label st_size_class side_iter i (encode_values c sample, strs);
          Some (encode_field profile 2 sample1, strs1)
        })
     else None)"

fun encode_samples ::
  "nat \<Rightarrow> (nat \<times> u64) list \<Rightarrow> StackCounters list \<Rightarrow> SampleRecord list \<Rightarrow> (nat list \<times> u32) list \<Rightarrow>
   u8 list \<times> StringTable \<Rightarrow> (u8 list \<times> StringTable) option" where
  "encode_samples st_size_class lm cs side_iter [] ps = Some ps"
| "encode_samples st_size_class lm cs side_iter (e # es) ps =
    do { ps1 \<leftarrow> encode_sample st_size_class lm cs side_iter e ps; encode_samples st_size_class lm cs side_iter es ps1 }"

definition encode_location :: "u64 \<times> nat \<Rightarrow> u8 list \<Rightarrow> u8 list" where
  "encode_location = (\<lambda>(loc_id, func_id) profile.
     let loc = encode_varint_field [] 1 loc_id;
         line = encode_varint_field [] 1 (of_nat func_id)
     in encode_field profile 4 (encode_field loc 4 line))"

definition encode_function :: "u64 \<times> nat \<Rightarrow> u8 list \<Rightarrow> u8 list" where
  "encode_function = (\<lambda>(func_id, name_idx) profile.
     let f1 = encode_varint_field [] 1 func_id;
         f2 = encode_varint_field f1 2 (of_nat name_idx);
         f3 = encode_varint_field f2 3 (of_nat name_idx)
     in encode_field profile 5 f3)"

definition as_bytes :: "string \<Rightarrow> u8 list" where
  "as_bytes s = map of_char s"

text \<open>
  \<open>stack_iter\<close> and \<open>side_iter\<close> are the entries of the two hash maps in iteration order (the maps are
  not changed, so every iteration has the same order), \<open>nanos\<close> is the clock and \<open>n\<close> the sample
  interval.
\<close>

definition build_profile ::
  "(nat \<Rightarrow> string option) \<Rightarrow> u64 \<Rightarrow> u64 \<Rightarrow> (nat list \<times> u32) list \<Rightarrow> SampleRecord list \<Rightarrow> PprofState \<Rightarrow> u8 list option" where
  "build_profile resolve nanos n stack_iter side_iter st =
    (let (_, t0) = StringTable_intern [] StringTable_new;
         (st_alloc_objects, t1) = StringTable_intern ''alloc_objects'' t0;
         (st_alloc_space, t2) = StringTable_intern ''alloc_space'' t1;
         (st_inuse_objects, t3) = StringTable_intern ''inuse_objects'' t2;
         (st_inuse_space, t4) = StringTable_intern ''inuse_space'' t3;
         (st_count, t5) = StringTable_intern ''count'' t4;
         (st_bytes, t6) = StringTable_intern ''bytes'' t5;
         (st_size_class, t7) = StringTable_intern ''size_class'' t6;
         (st_space, t8) = StringTable_intern ''space'' t7;
         lt = add_stacks resolve stack_iter
                \<lparr>strings = t8, locations = [], loc_map = [], funcs = [], func_map = []\<rparr>;
         p1 = fold (\<lambda>(type_idx, unit_idx) p. encode_field p 1 (encode_value_type (of_nat type_idx) (of_nat unit_idx)))
                [(st_alloc_objects, st_count), (st_alloc_space, st_bytes),
                 (st_inuse_objects, st_count), (st_inuse_space, st_bytes)] []
     in do {
       (p2, strs) \<leftarrow> encode_samples st_size_class (loc_map lt) (counters (stacks st)) side_iter stack_iter (p1, strings lt);
       let p3 = fold encode_location (locations lt) p2;
       let p4 = fold encode_function (funcs lt) p3;
       let p5 = fold (\<lambda>s p. encode_bytes_field p 6 (as_bytes s)) (tbl strs) p4;
       let p6 = encode_varint_field p5 9 nanos;
       let p7 = encode_field p6 11 (encode_value_type (of_nat st_space) (of_nat st_bytes));
       Some (encode_varint_field p7 12 n)
     })"

text \<open>
  \<open>sink\<close> is the compressor with its writer: what it returns for the bytes of the profile. The
  result is given back with the thread's world, in which the guard is released if it was taken.
\<close>

definition dump ::
  "(nat \<Rightarrow> string option) \<Rightarrow> u64 \<Rightarrow> (nat list \<times> u32) list \<Rightarrow> SampleRecord list \<Rightarrow> (u8 list \<Rightarrow> 'e) \<Rightarrow>
   pprof_world \<Rightarrow> ('e \<times> pprof_world) option" where
  "dump resolve nanos stack_iter side_iter sink w =
    (let (got, flag) = acquire (in_pprof w); st = the_state (table w) in
     do {
       profile_bytes \<leftarrow> build_profile resolve nanos (sample_interval (statics w)) stack_iter side_iter st;
       Some (sink profile_bytes, w\<lparr>in_pprof := (if got then release flag else flag), table := Some st\<rparr>)
     })"

subsection \<open>Varints\<close>

text \<open>The format over the natural numbers, and its reader.\<close>

fun varint :: "nat \<Rightarrow> u8 list" where
  "varint n = (if n < 128 then [of_nat n] else of_nat (n mod 128 + 128) # varint (n div 128))"

declare varint.simps [simp del]

fun decode_varint :: "u8 list \<Rightarrow> (nat \<times> u8 list) option" where
  "decode_varint [] = None"
| "decode_varint (b # bs) = (if unat b < 128 then Some (unat b, bs)
     else map_option (\<lambda>(n, rest). (unat b - 128 + 128 * n, rest)) (decode_varint bs))"

lemma decode_varint [simp]: "decode_varint (varint n @ rest) = Some (n, rest)"
proof (induction n rule: varint.induct)
  case (1 n)
  show ?case
  proof (cases "n < 128")
    case True
    then show ?thesis by (subst varint.simps) (simp add: unat_of_nat)
  next
    case False
    have "unat (of_nat (n mod 128 + 128) :: u8) = n mod 128 + 128" by (simp only: unat_of_nat) (simp add: take_bit_nat_eq_self)
    moreover have "n mod 128 + 128 * (n div 128) = n" by simp
    ultimately show ?thesis using 1 False by (subst varint.simps) (simp del: of_nat_add)
  qed
qed

lemma unat_ucast_u8: "unat (ucast (x :: u64) :: u8) = unat x mod 256"
  by (simp add: unsigned_ucast_eq take_bit_eq_mod unat_mod_distrib)

lemma low_byte: "unat (ucast ((v :: u64) AND 0x7F) :: u8) = unat v mod 128"
proof -
  have "v AND 0x7F = take_bit 7 v" by (simp add: take_bit_eq_mask mask_eq_exp_minus_1)
  then have "unat (v AND 0x7F) = unat v mod 128" by (simp add: take_bit_eq_mod unat_mod_distrib)
  then show ?thesis by (simp add: unat_ucast_u8)
qed

lemma high_bit: "unat (b :: u8) < 128 \<Longrightarrow> b OR 0x80 = b + 0x80"
proof -
  assume "unat b < 128"
  then have "take_bit 7 (unat b) = unat b" by (simp add: take_bit_nat_eq_self)
  then have b: "take_bit 7 b = b" by (metis unsigned_take_bit_eq word_unat_eq_iff)
  have "b AND 0x80 = 0"
  proof (rule bit_eqI)
    fix n
    have "bit (0x80 :: u8) n \<longleftrightarrow> n = 7" using bit_exp_iff [of 7 n, where ?'a = u8] by auto
    moreover have "\<not> bit b 7" using bit_take_bit_iff [of 7 b 7] b by simp
    ultimately show "bit (b AND 0x80) n = bit 0 n" by (auto simp: bit_and_iff)
  qed
  then show ?thesis by (simp add: disjunctive_add_eq_or)
qed

lemma encode_varint_eq: "encode_varint buf v = buf @ varint (unat v)"
proof (induction buf v rule: encode_varint.induct)
  case (1 buf v)
  let ?b = "ucast (v AND 0x7F) :: u8"
  have b: "?b = of_nat (unat v mod 128)" by (simp add: low_byte [symmetric])
  show ?case
  proof (cases "drop_bit 7 v = 0")
    case True
    then have "unat v < 128" using unat_drop_bit_7 [of v] by (simp add: div_eq_0_iff)
    then show ?thesis using True b by (subst encode_varint.simps, subst varint.simps) (simp add: Let_def)
  next
    case False
    then have n: "\<not> unat v < 128" using unat_drop_bit_7 [of v] by (metis div_less unat_eq_zero)
    have "unat ?b < 128" using low_byte [of v] by simp
    from high_bit [OF this] have "?b OR 0x80 = of_nat (unat v mod 128 + 128)" by (simp add: b)
    then show ?thesis using False n 1 [OF refl refl False]
      by (subst encode_varint.simps, subst varint.simps) (simp add: Let_def unat_drop_bit_7)
  qed
qed

lemma length_varint: "n < 128 ^ Suc k \<Longrightarrow> length (varint n) \<le> Suc k"
proof (induction k arbitrary: n)
  case (Suc k)
  then have "n div 128 < 128 ^ Suc k" by (simp add: less_mult_imp_div_less mult.commute)
  from Suc.IH [OF this] show ?case by (subst varint.simps) simp
qed (subst varint.simps, simp)

lemma varint_nonempty [simp]: "varint n \<noteq> []"
  by (subst varint.simps) simp

text \<open>
  The variable-length encoding loses nothing: a standard reader gets back the 64-bit value and
  the bytes that follow; a value takes between 1 and 10 bytes and the buffer before it is kept.
\<close>

theorem varint_round_trip:
  "decode_varint (encode_varint [] v @ rest) = Some (unat v, rest) \<and>
   encode_varint buf v = buf @ encode_varint [] v \<and>
   1 \<le> length (encode_varint [] v) \<and> length (encode_varint [] v) \<le> 10"
proof -
  have "unat v < 2 ^ 64" using unsigned_less [of v] by simp
  then have "unat v < 128 ^ Suc 9" by (rule less_trans) simp
  from length_varint [OF this] show ?thesis by (simp add: encode_varint_eq Suc_le_eq)
qed

subsection \<open>Messages\<close>

datatype field = Num nat | Data "u8 list"

text \<open>The length of a field is cut to 64 bits.\<close>

fun field_bytes :: "nat \<times> field \<Rightarrow> u8 list" where
  "field_bytes (k, Num n) = varint (8 * k) @ varint n"
| "field_bytes (k, Data d) = varint (8 * k + 2) @ varint (length d mod 2 ^ 64) @ d"

definition message :: "(nat \<times> field) list \<Rightarrow> u8 list" where
  "message fs = concat (map field_bytes fs)"

lemma message_simps:
  "message [] = []" "message (f # fs) = field_bytes f @ message fs" "message (fs @ gs) = message fs @ message gs"
  by (simp_all add: message_def)

lemma unat_tag: "unat (push_bit 3 (ucast (k :: u32)) :: u64) = 8 * unat k"
proof -
  have "unat k < 2 ^ 32" using unsigned_less [of k] by simp
  then show ?thesis by (simp add: push_bit_eq_mult unat_word_ariths unsigned_ucast_eq take_bit_eq_mod unat_mod_distrib)
qed

lemma unat_tag2: "unat (push_bit 3 (ucast (k :: u32)) OR 2 :: u64) = 8 * unat k + 2"
proof -
  let ?t = "push_bit 3 (ucast k) :: u64"
  have "?t AND 2 = 0"
  proof (rule bit_eqI)
    fix n
    have "bit (2 :: u64) n \<longleftrightarrow> n = 1" using bit_exp_iff [of 1 n, where ?'a = u64] by auto
    then show "bit (?t AND 2) n = bit 0 n" by (auto simp: bit_and_iff bit_push_bit_iff)
  qed
  then have "?t OR 2 = ?t + 2" by (simp add: disjunctive_add_eq_or)
  moreover have "unat k < 2 ^ 32" using unsigned_less [of k] by simp
  ultimately show ?thesis using unat_tag [of k] by (simp add: unat_word_ariths)
qed

lemma encode_varint_field_msg:
  "encode_varint_field (message fs) k v = message (fs @ [(unat k, Num (unat v))])"
  "encode_varint_field [] k v = message [(unat k, Num (unat v))]"
  by (simp_all add: encode_varint_field_def encode_varint_eq unat_tag message_simps)

lemma encode_field_msg:
  "encode_field (message fs) k d = message (fs @ [(unat k, Data d)])"
  "encode_field [] k d = message [(unat k, Data d)]"
  by (simp_all add: encode_field_def encode_varint_eq unat_tag2 unat_of_nat take_bit_eq_mod message_simps)

lemmas encode_msgs = encode_varint_field_msg encode_field_msg encode_bytes_field_def

lemma encode_pair_msg:
  "encode_value_type x y = message [(1, Num (unat x)), (2, Num (unat y))]"
  "encode_label x y = message [(1, Num (unat x)), (2, Num (unat y))]"
  by (simp_all add: encode_value_type_def encode_label_def encode_msgs)

subsection \<open>A reader of messages\<close>

lemma decode_varint_shorter: "decode_varint bs = Some (n, r) \<Longrightarrow> length r < length bs"
  by (induction bs arbitrary: n r) (auto split: if_splits)

function parse_fields :: "u8 list \<Rightarrow> (nat \<times> field) list option" where
  "parse_fields bs = (if bs = [] then Some []
     else case decode_varint bs of
       None \<Rightarrow> None
     | Some (tag, r) \<Rightarrow>
         (case decode_varint r of
            None \<Rightarrow> None
          | Some (n, r1) \<Rightarrow>
              if tag mod 8 = 0 then map_option ((#) (tag div 8, Num n)) (parse_fields r1)
              else if tag mod 8 = 2 \<and> n \<le> length r1
              then map_option ((#) (tag div 8, Data (take n r1))) (parse_fields (drop n r1))
              else None))"
  by auto

termination
  by (relation "measure length") (auto dest!: decode_varint_shorter)

declare parse_fields.simps [simp del]

lemma parse_fields_Nil [simp]: "parse_fields [] = Some []"
  by (simp add: parse_fields.simps)

fun field_fits :: "nat \<times> field \<Rightarrow> bool" where
  "field_fits (k, Num n) = True"
| "field_fits (k, Data d) = (length d < 2 ^ 64)"

lemma parse_field: "field_fits f \<Longrightarrow> parse_fields (field_bytes f @ bs) = map_option ((#) f) (parse_fields bs)"
proof (cases f rule: field_bytes.cases)
  case (1 k n)
  then show ?thesis by (subst parse_fields.simps) simp
next
  case (2 k d)
  assume "field_fits f"
  then have "length d mod 2 ^ 64 = length d" using 2 by simp
  moreover have "(8 * k + 2) mod 8 = 2" "(8 * k + 2) div 8 = k" by presburger+
  ultimately show ?thesis using 2 by (subst parse_fields.simps) simp
qed

lemma parse_message: "\<forall>f \<in> set fs. field_fits f \<Longrightarrow> parse_fields (message fs) = Some fs"
  by (induction fs) (simp_all add: parse_field message_simps)

lemma field_in_message: "(k, Data d) \<in> set fs \<Longrightarrow> length d \<le> length (message fs)"
  by (induction fs) (auto simp: message_simps)

lemma parse_message_fits:
  assumes "length (message fs) < 2 ^ 64"
  shows "parse_fields (message fs) = Some fs"
proof (rule parse_message, rule ballI)
  fix f assume f: "f \<in> set fs"
  show "field_fits f"
    using f field_in_message assms by (cases f rule: field_fits.cases) force+
qed

subsection \<open>A reader of profiles\<close>

fun nums :: "nat \<Rightarrow> (nat \<times> field) list \<Rightarrow> nat list" where
  "nums k [] = []"
| "nums k ((j, Num n) # fs) = (if j = k then n # nums k fs else nums k fs)"
| "nums k ((j, Data d) # fs) = nums k fs"

fun datas :: "nat \<Rightarrow> (nat \<times> field) list \<Rightarrow> u8 list list" where
  "datas k [] = []"
| "datas k ((j, Num n) # fs) = datas k fs"
| "datas k ((j, Data d) # fs) = (if j = k then d # datas k fs else datas k fs)"

fun one :: "'a list \<Rightarrow> 'a option" where
  "one [x] = Some x"
| "one _ = None"

lemma nums_append [simp]: "nums k (fs @ gs) = nums k fs @ nums k gs"
  by (induction k fs rule: nums.induct) auto

lemma datas_append [simp]: "datas k (fs @ gs) = datas k fs @ datas k gs"
  by (induction k fs rule: datas.induct) auto

lemma nums_map [simp]:
  "nums k (map (\<lambda>x. (j, Num (f x))) xs) = (if j = k then map f xs else [])"
  "nums k (map (\<lambda>x. (j, Data (g x))) xs) = []"
  by (induction xs) auto

lemma datas_map [simp]:
  "datas k (map (\<lambda>x. (j, Data (g x))) xs) = (if j = k then map g xs else [])"
  "datas k (map (\<lambda>x. (j, Num (f x))) xs) = []"
  by (induction xs) auto

lemma those_map: "(\<And>x. x \<in> set xs \<Longrightarrow> f x = Some (g x)) \<Longrightarrow> those (map f xs) = Some (map g xs)"
  by (induction xs) auto

definition read_ref :: "string list \<Rightarrow> nat \<Rightarrow> string option" where
  "read_ref T i = (if i < length T then Some (T ! i) else None)"

definition read_pair :: "string list \<Rightarrow> u8 list \<Rightarrow> (string \<times> string) option" where
  "read_pair T d = do {
     fs \<leftarrow> parse_fields d; i \<leftarrow> one (nums 1 fs); j \<leftarrow> one (nums 2 fs);
     x \<leftarrow> read_ref T i; y \<leftarrow> read_ref T j; Some (x, y) }"

definition read_location :: "u8 list \<Rightarrow> (nat \<times> nat) option" where
  "read_location d = do {
     fs \<leftarrow> parse_fields d; l \<leftarrow> one (nums 1 fs); line \<leftarrow> one (datas 4 fs);
     gs \<leftarrow> parse_fields line; f \<leftarrow> one (nums 1 gs); Some (l, f) }"

definition read_function :: "string list \<Rightarrow> u8 list \<Rightarrow> (nat \<times> string) option" where
  "read_function T d = do {
     fs \<leftarrow> parse_fields d; f \<leftarrow> one (nums 1 fs); i \<leftarrow> one (nums 2 fs); s \<leftarrow> read_ref T i; Some (f, s) }"

type_synonym sample_view = "string list \<times> nat list \<times> (string \<times> string) list"

definition read_frame :: "(nat \<times> nat) list \<Rightarrow> (nat \<times> string) list \<Rightarrow> nat \<Rightarrow> string option" where
  "read_frame locs fns l = do { f \<leftarrow> map_of locs l; map_of fns f }"

definition read_sample :: "string list \<Rightarrow> (nat \<times> nat) list \<Rightarrow> (nat \<times> string) list \<Rightarrow> u8 list \<Rightarrow> sample_view option" where
  "read_sample T locs fns d = do {
     fs \<leftarrow> parse_fields d; stack \<leftarrow> those (map (read_frame locs fns) (nums 1 fs));
     labels \<leftarrow> those (map (read_pair T) (datas 3 fs)); Some (stack, nums 2 fs, labels) }"

record profile_view =
  sample_types :: "(string \<times> string) list"
  samples :: "sample_view list"
  time_nanos :: nat
  period_type :: "string \<times> string"
  period :: nat

definition from_bytes :: "u8 list \<Rightarrow> string" where
  "from_bytes bs = map (\<lambda>b. char_of (unat b)) bs"

text \<open>The first string has to be empty.\<close>

definition read_profile :: "u8 list \<Rightarrow> profile_view option" where
  "read_profile bs = do {
     fs \<leftarrow> parse_fields bs;
     let T = map from_bytes (datas 6 fs);
     e \<leftarrow> read_ref T 0;
     if e \<noteq> [] then None else do {
     locs \<leftarrow> those (map read_location (datas 4 fs));
     fns \<leftarrow> those (map (read_function T) (datas 5 fs));
     tys \<leftarrow> those (map (read_pair T) (datas 1 fs));
     smps \<leftarrow> those (map (read_sample T locs fns) (datas 2 fs));
     tm \<leftarrow> one (nums 9 fs);
     d \<leftarrow> one (datas 11 fs);
     pt \<leftarrow> read_pair T d;
     p \<leftarrow> one (nums 12 fs);
     Some \<lparr>sample_types = tys, samples = smps, time_nanos = tm, period_type = pt, period = p\<rparr> } }"

text \<open>What the profile is meant to say.\<close>

definition stack_view :: "(nat \<Rightarrow> string option) \<Rightarrow> PprofState \<Rightarrow> SampleRecord list \<Rightarrow> nat list \<times> u32 \<Rightarrow> sample_view" where
  "stack_view resolve st side_iter = (\<lambda>(frames, i).
     (map (symbol_name resolve) frames,
      (let c = counters (stacks st) ! unat i in [unat (alloc_count c), unat (alloc_bytes c), unat (live_count c), unat (live_bytes c)]),
      (case List.find (\<lambda>r. stack_id r = i) side_iter of
         None \<Rightarrow> [] | Some r \<Rightarrow> [(''size_class'', digits 10 (unat (smp_class r)))])))"

definition nonzero :: "StackCounters list \<Rightarrow> nat list \<times> u32 \<Rightarrow> bool" where
  "nonzero cs e \<longleftrightarrow> \<not> (alloc_count (cs ! unat (snd e)) = 0 \<and> live_count (cs ! unat (snd e)) = 0)"

definition profile_of ::
  "(nat \<Rightarrow> string option) \<Rightarrow> u64 \<Rightarrow> u64 \<Rightarrow> (nat list \<times> u32) list \<Rightarrow> SampleRecord list \<Rightarrow> PprofState \<Rightarrow> profile_view" where
  "profile_of resolve nanos n stack_iter side_iter st =
    \<lparr>sample_types = [(''alloc_objects'', ''count''), (''alloc_space'', ''bytes''), (''inuse_objects'', ''count''), (''inuse_space'', ''bytes'')],
     samples = map (stack_view resolve st side_iter) (filter (nonzero (counters (stacks st))) stack_iter),
     time_nanos = unat nanos, period_type = (''space'', ''bytes''), period = unat n\<rparr>"

subsection \<open>String table and locations\<close>

definition strs_ok :: "StringTable \<Rightarrow> bool" where
  "strs_ok t \<longleftrightarrow> (\<forall>s i. map_of (smap t) s = Some i \<longrightarrow> read_ref (tbl t) i = Some s)"

lemma read_ref_prefix: "read_ref T i = Some s \<Longrightarrow> prefix T T' \<Longrightarrow> read_ref T' i = Some s"
  by (auto simp: read_ref_def prefix_def nth_append split: if_splits)

lemma map_of_map_insert [simp]: "map_of (map_insert k v m) = (map_of m)(k \<mapsto> v)"
proof
  have "x \<noteq> k \<Longrightarrow> map_of (filter (\<lambda>e. fst e \<noteq> k) m) x = map_of m x" for x by (induction m) auto
  then show "map_of (map_insert k v m) x = ((map_of m)(k \<mapsto> v)) x" for x by (simp add: map_insert_def)
qed

lemma StringTable_intern_ok:
  assumes "strs_ok t" "StringTable_intern s t = (i, t')"
  shows "strs_ok t'" "prefix (tbl t) (tbl t')" "read_ref (tbl t') i = Some s"
proof -
  have ref: "read_ref (tbl t @ xs) j = Some r" if "map_of (smap t) r = Some j" for xs j r
    using assms(1) that read_ref_prefix [of "tbl t" j r "tbl t @ xs"] by (auto simp: strs_ok_def)
  have "read_ref (tbl t @ [s]) (length (tbl t)) = Some s" by (simp add: read_ref_def)
  then show "strs_ok t'" "prefix (tbl t) (tbl t')" "read_ref (tbl t') i = Some s"
    using assms ref [where xs = "[]"] ref [where xs = "[s]"]
    by (auto simp: StringTable_intern_def strs_ok_def Let_def split: option.splits if_splits)
qed

text \<open>
  Ids of locations and functions count from 1; every known instruction pointer has a location whose
  function has its symbol's name.
\<close>

definition loc_ok :: "(nat \<Rightarrow> string option) \<Rightarrow> LocTables \<Rightarrow> bool" where
  "loc_ok resolve lt \<longleftrightarrow> strs_ok (strings lt) \<and>
     map fst (locations lt) = map (\<lambda>k. of_nat k + 1) [0..<length (loc_map lt)] \<and>
     map fst (funcs lt) = map (\<lambda>k. of_nat k + 1) [0..<length (func_map lt)] \<and>
     (\<forall>x \<in> set (locations lt). snd x < 2 ^ 64) \<and> (\<forall>x \<in> set (funcs lt). \<exists>s. read_ref (tbl (strings lt)) (snd x) = Some s) \<and>
     (\<forall>ip l. map_of (loc_map lt) ip = Some l \<longrightarrow>
        (\<exists>f. map_of (func_map lt) ip = Some f \<and> (l, unat f) \<in> set (locations lt))) \<and>
     (\<forall>ip f. map_of (func_map lt) ip = Some f \<longrightarrow>
        (\<exists>i. (f, i) \<in> set (funcs lt) \<and> read_ref (tbl (strings lt)) i = Some (symbol_name resolve ip)))"

text \<open>The two halves of \<open>add_location\<close>: a function for the address, then a location.\<close>

definition add_func :: "(nat \<Rightarrow> string option) \<Rightarrow> nat \<Rightarrow> LocTables \<Rightarrow> LocTables" where
  "add_func resolve ip lt = (case map_of (func_map lt) ip of
     Some fid \<Rightarrow> lt
   | None \<Rightarrow> (case resolve_symbol resolve ip (strings lt) of (name, strs) \<Rightarrow>
       lt\<lparr>strings := strs, func_map := map_insert ip (of_nat (length (func_map lt)) + 1) (func_map lt),
          funcs := funcs lt @ [(of_nat (length (func_map lt)) + 1, name)]\<rparr>))"

lemma add_location_eq:
  "add_location resolve ip lt = (if map_of (loc_map lt) ip \<noteq> None then lt
     else (let lt1 = add_func resolve ip lt; l = of_nat (length (loc_map lt1)) + 1 in
       lt1\<lparr>loc_map := map_insert ip l (loc_map lt1), locations := locations lt1 @ [(l, unat (the (map_of (func_map lt1) ip)))]\<rparr>))"
  by (auto simp: add_location_def add_func_def Let_def split_def split: option.splits)

lemma length_map_insert: "map_of m k = None \<Longrightarrow> length (map_insert k v m) = Suc (length m)"
  by (subst map_insert_fresh) (auto simp: map_of_eq_None_iff)

lemma unsigned_word_less: "unat (x :: u64) < 2 ^ 64"
  using unsigned_less [of x] by simp

lemma loc_okD:
  assumes "loc_ok resolve lt"
  shows "strs_ok (strings lt)" "map fst (locations lt) = map (\<lambda>k. of_nat k + 1) [0..<length (loc_map lt)]"
    "map fst (funcs lt) = map (\<lambda>k. of_nat k + 1) [0..<length (func_map lt)]"
    "x \<in> set (locations lt) \<Longrightarrow> snd x < 2 ^ 64" "x \<in> set (funcs lt) \<Longrightarrow> \<exists>s. read_ref (tbl (strings lt)) (snd x) = Some s"
    "map_of (loc_map lt) ip = Some l \<Longrightarrow> \<exists>f. map_of (func_map lt) ip = Some f \<and> (l, unat f) \<in> set (locations lt)"
    "map_of (func_map lt) ip = Some f \<Longrightarrow>
      \<exists>i. (f, i) \<in> set (funcs lt) \<and> read_ref (tbl (strings lt)) i = Some (symbol_name resolve ip)"
  using assms by (simp_all add: loc_ok_def)

lemma add_func_ok:
  assumes ok: "loc_ok resolve lt"
  shows "loc_ok resolve (add_func resolve ip lt)" "map_of (func_map (add_func resolve ip lt)) ip \<noteq> None"
    "prefix (tbl (strings lt)) (tbl (strings (add_func resolve ip lt)))" "loc_map (add_func resolve ip lt) = loc_map lt"
proof -
  note d = loc_okD [OF ok]
  obtain name strs where rs: "resolve_symbol resolve ip (strings lt) = (name, strs)" by (metis surj_pair)
  then have "StringTable_intern (symbol_name resolve ip) (strings lt) = (name, strs)" by (simp add: resolve_symbol_def)
  note s = StringTable_intern_ok [OF d(1) this]
  show "map_of (func_map (add_func resolve ip lt)) ip \<noteq> None" "loc_map (add_func resolve ip lt) = loc_map lt"
    "prefix (tbl (strings lt)) (tbl (strings (add_func resolve ip lt)))"
    using s(2) rs by (auto simp: add_func_def split: option.splits)
  show "loc_ok resolve (add_func resolve ip lt)"
  proof (cases "map_of (func_map lt) ip")
    case (Some fid)
    then show ?thesis using ok by (simp add: add_func_def)
  next
    case None
    let ?f = "of_nat (length (func_map lt)) + 1"
    let ?lt = "lt\<lparr>strings := strs, func_map := map_insert ip ?f (func_map lt), funcs := funcs lt @ [(?f, name)]\<rparr>"
    have r: "read_ref (tbl strs) i = Some x" if "read_ref (tbl (strings lt)) i = Some x" for i x
      by (rule read_ref_prefix [OF that s(2)])
    have "loc_ok resolve ?lt"
      unfolding loc_ok_def
    proof (intro conjI allI ballI impI)
      show "strs_ok (strings ?lt)" using s(1) by simp
      show "map fst (locations ?lt) = map (\<lambda>k. of_nat k + 1) [0..<length (loc_map ?lt)]" using d(2) by simp
      show "map fst (funcs ?lt) = map (\<lambda>k. of_nat k + 1) [0..<length (func_map ?lt)]"
        using d(3) length_map_insert [OF None] by simp
      show "snd x < 2 ^ 64" if "x \<in> set (locations ?lt)" for x using d(4) that by simp
      show "\<exists>s. read_ref (tbl (strings ?lt)) (snd x) = Some s" if "x \<in> set (funcs ?lt)" for x
        using that d(5) [of x] r s(3) by auto
      show "\<exists>f. map_of (func_map ?lt) q = Some f \<and> (l, unat f) \<in> set (locations ?lt)"
        if "map_of (loc_map ?lt) q = Some l" for q l
        using that d(6) [of q l] None by auto
      show "\<exists>i. (f, i) \<in> set (funcs ?lt) \<and> read_ref (tbl (strings ?lt)) i = Some (symbol_name resolve q)"
        if "map_of (func_map ?lt) q = Some f" for q f
        using that d(7) [of q f] r s(3) by (auto split: if_splits)
    qed
    then show ?thesis using None rs by (simp add: add_func_def)
  qed
qed

lemma add_location_ok:
  assumes ok: "loc_ok resolve lt"
  shows "loc_ok resolve (add_location resolve ip lt)"
    "dom (map_of (loc_map (add_location resolve ip lt))) = insert ip (dom (map_of (loc_map lt)))"
    "prefix (tbl (strings lt)) (tbl (strings (add_location resolve ip lt)))"
proof -
  show "dom (map_of (loc_map (add_location resolve ip lt))) = insert ip (dom (map_of (loc_map lt)))"
    "prefix (tbl (strings lt)) (tbl (strings (add_location resolve ip lt)))"
    using add_func_ok(3,4) [OF ok, of ip] by (auto simp: add_location_eq Let_def)
  show "loc_ok resolve (add_location resolve ip lt)"
  proof (cases "map_of (loc_map lt) ip")
    case (Some l)
    then show ?thesis using ok by (simp add: add_location_eq)
  next
    case None
    let ?lt1 = "add_func resolve ip lt"
    let ?l = "of_nat (length (loc_map ?lt1)) + 1"
    note f = add_func_ok [OF ok, of ip] and d = loc_okD [OF add_func_ok(1) [OF ok, of ip]]
    obtain fid where fid: "map_of (func_map ?lt1) ip = Some fid" using f(2) by blast
    let ?lt = "?lt1\<lparr>loc_map := map_insert ip ?l (loc_map ?lt1), locations := locations ?lt1 @ [(?l, unat fid)]\<rparr>"
    have n: "map_of (loc_map ?lt1) ip = None" using None f(4) by simp
    have "loc_ok resolve ?lt"
      unfolding loc_ok_def
    proof (intro conjI allI ballI impI)
      show "strs_ok (strings ?lt)" using d(1) by simp
      show "map fst (locations ?lt) = map (\<lambda>k. of_nat k + 1) [0..<length (loc_map ?lt)]"
        using d(2) length_map_insert [OF n] by simp
      show "map fst (funcs ?lt) = map (\<lambda>k. of_nat k + 1) [0..<length (func_map ?lt)]" using d(3) by simp
      show "snd x < 2 ^ 64" if "x \<in> set (locations ?lt)" for x using d(4) [of x] that unsigned_word_less [of fid] by auto
      show "\<exists>s. read_ref (tbl (strings ?lt)) (snd x) = Some s" if "x \<in> set (funcs ?lt)" for x
        using that d(5) [of x] by simp
      show "\<exists>f. map_of (func_map ?lt) q = Some f \<and> (l, unat f) \<in> set (locations ?lt)"
        if "map_of (loc_map ?lt) q = Some l" for q l
        using that d(6) [of q l] fid by (auto split: if_splits)
      show "\<exists>i. (f, i) \<in> set (funcs ?lt) \<and> read_ref (tbl (strings ?lt)) i = Some (symbol_name resolve q)"
        if "map_of (func_map ?lt) q = Some f" for q f
        using that d(7) [of q f] by simp
    qed
    then show ?thesis using None fid by (simp add: add_location_eq Let_def)
  qed
qed

lemma add_frames_ok:
  assumes "loc_ok resolve lt"
  shows "loc_ok resolve (fold (add_location resolve) ips lt) \<and>
    dom (map_of (loc_map (fold (add_location resolve) ips lt))) = set ips \<union> dom (map_of (loc_map lt)) \<and>
    prefix (tbl (strings lt)) (tbl (strings (fold (add_location resolve) ips lt)))"
  using assms
proof (induction ips arbitrary: lt)
  case (Cons ip ips)
  note a = add_location_ok [OF Cons.prems, of ip]
  show ?case using Cons.IH [OF a(1)] a(2) prefix_order.trans [OF a(3)] by simp
qed simp

lemma add_stacks_ok:
  assumes "loc_ok resolve lt"
  shows "loc_ok resolve (add_stacks resolve es lt) \<and>
    dom (map_of (loc_map (add_stacks resolve es lt))) = (\<Union>e \<in> set es. set (fst e)) \<union> dom (map_of (loc_map lt)) \<and>
    prefix (tbl (strings lt)) (tbl (strings (add_stacks resolve es lt)))"
  unfolding add_stacks_def using assms
proof (induction es arbitrary: lt)
  case (Cons e es)
  note a = add_frames_ok [OF Cons.prems, of "fst e"]
  show ?case using Cons.IH [OF a [THEN conjunct1]] a prefix_order.trans [of "tbl (strings lt)"]
    by (auto simp: split_def)
qed simp

lemma ids_lookup:
  assumes ids: "map fst xs = map (\<lambda>k. of_nat k + 1 :: u64) [0..<n]" and n: "n < 2 ^ 64" and x: "(x, y) \<in> set xs"
  shows "map_of (map (\<lambda>e. (unat (fst e), g (snd e))) xs) (unat x) = Some (g y)"
proof (rule map_of_is_SomeI)
  have "map (\<lambda>e. unat (fst e)) xs = map unat (map fst xs)" by simp
  also have "\<dots> = map (\<lambda>k. unat (of_nat k + 1 :: u64)) [0..<n]" unfolding ids by simp
  also have "\<dots> = map Suc [0..<n]"
  proof (rule map_cong [OF refl])
    fix k assume "k \<in> set [0..<n]"
    then have "k + 1 < 2 ^ 64" using n by simp
    then have "unat (of_nat (k + 1) :: u64) = k + 1" by (simp only: unat_of_nat) simp
    then show "unat (of_nat k + 1 :: u64) = Suc k" by (simp add: add.commute)
  qed
  finally have "map fst (map (\<lambda>e. (unat (fst e), g (snd e))) xs) = map Suc [0..<n]" by (simp add: comp_def)
  then show "distinct (map fst (map (\<lambda>e. (unat (fst e), g (snd e))) xs))" by (simp add: distinct_map)
  show "(unat x, g y) \<in> set (map (\<lambda>e. (unat (fst e), g (snd e))) xs)" using x by force
qed

lemma frame_reads:
  assumes ok: "loc_ok resolve lt" and n: "length (loc_map lt) < 2 ^ 64" "length (func_map lt) < 2 ^ 64"
    and l: "map_of (loc_map lt) ip = Some l" and T: "prefix (tbl (strings lt)) T"
  shows "read_frame (map (\<lambda>e. (unat (fst e), snd e)) (locations lt)) (map (\<lambda>e. (unat (fst e), T ! snd e)) (funcs lt)) (unat l) =
    Some (symbol_name resolve ip)"
proof -
  note d = loc_okD [OF ok]
  obtain f where f: "map_of (func_map lt) ip = Some f" "(l, unat f) \<in> set (locations lt)" using d(6) [OF l] by blast
  obtain i where i: "(f, i) \<in> set (funcs lt)" "read_ref (tbl (strings lt)) i = Some (symbol_name resolve ip)"
    using d(7) [OF f(1)] by blast
  have "T ! i = symbol_name resolve ip"
    using read_ref_prefix [OF i(2) T] by (simp add: read_ref_def split: if_splits)
  then show ?thesis
    using ids_lookup [OF d(2) n(1) f(2), of "\<lambda>x. x"] ids_lookup [OF d(3) n(2) i(1), of "\<lambda>i. T ! i"]
    by (simp add: read_frame_def)
qed

subsection \<open>Reading back what was written\<close>

definition location_fields :: "u64 \<times> nat \<Rightarrow> (nat \<times> field) list" where
  "location_fields e = [(1, Num (unat (fst e))), (4, Data (message [(1, Num (unat (of_nat (snd e) :: u64)))]))]"

definition function_fields :: "u64 \<times> nat \<Rightarrow> (nat \<times> field) list" where
  "function_fields e = [(1, Num (unat (fst e))), (2, Num (unat (of_nat (snd e) :: u64))), (3, Num (unat (of_nat (snd e) :: u64)))]"

lemma encode_location_msg: "encode_location e (message fs) = message (fs @ [(4, Data (message (location_fields e)))])"
  by (simp add: encode_location_def split_def encode_msgs location_fields_def)

lemma encode_function_msg: "encode_function e (message fs) = message (fs @ [(5, Data (message (function_fields e)))])"
  by (simp add: encode_function_def split_def encode_msgs function_fields_def)

lemma fold_message:
  assumes "\<And>x fs. f x (message fs) = message (fs @ [g x])"
  shows "fold f xs (message fs) = message (fs @ map g xs)"
  by (induction xs arbitrary: fs) (simp_all add: assms)

lemma from_as_bytes [simp]: "from_bytes (as_bytes s) = s"
proof -
  have "char_of (unat (of_char c :: u8)) = c" for c
  proof -
    have "(of_char c :: u8) = of_nat (of_char c)" by (simp only: of_nat_of_char)
    moreover have "of_char c < (256 :: nat)" by simp
    ultimately have "unat (of_char c :: u8) = (of_char c :: nat)"
      by (simp only: unat_of_nat) (simp add: take_bit_nat_eq_self)
    then show ?thesis by simp
  qed
  then show ?thesis by (simp add: from_bytes_def as_bytes_def comp_def)
qed

lemma read_ref_less: "read_ref T i = Some s \<Longrightarrow> i < length T"
  by (simp add: read_ref_def split: if_splits)

lemma unat_index: "i < (2 :: nat) ^ 64 \<Longrightarrow> unat (of_nat i :: u64) = i"
  by (simp add: unat_of_nat take_bit_nat_eq_self)

lemma read_location_message:
  assumes "snd e < 2 ^ 64" "length (message (location_fields e)) < 2 ^ 64"
  shows "read_location (message (location_fields e)) = Some (unat (fst e), snd e)"
  using parse_message_fits [OF assms(2)] parse_message [of "[(1, Num (snd e))]"] unat_index [OF assms(1)]
  by (simp add: read_location_def location_fields_def)

lemma read_function_message:
  assumes "read_ref T (snd e) = Some s" "length T < 2 ^ 64"
  shows "read_function T (message (function_fields e)) = Some (unat (fst e), s)"
  using parse_message [of "function_fields e"] assms(1) unat_index [of "snd e"] read_ref_less [OF assms(1)] assms(2)
  by (simp add: read_function_def function_fields_def)

lemma read_pair_message:
  assumes "read_ref T i = Some x" "read_ref T j = Some y" "length T < 2 ^ 64"
  shows "read_pair T (encode_value_type (of_nat i) (of_nat j)) = Some (x, y)"
    "read_pair T (encode_label (of_nat i) (of_nat j)) = Some (x, y)"
  using parse_message [of "[(1, Num i), (2, Num j)]"] assms unat_index [of i] unat_index [of j]
    read_ref_less [OF assms(1)] read_ref_less [OF assms(2)]
  by (simp_all add: read_pair_def encode_pair_msg)

subsection \<open>Samples\<close>

definition frame_fields :: "(nat \<times> u64) list \<Rightarrow> nat list \<Rightarrow> (nat \<times> field) list" where
  "frame_fields lm frames = map (\<lambda>ip. (1, Num (unat (the (map_of lm ip))))) frames"

definition value_fields :: "StackCounters \<Rightarrow> (nat \<times> field) list" where
  "value_fields c = map (\<lambda>v. (2, Num (unat v))) [alloc_count c, alloc_bytes c, live_count c, live_bytes c]"

definition class_labels :: "SampleRecord list \<Rightarrow> u32 \<Rightarrow> (string \<times> string) list" where
  "class_labels side_iter i = (case List.find (\<lambda>r. stack_id r = i) side_iter of
     None \<Rightarrow> [] | Some r \<Rightarrow> [(''size_class'', digits 10 (unat (smp_class r)))])"

definition reads_labels :: "string list \<Rightarrow> (nat \<times> field) list \<Rightarrow> (string \<times> string) list \<Rightarrow> bool" where
  "reads_labels T ls v \<longleftrightarrow> nums 1 ls = [] \<and> nums 2 ls = [] \<and> those (map (read_pair T) (datas 3 ls)) = Some v"

text \<open>String tables in which the samples can be read: extensions of the writer's.\<close>

definition extends :: "nat \<Rightarrow> StringTable \<Rightarrow> string list \<Rightarrow> bool" where
  "extends sc strs T \<longleftrightarrow> prefix (tbl strs) T \<and> read_ref T sc = Some ''size_class'' \<and> length T < 2 ^ 64"

lemma extends_prefix: "extends sc strs' T \<Longrightarrow> prefix (tbl strs) (tbl strs') \<Longrightarrow> extends sc strs T"
  unfolding extends_def using prefix_order.trans by blast

lemma encode_locs_msg:
  "set frames \<subseteq> dom (map_of lm) \<Longrightarrow> encode_locs lm frames (message fs) = Some (message (fs @ frame_fields lm frames))"
  by (induction frames arbitrary: fs) (auto simp: frame_fields_def encode_msgs)

lemma encode_values_msg: "encode_values c (message fs) = message (fs @ value_fields c)"
  by (simp add: encode_values_def encode_msgs value_fields_def)

lemma encode_class_label_msg:
  assumes "strs_ok strs"
  obtains ls strs' where "encode_class_label sc side_iter i (message fs, strs) = (message (fs @ ls), strs')"
    "strs_ok strs'" "prefix (tbl strs) (tbl strs')"
    "\<And>T. extends sc strs' T \<Longrightarrow> reads_labels T ls (class_labels side_iter i)"
proof (cases "List.find (\<lambda>r. stack_id r = i) side_iter")
  case None
  then show thesis using that [of "[]" strs] assms
    by (simp add: encode_class_label_def class_labels_def reads_labels_def)
next
  case (Some r)
  obtain k strs' where k: "StringTable_intern (digits 10 (unat (smp_class r))) strs = (k, strs')" by (metis surj_pair)
  note s = StringTable_intern_ok [OF assms k]
  let ?d = "encode_label (of_nat sc) (of_nat k)"
  have "reads_labels T [(3, Data ?d)] (class_labels side_iter i)" if T: "extends sc strs' T" for T
  proof -
    have "read_ref T k = Some (digits 10 (unat (smp_class r)))"
      using read_ref_prefix [OF s(3)] T by (simp add: extends_def)
    then have "read_pair T ?d = Some (''size_class'', digits 10 (unat (smp_class r)))"
      using read_pair_message(2) [of T sc "''size_class''" k] T by (simp add: extends_def)
    then show ?thesis using Some by (simp add: reads_labels_def class_labels_def)
  qed
  then show thesis using that [of "[(3, Data ?d)]" strs'] s(1,2) Some k
    by (simp add: encode_class_label_def encode_msgs)
qed

definition sample_shape ::
  "(nat \<times> u64) list \<Rightarrow> StackCounters list \<Rightarrow> SampleRecord list \<Rightarrow> string list \<Rightarrow> nat list \<times> u32 \<Rightarrow> (nat \<times> field) list \<Rightarrow> bool" where
  "sample_shape lm cs side_iter T e D \<longleftrightarrow>
     (\<exists>ls. D = frame_fields lm (fst e) @ value_fields (cs ! unat (snd e)) @ ls \<and>
           reads_labels T ls (class_labels side_iter (snd e)))"

lemma encode_sample_msg:
  assumes "strs_ok strs" "unat (snd e) < length cs" "set (fst e) \<subseteq> dom (map_of lm)" "nonzero cs e"
  obtains D strs' where
    "encode_sample sc lm cs side_iter e (message fs, strs) = Some (message (fs @ [(2, Data (message D))]), strs')"
    "strs_ok strs'" "prefix (tbl strs) (tbl strs')" "\<And>T. extends sc strs' T \<Longrightarrow> sample_shape lm cs side_iter T e D"
proof -
  let ?F = "frame_fields lm (fst e) @ value_fields (cs ! unat (snd e))"
  obtain ls strs' where l: "encode_class_label sc side_iter (snd e) (message ?F, strs) = (message (?F @ ls), strs')"
    "strs_ok strs'" "prefix (tbl strs) (tbl strs')"
    "\<And>T. extends sc strs' T \<Longrightarrow> reads_labels T ls (class_labels side_iter (snd e))"
    using encode_class_label_msg [OF assms(1)] by blast
  have "encode_locs lm (fst e) [] = Some (message (frame_fields lm (fst e)))"
    using encode_locs_msg [OF assms(3), of "[]"] by (simp add: message_simps)
  then have "encode_sample sc lm cs side_iter e (message fs, strs) = Some (message (fs @ [(2, Data (message (?F @ ls)))]), strs')"
    using assms(2,4) l(1) by (auto simp: encode_sample_def split_def Let_def nonzero_def encode_values_msg encode_msgs)
  moreover have "sample_shape lm cs side_iter T e (?F @ ls)" if "extends sc strs' T" for T
    using l(4) [OF that] unfolding sample_shape_def by auto
  ultimately show thesis using that l(2,3) by blast
qed

lemma encode_samples_msg:
  assumes "strs_ok strs" "\<forall>e \<in> set es. unat (snd e) < length cs \<and> set (fst e) \<subseteq> dom (map_of lm)"
  shows "\<exists>Ds strs'. encode_samples sc lm cs side_iter es (message fs, strs) =
      Some (message (fs @ map (\<lambda>D. (2, Data (message D))) Ds), strs') \<and> strs_ok strs' \<and> prefix (tbl strs) (tbl strs') \<and>
    (\<forall>T. extends sc strs' T \<longrightarrow> list_all2 (sample_shape lm cs side_iter T) (filter (nonzero cs) es) Ds)"
  using assms
proof (induction es arbitrary: fs strs)
  case Nil
  then show ?case by (intro exI [of _ "[]"] exI [of _ strs]) simp
next
  case (Cons e es)
  have e: "unat (snd e) < length cs" "set (fst e) \<subseteq> dom (map_of lm)" using Cons.prems(2) by simp_all
  show ?case
  proof (cases "nonzero cs e")
    case True
    obtain D strs1 where D:
      "encode_sample sc lm cs side_iter e (message fs, strs) = Some (message (fs @ [(2, Data (message D))]), strs1)"
      "strs_ok strs1" "prefix (tbl strs) (tbl strs1)" "\<And>T. extends sc strs1 T \<Longrightarrow> sample_shape lm cs side_iter T e D"
      using encode_sample_msg [OF Cons.prems(1) e True] by blast
    obtain Ds strs2 where Ds: "encode_samples sc lm cs side_iter es (message (fs @ [(2, Data (message D))]), strs1) =
        Some (message ((fs @ [(2, Data (message D))]) @ map (\<lambda>D. (2, Data (message D))) Ds), strs2)"
      "strs_ok strs2" "prefix (tbl strs1) (tbl strs2)"
      "\<And>T. extends sc strs2 T \<Longrightarrow> list_all2 (sample_shape lm cs side_iter T) (filter (nonzero cs) es) Ds"
      using Cons.IH [OF D(2)] Cons.prems(2) by (metis list.set_intros(2))
    have "list_all2 (sample_shape lm cs side_iter T) (filter (nonzero cs) (e # es)) (D # Ds)"
      if "extends sc strs2 T" for T
      using True D(4) [OF extends_prefix [OF that Ds(3)]] Ds(4) [OF that] by simp
    then show ?thesis using D(1) Ds(1,2) prefix_order.trans [OF D(3) Ds(3)]
      by (intro exI [of _ "D # Ds"] exI [of _ strs2]) simp
  next
    case False
    then have "encode_sample sc lm cs side_iter e (message fs, strs) = Some (message fs, strs)"
      using e by (auto simp: encode_sample_def split_def Let_def nonzero_def)
    then show ?thesis using Cons.IH [OF Cons.prems(1)] Cons.prems(2) False by simp
  qed
qed

lemma read_sample_shape:
  assumes lt: "loc_ok resolve lt" "length (loc_map lt) < 2 ^ 64" "length (func_map lt) < 2 ^ 64" "prefix (tbl (strings lt)) T"
    and e: "set (fst e) \<subseteq> dom (map_of (loc_map lt))"
    and D: "sample_shape (loc_map lt) (counters (stacks st)) side_iter T e D" "length (message D) < 2 ^ 64"
  shows "read_sample T (map (\<lambda>e. (unat (fst e), snd e)) (locations lt)) (map (\<lambda>e. (unat (fst e), T ! snd e)) (funcs lt)) (message D) =
    Some (stack_view resolve st side_iter e)"
proof -
  let ?rf = "read_frame (map (\<lambda>e. (unat (fst e), snd e)) (locations lt)) (map (\<lambda>e. (unat (fst e), T ! snd e)) (funcs lt))"
  have "?rf (unat (the (map_of (loc_map lt) ip))) = Some (symbol_name resolve ip)" if ip: "ip \<in> set (fst e)" for ip
  proof -
    obtain l where "map_of (loc_map lt) ip = Some l" using e ip by blast
    then show ?thesis using frame_reads [OF lt(1-3) _ lt(4), of ip] by simp
  qed
  then have fr: "those (map (\<lambda>ip. ?rf (unat (the (map_of (loc_map lt) ip)))) (fst e)) = Some (map (symbol_name resolve) (fst e))"
    by (rule those_map)
  obtain ls where ls: "D = frame_fields (loc_map lt) (fst e) @ value_fields (counters (stacks st) ! unat (snd e)) @ ls"
    "reads_labels T ls (class_labels side_iter (snd e))" using D(1) by (auto simp: sample_shape_def)
  have "nums 1 D = map (\<lambda>ip. unat (the (map_of (loc_map lt) ip))) (fst e)"
    "nums 2 D = (let c = counters (stacks st) ! unat (snd e) in [unat (alloc_count c), unat (alloc_bytes c), unat (live_count c), unat (live_bytes c)])"
    "datas 3 D = datas 3 ls"
    using ls(2) unfolding ls(1) reads_labels_def by (simp_all add: frame_fields_def value_fields_def Let_def)
  then have "read_sample T (map (\<lambda>e. (unat (fst e), snd e)) (locations lt)) (map (\<lambda>e. (unat (fst e), T ! snd e)) (funcs lt)) (message D) =
      Some (map (symbol_name resolve) (fst e),
        (let c = counters (stacks st) ! unat (snd e) in [unat (alloc_count c), unat (alloc_bytes c), unat (live_count c), unat (live_bytes c)]),
        class_labels side_iter (snd e))"
    using parse_message_fits [OF D(2)] fr ls(2) by (simp add: read_sample_def comp_def reads_labels_def)
  then show ?thesis by (simp add: stack_view_def split_def class_labels_def)
qed

subsection \<open>The whole profile\<close>

definition fixed_strings :: "string list" where
  "fixed_strings = [[], ''alloc_objects'', ''alloc_space'', ''inuse_objects'', ''inuse_space'', ''count'', ''bytes'', ''size_class'', ''space'']"

definition fixed_part :: "nat \<Rightarrow> StringTable" where
  "fixed_part k = \<lparr>tbl = take k fixed_strings, smap = rev (zip (take k fixed_strings) [0..<k])\<rparr>"

definition first_tables :: LocTables where
  "first_tables = \<lparr>strings = fixed_part 9, locations = [], loc_map = [], funcs = [], func_map = []\<rparr>"

definition value_type :: "nat \<Rightarrow> nat \<Rightarrow> u8 list" where
  "value_type i j = encode_value_type (of_nat i) (of_nat j)"

definition type_fields :: "(nat \<times> field) list" where
  "type_fields = map (\<lambda>(i, j). (1, Data (value_type i j))) [(1, 5), (2, 6), (3, 5), (4, 6)]"

definition profile_fields :: "(nat \<times> field) list list \<Rightarrow> LocTables \<Rightarrow> string list \<Rightarrow> u64 \<Rightarrow> u64 \<Rightarrow> (nat \<times> field) list" where
  "profile_fields Ds lt T nanos n = type_fields @ map (\<lambda>D. (2, Data (message D))) Ds @
     map (\<lambda>e. (4, Data (message (location_fields e)))) (locations lt) @
     map (\<lambda>e. (5, Data (message (function_fields e)))) (funcs lt) @ map (\<lambda>s. (6, Data (as_bytes s))) T @
     [(9, Num (unat nanos)), (11, Data (value_type 8 6)), (12, Num (unat n))]"

lemma fixed_interns:
  "StringTable_intern [] StringTable_new = (0, fixed_part (Suc 0))"
  "StringTable_intern ''alloc_objects'' (fixed_part (Suc 0)) = (Suc 0, fixed_part 2)"
  "StringTable_intern ''alloc_space'' (fixed_part 2) = (2, fixed_part 3)"
  "StringTable_intern ''inuse_objects'' (fixed_part 3) = (3, fixed_part 4)"
  "StringTable_intern ''inuse_space'' (fixed_part 4) = (4, fixed_part 5)"
  "StringTable_intern ''count'' (fixed_part 5) = (5, fixed_part 6)"
  "StringTable_intern ''bytes'' (fixed_part 6) = (6, fixed_part 7)"
  "StringTable_intern ''size_class'' (fixed_part 7) = (7, fixed_part 8)"
  "StringTable_intern ''space'' (fixed_part 8) = (8, fixed_part 9)"
  by (simp_all add: StringTable_intern_def StringTable_new_def fixed_part_def fixed_strings_def map_insert_def upt_rec)

lemma build_profile_unfold:
  "build_profile resolve nanos n stack_iter side_iter st =
    (let lt = add_stacks resolve stack_iter first_tables in
     do {
       (p2, strs) \<leftarrow> encode_samples 7 (loc_map lt) (counters (stacks st)) side_iter stack_iter (message type_fields, strings lt);
       let p3 = fold encode_location (locations lt) p2;
       let p4 = fold encode_function (funcs lt) p3;
       let p5 = fold (\<lambda>s p. encode_bytes_field p 6 (as_bytes s)) (tbl strs) p4;
       Some (encode_varint_field (encode_field (encode_varint_field p5 9 nanos) 11 (value_type 8 6)) 12 n)
     })"
  by (simp add: build_profile_def fixed_interns first_tables_def value_type_def type_fields_def encode_msgs)

lemma fixed_part_ok: "strs_ok (fixed_part 9)" "tbl (fixed_part 9) = fixed_strings"
proof -
  show tbl: "tbl (fixed_part 9) = fixed_strings" by (simp add: fixed_part_def fixed_strings_def)
  show "strs_ok (fixed_part 9)"
    unfolding strs_ok_def
  proof (intro allI impI)
    fix s i assume "map_of (smap (fixed_part 9)) s = Some i"
    from map_of_SomeD [OF this] have "(s, i) \<in> set (zip (take 9 fixed_strings) [0..<9])" by (simp add: fixed_part_def)
    then show "read_ref (tbl (fixed_part 9)) i = Some s"
      unfolding tbl by (auto simp: in_set_zip read_ref_def fixed_strings_def)
  qed
qed

lemma first_tables_ok: "loc_ok resolve first_tables"
  using fixed_part_ok(1) by (simp add: loc_ok_def first_tables_def)

lemma encode_string_msg:
  "encode_bytes_field (message fs) 6 (as_bytes s) = message (fs @ [(6, Data (as_bytes s))])"
  by (simp add: encode_msgs)

lemma build_profile_message:
  assumes ids: "\<forall>e \<in> set stack_iter. unat (snd e) < length (counters (stacks st))"
    and lt: "lt = add_stacks resolve stack_iter first_tables"
  obtains Ds strs where
    "build_profile resolve nanos n stack_iter side_iter st = Some (message (profile_fields Ds lt (tbl strs) nanos n))"
    "prefix (tbl (strings lt)) (tbl strs)"
    "\<And>T. extends 7 strs T \<Longrightarrow>
      list_all2 (sample_shape (loc_map lt) (counters (stacks st)) side_iter T) (filter (nonzero (counters (stacks st))) stack_iter) Ds"
proof -
  have ok: "loc_ok resolve lt" "dom (map_of (loc_map lt)) = (\<Union>e \<in> set stack_iter. set (fst e))"
    using add_stacks_ok [OF first_tables_ok, of resolve stack_iter] lt by (simp_all add: first_tables_def)
  have "\<forall>e \<in> set stack_iter. unat (snd e) < length (counters (stacks st)) \<and> set (fst e) \<subseteq> dom (map_of (loc_map lt))"
    using ids ok(2) by blast
  from encode_samples_msg [OF loc_okD(1) [OF ok(1)] this, of 7 side_iter type_fields] obtain Ds strs where
    e: "encode_samples 7 (loc_map lt) (counters (stacks st)) side_iter stack_iter (message type_fields, strings lt) =
        Some (message (type_fields @ map (\<lambda>D. (2, Data (message D))) Ds), strs)"
    "prefix (tbl (strings lt)) (tbl strs)"
    "\<And>T. extends 7 strs T \<Longrightarrow>
      list_all2 (sample_shape (loc_map lt) (counters (stacks st)) side_iter T) (filter (nonzero (counters (stacks st))) stack_iter) Ds"
    by blast
  have "build_profile resolve nanos n stack_iter side_iter st = Some (message (profile_fields Ds lt (tbl strs) nanos n))"
    using e(1) lt
    by (simp add: build_profile_unfold Let_def profile_fields_def fold_message [OF encode_location_msg]
        fold_message [OF encode_function_msg] fold_message [OF encode_string_msg] encode_varint_field_msg encode_field_msg)
  then show thesis using that e(2,3) by blast
qed

lemma length_message: "length fs \<le> length (message fs)"
proof (induction fs)
  case (Cons f fs)
  have "0 < length (field_bytes f)" by (cases f rule: field_bytes.cases) auto
  moreover have "length (message (f # fs)) = length (field_bytes f) + length (message fs)" "length (f # fs) = length fs + 1"
    by (simp_all add: message_simps)
  ultimately show ?case using Cons by linarith
qed simp

lemma those_list_all2: "list_all2 (\<lambda>e D. f D = Some (g e)) es Ds \<Longrightarrow> those (map f Ds) = Some (map g es)"
  by (induction rule: list_all2_induct) auto

lemma profile_fields_sel:
  "datas (Suc 0) (profile_fields Ds lt T nanos n) = [value_type 1 5, value_type 2 6, value_type 3 5, value_type 4 6]"
  "datas 2 (profile_fields Ds lt T nanos n) = map message Ds"
  "datas 4 (profile_fields Ds lt T nanos n) = map (\<lambda>e. message (location_fields e)) (locations lt)"
  "datas 5 (profile_fields Ds lt T nanos n) = map (\<lambda>e. message (function_fields e)) (funcs lt)"
  "datas 6 (profile_fields Ds lt T nanos n) = map as_bytes T"
  "datas 11 (profile_fields Ds lt T nanos n) = [value_type 8 6]"
  "nums 9 (profile_fields Ds lt T nanos n) = [unat nanos]" "nums 12 (profile_fields Ds lt T nanos n) = [unat n]"
  by (simp_all add: profile_fields_def type_fields_def)

lemma read_fixed:
  assumes "prefix fixed_strings T"
  shows "read_ref T 0 = Some []" "read_ref T 1 = Some ''alloc_objects''" "read_ref T 2 = Some ''alloc_space''"
    "read_ref T 3 = Some ''inuse_objects''" "read_ref T 4 = Some ''inuse_space''" "read_ref T 5 = Some ''count''"
    "read_ref T 6 = Some ''bytes''" "read_ref T 7 = Some ''size_class''" "read_ref T 8 = Some ''space''"
  by (rule read_ref_prefix [OF _ assms], simp add: read_ref_def fixed_strings_def)+

lemma read_profile_fields:
  assumes lt: "loc_ok resolve lt" "prefix (tbl (strings lt)) T" "prefix fixed_strings T"
    and es: "\<forall>e \<in> set es. set (fst e) \<subseteq> dom (map_of (loc_map lt))"
    and Ds: "extends 7 strs T \<Longrightarrow> list_all2 (sample_shape (loc_map lt) (counters (stacks st)) side_iter T) es Ds"
    and strs: "tbl strs = T" and len: "length (message (profile_fields Ds lt T nanos n)) < 2 ^ 64"
  shows "read_profile (message (profile_fields Ds lt T nanos n)) =
    Some \<lparr>sample_types = [(''alloc_objects'', ''count''), (''alloc_space'', ''bytes''), (''inuse_objects'', ''count''), (''inuse_space'', ''bytes'')],
      samples = map (stack_view resolve st side_iter) es, time_nanos = unat nanos, period_type = (''space'', ''bytes''), period = unat n\<rparr>"
proof -
  let ?F = "profile_fields Ds lt T nanos n"
  note d = loc_okD [OF lt(1)] and rf = read_fixed [OF lt(3)]
  have "length ?F < 2 ^ 64" using length_message [of ?F] len by linarith
  then have n: "length (locations lt) < 2 ^ 64" "length (funcs lt) < 2 ^ 64" "length T < 2 ^ 64"
    by (simp_all add: profile_fields_def)
  have m: "length (loc_map lt) < 2 ^ 64" "length (func_map lt) < 2 ^ 64"
    using arg_cong [OF d(2), of length] arg_cong [OF d(3), of length] n by simp_all
  have small: "length x < 2 ^ 64" if "(k, Data x) \<in> set ?F" for k x
    using field_in_message [OF that] len by linarith
  have locs: "those (map read_location (map (\<lambda>e. message (location_fields e)) (locations lt))) =
      Some (map (\<lambda>e. (unat (fst e), snd e)) (locations lt))"
    unfolding map_map comp_def
    by (rule those_map, rule read_location_message) (use d(4) small [of 4] in \<open>auto simp: profile_fields_def\<close>)
  have fn: "read_function T (message (function_fields e)) = Some (unat (fst e), T ! snd e)" if e: "e \<in> set (funcs lt)" for e
  proof -
    obtain s where "read_ref (tbl (strings lt)) (snd e) = Some s" using d(5) [OF e] by blast
    from read_ref_prefix [OF this lt(2)] have "read_ref T (snd e) = Some (T ! snd e)" by (simp add: read_ref_def split: if_splits)
    from read_function_message [OF this n(3)] show ?thesis .
  qed
  have fns: "those (map (read_function T) (map (\<lambda>e. message (function_fields e)) (funcs lt))) =
      Some (map (\<lambda>e. (unat (fst e), T ! snd e)) (funcs lt))"
    unfolding map_map comp_def by (rule those_map [OF fn])
  have "extends 7 strs T" using rf n(3) strs by (simp add: extends_def)
  then have shape: "list_all2 (sample_shape (loc_map lt) (counters (stacks st)) side_iter T) es Ds" by (rule Ds)
  have "list_all2 (\<lambda>e D. read_sample T (map (\<lambda>e. (unat (fst e), snd e)) (locations lt)) (map (\<lambda>e. (unat (fst e), T ! snd e)) (funcs lt)) (message D) =
      Some (stack_view resolve st side_iter e)) es Ds"
    using shape
  proof (rule list.rel_mono_strong)
    fix e D assume e: "e \<in> set es" "D \<in> set Ds" "sample_shape (loc_map lt) (counters (stacks st)) side_iter T e D"
    have "length (message D) < 2 ^ 64" using e(2) by (intro small [of 2]) (auto simp: profile_fields_def)
    then show "read_sample T (map (\<lambda>e. (unat (fst e), snd e)) (locations lt)) (map (\<lambda>e. (unat (fst e), T ! snd e)) (funcs lt)) (message D) =
      Some (stack_view resolve st side_iter e)"
      using read_sample_shape [OF lt(1) m lt(2) _ e(3)] es e(1) by blast
  qed
  note smps = those_list_all2 [OF this]
  have vt: "read_pair T (value_type i j) = Some (x, y)" if "read_ref T i = Some x" "read_ref T j = Some y" for i j x y
    unfolding value_type_def by (rule read_pair_message(1) [OF that n(3)])
  have tys: "those (map (read_pair T) (datas (Suc 0) ?F)) =
      Some [(''alloc_objects'', ''count''), (''alloc_space'', ''bytes''), (''inuse_objects'', ''count''), (''inuse_space'', ''bytes'')]"
    by (simp add: profile_fields_sel vt [OF rf(2,6), simplified] vt [OF rf(3,7)] vt [OF rf(4,6)] vt [OF rf(5,7)])
  have "map from_bytes (datas 6 ?F) = T" by (simp add: profile_fields_sel comp_def)
  then show ?thesis
    using parse_message_fits [OF len] locs fns smps tys rf(1) vt [OF rf(9,7)]
    by (simp add: read_profile_def profile_fields_sel(2-) comp_def)
qed

lemma build_profile_reads:
  assumes "stacks_ok (stacks st)" "set stack_iter = set (st_map (stacks st))"
  shows "\<exists>bytes. build_profile resolve nanos n stack_iter side_iter st = Some bytes \<and>
    (length bytes < 2 ^ 64 \<longrightarrow> read_profile bytes = Some (profile_of resolve nanos n stack_iter side_iter st))"
proof -
  let ?lt = "add_stacks resolve stack_iter first_tables"
  have "unat (snd e) < length (counters (stacks st))" if "e \<in> set stack_iter" for e
    using that assms stacks_okD [OF assms(1), of "fst e" "snd e"] by (simp add: stacks_ok_def map_of_is_SomeI)
  then have ids: "\<forall>e \<in> set stack_iter. unat (snd e) < length (counters (stacks st))" by blast
  obtain Ds strs where D:
    "build_profile resolve nanos n stack_iter side_iter st = Some (message (profile_fields Ds ?lt (tbl strs) nanos n))"
    "prefix (tbl (strings ?lt)) (tbl strs)"
    "\<And>T. extends 7 strs T \<Longrightarrow>
      list_all2 (sample_shape (loc_map ?lt) (counters (stacks st)) side_iter T) (filter (nonzero (counters (stacks st))) stack_iter) Ds"
    by (rule build_profile_message [OF ids refl]) blast
  note lt = add_stacks_ok [OF first_tables_ok, of resolve stack_iter]
  have "prefix fixed_strings (tbl (strings ?lt))"
    using lt [THEN conjunct2, THEN conjunct2] by (simp add: first_tables_def fixed_part_ok(2))
  then have fixed: "prefix fixed_strings (tbl strs)" using D(2) by (rule prefix_order.trans)
  have "\<forall>e \<in> set (filter (nonzero (counters (stacks st))) stack_iter). set (fst e) \<subseteq> dom (map_of (loc_map ?lt))"
    using lt by auto
  from read_profile_fields [OF lt [THEN conjunct1] D(2) fixed this D(3) refl, of nanos n]
  show ?thesis using D(1) by (simp add: profile_of_def)
qed

lemma dump_reads:
  assumes "stacks_ok (stacks (the_state (table w)))" "set stack_iter = set (st_map (stacks (the_state (table w))))"
  shows "\<exists>bytes w'. dump resolve nanos stack_iter side_iter sink w = Some (sink bytes, w') \<and>
    in_pprof w' = in_pprof w \<and> statics w' = statics w \<and> the_state (table w') = the_state (table w) \<and>
    (length bytes < 2 ^ 64 \<longrightarrow> read_profile bytes =
       Some (profile_of resolve nanos (sample_interval (statics w)) stack_iter side_iter (the_state (table w))))"
proof -
  obtain bytes where
    b: "build_profile resolve nanos (sample_interval (statics w)) stack_iter side_iter (the_state (table w)) = Some bytes"
      "length bytes < 2 ^ 64 \<longrightarrow> read_profile bytes =
        Some (profile_of resolve nanos (sample_interval (statics w)) stack_iter side_iter (the_state (table w)))"
    using build_profile_reads [OF assms] by blast
  let ?w = "w\<lparr>table := Some (the_state (table w))\<rparr>"
  have "dump resolve nanos stack_iter side_iter sink w = Some (sink bytes, ?w)"
    using b(1) by (cases w) (simp add: dump_def acquire_def release_def)
  then show ?thesis using b(2) by (intro exI [of _ bytes] exI [of _ ?w]) (simp add: the_state_def)
qed

text \<open>
  C39. For every state of the profiler and every iteration order of its hash maps, a dump succeeds
  in building the profile, leaves tables, configuration and reentrancy guard as they were, and a
  reader of the protobuf format gets back what the code puts in: the four sample types with their
  units, for every stack with counts its frames by symbol name and its four counters, the period and
  the time. Every reference to a string, location or function resolves (for profiles of less than
  \<open>2 ^ 64\<close> bytes). The label \<open>size_class\<close> is the class of the first live record of the stack in the
  order in which the side table is iterated, and a stack without a live record has no label;
  \<open>specs/pprof.md\<close> requires a label on every sample.
\<close>

theorem dump_round_trip:
  assumes "stacks_ok (stacks (the_state (table w)))" "set stack_iter = set (st_map (stacks (the_state (table w))))"
  shows "\<exists>bytes w'. dump resolve nanos stack_iter side_iter sink w = Some (sink bytes, w') \<and>
    in_pprof w' = in_pprof w \<and> statics w' = statics w \<and> the_state (table w') = the_state (table w) \<and>
    (length bytes < 2 ^ 64 \<longrightarrow> read_profile bytes =
       Some (profile_of resolve nanos (sample_interval (statics w)) stack_iter side_iter (the_state (table w))))"
  using assms by (rule dump_reads)

text \<open>Two stacks: of the first, allocations of the classes 11 and 6 are live; of the second, none.\<close>

definition two_stacks :: pprof_world where
  "two_stacks = \<lparr>in_pprof = False, statics = \<lparr>prof_active = True, sample_interval = 100\<rparr>,
     table = Some \<lparr>stacks = \<lparr>st_map = [([9], 1), ([7, 300], 0)],
       counters = [\<lparr>alloc_count = 200, alloc_bytes = 6400, live_count = 100, live_bytes = 4800\<rparr>,
                   \<lparr>alloc_count = 50, alloc_bytes = 800, live_count = 0, live_bytes = 0\<rparr>]\<rparr>,
       side = [(4096, \<lparr>stack_id = 0, smp_size = 56, smp_class = 11\<rparr>), (8192, \<lparr>stack_id = 0, smp_size = 24, smp_class = 6\<rparr>)]\<rparr>\<rparr>"

theorem dump_round_trip_witness:
  "\<exists>bytes w'. dump (\<lambda>ip. if ip = 7 then Some ''main'' else None) 5 [([7, 300], 0), ([9], 1)]
      (map snd (side (the_state (table two_stacks)))) (\<lambda>b. b) two_stacks = Some (bytes, w') \<and>
    map_option samples (read_profile bytes) = Some
      [([''main'', ''0x12c''], [200, 6400, 100, 4800], [(''size_class'', ''11'')]), ([''0x9''], [50, 800, 0, 0], [])]"
proof -
  let ?r = "\<lambda>ip. if ip = 7 then Some ''main'' else None" and ?s = "map snd (side (the_state (table two_stacks)))"
  have len: "case dump ?r 5 [([7, 300], 0), ([9], 1)] ?s (\<lambda>b. b) two_stacks of None \<Rightarrow> False | Some (bytes, w) \<Rightarrow> length bytes < 1000"
    by code_simp
  have view: "samples (profile_of ?r 5 (sample_interval (statics two_stacks)) [([7, 300], 0), ([9], 1)] ?s (the_state (table two_stacks))) =
      [([''main'', ''0x12c''], [200, 6400, 100, 4800], [(''size_class'', ''11'')]), ([''0x9''], [50, 800, 0, 0], [])]"
    by code_simp
  have "stacks_ok (stacks (the_state (table two_stacks)))"
    "set [([7, 300], 0), ([9], 1)] = set (st_map (stacks (the_state (table two_stacks))))"
    by (auto simp: two_stacks_def stacks_ok_def the_state_def)
  from dump_round_trip [OF this, of ?r 5 ?s "\<lambda>b. b"] show ?thesis using len view by (auto split: option.splits)
qed

text \<open>Numbers are read back from their decimal digits: different classes have different labels.\<close>

lemma digit_inj: "m < 10 \<Longrightarrow> n < 10 \<Longrightarrow> ''0123456789abcdef'' ! m = ''0123456789abcdef'' ! n \<Longrightarrow> m = n"
  by (rule nth_eq_iff_index_eq [THEN iffD1, of "''0123456789abcdef''"]) auto

lemma digits_inj: "digits 10 m = digits 10 n \<Longrightarrow> m = n"
proof (induction m arbitrary: n rule: less_induct)
  case (less m)
  have ne: "digits 10 k \<noteq> []" for k by (subst digits.simps) simp
  have small: "digits 10 k = [''0123456789abcdef'' ! k]" if "k < 10" for k using that by (subst digits.simps) simp
  have big: "digits 10 k = digits 10 (k div 10) @ [''0123456789abcdef'' ! (k mod 10)]" if "\<not> k < 10" for k
    using that by (subst digits.simps) simp
  show ?case
  proof (cases "m < 10 \<or> n < 10")
    case True
    then have "m < 10" "n < 10" using less.prems ne small big by (metis append_is_Nil_conv butlast_snoc butlast.simps(2))+
    then show ?thesis using less.prems small digit_inj by simp
  next
    case False
    then have "digits 10 (m div 10) = digits 10 (n div 10)" "m mod 10 = n mod 10"
      using less.prems big digit_inj [of "m mod 10" "n mod 10"] by simp_all
    then show ?thesis using less.IH [of "m div 10" "n div 10"] False by (metis div_less_dividend div_mult_mod_eq not_less one_less_numeral_iff semiring_norm(76) zero_less_numeral less_le_trans)
  qed
qed

text \<open>What the reader finds in a dump: a sample with its frames, values and labels.\<close>

definition dump_reports ::
  "(nat \<Rightarrow> string option) \<Rightarrow> u64 \<Rightarrow> (nat list \<times> u32) list \<Rightarrow> SampleRecord list \<Rightarrow> pprof_world \<Rightarrow> sample_view \<Rightarrow> bool" where
  "dump_reports resolve nanos stack_iter side_iter w smp \<longleftrightarrow>
     (\<exists>bytes w'. dump resolve nanos stack_iter side_iter (\<lambda>b. b) w = Some (bytes, w') \<and>
        (length bytes < 2 ^ 64 \<longrightarrow> (\<exists>v. read_profile bytes = Some v \<and> smp \<in> set (samples v))))"

lemma dump_sample:
  assumes "stacks_ok (stacks (the_state (table w)))" "set stack_iter = set (st_map (stacks (the_state (table w))))"
    and e: "e \<in> set stack_iter" "nonzero (counters (stacks (the_state (table w)))) e"
  shows "dump_reports resolve nanos stack_iter side_iter w (stack_view resolve (the_state (table w)) side_iter e)"
  unfolding dump_reports_def
  using dump_reads [OF assms(1,2), of resolve nanos side_iter "\<lambda>b. b"] e by (fastforce simp: profile_of_def)

text \<open>
  C40. The label \<open>size_class\<close> does not classify a sample. For any stack with counts, in any state of
  the tables: when no live record of the stack is left, the dump reports its four counters without
  any label; and when two of its live records have different classes, then two dumps of the same
  state, which differ only in the order in which the side table is iterated, report the same
  counters under two different classes.
\<close>

theorem class_label_by_iteration_order:
  assumes "stacks_ok (stacks (the_state (table w)))" "set stack_iter = set (st_map (stacks (the_state (table w))))"
    and "(frames, i) \<in> set stack_iter" "nonzero (counters (stacks (the_state (table w)))) (frames, i)"
    and c: "c = counters (stacks (the_state (table w))) ! unat i"
    and stack: "stack = map (symbol_name resolve) frames"
    and vals: "vals = [unat (alloc_count c), unat (alloc_bytes c), unat (live_count c), unat (live_bytes c)]"
  shows "((\<forall>r \<in> set side_iter. stack_id r \<noteq> i) \<longrightarrow> dump_reports resolve nanos stack_iter side_iter w (stack, vals, [])) \<and>
    (\<forall>r1 r2. r1 \<in> set side_iter \<and> r2 \<in> set side_iter \<and> stack_id r1 = i \<and> stack_id r2 = i \<and> smp_class r1 \<noteq> smp_class r2 \<longrightarrow>
      (\<exists>it1 it2 k1 k2. mset it1 = mset side_iter \<and> mset it2 = mset side_iter \<and> k1 \<noteq> k2 \<and>
        dump_reports resolve nanos stack_iter it1 w (stack, vals, [(''size_class'', k1)]) \<and>
        dump_reports resolve nanos stack_iter it2 w (stack, vals, [(''size_class'', k2)])))"
proof (intro conjI impI allI)
  have d: "dump_reports resolve nanos stack_iter it w (stack, vals, class_labels it i)" for it
    using dump_sample [OF assms(1-4), of resolve nanos it]
    by (simp add: stack_view_def class_labels_def stack vals c Let_def)
  show "dump_reports resolve nanos stack_iter side_iter w (stack, vals, [])" if "\<forall>r \<in> set side_iter. stack_id r \<noteq> i"
  proof -
    have "class_labels side_iter i = []" using that by (auto simp: class_labels_def find_None_iff split: option.splits)
    then show ?thesis using d [of side_iter] by simp
  qed
  fix r1 r2
  assume r: "r1 \<in> set side_iter \<and> r2 \<in> set side_iter \<and> stack_id r1 = i \<and> stack_id r2 = i \<and> smp_class r1 \<noteq> smp_class r2"
  let ?it = "\<lambda>r. r # remove1 r side_iter" and ?k = "\<lambda>r. digits 10 (unat (smp_class r))"
  have "class_labels (?it r) i = [(''size_class'', ?k r)]" if "stack_id r = i" for r
    using that by (simp add: class_labels_def)
  then have "dump_reports resolve nanos stack_iter (?it r1) w (stack, vals, [(''size_class'', ?k r1)])"
    "dump_reports resolve nanos stack_iter (?it r2) w (stack, vals, [(''size_class'', ?k r2)])"
    using d [of "?it r1"] d [of "?it r2"] r by metis+
  moreover have "mset (?it r1) = mset side_iter" "mset (?it r2) = mset side_iter" using r by simp_all
  moreover have "?k r1 \<noteq> ?k r2" using r digits_inj word_unat_eq_iff by metis
  ultimately show "\<exists>it1 it2 k1 k2. mset it1 = mset side_iter \<and> mset it2 = mset side_iter \<and> k1 \<noteq> k2 \<and>
      dump_reports resolve nanos stack_iter it1 w (stack, vals, [(''size_class'', k1)]) \<and>
      dump_reports resolve nanos stack_iter it2 w (stack, vals, [(''size_class'', k2)])" by blast
qed

theorem class_label_by_iteration_order_witness:
  "dump_reports (\<lambda>ip. None) 5 [([7, 300], 0), ([9], 1)] (map snd (side (the_state (table two_stacks)))) two_stacks
     ([''0x9''], [50, 800, 0, 0], []) \<and>
   (\<exists>it1 it2 k1 k2. mset it1 = mset (map snd (side (the_state (table two_stacks)))) \<and>
      mset it2 = mset (map snd (side (the_state (table two_stacks)))) \<and> k1 \<noteq> k2 \<and>
      dump_reports (\<lambda>ip. None) 5 [([7, 300], 0), ([9], 1)] it1 two_stacks
        ([''0x7'', ''0x12c''], [200, 6400, 100, 4800], [(''size_class'', k1)]) \<and>
      dump_reports (\<lambda>ip. None) 5 [([7, 300], 0), ([9], 1)] it2 two_stacks
        ([''0x7'', ''0x12c''], [200, 6400, 100, 4800], [(''size_class'', k2)]))"
proof -
  let ?r = "\<lambda>ip :: nat. None :: string option" and ?it = "[([7, 300], 0), ([9], 1)] :: (nat list \<times> u32) list"
    and ?st = "the_state (table two_stacks)"
  have ok: "stacks_ok (stacks ?st)" "set ?it = set (st_map (stacks ?st))"
    by (auto simp: two_stacks_def stacks_ok_def the_state_def)
  have nz: "nonzero (counters (stacks ?st)) ([7, 300], 0)" "nonzero (counters (stacks ?st)) ([9], 1)"
    by (simp_all add: nonzero_def two_stacks_def the_state_def)
  have names: "[''0x9''] = map (symbol_name ?r) [9]" "[''0x7'', ''0x12c''] = map (symbol_name ?r) [7, 300]"
    by code_simp+
  have vals: "[50, 800, 0, 0] = (let c = counters (stacks ?st) ! unat (1 :: u32) in
      [unat (alloc_count c), unat (alloc_bytes c), unat (live_count c), unat (live_bytes c)])"
    "[200, 6400, 100, 4800] = (let c = counters (stacks ?st) ! unat (0 :: u32) in
      [unat (alloc_count c), unat (alloc_bytes c), unat (live_count c), unat (live_bytes c)])"
    by (simp_all add: two_stacks_def the_state_def)
  note label = class_label_by_iteration_order [OF ok, where resolve = ?r and nanos = 5 and side_iter = "map snd (side ?st)"]
  have recs: "\<lparr>stack_id = 0, smp_size = 56, smp_class = 11\<rparr> \<in> set (map snd (side ?st))"
    "\<lparr>stack_id = 0, smp_size = 24, smp_class = 6\<rparr> \<in> set (map snd (side ?st))"
    "\<forall>r \<in> set (map snd (side ?st)). stack_id r \<noteq> 1"
    by (simp_all add: two_stacks_def the_state_def)
  have 1: "dump_reports ?r 5 ?it (map snd (side ?st)) two_stacks ([''0x9''], [50, 800, 0, 0], [])"
    using label [OF _ nz(2) refl names(1) vals(1) [unfolded Let_def], THEN conjunct1] recs(3) by simp
  have "([7, 300], 0) \<in> set ?it" by simp
  from label [OF this nz(1) refl names(2) vals(2) [unfolded Let_def], THEN conjunct2, rule_format,
      of "\<lparr>stack_id = 0, smp_size = 56, smp_class = 11\<rparr>" "\<lparr>stack_id = 0, smp_size = 24, smp_class = 6\<rparr>"]
  show ?thesis using 1 recs(1,2) by simp
qed

end
