(* ===== verification/Spec2Isabelle.thy ===== *)
theory Spec2Isabelle
  imports Treiber Pool_Threads Pool_Drop Accounting Heap_Typing Profiled Sampling Profile
begin

text \<open>
  Verification of clmalloc, a thread-caching slab allocator for Rust.

  \<^bold>\<open>The program.\<close> A request is rounded up to one of 49 size classes (\<open>src/src/size_class.rs\<close>). Each thread
  owns a heap (\<open>src/src/heap.rs\<close>) with one active slab per class and queues of full and partial slabs.
  A slab (\<open>src/src/slab.rs\<close>) is a 64 KiB page with a header, a free list of its owner, a bump region
  and a lock-free list onto which other threads push the slots they free. Heaps take pages from, and
  return them to, a shared pool (\<open>src/src/pool.rs\<close>), which carves them out of 2 MiB segments, keeps
  dirty and clean free lists, purges and releases memory, holds slabs abandoned by dead heaps, caches
  free pages without a lock, and maps large requests directly. The pool gets memory from a page
  allocator (\<open>src/src/sys.rs\<close>). \<open>src/src/global.rs\<close> connects threads to heaps,
  \<open>src/src/metrics.rs\<close> counts, \<open>src/src/pprof.rs\<close> samples allocations and writes profiles.

  \<^bold>\<open>Theories.\<close>

  \<^item> \<open>Prelude\<close>: machine types, integer operations of the Rust library. \<open>Memory\<close>: byte memory with
    8-byte little-endian links, null-terminated chains. \<open>Simulation\<close>: traces of labelled steps and the
    locale \<open>forward_simulation\<close>, used for slabs, heaps and processes alike.
  \<^item> \<open>Size_Class\<close> (\<open>size_class.rs\<close>): bit-arithmetic index, the table built at compile time, lookup,
    class sizes. Smallest fit, agreement of table and arithmetic, alignment, waste, round trip.
  \<^item> \<open>Slab\<close> (\<open>slab.rs\<close>): slot lists in the bytes of the slots, headers with 16-bit fields, \<open>alloc\<close>, local
    and remote frees, draining. An invariant kept by every operation, geometry of slots, refinement
    of a specification with three sets of slots. \<open>Slab_List\<close>: the queues with back links.
  \<^item> \<open>Treiber\<close>: the lock-free lists one atomic access at a time. The remote list of a slab loses and
    duplicates nothing in any interleaving; the page cache is safe with one popping thread and hands
    a page to two threads with two. The length counter of the cache only decides when a push falls
    back to the pool, which a push may do here at any time.
  \<^item> \<open>Metrics\<close> (\<open>metrics.rs\<close>): counters, registry of heaps, snapshots. \<open>Sys\<close> (\<open>sys.rs\<close>): the contract
    of page allocators as the locale \<open>page_allocator\<close>, and the mmap backend, which is shown to meet it
    over the documented system calls.
  \<^item> \<open>Pool\<close> (\<open>pool.rs\<close>): each critical section is a definition, composed as the code composes them.
    \<open>Pool_Invariant\<close>: segments, free lists, cursor and outstanding counts agree. \<open>Pool_Correct\<close>:
    pages handed out are held by nobody else, returning a page touches no other, and a segment is
    released exactly when it is empty and carved. \<open>Pool_Threads\<close>: the operations of many threads,
    their critical sections and system calls interleaved in any order, with pages handed from thread
    to thread; pages have one owner, pages in a purge buffer keep their segment mapped, no step panics and operations end. \<open>Pool_Drop\<close>:
    dropping the pool returns every segment.
  \<^item> \<open>Heap\<close> (\<open>heap.rs\<close>): allocation, deallocation, queues, adoption, drop. \<open>Heap_Invariant\<close> gives
    every page one place (bin, queue, abandoned list, cache) in ghost state; \<open>Heap_Moves\<close> proves each
    move between places, \<open>Heap_Correct\<close> and \<open>Heap_Life\<close> the operations. \<open>Heap_System\<close>: any number of
    heaps over one pool refine an ideal allocator, a map from addresses to layouts with the
    program's bytes, and every operation returns. \<open>Heap_Typing\<close>: in every reachable state bins,
    queues and the headers that pointers are masked to have the class and owner the code assumes.
  \<^item> \<open>Global\<close> (\<open>global.rs\<close>): thread-local pointers, lazy creation of heaps in memory of the C library,
    dispatch of \<open>alloc\<close> and \<open>dealloc\<close>, the destructor at thread exit. The refinement carries over to
    threads that start and exit at any time. \<open>Heap_Counts\<close> and \<open>Accounting\<close>: what each operation
    counts, and what that makes of a snapshot: the registry lists the live heaps, thread exit returns,
    and the allocation counters are those of the calls made, through the locales \<open>counter\<close> and
    \<open>alloc_counter\<close> of counters that are summed over dead and live heaps.
  \<^item> \<open>Pprof\<close> (\<open>pprof.rs\<close>): configuration, sampler, stack and side tables, hooks; reported counts are
    sums of weights of samples, and two ways in which they go wrong (a changed interval, a free while
    profiling is off). \<open>Floating\<close>: rounded arithmetic
    of \<open>f64\<close> over the reals, with relative errors carried through sequences of operations. \<open>Sampling\<close>:
    \<open>geometric\<close> and \<open>unbiased_weight\<close> on these numbers; an allocation is sampled with the probability
    of the Poisson model, its weight is the reciprocal of that within one half and rounding errors,
    countdowns stay positive and bounded, and two ranges of intervals where this fails. \<open>Profiled\<close>:
    the heaps with the hooks in place, used by the program and by the profiler itself, with the
    configuration set at any time. Operations return whatever the configurations; while there is one
    interval and profiling is not switched off, the records are those of allocations the program
    still holds. \<open>Profile\<close>: string table, protobuf encoder and \<open>build_profile\<close>; a reader gets back what
    was written, and the size class label does not depend on the sample alone.

  \<^bold>\<open>Correspondence.\<close> Definitions have the names of the functions they model; a method of a type that
  would clash carries the type's name first. State is passed explicitly. Slab headers and queue heads
  live in the record \<open>store\<close> beside the byte memory; a pointer to a head or to a header's link is a
  \<open>link_loc\<close>. A panic, a write through null, an index out of range or a loop that does not end is
  \<open>None\<close>. The pointer loops and the self-call of \<open>Heap::alloc\<close> are partial functions into the option
  type, without fuel; that they return is part of the theorems on the operations (termination and
  liveness properties). Addresses are naturals, bounded by \<open>2 ^ 64\<close> in the invariants; counters
  and header fields are words and wrap around as in a release build, with the \<open>metrics\<close> feature on.

  \<^bold>\<open>Arguments of the model.\<close> The page allocator under the pool, the system calls under the mmap backend,
  the C library under \<open>global.rs\<close>, and for the profiler the backtrace library, the random generator,
  the functions \<open>ln\<close> and \<open>exp\<close> of the mathematical library, the compressor, the clock and the
  iteration order of hash maps. The contracts used (\<open>page_allocator\<close>, the system calls, \<open>libc_ok\<close>,
  \<open>ln_accurate\<close>, \<open>exp_accurate\<close>, \<open>uniform_draws\<close>) state documented behaviour and are met by
  concrete instances.

  \<^bold>\<open>Bounds.\<close> Ids of heaps are 64-bit and do not wrap; a stack table holds at most \<open>2 ^ 32\<close> stacks; sample
  intervals are at most \<open>2 ^ 53\<close> bytes where countdowns are bounded, and at most 999999 times the size
  where the weight is the reciprocal of the probability (above, the code takes another branch, which
  is wrong); runs with the profiler have fewer than \<open>2 ^ 32\<close> events; a
  profile is shorter than \<open>2 ^ 64\<close> bytes; at most \<open>MAX_HEAPS\<close> heaps exist at once, otherwise
  registration panics, which the theorems state, as they do for a pthread key that cannot be made.
  Of \<open>madvise\<close> only its effect on page-aligned regions is assumed; \<open>munmap\<close> refuses unaligned addresses.

  \<^bold>\<open>Granularity.\<close> Heap operations are atomic in \<open>Heap_System\<close> and \<open>Global\<close>. What may interleave inside
  them is the lock-free lists, which \<open>Treiber\<close> treats access by access, and the critical sections of
  the pool, which its lock makes atomic and \<open>Pool_Threads\<close> interleaves. A call of the global allocator
  is one step too, so that the defect of the page cache with two popping threads does not show there.
  The hooks of the profiler change its tables in one step, which the mutex \<open>PPROF\<close> provides; the
  profiler's own allocations are steps of their own.

  \<^bold>\<open>Not modelled.\<close> Memory orderings of atomics (accesses are sequentially consistent, except that the
  first relaxed load of a push may return any value); infinities and NaN, which do not arise;
  blocking on the mutex of the profiler; gzip and the writer of a dump; \<open>SystemAllocator\<close>, the backend
  of unit tests, which calls the standard allocator; \<open>sync.rs\<close> and \<open>lib.rs\<close>, which hold re-exports;
  tests, benchmarks and loom configurations. The operations of \<open>Heap\<close> and \<open>Global\<close> are those of a
  build without the \<open>pprof\<close> feature; \<open>Profiled\<close> adds its two hooks to the heaps.
\<close>

end
